(* ===== verification/Prelude.thy ===== *)
theory Prelude
  imports Complex_Main "HOL-Library.Word" "HOL-Library.Log_Nat"
begin

text \<open>
  What the components share: the part of the C language and library the sources rely on
  (comparison of character strings, case conversion in the C locale, single-precision
  numbers), the lemma collections of the development and the generic lemmas.

  A C string is a \<^typ>\<open>string\<close>: the bytes before the terminating NUL. A pointer that
  may be NULL is an \<open>option\<close>. The comparison functions return only a sign, as ISO C
  promises no more than the sign of their result.
\<close>

named_theorems cstring \<open>laws of the C string functions\<close>
named_theorems sfcb_splits \<open>case splits used across the components\<close>

section \<open>Lists\<close>

lemma find_append:
  "List.find P (xs @ ys) = (case List.find P xs of None \<Rightarrow> List.find P ys | Some x \<Rightarrow> Some x)"
  by (induction xs) auto

lemma find_SomeD: "List.find P xs = Some x \<Longrightarrow> x \<in> set xs \<and> P x"
  by (auto simp: find_Some_iff)

section \<open>Character strings\<close>

fun strcmp :: "string \<Rightarrow> string \<Rightarrow> int" where
  "strcmp [] [] = 0"
| "strcmp [] (y # ys) = -1"
| "strcmp (x # xs) [] = 1"
| "strcmp (x # xs) (y # ys) =
     (if (of_char x :: nat) < of_char y then -1
      else if (of_char y :: nat) < of_char x then 1
      else strcmp xs ys)"

lemma strcmp_eq_0 [simp, cstring]: "strcmp a b = 0 \<longleftrightarrow> a = b"
proof (induction a b rule: strcmp.induct)
  case (4 x xs y ys)
  then show ?case
    using linorder_neq_iff [of "of_char x :: nat" "of_char y"] by auto
qed auto

lemma strcmp_refl [simp]: "strcmp a a = 0"
  by simp

lemma strcmp_swap: "strcmp b a = - strcmp a b"
  by (induction a b rule: strcmp.induct) auto

lemma strcmp_less_Cons:
  "strcmp (x # xs) (y # ys) < 0 \<longleftrightarrow>
     (of_char x :: nat) < of_char y \<or> x = y \<and> strcmp xs ys < 0"
  by (auto simp: not_less_iff_gr_or_eq)

lemma strcmp_trans [cstring]: "strcmp a b < 0 \<Longrightarrow> strcmp b c < 0 \<Longrightarrow> strcmp a c < 0"
proof (induction a arbitrary: b c)
  case Nil
  then show ?case by (cases b; cases c) auto
next
  case (Cons x xs)
  then obtain y ys where b: "b = y # ys" by (cases b) auto
  with Cons.prems obtain z zs where c: "c = z # zs" by (cases c) auto
  show ?case
    using Cons.prems Cons.IH [of ys zs] less_trans
    unfolding b c strcmp_less_Cons by blast
qed

text \<open>\<open>tolower\<close> and \<open>toupper\<close> in the C locale change the ASCII letters only.\<close>

definition tolower :: "char \<Rightarrow> char" where
  "tolower c = (if 65 \<le> (of_char c :: nat) \<and> (of_char c :: nat) \<le> 90 then char_of (of_char c + 32 :: nat) else c)"

definition toupper :: "char \<Rightarrow> char" where
  "toupper c = (if 97 \<le> (of_char c :: nat) \<and> (of_char c :: nat) \<le> 122 then char_of (of_char c - 32 :: nat) else c)"

abbreviation lower :: "string \<Rightarrow> string" where
  "lower \<equiv> map tolower"

definition strcasecmp :: "string \<Rightarrow> string \<Rightarrow> int" where
  "strcasecmp a b = strcmp (map tolower a) (map tolower b)"

lemma of_char_tolower:
  "(of_char (tolower c) :: nat) =
     (if 65 \<le> (of_char c :: nat) \<and> (of_char c :: nat) \<le> 90 then of_char c + 32 else of_char c)"
  by (simp add: tolower_def)

lemma of_char_toupper:
  "(of_char (toupper c) :: nat) =
     (if 97 \<le> (of_char c :: nat) \<and> (of_char c :: nat) \<le> 122 then of_char c - 32 else of_char c)"
proof -
  have "(of_char c :: nat) < 256"
    by (rule nat_of_char_less_256)
  then show ?thesis by (auto simp: toupper_def mod_less)
qed

lemma char_eq_iff_nat: "c = d \<longleftrightarrow> (of_char c :: nat) = of_char d"
  by simp

lemma toupper_tolower [simp]: "toupper (tolower c) = toupper c"
  unfolding char_eq_iff_nat of_char_tolower of_char_toupper by auto

lemma tolower_idem [simp]: "tolower (tolower c) = tolower c"
  unfolding char_eq_iff_nat of_char_tolower by auto

lemma strcasecmp_eq_0 [simp, cstring]: "strcasecmp a b = 0 \<longleftrightarrow> map tolower a = map tolower b"
  by (simp add: strcasecmp_def)

text \<open>Evaluation on characters.\<close>

lemma tolower_upper:
  "tolower CHR ''A'' = CHR ''a''" "tolower CHR ''B'' = CHR ''b''" "tolower CHR ''C'' = CHR ''c''" "tolower CHR ''D'' = CHR ''d''"
  "tolower CHR ''E'' = CHR ''e''" "tolower CHR ''F'' = CHR ''f''" "tolower CHR ''G'' = CHR ''g''" "tolower CHR ''H'' = CHR ''h''"
  "tolower CHR ''I'' = CHR ''i''" "tolower CHR ''J'' = CHR ''j''" "tolower CHR ''K'' = CHR ''k''" "tolower CHR ''L'' = CHR ''l''"
  "tolower CHR ''M'' = CHR ''m''" "tolower CHR ''N'' = CHR ''n''" "tolower CHR ''O'' = CHR ''o''" "tolower CHR ''P'' = CHR ''p''"
  "tolower CHR ''Q'' = CHR ''q''" "tolower CHR ''R'' = CHR ''r''" "tolower CHR ''S'' = CHR ''s''" "tolower CHR ''T'' = CHR ''t''"
  "tolower CHR ''U'' = CHR ''u''" "tolower CHR ''V'' = CHR ''v''" "tolower CHR ''W'' = CHR ''w''" "tolower CHR ''X'' = CHR ''x''"
  "tolower CHR ''Y'' = CHR ''y''" "tolower CHR ''Z'' = CHR ''z''"
  by code_simp+

lemma tolower_other: "\<not> (65 \<le> (of_char c :: nat) \<and> (of_char c :: nat) \<le> 90) \<Longrightarrow> tolower c = c"
  by (auto simp: tolower_def)

lemmas tolower_chars = tolower_upper tolower_other

lemma map_toupper_of_tolower: "map tolower a = map tolower b \<Longrightarrow> map toupper a = map toupper b"
  by (metis (mono_tags, lifting) list.map_comp comp_apply map_eq_conv toupper_tolower)

section \<open>Single-precision numbers\<close>

text \<open>
  A C \<open>float\<close> is the rational number it denotes. \<open>float32 q\<close> is the nearest number with a
  24-bit mantissa, ties to the even mantissa; the numbers that occur lie well inside the
  range of the exponent, which is not bounded here.
\<close>

definition round_even :: "rat \<Rightarrow> int" where
  "round_even x =
     (let f = \<lfloor>x\<rfloor>; d = x - of_int f in
      if d < 1 / 2 then f else if d > 1 / 2 then f + 1 else if even f then f else f + 1)"

definition pow2 :: "int \<Rightarrow> rat" where
  "pow2 k = (if 0 \<le> k then 2 ^ nat k else 1 / 2 ^ nat (- k))"

definition float_exp :: "rat \<Rightarrow> int" where
  "float_exp q =
     (let (a, b) = quotient_of q; k = bitlen a - bitlen b in if q < pow2 k then k - 1 else k)"

definition float32 :: "rat \<Rightarrow> rat" where
  "float32 q =
     (if q = 0 then 0
      else (let u = pow2 (float_exp \<bar>q\<bar> - 23) in of_int (round_even (q / u)) * u))"

definition float32_div :: "rat \<Rightarrow> rat \<Rightarrow> rat" where
  "float32_div a b = float32 (a / b)"

section \<open>Decimal numbers\<close>

text \<open>The decimal digits of a number, as \<open>sprintf\<close> prints them.\<close>

fun dec_digits :: "nat \<Rightarrow> string" where
  "dec_digits n = (if n < 10 then [char_of (48 + n)] else dec_digits (n div 10) @ [char_of (48 + n mod 10)])"

declare dec_digits.simps [simp del]

definition sprintf_d :: "int \<Rightarrow> string" where
  "sprintf_d i = (if i < 0 then CHR ''-'' # dec_digits (nat (- i)) else dec_digits (nat i))"

lemma dec_digits_length: "n < 10 ^ k \<Longrightarrow> 0 < k \<Longrightarrow> length (dec_digits n) \<le> k"
proof (induction n arbitrary: k rule: dec_digits.induct)
  case (1 n)
  show ?case
  proof (cases "n < 10")
    case False
    then obtain j where k: "k = Suc j" "0 < j" using "1.prems" by (cases k; cases "k - 1") auto
    have "n div 10 < 10 ^ j" using "1.prems" k by (simp add: less_mult_imp_div_less mult.commute)
    then have "length (dec_digits (n div 10)) \<le> j" using "1.IH" False k by blast
    then show ?thesis using False k by (simp add: dec_digits.simps [of n])
  qed (use "1.prems" in \<open>simp add: dec_digits.simps [of n]\<close>)
qed

lemma dec_digits_not_Nil [simp]: "dec_digits n \<noteq> []"
  by (simp add: dec_digits.simps [of n])

lemma dec_digits_mono: "m \<le> n \<Longrightarrow> length (dec_digits m) \<le> length (dec_digits n)"
proof (induction n arbitrary: m rule: dec_digits.induct)
  case (1 n)
  show ?case
  proof (cases "n < 10")
    case False
    have "length (dec_digits (m div 10)) \<le> length (dec_digits (n div 10))"
      using "1.IH" False "1.prems" by (simp add: div_le_mono)
    then show ?thesis using False by (simp add: dec_digits.simps [of n] dec_digits.simps [of m])
  qed (use "1.prems" in \<open>simp add: dec_digits.simps [of n] dec_digits.simps [of m]\<close>)
qed

text \<open>Digits in a text, and the number they make.\<close>

definition is_digit :: "char \<Rightarrow> bool" where
  "is_digit c \<longleftrightarrow> 48 \<le> (of_char c :: nat) \<and> (of_char c :: nat) \<le> 57"

definition digits_value :: "string \<Rightarrow> nat" where
  "digits_value s = foldl (\<lambda>n c. 10 * n + (of_char c - 48)) 0 s"

lemma digits_value_snoc: "digits_value (s @ [c]) = 10 * digits_value s + (of_char c - 48)"
  by (simp add: digits_value_def)

lemma digit_char: "d < 10 \<Longrightarrow> is_digit (char_of (48 + d))" "d < 10 \<Longrightarrow> (of_char (char_of (48 + d) :: char) :: nat) = 48 + d"
  by (simp_all add: is_digit_def)

lemma dec_digits_digit: "\<forall>c\<in>set (dec_digits n). is_digit c"
proof (induction n rule: dec_digits.induct)
  case (1 n)
  have "n mod 10 < 10" by simp
  then show ?case using 1 digit_char(1) by (subst dec_digits.simps) (auto simp del: mod_less_divisor)
qed

lemma digits_value_dec [simp]: "digits_value (dec_digits n) = n"
proof (induction n rule: dec_digits.induct)
  case (1 n)
  show ?case
  proof (cases "n < 10")
    case True
    then show ?thesis using digit_char(2) [of n] by (simp add: dec_digits.simps [of n] digits_value_def)
  next
    case False
    then show ?thesis using 1 digit_char(2) [of "n mod 10"]
      by (simp add: dec_digits.simps [of n] digits_value_snoc)
  qed
qed

section \<open>Return codes\<close>

text \<open>The codes of \<open>CMPIrc\<close> that the components return.\<close>

datatype cmpi_rc = RC_OK | ERR_FAILED | ERR_INVALID_NAMESPACE | ERR_INVALID_PARAMETER | ERR_INVALID_CLASS | ERR_NOT_FOUND |
  ERR_NOT_SUPPORTED | ERR_CLASS_HAS_CHILDREN | ERR_INVALID_SUPERCLASS | ERR_ALREADY_EXISTS | ERR_METHOD_NOT_FOUND

section \<open>Qualifier bits of a class\<close>

text \<open>\<open>src/objectImpl.h\<close>; read by the object implementation and by the class register.\<close>

definition ClClass_Q_Abstract :: "8 word" where "ClClass_Q_Abstract = 1"
definition ClClass_Q_Association :: "8 word" where "ClClass_Q_Association = 2"

end
