(* ===== verification/AvlTree.thy ===== *)
theory AvlTree
  imports Prelude "HOL-Library.Multiset"
begin

text \<open>
  The AVL tree of \<open>src/avltree.c\<close>. A node and the subtree below it is a
  \<open>avl_node\<close> (\<open>AvlNull\<close> is the NULL pointer); the arrays \<open>stack[]\<close> and
  \<open>pathInfo[]\<close>, which hold the nodes from the root to the place reached and the turn taken
  at each, are a list of frames whose head is the top of the stack. A frame keeps what the
  stacked node has besides the child the path goes through: its item, its balance, and the
  other child. A dereference of NULL is the result \<^term>\<open>None\<close>.
\<close>

section \<open>Data\<close>

datatype 'a avl_node =
    AvlNull
  | AvlNode (nd_left: "'a avl_node") (nd_item: 'a) (nd_balance: int) (nd_right: "'a avl_node")

record 'a avl_tree =
  avl_root :: "'a avl_node"
  avl_n :: int
  avl_compar :: "'a \<Rightarrow> 'a \<Rightarrow> int"

datatype 'a frame =
  Frame (fr_path: int) (fr_item: 'a) (fr_balance: int) (fr_other: "'a avl_node")

definition AVL_STACK_SIZE :: nat where
  "AVL_STACK_SIZE = 1000"

section \<open>Operations\<close>

definition newAvlTree :: "('a \<Rightarrow> 'a \<Rightarrow> int) \<Rightarrow> 'a avl_tree" where
  "newAvlTree cmp = \<lparr>avl_root = AvlNull, avl_n = 0, avl_compar = cmp\<rparr>"

text \<open>
  The stacked node with the pointer on the path side set to \<open>t\<close> and its balance set to
  \<open>b\<close>, and the whole tree once every stacked node is joined to the one above it.
\<close>

definition relink :: "'a frame \<Rightarrow> int \<Rightarrow> 'a avl_node \<Rightarrow> 'a avl_node" where
  "relink f b t =
     (if fr_path f = 1 then AvlNode (fr_other f) (fr_item f) b t
      else AvlNode t (fr_item f) b (fr_other f))"

fun unwind :: "'a frame list \<Rightarrow> 'a avl_node \<Rightarrow> 'a avl_node" where
  "unwind [] t = t"
| "unwind (f # fs) t = unwind fs (relink f (fr_balance f) t)"

subsection \<open>Insertion\<close>

text \<open>The descent: the item already stored under an equal key, or the path to a free place.\<close>

fun insert_path :: "('a \<Rightarrow> 'a \<Rightarrow> int) \<Rightarrow> 'a \<Rightarrow> 'a avl_node \<Rightarrow> 'a frame list \<Rightarrow> 'a + 'a frame list" where
  "insert_path cmp item AvlNull stack = Inr stack"
| "insert_path cmp item (AvlNode l y b r) stack =
     (let cmpres = cmp item y in
      if cmpres < 0 then insert_path cmp item l (Frame (-1) y b r # stack)
      else if cmpres > 0 then insert_path cmp item r (Frame 1 y b l # stack)
      else Inl y)"

text \<open>Single rotation around the stacked node \<open>p\<close>; \<open>q\<close> is its child on the path side.\<close>

fun insert_single :: "'a frame \<Rightarrow> 'a avl_node \<Rightarrow> 'a avl_node option" where
  "insert_single p AvlNull = None"
| "insert_single p (AvlNode ql qi qb qr) =
     (if fr_path p = 1
      then Some (AvlNode (AvlNode (fr_other p) (fr_item p) 0 ql) qi 0 qr)
      else Some (AvlNode ql qi 0 (AvlNode qr (fr_item p) 0 (fr_other p))))"

text \<open>Double rotation; \<open>r\<close> is the child of \<open>q\<close> on the other side than the path at \<open>p\<close>.\<close>

fun insert_double :: "'a frame \<Rightarrow> 'a avl_node \<Rightarrow> 'a avl_node option" where
  "insert_double p AvlNull = None"
| "insert_double p (AvlNode ql qi qb qr) =
     (if fr_path p = 1 then
        (case ql of AvlNull \<Rightarrow> None
         | AvlNode rl ri rb rr \<Rightarrow>
             Some (AvlNode
               (AvlNode (fr_other p) (fr_item p) (if rb = 1 then -1 else 0) rl) ri 0
               (AvlNode rr qi (if rb = 1 then 0 else if rb = -1 then 1 else 0) qr)))
      else
        (case qr of AvlNull \<Rightarrow> None
         | AvlNode rl ri rb rr \<Rightarrow>
             Some (AvlNode
               (AvlNode ql qi (if rb = 1 then -1 else 0) rl) ri 0
               (AvlNode rr (fr_item p) (if rb = 1 then 0 else if rb = -1 then 1 else 0)
                 (fr_other p)))))"

text \<open>
  The upward loop. \<open>d\<close> is \<open>pathInfo[tos + 1]\<close>, the turn taken one level below the node
  popped, and \<^term>\<open>None\<close> for the first node popped, above which only the new node lies.
\<close>

fun insert_up :: "'a frame list \<Rightarrow> int option \<Rightarrow> 'a avl_node \<Rightarrow> 'a avl_node option" where
  "insert_up [] d t = Some t"
| "insert_up (p # stack) d t =
     (let b = fr_balance p + fr_path p in
      if fr_balance p = 0 then insert_up stack (Some (fr_path p)) (relink p b t)
      else if b = 0 then Some (unwind stack (relink p b t))
      else (case d of None \<Rightarrow> None
        | Some d' \<Rightarrow>
            map_option (unwind stack)
              (if fr_path p = d' then insert_single p t else insert_double p t)))"

definition insertAvl :: "'a avl_tree \<Rightarrow> 'a \<Rightarrow> ('a avl_tree \<times> 'a option) option" where
  "insertAvl this item =
     (case insert_path (avl_compar this) item (avl_root this) [] of
        Inl old \<Rightarrow> Some (this, Some old)
      | Inr stack \<Rightarrow>
          (case insert_up stack None (AvlNode AvlNull item 0 AvlNull) of
             None \<Rightarrow> None
           | Some r \<Rightarrow> Some (this\<lparr>avl_root := r, avl_n := avl_n this + 1\<rparr>, None)))"

subsection \<open>Search\<close>

fun find_node :: "('a \<Rightarrow> 'a \<Rightarrow> int) \<Rightarrow> 'a \<Rightarrow> 'a avl_node \<Rightarrow> 'a option" where
  "find_node cmp item AvlNull = None"
| "find_node cmp item (AvlNode l y b r) =
     (let cmpres = cmp item y in
      if cmpres < 0 then find_node cmp item l
      else if cmpres > 0 then find_node cmp item r
      else Some y)"

definition findAvl :: "'a avl_tree \<Rightarrow> 'a \<Rightarrow> 'a option" where
  "findAvl this item = find_node (avl_compar this) item (avl_root this)"

fun leftmost :: "'a avl_node \<Rightarrow> 'a option" where
  "leftmost AvlNull = None"
| "leftmost (AvlNode AvlNull y b r) = Some y"
| "leftmost (AvlNode l y b r) = leftmost l"

definition findMinAvl :: "'a avl_tree \<Rightarrow> 'a option" where
  "findMinAvl this = leftmost (avl_root this)"

subsection \<open>Deletion\<close>

fun delete_path :: "('a \<Rightarrow> 'a \<Rightarrow> int) \<Rightarrow> 'a \<Rightarrow> 'a avl_node \<Rightarrow> 'a frame list
    \<Rightarrow> ('a avl_node \<times> 'a frame list) option" where
  "delete_path cmp item AvlNull stack = None"
| "delete_path cmp item (AvlNode l y b r) stack =
     (let cmpres = cmp item y in
      if cmpres < 0 then delete_path cmp item l (Frame (-1) y b r # stack)
      else if cmpres > 0 then delete_path cmp item r (Frame 1 y b l # stack)
      else Some (AvlNode l y b r, stack))"

text \<open>The walk to the smallest node of a subtree: the frames above it, its item, its right child.\<close>

fun min_path :: "'a avl_node \<Rightarrow> 'a frame list \<Rightarrow> ('a frame list \<times> 'a \<times> 'a avl_node) option" where
  "min_path AvlNull stack = None"
| "min_path (AvlNode AvlNull y b r) stack = Some (stack, y, r)"
| "min_path (AvlNode l y b r) stack = min_path l (Frame (-1) y b r # stack)"

text \<open>
  Unlinking the node \<open>p\<close> found: with a NULL child the other child takes its place; otherwise
  the smallest node \<open>m\<close> of its right subtree takes its place, its left child and its
  balance, and the stack gets \<open>m\<close> where \<open>p\<close> was. The result is the stack and the
  subtree below its top.
\<close>

fun unlink_node :: "'a avl_node \<Rightarrow> 'a frame list \<Rightarrow> ('a frame list \<times> 'a avl_node) option" where
  "unlink_node AvlNull stack = None"
| "unlink_node (AvlNode l y b r) stack =
     (if l = AvlNull then Some (stack, r)
      else if r = AvlNull then Some (stack, l)
      else (case min_path r [] of None \<Rightarrow> None
        | Some (below, m, mr) \<Rightarrow> Some (below @ Frame 1 m b l # stack, mr)))"

text \<open>
  The two rotations of the deletion, around the stacked node \<open>p\<close> whose path side has become
  too low by one; \<open>q\<close> is the child on the other side. The flag says whether the loop goes on.
\<close>

fun delete_single :: "'a frame \<Rightarrow> int \<Rightarrow> 'a avl_node \<Rightarrow> ('a avl_node \<times> bool) option" where
  "delete_single p pb t =
     (case fr_other p of AvlNull \<Rightarrow> None
      | AvlNode ql qi qb qr \<Rightarrow>
          (let pb' = (if qb = 0 then (if pb > 0 then 1 else -1) else 0);
               qb' = (if qb = 0 then - pb' else 0)
           in Some (if fr_path p \<noteq> 1
                    then AvlNode (AvlNode t (fr_item p) pb' ql) qi qb' qr
                    else AvlNode ql qi qb' (AvlNode qr (fr_item p) pb' t),
                    qb \<noteq> 0)))"

fun delete_double :: "'a frame \<Rightarrow> 'a avl_node \<Rightarrow> 'a avl_node option" where
  "delete_double p t =
     (case fr_other p of AvlNull \<Rightarrow> None
      | AvlNode ql qi qb qr \<Rightarrow>
          (if fr_path p \<noteq> 1 then
             (case ql of AvlNull \<Rightarrow> None
              | AvlNode rl ri rb rr \<Rightarrow>
                  Some (AvlNode
                    (AvlNode t (fr_item p) (if rb = 1 then -1 else 0) rl) ri 0
                    (AvlNode rr qi (if rb = 1 then 0 else if rb = -1 then 1 else 0) qr)))
           else
             (case qr of AvlNull \<Rightarrow> None
              | AvlNode rl ri rb rr \<Rightarrow>
                  Some (AvlNode
                    (AvlNode ql qi (if rb = 1 then -1 else 0) rl) ri 0
                    (AvlNode rr (fr_item p) (if rb = 1 then 0 else if rb = -1 then 1 else 0) t)))))"

fun delete_up :: "'a frame list \<Rightarrow> 'a avl_node \<Rightarrow> 'a avl_node option" where
  "delete_up [] t = Some t"
| "delete_up (p # stack) t =
     (let b = fr_balance p - fr_path p in
      if fr_balance p = 0 then Some (unwind stack (relink p b t))
      else if b = 0 then delete_up stack (relink p b t)
      else (case fr_other p of AvlNull \<Rightarrow> None
        | AvlNode ql qi qb qr \<Rightarrow>
            if fr_path p \<noteq> qb then
              (case delete_single p b t of None \<Rightarrow> None
               | Some (t', go_on) \<Rightarrow> if go_on then delete_up stack t' else Some (unwind stack t'))
            else
              (case delete_double p t of None \<Rightarrow> None
               | Some t' \<Rightarrow> delete_up stack t')))"

definition deleteAvl :: "'a avl_tree \<Rightarrow> 'a \<Rightarrow> ('a avl_tree \<times> 'a option) option" where
  "deleteAvl this item =
     (case delete_path (avl_compar this) item (avl_root this) [] of
        None \<Rightarrow> Some (this, None)
      | Some (p, stack) \<Rightarrow>
          (case unlink_node p stack of None \<Rightarrow> None
           | Some (stack', t) \<Rightarrow>
               (case delete_up stack' t of None \<Rightarrow> None
                | Some r \<Rightarrow>
                    Some (this\<lparr>avl_root := r, avl_n := avl_n this - 1\<rparr>, Some (nd_item p)))))"

fun deleteMin_up :: "'a frame list \<Rightarrow> 'a avl_node \<Rightarrow> 'a avl_node option" where
  "deleteMin_up [] t = Some t"
| "deleteMin_up (p # stack) t =
     (let b = fr_balance p + 1 in
      if fr_balance p = 0 then Some (unwind stack (AvlNode t (fr_item p) b (fr_other p)))
      else if b = 0 then deleteMin_up stack (AvlNode t (fr_item p) b (fr_other p))
      else (case fr_other p of AvlNull \<Rightarrow> None
        | AvlNode ql qi qb qr \<Rightarrow>
            if qb \<noteq> -1 then
              (if qb = 0
               then Some (unwind stack (AvlNode (AvlNode t (fr_item p) 1 ql) qi (-1) qr))
               else deleteMin_up stack (AvlNode (AvlNode t (fr_item p) 0 ql) qi 0 qr))
            else (case ql of AvlNull \<Rightarrow> None
              | AvlNode rl ri rb rr \<Rightarrow>
                  deleteMin_up stack (AvlNode
                    (AvlNode t (fr_item p) (if rb = 1 then -1 else 0) rl) ri 0
                    (AvlNode rr qi (if rb = 1 then 0 else if rb = -1 then 1 else 0) qr)))))"

definition deleteMinAvl :: "'a avl_tree \<Rightarrow> ('a avl_tree \<times> 'a option) option" where
  "deleteMinAvl this =
     (case min_path (avl_root this) [] of
        None \<Rightarrow> Some (this, None)
      | Some (stack, y, r) \<Rightarrow>
          (case deleteMin_up stack r of None \<Rightarrow> None
           | Some t \<Rightarrow> Some (this\<lparr>avl_root := t, avl_n := avl_n this - 1\<rparr>, Some y)))"

subsection \<open>Release\<close>

text \<open>
  The loop of \<open>freeAvl\<close> over its stack of subtrees: the items of the nodes in the order in
  which the nodes are freed. The left child is pushed before the right one.
\<close>

function (sequential) free_loop :: "'a avl_node list \<Rightarrow> 'a list" where
  "free_loop [] = []"
| "free_loop (AvlNull # stack) = free_loop stack"
| "free_loop (AvlNode l y b r # stack) =
     y # free_loop ((if r = AvlNull then [] else [r]) @ (if l = AvlNull then [] else [l]) @ stack)"
  by pat_completeness auto
termination
  by (relation "measure (\<lambda>stack. 2 * sum_list (map size stack) + length stack)") auto

definition freeAvl :: "'a avl_tree \<Rightarrow> 'a list" where
  "freeAvl t = (if avl_root t = AvlNull then [] else free_loop [avl_root t])"

section \<open>The AVL invariant\<close>

fun height :: "'a avl_node \<Rightarrow> nat" where
  "height AvlNull = 0"
| "height (AvlNode l y b r) = Suc (max (height l) (height r))"

fun inorder :: "'a avl_node \<Rightarrow> 'a list" where
  "inorder AvlNull = []"
| "inorder (AvlNode l y b r) = inorder l @ y # inorder r"

text \<open>
  The AVL invariant: every balance is the height of the right subtree less that of the left
  one, and lies in -1..1.
\<close>

definition leans :: "int \<Rightarrow> nat \<Rightarrow> nat \<Rightarrow> bool" where
  "leans b hl hr \<longleftrightarrow> b = 0 \<and> hr = hl \<or> b = 1 \<and> hr = Suc hl \<or> b = -1 \<and> hl = Suc hr"

fun avl :: "'a avl_node \<Rightarrow> bool" where
  "avl AvlNull = True"
| "avl (AvlNode l y b r) =
     (leans b (height l) (height r) \<and> avl l \<and> avl r)"

text \<open>
  A stack fits a subtree of height \<open>h\<close> below its top: joined to such an AVL tree it is
  an AVL tree.
\<close>

fun stack_fits :: "'a frame list \<Rightarrow> nat \<Rightarrow> bool" where
  "stack_fits [] h = True"
| "stack_fits (p # stack) h =
     ((fr_path p = 1 \<and> leans (fr_balance p) (height (fr_other p)) h \<or>
       fr_path p = -1 \<and> leans (fr_balance p) h (height (fr_other p))) \<and> avl (fr_other p) \<and>
      stack_fits stack (Suc (max h (height (fr_other p)))))"

fun items_before :: "'a frame list \<Rightarrow> 'a list" where
  "items_before [] = []"
| "items_before (p # stack) =
     items_before stack @ (if fr_path p = 1 then inorder (fr_other p) @ [fr_item p] else [])"

fun items_after :: "'a frame list \<Rightarrow> 'a list" where
  "items_after [] = []"
| "items_after (p # stack) =
     (if fr_path p = 1 then [] else fr_item p # inorder (fr_other p)) @ items_after stack"

lemma inorder_relink [simp]:
  "inorder (relink p b t) =
     (if fr_path p = 1 then inorder (fr_other p) @ fr_item p # inorder t
      else inorder t @ fr_item p # inorder (fr_other p))"
  by (simp add: relink_def)

lemma height_relink [simp]: "height (relink p b t) = Suc (max (height t) (height (fr_other p)))"
  by (simp add: relink_def max.commute)

lemma inorder_unwind [simp]: "inorder (unwind stack t) = items_before stack @ inorder t @ items_after stack"
  by (induction stack arbitrary: t) auto

lemma avl_unwind: "stack_fits stack (height t) \<Longrightarrow> avl t \<Longrightarrow> avl (unwind stack t)"
proof (induction stack arbitrary: t)
  case (Cons p stack)
  then have "avl (relink p (fr_balance p) t)"
    by (auto simp: relink_def)
  with Cons show ?case by simp
qed simp

text \<open>Conversely a path walked down an AVL tree fits.\<close>

lemma stack_fits_push_left:
  "avl (AvlNode l y b r) \<Longrightarrow> stack_fits stack (height (AvlNode l y b r)) \<Longrightarrow>
   stack_fits (Frame (-1) y b r # stack) (height l)"
  by simp

lemma stack_fits_push_right:
  "avl (AvlNode l y b r) \<Longrightarrow> stack_fits stack (height (AvlNode l y b r)) \<Longrightarrow>
   stack_fits (Frame 1 y b l # stack) (height r)"
  by (simp add: max.commute)

lemma insert_path_fits:
  "insert_path cmp x t stack = Inr stack' \<Longrightarrow> avl t \<Longrightarrow> stack_fits stack (height t) \<Longrightarrow>
   stack_fits stack' 0"
proof (induction cmp x t stack rule: insert_path.induct)
  case (2 cmp item l y b r stack)
  then show ?case
    using stack_fits_push_left [of l y b r stack] stack_fits_push_right [of l y b r stack]
    by (auto simp: Let_def split: if_splits)
qed auto

lemma insert_path_items:
  "insert_path cmp x t stack = Inr stack' \<Longrightarrow>
   items_before stack' @ items_after stack' = items_before stack @ inorder t @ items_after stack"
  by (induction cmp x t stack rule: insert_path.induct) (auto simp: Let_def split: if_splits)

text \<open>
  The upward loop of the insertion: below the stack lies an AVL tree one higher than the
  stack fits, which is either the new node (and the stack was built for a NULL pointer)
  or leans to the side the path took.
\<close>

definition grown :: "nat \<Rightarrow> int option \<Rightarrow> 'a avl_node \<Rightarrow> bool" where
  "grown h d t \<longleftrightarrow> avl t \<and> height t = Suc h \<and>
     (case d of None \<Rightarrow> h = 0 | Some d' \<Rightarrow> (d' = 1 \<or> d' = -1) \<and> t \<noteq> AvlNull \<and> nd_balance t = d')"

lemma height_0_iff [simp]: "height t = 0 \<longleftrightarrow> t = AvlNull"
  by (cases t) auto

lemma leans_cases:
  assumes "leans b hl hr"
  obtains "b = 0" "hr = hl" | "b = 1" "hr = Suc hl" | "b = -1" "hl = Suc hr"
  using assms by (auto simp: leans_def)

lemma leans_simps [simp]:
  "leans 0 hl hr \<longleftrightarrow> hr = hl" "leans 1 hl hr \<longleftrightarrow> hr = Suc hl" "leans (-1) hl hr \<longleftrightarrow> hl = Suc hr"
  by (auto simp: leans_def)

lemma insert_single_ok:
  assumes "grown h (Some (fr_path p)) t" "avl (fr_other p)" "h = Suc (height (fr_other p))"
  shows "\<exists>t'. insert_single p t = Some t' \<and> avl t' \<and> height t' = Suc h \<and>
     inorder t' = inorder (relink p 0 t)"
  using assms by (cases t) (auto simp: grown_def)

lemma insert_double_ok:
  assumes "grown h (Some d) t" "avl (fr_other p)" "d \<noteq> fr_path p" "h = Suc (height (fr_other p))"
    and "fr_path p = 1 \<or> fr_path p = -1"
  shows "\<exists>t'. insert_double p t = Some t' \<and> avl t' \<and> height t' = Suc h \<and>
     inorder t' = inorder (relink p 0 t)"
proof (cases t)
  case AvlNull
  with assms show ?thesis by (auto simp: grown_def)
next
  case t: (AvlNode ql qi qb qr)
  show ?thesis
  proof (cases "fr_path p = 1")
    case True
    with assms t have "qb = -1" "avl ql" "avl qr" "height ql = Suc (height qr)" "height ql = h"
      by (auto simp: grown_def)
    with assms True t show ?thesis
      by (cases ql) (auto elim!: leans_cases)
  next
    case False
    with assms t have "qb = 1" "avl ql" "avl qr" "height qr = Suc (height ql)" "height qr = h"
      by (auto simp: grown_def)
    with assms False t show ?thesis
      by (cases qr) (auto elim!: leans_cases)
  qed
qed

lemma insert_up_ok:
  "grown h d t \<Longrightarrow> stack_fits stack h \<Longrightarrow>
   \<exists>t'. insert_up stack d t = Some t' \<and> avl t' \<and>
     inorder t' = items_before stack @ inorder t @ items_after stack"
proof (induction stack arbitrary: h d t)
  case Nil
  then show ?case by (auto simp: grown_def)
next
  case (Cons p stack)
  let ?b = "fr_balance p + fr_path p"
  consider (even) "fr_balance p = 0" "h = height (fr_other p)"
    | (fills) "fr_balance p \<noteq> 0" "?b = 0" "height (fr_other p) = Suc h"
    | (leans) "fr_balance p \<noteq> 0" "?b \<noteq> 0" "h = Suc (height (fr_other p))"
    using Cons.prems(2) by (auto elim!: leans_cases)
  then show ?case
  proof cases
    case even
    then have "grown (Suc h) (Some (fr_path p)) (relink p ?b t)"
      using Cons.prems by (auto simp: grown_def relink_def)
    moreover have "stack_fits stack (Suc h)"
      using Cons.prems(2) even by simp
    ultimately obtain t' where "insert_up stack (Some (fr_path p)) (relink p ?b t) = Some t'"
      "avl t'" "inorder t' = items_before stack @ inorder (relink p ?b t) @ items_after stack"
      using Cons.IH by blast
    with even show ?thesis by auto
  next
    case fills
    then have "avl (relink p ?b t)" "height (relink p ?b t) = Suc (Suc h)"
      using Cons.prems by (auto simp: grown_def relink_def)
    with fills Cons.prems show ?thesis
      using avl_unwind [of stack "relink p ?b t"] by auto
  next
    case leans
    then obtain d' where d: "d = Some d'" "d' = 1 \<or> d' = -1"
      using Cons.prems(1) by (cases d) (auto simp: grown_def)
    have path: "fr_path p = 1 \<or> fr_path p = -1" and other: "avl (fr_other p)"
      and up: "stack_fits stack (Suc h)"
      using Cons.prems(2) leans by auto
    let ?rot = "if fr_path p = d' then insert_single p t else insert_double p t"
    have "\<exists>t'. ?rot = Some t' \<and> avl t' \<and> height t' = Suc h \<and> inorder t' = inorder (relink p 0 t)"
      using insert_single_ok [of h p t] insert_double_ok [of h d' t p] Cons.prems(1) leans path other d
      by auto
    then obtain t' where "?rot = Some t'" "avl t'" "height t' = Suc h"
      "inorder t' = inorder (relink p 0 t)"
      by blast
    with leans d up show ?thesis
      using avl_unwind [of stack t'] by auto
  qed
qed

lemma delete_path_ok:
  "delete_path cmp x t stack = Some (p, stack') \<Longrightarrow> avl t \<Longrightarrow> stack_fits stack (height t) \<Longrightarrow>
   p \<noteq> AvlNull \<and> avl p \<and> stack_fits stack' (height p)"
proof (induction cmp x t stack rule: delete_path.induct)
  case (2 cmp item l y b r stack)
  then show ?case
    using stack_fits_push_left [of l y b r stack] stack_fits_push_right [of l y b r stack]
    by (auto simp: Let_def split: if_splits)
qed auto

lemma delete_path_items:
  "delete_path cmp x t stack = Some (p, stack') \<Longrightarrow>
   items_before stack' @ inorder p @ items_after stack' =
   items_before stack @ inorder t @ items_after stack"
  by (induction cmp x t stack rule: delete_path.induct) (auto simp: Let_def split: if_splits)

lemma min_path_total: "t \<noteq> AvlNull \<Longrightarrow> \<exists>stack' y r. min_path t stack = Some (stack', y, r)"
  by (induction t stack rule: min_path.induct) auto

lemma min_path_append:
  "min_path t s = Some (stack', y, r) \<Longrightarrow> min_path t (s @ stack) = Some (stack' @ stack, y, r)"
  by (induction t s rule: min_path.induct) auto

lemma min_path_ok:
  "min_path t stack = Some (stack', y, r) \<Longrightarrow> avl t \<Longrightarrow> stack_fits stack (height t) \<Longrightarrow>
   avl r \<and> stack_fits stack' (Suc (height r))"
proof (induction t stack rule: min_path.induct)
  case (3 v va vb vc y b r stack)
  then show ?case
    using stack_fits_push_left [of "AvlNode v va vb vc" y b r stack] by auto
qed auto

lemma min_path_items:
  "min_path t stack = Some (stack', y, r) \<Longrightarrow>
   items_before stack' = items_before stack \<and>
   y # inorder r @ items_after stack' = inorder t @ items_after stack"
  by (induction t stack rule: min_path.induct) auto

lemma min_path_paths:
  "min_path t stack = Some (stack', y, r) \<Longrightarrow> \<forall>p \<in> set stack. fr_path p = -1 \<Longrightarrow>
   \<forall>p \<in> set stack'. fr_path p = -1"
  by (induction t stack rule: min_path.induct) auto

lemma unlink_node_ok:
  assumes "avl (AvlNode l y b r)" "stack_fits stack (height (AvlNode l y b r))"
  shows "\<exists>stack' t. unlink_node (AvlNode l y b r) stack = Some (stack', t) \<and> avl t \<and>
     stack_fits stack' (Suc (height t)) \<and>
     items_before stack' @ inorder t @ items_after stack' =
       items_before stack @ inorder l @ inorder r @ items_after stack"
proof (cases "l = AvlNull \<or> r = AvlNull")
  case True
  with assms show ?thesis by auto
next
  case False
  then obtain below m mr where m: "min_path r [] = Some (below, m, mr)"
    using min_path_total [of r "[]"] by blast
  from min_path_append [OF this, of "Frame 1 m b l # stack"]
  have m': "min_path r (Frame 1 m b l # stack) = Some (below @ Frame 1 m b l # stack, m, mr)"
    by simp
  have "stack_fits (Frame 1 m b l # stack) (height r)"
    using assms by (simp add: max.commute)
  with m' have "avl mr" "stack_fits (below @ Frame 1 m b l # stack) (Suc (height mr))"
    using min_path_ok [OF m'] assms(1) by auto
  moreover have "items_before (below @ Frame 1 m b l # stack) @ inorder mr @
      items_after (below @ Frame 1 m b l # stack) =
      items_before stack @ inorder l @ inorder r @ items_after stack"
    using min_path_items [OF m'] by auto
  ultimately show ?thesis using m False by auto
qed

text \<open>The rotations of the deletion, below a node that leans to the other side by one.\<close>

lemma delete_single_ok:
  assumes "avl t" "avl (fr_other p)" "height (fr_other p) = Suc (Suc (height t))"
    and "fr_path p = 1 \<and> pb < 0 \<or> fr_path p = -1 \<and> pb > 0"
    and "fr_other p = AvlNode ql qi qb qr" "fr_path p \<noteq> qb"
  shows "\<exists>t'. delete_single p pb t = Some (t', qb \<noteq> 0) \<and> avl t' \<and>
     height t' = (if qb = 0 then height (fr_other p) + 1 else height (fr_other p)) \<and>
     inorder t' = inorder (relink p 0 t)"
  using assms by (auto elim!: leans_cases simp: max_def)

lemma delete_double_ok:
  assumes "avl t" "avl (fr_other p)" "height (fr_other p) = Suc (Suc (height t))"
    and "fr_path p = 1 \<or> fr_path p = -1"
    and q: "fr_other p = AvlNode ql qi qb qr" "fr_path p = qb"
  shows "\<exists>t'. delete_double p t = Some t' \<and> avl t' \<and> height t' = height (fr_other p) \<and>
     inorder t' = inorder (relink p 0 t)"
proof (cases "fr_path p = 1")
  case True
  with assms have "avl ql" "avl qr" "height qr = Suc (height ql)" "height qr = Suc (height t)"
    by auto
  with True q \<open>avl t\<close> show ?thesis by (cases qr) (auto elim!: leans_cases simp: max_def)
next
  case False
  with assms have "avl ql" "avl qr" "height ql = Suc (height qr)" "height ql = Suc (height t)"
    by auto
  with False q assms(4) \<open>avl t\<close> show ?thesis by (cases ql) (auto elim!: leans_cases simp: max_def)
qed

lemma delete_up_ok:
  "avl t \<Longrightarrow> stack_fits stack (Suc (height t)) \<Longrightarrow>
   \<exists>t'. delete_up stack t = Some t' \<and> avl t' \<and>
     inorder t' = items_before stack @ inorder t @ items_after stack"
proof (induction stack arbitrary: t)
  case Nil
  then show ?case by simp
next
  case (Cons p stack)
  let ?b = "fr_balance p - fr_path p"
  have path: "fr_path p = 1 \<or> fr_path p = -1" and other: "avl (fr_other p)"
    and up: "stack_fits stack (Suc (max (Suc (height t)) (height (fr_other p))))"
    using Cons.prems(2) by auto
  consider (even) "fr_balance p = 0" "height (fr_other p) = Suc (height t)"
    | (fills) "fr_balance p \<noteq> 0" "?b = 0" "height (fr_other p) = height t"
    | (leans) "fr_balance p \<noteq> 0" "?b \<noteq> 0" "height (fr_other p) = Suc (Suc (height t))"
       "fr_path p = 1 \<and> ?b < 0 \<or> fr_path p = -1 \<and> ?b > 0"
    using Cons.prems(2) by (auto elim!: leans_cases)
  then show ?case
  proof cases
    case even
    then have "avl (relink p ?b t)" "height (relink p ?b t) = Suc (Suc (height t))"
      using path other Cons.prems(1) by (auto simp: relink_def)
    with even up show ?thesis
      using avl_unwind [of stack "relink p ?b t"] by auto
  next
    case fills
    then have "avl (relink p ?b t)" "height (relink p ?b t) = Suc (height t)"
      using path other Cons.prems(1) by (auto simp: relink_def)
    with fills up obtain t' where "delete_up stack (relink p ?b t) = Some t'" "avl t'"
      "inorder t' = items_before stack @ inorder (relink p ?b t) @ items_after stack"
      using Cons.IH [of "relink p ?b t"] by auto
    with fills show ?thesis by auto
  next
    case leans
    then obtain ql qi qb qr where q: "fr_other p = AvlNode ql qi qb qr"
      by (cases "fr_other p") auto
    show ?thesis
    proof (cases "fr_path p = qb")
      case True
      then obtain t' where t': "delete_double p t = Some t'" "avl t'"
        "height t' = Suc (Suc (height t))" "inorder t' = inorder (relink p 0 t)"
        using delete_double_ok [OF Cons.prems(1) other leans(3) path q] leans(3) by auto
      with up leans obtain t'' where "delete_up stack t' = Some t''" "avl t''"
        "inorder t'' = items_before stack @ inorder t' @ items_after stack"
        using Cons.IH [of t'] by auto
      with t' True leans q show ?thesis by auto
    next
      case False
      then obtain t' where t': "delete_single p ?b t = Some (t', qb \<noteq> 0)" "avl t'"
        "height t' = (if qb = 0 then height (fr_other p) + 1 else height (fr_other p))"
        "inorder t' = inorder (relink p 0 t)"
        using delete_single_ok [OF Cons.prems(1) other leans(3,4) q] by auto
      show ?thesis
      proof (cases "qb = 0")
        case True
        with t' up leans False q show ?thesis
          using avl_unwind [of stack t'] by auto
      next
        case nonzero: False
        with t' up leans obtain t'' where "delete_up stack t' = Some t''" "avl t''"
          "inorder t'' = items_before stack @ inorder t' @ items_after stack"
          using Cons.IH [of t'] by auto
        with t' nonzero False leans q show ?thesis by auto
      qed
    qed
  qed
qed

text \<open>Deleting the minimum is the general loop on a path that only goes left.\<close>

lemma deleteMin_up_eq:
  "\<forall>p \<in> set stack. fr_path p = -1 \<Longrightarrow> stack_fits stack h \<Longrightarrow>
   deleteMin_up stack t = delete_up stack t"
proof (induction stack arbitrary: h t)
  case (Cons p stack)
  then have "deleteMin_up stack t' = delete_up stack t'" for t'
    by auto
  with Cons.prems show ?case
    by (auto simp: Let_def relink_def elim!: leans_cases split: avl_node.splits)
qed simp

section \<open>Order\<close>

definition ordered :: "('a \<Rightarrow> 'a \<Rightarrow> int) \<Rightarrow> 'a avl_node \<Rightarrow> bool" where
  "ordered cmp t \<longleftrightarrow> sorted_wrt (\<lambda>x y. cmp x y < 0) (inorder t)"

definition avl_wf :: "('a \<Rightarrow> bool) \<Rightarrow> 'a avl_tree \<Rightarrow> bool" where
  "avl_wf ok tr \<longleftrightarrow> avl (avl_root tr) \<and> ordered (avl_compar tr) (avl_root tr) \<and>
     list_all ok (inorder (avl_root tr)) \<and> avl_n tr = int (length (inorder (avl_root tr)))"

lemma ordered_Node [simp]:
  "ordered cmp (AvlNode l y b r) \<longleftrightarrow> ordered cmp l \<and> ordered cmp r \<and>
     (\<forall>x \<in> set (inorder l). cmp x y < 0) \<and> (\<forall>z \<in> set (inorder r). cmp y z < 0) \<and>
     (\<forall>x \<in> set (inorder l). \<forall>z \<in> set (inorder r). cmp x z < 0)"
  by (auto simp: ordered_def sorted_wrt_append)

lemma ordered_Null [simp]: "ordered cmp AvlNull"
  by (simp add: ordered_def)

text \<open>What the tree asks of its comparison function, on the items it is given.\<close>

locale item_order =
  fixes cmp :: "'a \<Rightarrow> 'a \<Rightarrow> int" and ok :: "'a \<Rightarrow> bool"
  assumes cmp_refl: "ok x \<Longrightarrow> cmp x x = 0"
    and cmp_swap: "ok x \<Longrightarrow> ok y \<Longrightarrow> 0 < cmp y x \<longleftrightarrow> cmp x y < 0"
    and cmp_trans: "ok x \<Longrightarrow> ok y \<Longrightarrow> ok z \<Longrightarrow> cmp x y < 0 \<Longrightarrow> cmp y z < 0 \<Longrightarrow> cmp x z < 0"
    and cmp_eq_less: "ok x \<Longrightarrow> ok y \<Longrightarrow> ok z \<Longrightarrow> cmp x y = 0 \<Longrightarrow> cmp y z < 0 \<Longrightarrow> cmp x z < 0"
    and cmp_less_eq: "ok x \<Longrightarrow> ok y \<Longrightarrow> ok z \<Longrightarrow> cmp x y < 0 \<Longrightarrow> cmp y z = 0 \<Longrightarrow> cmp x z < 0"
begin

lemma cmp_eq_sym: "ok x \<Longrightarrow> ok y \<Longrightarrow> cmp x y = 0 \<longleftrightarrow> cmp y x = 0"
  using cmp_swap [of x y] cmp_swap [of y x] by linarith

lemma find_node_eq:
  "ordered cmp t \<Longrightarrow> list_all ok (inorder t) \<Longrightarrow> ok x \<Longrightarrow>
   find_node cmp x t = List.find (\<lambda>y. cmp x y = 0) (inorder t)"
proof (induction t)
  case (AvlNode l y b r)
  have ok: "ok y" "\<And>z. z \<in> set (inorder l) \<Longrightarrow> ok z" "\<And>z. z \<in> set (inorder r) \<Longrightarrow> ok z"
    using AvlNode.prems by (auto simp: list_all_iff)
  have "cmp x z \<noteq> 0" if "0 \<le> cmp x y" "z \<in> set (inorder l)" for z
    using that AvlNode.prems ok cmp_eq_less [of x z y] by force
  then have "List.find (\<lambda>y. cmp x y = 0) (inorder l) = None" if "0 \<le> cmp x y"
    using that by (simp add: find_None_iff)
  moreover have "cmp x z \<noteq> 0" if "cmp x y < 0" "z \<in> set (inorder r)" for z
    using that AvlNode.prems ok cmp_trans [of x y z] by force
  then have "List.find (\<lambda>y. cmp x y = 0) (inorder r) = None" if "cmp x y < 0"
    using that by (simp add: find_None_iff)
  ultimately show ?case
    using AvlNode by (auto simp: Let_def find_append split: option.splits)
qed simp

lemma insert_path_find:
  "insert_path cmp x t stack = Inl y \<longleftrightarrow> find_node cmp x t = Some y"
  by (induction t arbitrary: stack) (auto simp: Let_def)

lemma insert_path_sides:
  "insert_path cmp x t stack = Inr stack' \<Longrightarrow> ordered cmp t \<Longrightarrow> list_all ok (inorder t) \<Longrightarrow> ok x \<Longrightarrow>
   \<forall>y \<in> set (items_before stack). cmp y x < 0 \<Longrightarrow> \<forall>y \<in> set (items_after stack). cmp x y < 0 \<Longrightarrow>
   (\<forall>y \<in> set (items_before stack'). cmp y x < 0) \<and> (\<forall>y \<in> set (items_after stack'). cmp x y < 0)"
proof (induction t arbitrary: stack)
  case (AvlNode l y b r)
  note prems = AvlNode.prems
  have ok: "ok y" "list_all ok (inorder l)" "list_all ok (inorder r)"
    and ordl: "ordered cmp l" "ordered cmp r"
    using prems(2,3) by auto
  show ?case
  proof (cases "cmp x y < 0")
    case True
    then have "cmp x z < 0" if "z \<in> set (inorder r)" for z
      using that prems ok cmp_trans [of x y z] by (simp add: list_all_iff)
    with True prems(6) have after: "\<forall>z \<in> set (items_after (Frame (-1) y b r # stack)). cmp x z < 0"
      by auto
    have step: "insert_path cmp x l (Frame (-1) y b r # stack) = Inr stack'"
      using True prems(1) by simp
    show ?thesis
      by (rule AvlNode.IH(1) [OF step ordl(1) ok(2) prems(4) _ after]) (use prems(5) in simp)
  next
    case False
    then have "0 < cmp x y"
      using prems(1) by (cases "cmp x y = 0") simp_all
    with prems(1) have step: "insert_path cmp x r (Frame 1 y b l # stack) = Inr stack'"
      by simp
    from \<open>0 < cmp x y\<close> have "cmp y x < 0"
      using cmp_swap [of y x] ok prems(4) by simp
    then have "cmp z x < 0" if "z \<in> set (inorder l)" for z
      using that prems ok cmp_trans [of z y x] by (simp add: list_all_iff)
    with \<open>cmp y x < 0\<close> prems(5)
    have before: "\<forall>z \<in> set (items_before (Frame 1 y b l # stack)). cmp z x < 0"
      by auto
    show ?thesis
      by (rule AvlNode.IH(2) [OF step ordl(2) ok(3) prems(4) before]) (use prems(6) in simp)
  qed
qed auto

lemma delete_path_find:
  "(case delete_path cmp x t stack of None \<Rightarrow> None | Some (p, s) \<Rightarrow> Some (nd_item p)) = find_node cmp x t"
  by (induction t arbitrary: stack) (auto simp: Let_def)

end

definition items :: "'a avl_tree \<Rightarrow> 'a list" where
  "items tr = inorder (avl_root tr)"

lemma min_path_leftmost: "map_option (\<lambda>(s, y, r). y) (min_path t stack) = leftmost t"
  by (induction t stack rule: min_path.induct) auto

lemma leftmost_hd: "leftmost t = (case inorder t of [] \<Rightarrow> None | x # _ \<Rightarrow> Some x)"
proof (induction t rule: leftmost.induct)
  case (3 v va vb vc y b r)
  then show ?case by (cases "inorder v") auto
qed auto

context item_order begin

lemma cmp_irrefl_less: "ok x \<Longrightarrow> \<not> cmp x x < 0"
  by (simp add: cmp_refl)

lemma filter_split:
  assumes "\<forall>y \<in> set as. cmp y x < 0" "\<forall>y \<in> set bs. cmp x y < 0" "ok x" "list_all ok (as @ bs)"
  shows "filter (\<lambda>y. cmp y x < 0) (as @ bs) = as" "filter (\<lambda>y. cmp x y < 0) (as @ bs) = bs"
proof -
  have ok: "\<And>z. z \<in> set as \<Longrightarrow> ok z" "\<And>z. z \<in> set bs \<Longrightarrow> ok z"
    using assms(4) by (auto simp: list_all_iff)
  have "\<not> cmp z x < 0" if "z \<in> set bs" for z
    using that assms(2,3) ok cmp_swap [of x z] by force
  then have "filter (\<lambda>y. cmp y x < 0) bs = []"
    by (simp add: filter_empty_conv)
  moreover have "\<not> cmp x z < 0" if "z \<in> set as" for z
    using that assms(1,3) ok cmp_swap [of z x] by force
  then have "filter (\<lambda>y. cmp x y < 0) as = []"
    by (simp add: filter_empty_conv)
  ultimately show "filter (\<lambda>y. cmp y x < 0) (as @ bs) = as"
    "filter (\<lambda>y. cmp x y < 0) (as @ bs) = bs"
    using assms(1,2) by (auto simp: filter_id_conv)
qed

lemma filter_delete:
  assumes "sorted_wrt (\<lambda>x y. cmp x y < 0) (as @ y # bs)" "list_all ok (as @ y # bs)" "ok x" "cmp x y = 0"
  shows "filter (\<lambda>z. cmp x z \<noteq> 0) (as @ y # bs) = as @ bs"
proof -
  have ok: "ok y" "\<And>z. z \<in> set as \<Longrightarrow> ok z" "\<And>z. z \<in> set bs \<Longrightarrow> ok z"
    using assms(2) by (auto simp: list_all_iff)
  have "cmp x z \<noteq> 0" if "z \<in> set as" for z
    using cmp_eq_less [of x z y] that assms(1,3,4) ok by (auto simp: sorted_wrt_append)
  moreover have "cmp x z \<noteq> 0" if "z \<in> set bs" for z
    using cmp_eq_less [of x y z] that assms(1,3,4) ok by (auto simp: sorted_wrt_append)
  ultimately show ?thesis
    using assms(4) by (auto simp: filter_id_conv)
qed

lemma find_sorted_iff:
  assumes "sorted_wrt (\<lambda>x y. cmp x y < 0) xs" "list_all ok xs" "ok x"
  shows "List.find (\<lambda>y. cmp x y = 0) xs = Some y \<longleftrightarrow> y \<in> set xs \<and> cmp x y = 0"
  using assms
proof (induction xs)
  case (Cons a xs)
  have "cmp x z \<noteq> 0" if "cmp x a = 0" "z \<in> set xs" for z
    using cmp_eq_less [of x a z] that Cons.prems by (auto simp: list_all_iff)
  with Cons show ?case by auto
qed simp

lemma findAvl_iff:
  assumes "avl_wf ok tr" "avl_compar tr = cmp" "ok x"
  shows "findAvl tr x = Some y \<longleftrightarrow> y \<in> set (items tr) \<and> cmp x y = 0"
  using assms find_node_eq [of "avl_root tr" x] find_sorted_iff [of "inorder (avl_root tr)" x y]
  by (simp add: findAvl_def avl_wf_def items_def ordered_def)

lemma insertAvl_hit:
  assumes "avl_compar tr = cmp" "findAvl tr x = Some y"
  shows "insertAvl tr x = Some (tr, Some y)"
  using assms insert_path_find [of x "avl_root tr" "[]" y] by (simp add: insertAvl_def findAvl_def)

lemma insertAvl_new:
  assumes wf: "avl_wf ok tr" and cmp: "avl_compar tr = cmp" and x: "ok x" and new: "findAvl tr x = None"
  shows "\<exists>tr'. insertAvl tr x = Some (tr', None) \<and> avl_wf ok tr' \<and> avl_compar tr' = cmp \<and>
    items tr' = filter (\<lambda>y. cmp y x < 0) (items tr) @ x # filter (\<lambda>y. cmp x y < 0) (items tr)"
proof -
  let ?t = "avl_root tr" and ?x = "AvlNode AvlNull x 0 AvlNull"
  have t: "avl ?t" "ordered cmp ?t" "list_all ok (inorder ?t)" "avl_n tr = int (length (inorder ?t))"
    using wf cmp by (auto simp: avl_wf_def)
  obtain stack where stack: "insert_path cmp x ?t [] = Inr stack"
    using insert_path_find [of x ?t "[]"] new cmp
    by (cases "insert_path cmp x ?t []") (auto simp: findAvl_def)
  have sides: "\<forall>y \<in> set (items_before stack). cmp y x < 0" "\<forall>y \<in> set (items_after stack). cmp x y < 0"
    using insert_path_sides [OF stack t(2,3) x] by auto
  have split: "inorder ?t = items_before stack @ items_after stack"
    using insert_path_items [OF stack] by simp
  have "grown 0 None ?x"
    by (simp add: grown_def)
  moreover have "stack_fits stack 0"
    using insert_path_fits [OF stack] t(1) by simp
  ultimately obtain t' where up: "insert_up stack None ?x = Some t'" and "avl t'"
    and io: "inorder t' = items_before stack @ x # items_after stack"
    using insert_up_ok [of 0 None ?x stack] by auto
  moreover have "ordered cmp t'"
    using t(2) sides x t(3) cmp_trans unfolding ordered_def io split
    by (auto simp: sorted_wrt_append list_all_iff)
  ultimately have "avl_wf ok (tr\<lparr>avl_root := t', avl_n := avl_n tr + 1\<rparr>)"
    using cmp t(3,4) x by (simp add: avl_wf_def io split)
  moreover have "insertAvl tr x = Some (tr\<lparr>avl_root := t', avl_n := avl_n tr + 1\<rparr>, None)"
    by (simp add: insertAvl_def cmp stack up)
  ultimately show ?thesis
    using filter_split [OF sides x] t(3) cmp by (auto simp: items_def io split)
qed

lemma deleteAvl_miss:
  assumes "avl_compar tr = cmp" "findAvl tr x = None"
  shows "deleteAvl tr x = Some (tr, None)"
  using assms delete_path_find [of x "avl_root tr" "[]"]
  by (auto simp: deleteAvl_def findAvl_def split: option.splits)

lemma deleteAvl_hit:
  assumes wf: "avl_wf ok tr" and cmp: "avl_compar tr = cmp" and x: "ok x" and old: "findAvl tr x = Some y"
  shows "\<exists>tr'. deleteAvl tr x = Some (tr', Some y) \<and> avl_wf ok tr' \<and> avl_compar tr' = cmp \<and>
    items tr' = filter (\<lambda>z. cmp x z \<noteq> 0) (items tr)"
proof -
  let ?t = "avl_root tr"
  have t: "avl ?t" "ordered cmp ?t" "list_all ok (inorder ?t)" "avl_n tr = int (length (inorder ?t))"
    using wf cmp by (auto simp: avl_wf_def)
  obtain p stack where path: "delete_path cmp x ?t [] = Some (p, stack)" "nd_item p = y"
    using delete_path_find [of x ?t "[]"] old cmp
    by (cases "delete_path cmp x ?t []") (auto simp: findAvl_def)
  then have p: "p \<noteq> AvlNull" "avl p" "stack_fits stack (height p)"
    using delete_path_ok [OF path(1)] t(1) by auto
  then obtain l b r where pn: "p = AvlNode l y b r"
    using path(2) by (cases p) auto
  obtain stack' t' where un: "unlink_node p stack = Some (stack', t')" "avl t'"
    "stack_fits stack' (Suc (height t'))"
    and io': "items_before stack' @ inorder t' @ items_after stack' =
      items_before stack @ inorder l @ inorder r @ items_after stack"
    using unlink_node_ok [of l y b r stack] p unfolding pn by auto
  obtain t'' where up: "delete_up stack' t' = Some t''" "avl t''"
    and io: "inorder t'' = items_before stack @ inorder l @ inorder r @ items_after stack"
    using delete_up_ok [OF un(2,3)] io' by auto
  have split: "inorder ?t = (items_before stack @ inorder l) @ y # inorder r @ items_after stack"
    using delete_path_items [OF path(1)] by (simp add: pn)
  have "y \<in> set (items tr)" "cmp x y = 0"
    using findAvl_iff [OF wf cmp x] old by auto
  then have io2: "inorder t'' = filter (\<lambda>z. cmp x z \<noteq> 0) (inorder ?t)"
    using filter_delete [of "items_before stack @ inorder l" y "inorder r @ items_after stack" x] t(2,3) x
    by (simp add: io split ordered_def)
  have "ordered cmp t''" "list_all ok (inorder t'')"
    using t(2,3) unfolding ordered_def io2 by (auto simp: sorted_wrt_filter list_all_iff)
  then have "avl_wf ok (tr\<lparr>avl_root := t'', avl_n := avl_n tr - 1\<rparr>)"
    using up(2) cmp t(4) by (simp add: avl_wf_def io split)
  moreover have "deleteAvl tr x = Some (tr\<lparr>avl_root := t'', avl_n := avl_n tr - 1\<rparr>, Some y)"
    by (simp add: deleteAvl_def cmp path un(1) up(1))
  ultimately show ?thesis
    using io2 cmp by (auto simp: items_def)
qed

lemma deleteMinAvl_ok:
  assumes wf: "avl_wf ok tr" and cmp: "avl_compar tr = cmp"
  shows "\<exists>tr'. deleteMinAvl tr = Some (tr', findMinAvl tr) \<and> avl_wf ok tr' \<and>
    avl_compar tr' = cmp \<and> items tr' = tl (items tr)"
proof (cases "avl_root tr")
  case AvlNull
  with wf cmp show ?thesis
    by (auto simp: deleteMinAvl_def findMinAvl_def items_def)
next
  case (AvlNode l y b r)
  let ?t = "avl_root tr"
  obtain stack m mr where path: "min_path ?t [] = Some (stack, m, mr)"
    using min_path_total [of ?t "[]"] AvlNode by auto
  have "avl ?t" "ordered cmp ?t" "list_all ok (inorder ?t)" "avl_n tr = int (length (inorder ?t))"
    using wf cmp by (auto simp: avl_wf_def)
  moreover then have "avl mr" "stack_fits stack (Suc (height mr))"
    using min_path_ok [OF path] by auto
  moreover have io: "inorder ?t = m # inorder mr @ items_after stack" "items_before stack = []"
    using min_path_items [OF path] by simp_all
  moreover have "deleteMin_up stack mr = delete_up stack mr"
    using min_path_paths [OF path] \<open>stack_fits stack _\<close> deleteMin_up_eq by auto
  ultimately obtain t' where up: "deleteMin_up stack mr = Some t'" "avl t'"
    "inorder t' = inorder mr @ items_after stack"
    using delete_up_ok [of mr stack] by auto
  moreover have "findMinAvl tr = Some m"
    by (simp add: findMinAvl_def leftmost_hd io)
  moreover have "deleteMinAvl tr = Some (tr\<lparr>avl_root := t', avl_n := avl_n tr - 1\<rparr>, Some m)"
    by (simp add: deleteMinAvl_def path up)
  ultimately show ?thesis
    using wf cmp io by (auto simp: avl_wf_def items_def ordered_def)
qed

end

text \<open>The height is at most twice the logarithm of the number of nodes.\<close>

lemma avl_height_bound: "avl t \<Longrightarrow> 2 ^ (height t div 2) \<le> length (inorder t) + 1"
proof (induction t)
  case (AvlNode l y b r)
  have "(2::nat) ^ (height (AvlNode l y b r) div 2) \<le> 2 * 2 ^ (min (height l) (height r) div 2)"
  proof -
    have "height (AvlNode l y b r) div 2 \<le> Suc (min (height l) (height r) div 2)"
      using AvlNode.prems by (auto simp: leans_def min_def max_def)
    then have "(2::nat) ^ (height (AvlNode l y b r) div 2) \<le> 2 ^ Suc (min (height l) (height r) div 2)"
      by (rule power_increasing) simp
    then show ?thesis by simp
  qed
  also have "\<dots> \<le> 2 ^ (height l div 2) + 2 ^ (height r div 2)"
    by (cases "height l \<le> height r") (auto simp: min_def intro!: power_increasing div_le_mono)
  finally show ?case using AvlNode by simp
qed simp

lemma insert_path_length: "insert_path cmp x t stack = Inr stack' \<Longrightarrow> length stack' \<le> length stack + height t"
  by (induction cmp x t stack rule: insert_path.induct) (auto simp: Let_def split: if_splits)

lemma delete_path_length:
  "delete_path cmp x t stack = Some (p, stack') \<Longrightarrow> length stack' + height p \<le> length stack + height t"
  by (induction cmp x t stack rule: delete_path.induct) (auto simp: Let_def split: if_splits)

lemma min_path_length:
  "min_path t stack = Some (stack', y, r) \<Longrightarrow> Suc (length stack') \<le> length stack + height t"
  by (induction t stack rule: min_path.induct) auto

lemma free_loop_items: "mset (free_loop stack) = mset (concat (map inorder stack))"
  by (induction stack rule: free_loop.induct) auto

context item_order begin

lemma findAvl_None_iff:
  assumes "avl_wf ok tr" "avl_compar tr = cmp" "ok x"
  shows "findAvl tr x = None \<longleftrightarrow> (\<forall>y \<in> set (items tr). cmp x y \<noteq> 0)"
  using findAvl_iff [OF assms] by (metis not_None_eq)

lemma items_ok: "avl_wf ok tr \<Longrightarrow> y \<in> set (items tr) \<Longrightarrow> ok y"
  by (auto simp: avl_wf_def items_def list_all_iff)

lemma cmp_eq_trans:
  assumes ok: "ok x" "ok y" "ok z" and eq: "cmp x y = 0" "cmp y z = 0"
  shows "cmp x z = 0"
proof (rule ccontr)
  assume "cmp x z \<noteq> 0"
  then consider "cmp x z < 0" | "cmp z x < 0"
    using cmp_swap [of z x] ok by linarith
  then show False
  proof cases
    case 1
    then show False using cmp_less_eq [of x z y] ok eq cmp_eq_sym [of y z] by simp
  next
    case 2
    then show False using cmp_less_eq [of z x y] ok eq cmp_eq_sym [of y z] by simp
  qed
qed

lemma insertAvl_new_items:
  assumes "avl_wf ok tr" "avl_compar tr = cmp" "ok x" "findAvl tr x = None"
    and "items tr' = filter (\<lambda>y. cmp y x < 0) (items tr) @ x # filter (\<lambda>y. cmp x y < 0) (items tr)"
  shows "set (items tr') = insert x (set (items tr))"
proof -
  have "cmp y x < 0 \<or> cmp x y < 0" if "y \<in> set (items tr)" for y
    using that findAvl_None_iff [OF assms(1-3)] assms(4) cmp_swap [of x y] cmp_swap [of y x]
      items_ok [OF assms(1) that] assms(3) by (metis linorder_neqE)
  with assms(5) show ?thesis by auto
qed

lemma findAvl_insert:
  assumes wf: "avl_wf ok tr" "avl_compar tr = cmp" "avl_wf ok tr'" "avl_compar tr' = cmp"
    and x: "ok x" "findAvl tr x = None" and ins: "set (items tr') = insert x (set (items tr))"
    and z: "ok z"
  shows "findAvl tr' z = (if cmp z x = 0 then Some x else findAvl tr z)"
proof -
  have "cmp z y \<noteq> 0" if "cmp z x = 0" "y \<in> set (items tr)" for y
    using that findAvl_None_iff [OF wf(1,2) x(1)] x cmp_eq_trans [of x z y] cmp_eq_sym [of x z]
      items_ok [OF wf(1) that(2)] z by auto
  then have "findAvl tr' z = Some y \<longleftrightarrow> (if cmp z x = 0 then Some x else findAvl tr z) = Some y" for y
    using findAvl_iff [OF wf(3,4) z, of y] findAvl_iff [OF wf(1,2) z, of y] ins by auto
  then show ?thesis by (metis option.exhaust)
qed

lemma findAvl_delete:
  assumes wf: "avl_wf ok tr" "avl_compar tr = cmp" "avl_wf ok tr'" "avl_compar tr' = cmp"
    and x: "ok x" and del: "items tr' = filter (\<lambda>z. cmp x z \<noteq> 0) (items tr)" and z: "ok z"
  shows "findAvl tr' z = (if cmp z x = 0 then None else findAvl tr z)"
proof -
  have "cmp x y = 0 \<longleftrightarrow> cmp z x = 0" if "cmp z y = 0" "y \<in> set (items tr)" for y
    using that x z items_ok [OF wf(1) that(2)] cmp_eq_trans [of x z y] cmp_eq_trans [of z y x]
      cmp_eq_sym [of x z] cmp_eq_sym [of x y] by metis
  then have "findAvl tr' z = Some y \<longleftrightarrow> (if cmp z x = 0 then None else findAvl tr z) = Some y" for y
    using findAvl_iff [OF wf(3,4) z, of y] findAvl_iff [OF wf(1,2) z, of y] del by auto
  then show ?thesis by (metis option.exhaust)
qed

lemma insertAvl_spec:
  assumes wf: "avl_wf ok tr" "avl_compar tr = cmp" and x: "ok x"
  shows "\<exists>tr'. insertAvl tr x = Some (tr', findAvl tr x) \<and> avl_wf ok tr' \<and> avl_compar tr' = cmp \<and>
    (\<forall>z. ok z \<longrightarrow> findAvl tr' z =
       (if cmp z x = 0 \<and> findAvl tr x = None then Some x else findAvl tr z))"
proof (cases "findAvl tr x")
  case None
  then obtain tr' where tr': "insertAvl tr x = Some (tr', None)" "avl_wf ok tr'" "avl_compar tr' = cmp"
    "set (items tr') = insert x (set (items tr))"
    using insertAvl_new [OF wf x] insertAvl_new_items [OF wf x] by blast
  then have "\<forall>z. ok z \<longrightarrow> findAvl tr' z = (if cmp z x = 0 then Some x else findAvl tr z)"
    using findAvl_insert [OF wf tr'(2,3) x None tr'(4)] by blast
  with None tr' show ?thesis by auto
next
  case (Some y)
  then have "insertAvl tr x = Some (tr, Some y)"
    by (rule insertAvl_hit [OF wf(2)])
  with Some wf show ?thesis by simp
qed

lemma deleteAvl_spec:
  assumes wf: "avl_wf ok tr" "avl_compar tr = cmp" and x: "ok x"
  shows "\<exists>tr'. deleteAvl tr x = Some (tr', findAvl tr x) \<and> avl_wf ok tr' \<and> avl_compar tr' = cmp \<and>
    (\<forall>z. ok z \<longrightarrow> findAvl tr' z = (if cmp z x = 0 then None else findAvl tr z))"
proof (cases "findAvl tr x")
  case None
  then have "deleteAvl tr x = Some (tr, None)"
    by (rule deleteAvl_miss [OF wf(2)])
  moreover have "findAvl tr z = (if cmp z x = 0 then None else findAvl tr z)" if "ok z" for z
    using findAvl_delete [OF wf wf x _ that] None findAvl_None_iff [OF wf x]
    by (simp add: filter_id_conv)
  ultimately show ?thesis using wf None by simp
next
  case (Some y)
  then obtain tr' where tr': "deleteAvl tr x = Some (tr', Some y)" "avl_wf ok tr'"
    "avl_compar tr' = cmp" "items tr' = filter (\<lambda>z. cmp x z \<noteq> 0) (items tr)"
    using deleteAvl_hit [OF wf x] by blast
  then have "\<forall>z. ok z \<longrightarrow> findAvl tr' z = (if cmp z x = 0 then None else findAvl tr z)"
    using findAvl_delete [OF wf tr'(2,3) x tr'(4)] by blast
  with Some tr' show ?thesis by auto
qed

end

interpretation strcmp_order: item_order strcmp "\<lambda>_. True"
proof unfold_locales
  show "0 < strcmp y x \<longleftrightarrow> strcmp x y < 0" for x y
    using strcmp_swap [of y x] by simp
qed (simp_all, blast intro: strcmp_trans)

lemma height_le_63:
  assumes "avl t" "int (length (inorder t)) < 2 ^ 31"
  shows "height t \<le> 63"
proof -
  have "length (inorder t) < 2 ^ 31"
    using assms(2) by simp
  then have "(2::nat) ^ (height t div 2) < 2 ^ 32"
    using avl_height_bound [OF assms(1)] by simp
  then have "height t div 2 < 32"
    by (rule power_less_imp_less_exp [rotated]) simp
  then show ?thesis by simp
qed

lemma unlink_node_length:
  "unlink_node p stack = Some (stack', u) \<Longrightarrow> length stack' \<le> length stack + height p"
proof (cases p)
  case (AvlNode l y b r)
  assume "unlink_node p stack = Some (stack', u)"
  with AvlNode show ?thesis
    using min_path_length [of r "[]"] by (fastforce split: if_splits option.splits)
qed simp

section \<open>Properties\<close>

text \<open>
  C1. \<open>insertAvl\<close> never dereferences NULL, keeps the tree a well-formed AVL search tree,
  returns the item already stored under an equal key (and then changes nothing) or NULL, and
  afterwards a search finds the new item under its key and every other key as before.
\<close>

theorem insertAvl_correct:
  assumes "item_order cmp ok" "avl_wf ok tr" "avl_compar tr = cmp" "ok x"
  shows "\<exists>tr'. insertAvl tr x = Some (tr', findAvl tr x) \<and> avl_wf ok tr' \<and> avl_compar tr' = cmp \<and>
    (\<forall>z. ok z \<longrightarrow> findAvl tr' z =
       (if cmp z x = 0 \<and> findAvl tr x = None then Some x else findAvl tr z))"
  using assms by (rule item_order.insertAvl_spec)

definition sample_tree :: "string avl_tree" where
  "sample_tree = \<lparr>avl_root = AvlNode AvlNull ''a'' 1 (AvlNode AvlNull ''b'' 0 AvlNull),
     avl_n = 2, avl_compar = strcmp\<rparr>"

lemma sample_tree_wf: "avl_wf (\<lambda>_. True) sample_tree" "avl_compar sample_tree = strcmp"
  by (simp_all add: avl_wf_def sample_tree_def)

theorem insertAvl_correct_witness:
  "\<exists>tr'. insertAvl sample_tree ''c'' = Some (tr', None) \<and> avl_wf (\<lambda>_. True) tr' \<and>
     findAvl tr' ''c'' = Some ''c'' \<and> findAvl tr' ''a'' = Some ''a''"
proof -
  have none: "findAvl sample_tree ''c'' = None" "findAvl sample_tree ''a'' = Some ''a''"
    by (simp_all add: findAvl_def sample_tree_def Let_def)
  obtain tr' where "insertAvl sample_tree ''c'' = Some (tr', findAvl sample_tree ''c'')"
    "avl_wf (\<lambda>_. True) tr'"
    "\<forall>z. findAvl tr' z = (if strcmp z ''c'' = 0 \<and> findAvl sample_tree ''c'' = None
       then Some ''c'' else findAvl sample_tree z)"
    using insertAvl_correct [OF strcmp_order.item_order_axioms sample_tree_wf, of "''c''"] by auto
  then show ?thesis using none by auto
qed

text \<open>
  C2. \<open>deleteAvl\<close> never dereferences NULL, keeps the tree well formed, returns the item
  stored under an equal key or NULL, and afterwards that key is not found while every other
  key is found as before.
\<close>

theorem deleteAvl_correct:
  assumes "item_order cmp ok" "avl_wf ok tr" "avl_compar tr = cmp" "ok x"
  shows "\<exists>tr'. deleteAvl tr x = Some (tr', findAvl tr x) \<and> avl_wf ok tr' \<and> avl_compar tr' = cmp \<and>
    (\<forall>z. ok z \<longrightarrow> findAvl tr' z = (if cmp z x = 0 then None else findAvl tr z))"
  using assms by (rule item_order.deleteAvl_spec)

theorem deleteAvl_correct_witness:
  "\<exists>tr'. deleteAvl sample_tree ''a'' = Some (tr', Some ''a'') \<and> avl_wf (\<lambda>_. True) tr' \<and>
     findAvl tr' ''a'' = None \<and> findAvl tr' ''b'' = Some ''b''"
proof -
  have found: "findAvl sample_tree ''a'' = Some ''a''" "findAvl sample_tree ''b'' = Some ''b''"
    by (simp_all add: findAvl_def sample_tree_def Let_def)
  obtain tr' where "deleteAvl sample_tree ''a'' = Some (tr', findAvl sample_tree ''a'')"
    "avl_wf (\<lambda>_. True) tr'"
    "\<forall>z. findAvl tr' z = (if strcmp z ''a'' = 0 then None else findAvl sample_tree z)"
    using deleteAvl_correct [OF strcmp_order.item_order_axioms sample_tree_wf, of "''a''"] by auto
  then show ?thesis using found by auto
qed

text \<open>
  \<open>deleteMinAvl\<close> never dereferences NULL, keeps the tree well formed, returns the
  item \<open>findMinAvl\<close> reports, which is the first in the order, and leaves the others in order.
\<close>

lemma deleteMinAvl_correct:
  assumes "item_order cmp ok" "avl_wf ok tr" "avl_compar tr = cmp"
  shows "\<exists>tr'. deleteMinAvl tr = Some (tr', findMinAvl tr) \<and> avl_wf ok tr' \<and>
    avl_compar tr' = cmp \<and> items tr' = tl (items tr) \<and>
    findMinAvl tr = (case items tr of [] \<Rightarrow> None | x # _ \<Rightarrow> Some x)"
  using item_order.deleteMinAvl_ok [OF assms] by (simp add: findMinAvl_def leftmost_hd items_def)

lemma deleteMinAvl_example:
  "\<exists>tr'. deleteMinAvl sample_tree = Some (tr', Some ''a'') \<and> items tr' = [''b'']"
  using deleteMinAvl_correct [OF strcmp_order.item_order_axioms sample_tree_wf]
  by (auto simp: items_def sample_tree_def)



text \<open>\<open>freeAvl\<close> frees every node of the tree exactly once.\<close>

lemma freeAvl_frees_all: "mset (freeAvl tr) = mset (items tr)"
  by (simp add: freeAvl_def items_def free_loop_items)

end
