(* ===== verification/HashTable.thy ===== *)
theory HashTable
  imports Prelude "HOL-Library.Multiset"
begin

unbundle bit_operations_syntax

text \<open>
  The hash table of \<open>src/sfcUtil/hashtable.c\<close> and its front end
  \<open>src/sfcUtil/utilHashtable.c\<close>. The chain hanging off a slot of \<open>bucketArray\<close> is a
  list of key/value pairs, first pair first. Keys and values are pointers, compared for
  identity with \<open>=\<close>; what they point to is seen through the functions stored in the table.
  The deallocation functions are modelled by their calls: each operation returns the list
  of the pointers it releases. A failed assertion is \<^term>\<open>None\<close>, and whether an allocation
  succeeds is an argument. Sizes are the exact numbers the C \<open>long\<close> fields hold.
\<close>

section \<open>Data\<close>

datatype ('k, 'v) released = KeyReleased 'k | ValueReleased 'v

text \<open>A chain is the list of pairs one bucket points to; the bucket array holds the chains.\<close>

type_synonym ('k, 'v) chain = "('k \<times> 'v) list"
type_synonym ('k, 'v) buckets = "('k, 'v) chain list"

record ('k, 'v) hash_table =
  numOfBuckets :: int
  numOfElements :: int
  bucketArray :: "('k, 'v) buckets"
  idealRatio :: rat
  lowerRehashThreshold :: rat
  upperRehashThreshold :: rat
  keycmp :: "'k \<Rightarrow> 'k \<Rightarrow> int"
  valuecmp :: "'v \<Rightarrow> 'v \<Rightarrow> int"
  hashFunction :: "'k \<Rightarrow> 64 word"
  keyDeallocator :: bool
  valueDeallocator :: bool

section \<open>Operations of the table\<close>

definition pointercmp :: "'p \<Rightarrow> 'p \<Rightarrow> int" where
  "pointercmp p1 p2 = (if p1 \<noteq> p2 then 1 else 0)"

text \<open>\<open>address\<close> gives the numeric value of a pointer, which the default hash function shifts.\<close>

definition pointerHashFunction :: "('k \<Rightarrow> 64 word) \<Rightarrow> 'k \<Rightarrow> 64 word" where
  "pointerHashFunction address pointer = drop_bit 4 (address pointer)"

definition HashTableCreate :: "('k \<Rightarrow> 64 word) \<Rightarrow> int \<Rightarrow> ('k, 'v) hash_table option" where
  "HashTableCreate address nBuckets =
     (if nBuckets > 0 then
        Some \<lparr>numOfBuckets = nBuckets, numOfElements = 0,
          bucketArray = replicate (nat nBuckets) [],
          idealRatio = 3, lowerRehashThreshold = 0, upperRehashThreshold = 15,
          keycmp = pointercmp, valuecmp = pointercmp,
          hashFunction = pointerHashFunction address,
          keyDeallocator = False, valueDeallocator = False\<rparr>
      else None)"

definition bucket_index :: "('k \<Rightarrow> 64 word) \<Rightarrow> int \<Rightarrow> 'k \<Rightarrow> nat" where
  "bucket_index hash nBuckets key = nat (uint (hash key) mod nBuckets)"

fun chain_find :: "('k \<Rightarrow> 'k \<Rightarrow> int) \<Rightarrow> 'k \<Rightarrow> ('k, 'v) chain \<Rightarrow> ('k \<times> 'v) option" where
  "chain_find cmp key [] = None"
| "chain_find cmp key (pair # next) =
     (if cmp key (fst pair) \<noteq> 0 then chain_find cmp key next else Some pair)"

definition chain_of :: "('k, 'v) hash_table \<Rightarrow> 'k \<Rightarrow> ('k, 'v) chain" where
  "chain_of ht key = bucketArray ht ! bucket_index (hashFunction ht) (numOfBuckets ht) key"

definition HashTableGet :: "('k, 'v) hash_table \<Rightarrow> 'k \<Rightarrow> 'v option" where
  "HashTableGet ht key = map_option snd (chain_find (keycmp ht) key (chain_of ht key))"

definition HashTableContainsKey :: "('k, 'v) hash_table \<Rightarrow> 'k \<Rightarrow> bool" where
  "HashTableContainsKey ht key = (HashTableGet ht key \<noteq> None)"

fun chain_has_value :: "('v \<Rightarrow> 'v \<Rightarrow> int) \<Rightarrow> 'v \<Rightarrow> ('k, 'v) chain \<Rightarrow> bool" where
  "chain_has_value cmp value [] = False"
| "chain_has_value cmp value (pair # next) =
     (if cmp value (snd pair) = 0 then True else chain_has_value cmp value next)"

fun any_chain_has_value :: "('v \<Rightarrow> 'v \<Rightarrow> int) \<Rightarrow> 'v \<Rightarrow> ('k, 'v) buckets \<Rightarrow> bool" where
  "any_chain_has_value cmp value [] = False"
| "any_chain_has_value cmp value (c # cs) =
     (if chain_has_value cmp value c then True else any_chain_has_value cmp value cs)"

definition HashTableContainsValue :: "('k, 'v) hash_table \<Rightarrow> 'v \<Rightarrow> bool" where
  "HashTableContainsValue ht value = any_chain_has_value (valuecmp ht) value (bucketArray ht)"

subsection \<open>Rehashing\<close>

function isProbablePrime_loop :: "int \<Rightarrow> int \<Rightarrow> bool" where
  "isProbablePrime_loop oddNumber i =
     (if i < 51 then
        (if oddNumber = i then True
         else if oddNumber mod i = 0 then False
         else isProbablePrime_loop oddNumber (i + 2))
      else True)"
  by pat_completeness auto
termination
  by (relation "measure (\<lambda>(n, i). nat (51 - i))") auto

declare isProbablePrime_loop.simps [simp del]

definition isProbablePrime :: "int \<Rightarrow> bool" where
  "isProbablePrime oddNumber = isProbablePrime_loop oddNumber 3"

text \<open>The numbers the loop divides by.\<close>

definition probes :: "int list" where
  "probes = [3, 5, 7, 9, 11, 13, 15, 17, 19, 21, 23, 25, 27, 29, 31, 33, 35, 37, 39, 41, 43, 45, 47, 49]"

lemma isProbablePrime_loop_unroll:
  "isProbablePrime_loop n 51 = True"
  "i < 51 \<Longrightarrow> isProbablePrime_loop n i =
     (n = i \<or> n mod i \<noteq> 0 \<and> isProbablePrime_loop n (i + 2))"
  by (subst isProbablePrime_loop.simps; simp)+

lemma isProbablePrime_if_no_divisor: "\<forall>i \<in> set probes. n mod i \<noteq> 0 \<Longrightarrow> isProbablePrime n"
  by (simp add: isProbablePrime_def probes_def isProbablePrime_loop_unroll)

text \<open>
  The upward search ends: within any run of numbers of one parity there is one that leaves
  the remainder 1 on division by the product of all probes.
\<close>

lemma probes_odd: "odd (prod_list probes)"
  by (simp add: probes_def)

lemma odd_half: "odd (x :: int) \<Longrightarrow> 2 * ((x + 1) div 2) = x + 1"
  by presburger

lemma probe_dvd: "i \<in> set probes \<Longrightarrow> i dvd prod_list probes"
  by (metis dvd_mult2 dvd_triv_left in_set_conv_decomp prod_list.Cons prod_list.append mult.left_commute)

lemma candidate_exists: "\<exists>k::nat. isProbablePrime (n + 2 * int k)"
proof -
  let ?L = "prod_list probes"
  have pos: "0 < ?L" by (simp add: probes_def)
  define k where "k = ((1 - n) * ((?L + 1) div 2)) mod ?L"
  have "k mod ?L = ((1 - n) * ((?L + 1) div 2)) mod ?L"
    by (simp add: k_def)
  then have "(2 * k) mod ?L = ((1 - n) * (2 * ((?L + 1) div 2))) mod ?L"
    by (metis mod_mult_right_eq mult.left_commute)
  moreover have "2 * ((?L + 1) div 2) = ?L + 1"
    using odd_half [OF probes_odd] .
  ultimately have "(2 * k) mod ?L = (1 - n) mod ?L"
    by (simp add: distrib_left)
  then have "(n + 2 * k) mod ?L = (n + (1 - n)) mod ?L"
    by (metis mod_add_right_eq)
  then have L: "(n + 2 * k) mod ?L = 1 mod ?L" by simp
  have "(n + 2 * k) mod i \<noteq> 0" if "i \<in> set probes" for i
  proof -
    have "(n + 2 * k) mod i = 1 mod i"
      using L probe_dvd [OF that] by (metis mod_mod_cancel)
    with that show ?thesis by (auto simp: probes_def)
  qed
  then have "isProbablePrime (n + 2 * k)"
    by (simp add: isProbablePrime_if_no_divisor)
  moreover have "0 \<le> k" using pos by (simp add: k_def)
  ultimately show ?thesis by (metis int_nat_eq)
qed

function next_candidate :: "int \<Rightarrow> int" where
  "next_candidate n = (if isProbablePrime n then n else next_candidate (n + 2))"
  by pat_completeness auto
termination
proof (relation "measure (\<lambda>n. LEAST k. isProbablePrime (n + 2 * int k))")
  fix n
  assume no: "\<not> isProbablePrime n"
  obtain k where k: "isProbablePrime (n + 2 * int k)" "(LEAST k. isProbablePrime (n + 2 * int k)) = k"
    using LeastI_ex [OF candidate_exists [of n]] by blast
  with no obtain j where "k = Suc j" by (cases k) auto
  with k have "isProbablePrime (n + 2 + 2 * int j)"
    by (simp add: algebra_simps)
  then have "(LEAST k. isProbablePrime (n + 2 + 2 * int k)) \<le> j"
    by (rule Least_le)
  with k \<open>k = Suc j\<close>
  show "(n + 2, n) \<in> measure (\<lambda>n. LEAST k. isProbablePrime (n + 2 * int k))"
    by simp
qed simp

declare next_candidate.simps [simp del]

definition calculateIdealNumOfBuckets :: "('k, 'v) hash_table \<Rightarrow> int" where
  "calculateIdealNumOfBuckets ht =
     (let ideal = \<lfloor>float32_div (float32 (of_int (numOfElements ht))) (idealRatio ht)\<rfloor>
      in next_candidate (if ideal < 5 then 5 else ideal OR 1))"

text \<open>Moving the pairs of one chain, then of all chains, to the front of their new chains.\<close>

fun rehash_chain :: "('k \<Rightarrow> 64 word) \<Rightarrow> int \<Rightarrow> ('k, 'v) chain \<Rightarrow> ('k, 'v) buckets
    \<Rightarrow> ('k, 'v) buckets" where
  "rehash_chain hash nBuckets [] new = new"
| "rehash_chain hash nBuckets (pair # next) new =
     (let h = bucket_index hash nBuckets (fst pair)
      in rehash_chain hash nBuckets next (new[h := pair # new ! h]))"

fun rehash_chains :: "('k \<Rightarrow> 64 word) \<Rightarrow> int \<Rightarrow> ('k, 'v) buckets \<Rightarrow> ('k, 'v) buckets
    \<Rightarrow> ('k, 'v) buckets" where
  "rehash_chains hash nBuckets [] new = new"
| "rehash_chains hash nBuckets (c # cs) new =
     rehash_chains hash nBuckets cs (rehash_chain hash nBuckets c new)"

definition HashTableRehash :: "bool \<Rightarrow> ('k, 'v) hash_table \<Rightarrow> int \<Rightarrow> ('k, 'v) hash_table option" where
  "HashTableRehash alloc ht nBuckets =
     (if nBuckets < 0 then None
      else (let nb = (if nBuckets = 0 then calculateIdealNumOfBuckets ht else nBuckets) in
        if nb = numOfBuckets ht then Some ht
        else if \<not> alloc then Some ht
        else Some (ht\<lparr>bucketArray :=
               rehash_chains (hashFunction ht) nb (bucketArray ht) (replicate (nat nb) []),
             numOfBuckets := nb\<rparr>)))"

subsection \<open>Storing and removing\<close>

definition release_key :: "('k, 'v) hash_table \<Rightarrow> 'k \<Rightarrow> ('k, 'v) released list" where
  "release_key ht k = (if keyDeallocator ht then [KeyReleased k] else [])"

definition release_value :: "('k, 'v) hash_table \<Rightarrow> 'v \<Rightarrow> ('k, 'v) released list" where
  "release_value ht v = (if valueDeallocator ht then [ValueReleased v] else [])"

fun chain_store :: "('k \<Rightarrow> 'k \<Rightarrow> int) \<Rightarrow> 'k \<Rightarrow> 'v \<Rightarrow> ('k, 'v) chain \<Rightarrow> ('k, 'v) chain" where
  "chain_store cmp key value [] = []"
| "chain_store cmp key value (pair # next) =
     (if cmp key (fst pair) \<noteq> 0 then pair # chain_store cmp key value next else (key, value) # next)"

definition HashTablePut :: "bool \<Rightarrow> bool \<Rightarrow> ('k, 'v) hash_table \<Rightarrow> 'k \<Rightarrow> 'v
    \<Rightarrow> (('k, 'v) hash_table \<times> int \<times> ('k, 'v) released list) option" where
  "HashTablePut alloc_pair alloc_array ht key value =
     (let h = bucket_index (hashFunction ht) (numOfBuckets ht) key;
          chain = bucketArray ht ! h
      in case chain_find (keycmp ht) key chain of
        Some (k, v) \<Rightarrow>
          Some (ht\<lparr>bucketArray := (bucketArray ht)[h := chain_store (keycmp ht) key value chain]\<rparr>, 0,
            (if k \<noteq> key then release_key ht k else []) @
            (if v \<noteq> value then release_value ht v else []))
      | None \<Rightarrow>
          if \<not> alloc_pair then Some (ht, -1, [])
          else (let ht' = ht\<lparr>bucketArray := (bucketArray ht)[h := (key, value) # chain],
                          numOfElements := numOfElements ht + 1\<rparr>
            in if upperRehashThreshold ht' > idealRatio ht' \<and>
                  float32_div (float32 (of_int (numOfElements ht'))) (float32 (of_int (numOfBuckets ht')))
                    > upperRehashThreshold ht'
               then map_option (\<lambda>ht''. (ht'', 0, [])) (HashTableRehash alloc_array ht' 0)
               else Some (ht', 0, [])))"

fun chain_remove :: "('k \<Rightarrow> 'k \<Rightarrow> int) \<Rightarrow> 'k \<Rightarrow> ('k, 'v) chain \<Rightarrow> ('k, 'v) chain" where
  "chain_remove cmp key [] = []"
| "chain_remove cmp key (pair # next) =
     (if cmp key (fst pair) \<noteq> 0 then pair # chain_remove cmp key next else next)"

definition HashTableRemove :: "bool \<Rightarrow> ('k, 'v) hash_table \<Rightarrow> 'k
    \<Rightarrow> (('k, 'v) hash_table \<times> ('k, 'v) released list) option" where
  "HashTableRemove alloc_array ht key =
     (let h = bucket_index (hashFunction ht) (numOfBuckets ht) key;
          chain = bucketArray ht ! h
      in case chain_find (keycmp ht) key chain of
        None \<Rightarrow> Some (ht, [])
      | Some (k, v) \<Rightarrow>
          (let ht' = ht\<lparr>bucketArray := (bucketArray ht)[h := chain_remove (keycmp ht) key chain],
                      numOfElements := numOfElements ht - 1\<rparr>;
               rel = release_key ht k @ release_value ht v
           in if lowerRehashThreshold ht' > 0 \<and>
                 float32_div (float32 (of_int (numOfElements ht'))) (float32 (of_int (numOfBuckets ht')))
                   < lowerRehashThreshold ht'
              then map_option (\<lambda>ht''. (ht'', rel)) (HashTableRehash alloc_array ht' 0)
              else Some (ht', rel)))"

fun release_chain :: "('k, 'v) hash_table \<Rightarrow> ('k, 'v) chain \<Rightarrow> ('k, 'v) released list" where
  "release_chain ht [] = []"
| "release_chain ht (pair # next) =
     release_key ht (fst pair) @ release_value ht (snd pair) @ release_chain ht next"

definition HashTableRemoveAll :: "bool \<Rightarrow> ('k, 'v) hash_table
    \<Rightarrow> (('k, 'v) hash_table \<times> ('k, 'v) released list) option" where
  "HashTableRemoveAll alloc_array ht =
     map_option (\<lambda>ht'. (ht', concat (map (release_chain ht) (bucketArray ht))))
       (HashTableRehash alloc_array
         (ht\<lparr>bucketArray := map (\<lambda>_. []) (bucketArray ht), numOfElements := 0\<rparr>) 5)"

definition HashTableDestroy :: "('k, 'v) hash_table \<Rightarrow> ('k, 'v) released list" where
  "HashTableDestroy ht = concat (map (release_chain ht) (bucketArray ht))"

definition HashTableIsEmpty :: "('k, 'v) hash_table \<Rightarrow> bool" where
  "HashTableIsEmpty ht = (numOfElements ht = 0)"

definition HashTableSize :: "('k, 'v) hash_table \<Rightarrow> int" where
  "HashTableSize ht = numOfElements ht"

definition HashTableGetNumBuckets :: "('k, 'v) hash_table \<Rightarrow> int" where
  "HashTableGetNumBuckets ht = numOfBuckets ht"

definition HashTableSetKeyComparisonFunction ::
    "('k, 'v) hash_table \<Rightarrow> ('k \<Rightarrow> 'k \<Rightarrow> int) \<Rightarrow> ('k, 'v) hash_table" where
  "HashTableSetKeyComparisonFunction ht cmp = ht\<lparr>keycmp := cmp\<rparr>"

definition HashTableSetValueComparisonFunction ::
    "('k, 'v) hash_table \<Rightarrow> ('v \<Rightarrow> 'v \<Rightarrow> int) \<Rightarrow> ('k, 'v) hash_table" where
  "HashTableSetValueComparisonFunction ht cmp = ht\<lparr>valuecmp := cmp\<rparr>"

definition HashTableSetHashFunction ::
    "('k, 'v) hash_table \<Rightarrow> ('k \<Rightarrow> 64 word) \<Rightarrow> ('k, 'v) hash_table" where
  "HashTableSetHashFunction ht hash = ht\<lparr>hashFunction := hash\<rparr>"

definition HashTableSetDeallocationFunctions ::
    "('k, 'v) hash_table \<Rightarrow> bool \<Rightarrow> bool \<Rightarrow> ('k, 'v) hash_table" where
  "HashTableSetDeallocationFunctions ht kd vd = ht\<lparr>keyDeallocator := kd, valueDeallocator := vd\<rparr>"

subsection \<open>Iteration\<close>

text \<open>An iterator: the current bucket and the chain from the current pair on.\<close>

record ('k, 'v) hash_iter =
  it_bucket :: int
  it_pair :: "('k, 'v) chain"

text \<open>The scan of \<open>hashTableGetFirst\<close> from the bucket \<open>b\<close> on; \<open>cs\<close> are the chains left.\<close>

fun first_from :: "int \<Rightarrow> ('k, 'v) buckets \<Rightarrow> ('k, 'v) hash_iter option" where
  "first_from b [] = None"
| "first_from b (c # cs) =
     (if c \<noteq> [] then Some \<lparr>it_bucket = b, it_pair = c\<rparr> else first_from (b + 1) cs)"

definition hashTableGetFirst :: "('k, 'v) hash_table \<Rightarrow> (('k, 'v) hash_iter \<times> 'k \<times> 'v) option" where
  "hashTableGetFirst ht =
     (case first_from 0 (bucketArray ht) of None \<Rightarrow> None
      | Some it \<Rightarrow> Some (it, fst (hd (it_pair it)), snd (hd (it_pair it))))"

function next_from :: "('k, 'v) hash_table \<Rightarrow> int \<Rightarrow> ('k, 'v) chain \<Rightarrow> ('k, 'v) hash_iter option" where
  "next_from ht b pair =
     (if b < numOfBuckets ht then
        (if pair = [] then
           (if b + 1 < numOfBuckets ht then next_from ht (b + 1) (bucketArray ht ! nat (b + 1))
            else None)
         else Some \<lparr>it_bucket = b, it_pair = pair\<rparr>)
      else None)"
  by pat_completeness auto
termination
  by (relation "measure (\<lambda>(ht, b, pair). nat (numOfBuckets ht - b))") auto

declare next_from.simps [simp del]

definition hashTableGetNext :: "('k, 'v) hash_table \<Rightarrow> ('k, 'v) hash_iter
    \<Rightarrow> (('k, 'v) hash_iter \<times> 'k \<times> 'v) option" where
  "hashTableGetNext ht iter =
     (case next_from ht (it_bucket iter) (tl (it_pair iter)) of None \<Rightarrow> None
      | Some it \<Rightarrow> Some (it, fst (hd (it_pair it)), snd (hd (it_pair it))))"

section \<open>The front end\<close>

text \<open>A key of the front end: a pointer and the characters it points to.\<close>

record char_key =
  key_address :: "64 word"
  key_chars :: string

fun charHash_loop :: "string \<Rightarrow> 64 word \<Rightarrow> 64 word" where
  "charHash_loop [] hashValue = hashValue"
| "charHash_loop (c # cs) hashValue = charHash_loop cs (hashValue * 37 + of_nat (of_char c))"

definition charHashFunction :: "char_key \<Rightarrow> 64 word" where
  "charHashFunction key = charHash_loop (key_chars key) 0"

definition charCmpFunction :: "char_key \<Rightarrow> char_key \<Rightarrow> int" where
  "charCmpFunction p1 p2 = strcmp (key_chars p1) (key_chars p2)"

definition ptrCmpFunction :: "'p \<Rightarrow> 'p \<Rightarrow> int" where
  "ptrCmpFunction p1 p2 = (if p1 \<noteq> p2 then 1 else 0)"

fun charIcHash_loop :: "string \<Rightarrow> 64 word \<Rightarrow> 64 word" where
  "charIcHash_loop [] hashValue = hashValue"
| "charIcHash_loop (c # cs) hashValue =
     charIcHash_loop cs (hashValue * 37 + of_nat (of_char (toupper c)))"

definition charIcHashFunction :: "char_key \<Rightarrow> 64 word" where
  "charIcHashFunction key = charIcHash_loop (key_chars key) 0"

definition charIcCmpFunction :: "char_key \<Rightarrow> char_key \<Rightarrow> int" where
  "charIcCmpFunction p1 p2 = strcasecmp (key_chars p1) (key_chars p2)"

text \<open>Keys that are CMPI strings: \<open>hdl\<close> points to the characters, which the key carries.\<close>

definition cmpiStringHashFunction :: "char_key \<Rightarrow> 64 word" where
  "cmpiStringHashFunction key = charHash_loop (key_chars key) 0"

definition cmpiStringCmpFunction :: "char_key \<Rightarrow> char_key \<Rightarrow> int" where
  "cmpiStringCmpFunction p1 p2 = strcmp (key_chars p1) (key_chars p2)"

definition cmpiStringIcHashFunction :: "char_key \<Rightarrow> 64 word" where
  "cmpiStringIcHashFunction key = charIcHash_loop (key_chars key) 0"

definition cmpiStringIcCmpFunction :: "char_key \<Rightarrow> char_key \<Rightarrow> int" where
  "cmpiStringIcCmpFunction p1 p2 = strcasecmp (key_chars p1) (key_chars p2)"

definition UtilHashTable_charKey :: "64 word" where "UtilHashTable_charKey = 1"
definition UtilHashTable_CMPIStringKey :: "64 word" where "UtilHashTable_CMPIStringKey = 2"
definition UtilHashTable_ignoreKeyCase :: "64 word" where "UtilHashTable_ignoreKeyCase = 4"
definition UtilHashTable_managedKey :: "64 word" where "UtilHashTable_managedKey = 8"
definition UtilHashTable_charValue :: "64 word" where "UtilHashTable_charValue = 16"
definition UtilHashTable_CMPIStyleValue :: "64 word" where "UtilHashTable_CMPIStyleValue = 32"
definition UtilHashTable_ignoreValueCase :: "64 word" where "UtilHashTable_ignoreValueCase = 64"
definition UtilHashTable_managedValue :: "64 word" where "UtilHashTable_managedValue = 128"

lemmas util_options = UtilHashTable_charKey_def UtilHashTable_CMPIStringKey_def
  UtilHashTable_ignoreKeyCase_def UtilHashTable_managedKey_def UtilHashTable_charValue_def
  UtilHashTable_CMPIStyleValue_def UtilHashTable_ignoreValueCase_def UtilHashTable_managedValue_def

definition newHashTableDefault :: "int \<Rightarrow> (char_key, 'v) hash_table option" where
  "newHashTableDefault buckets =
     (case HashTableCreate key_address buckets of None \<Rightarrow> None
      | Some t \<Rightarrow>
          Some (HashTableSetDeallocationFunctions
            (HashTableSetValueComparisonFunction
              (HashTableSetKeyComparisonFunction
                (HashTableSetHashFunction t charHashFunction) charCmpFunction) ptrCmpFunction)
            True True))"

text \<open>\<open>value_chars\<close> gives the characters a value points to, for tables of character values.\<close>

definition newHashTable :: "('v \<Rightarrow> string) \<Rightarrow> int \<Rightarrow> 64 word \<Rightarrow> (char_key, 'v) hash_table option" where
  "newHashTable value_chars buckets opt =
     (case HashTableCreate key_address buckets of None \<Rightarrow> None
      | Some t \<Rightarrow>
          (let on = (\<lambda>f. opt AND f \<noteq> 0);
               t1 = (if on UtilHashTable_charKey then
                       (if on UtilHashTable_ignoreKeyCase
                        then HashTableSetKeyComparisonFunction
                               (HashTableSetHashFunction t charIcHashFunction) charIcCmpFunction
                        else HashTableSetKeyComparisonFunction
                               (HashTableSetHashFunction t charHashFunction) charCmpFunction)
                     else if on UtilHashTable_CMPIStringKey then
                       (if on UtilHashTable_ignoreKeyCase
                        then HashTableSetKeyComparisonFunction
                               (HashTableSetHashFunction t cmpiStringIcHashFunction) cmpiStringIcCmpFunction
                        else HashTableSetKeyComparisonFunction
                               (HashTableSetHashFunction t cmpiStringHashFunction) cmpiStringCmpFunction)
                     else t);
               t2 = (if on UtilHashTable_charValue then
                       (if on UtilHashTable_ignoreValueCase
                        then HashTableSetValueComparisonFunction t1
                               (\<lambda>v1 v2. strcasecmp (value_chars v1) (value_chars v2))
                        else HashTableSetValueComparisonFunction t1
                               (\<lambda>v1 v2. strcmp (value_chars v1) (value_chars v2)))
                     else HashTableSetValueComparisonFunction t1 ptrCmpFunction);
               keyRelease = (on UtilHashTable_managedKey \<and> \<not> on UtilHashTable_CMPIStringKey);
               valueRelease = (on UtilHashTable_managedValue \<and> \<not> on UtilHashTable_CMPIStyleValue)
           in Some (HashTableSetDeallocationFunctions t2 keyRelease valueRelease)))"

section \<open>The table as a map\<close>

text \<open>
  The pairs a table stores, and the map they stand for when \<open>canon\<close> sends two keys to the
  same value exactly if the comparison function takes them for equal.
\<close>

definition stored :: "('k, 'v) hash_table \<Rightarrow> ('k, 'v) chain" where
  "stored ht = concat (bucketArray ht)"

definition contents :: "('k \<Rightarrow> 'c) \<Rightarrow> ('k, 'v) chain \<Rightarrow> 'c \<rightharpoonup> 'v" where
  "contents canon ps = map_of (map (\<lambda>p. (canon (fst p), snd p)) ps)"

definition keys_distinct :: "('k \<Rightarrow> 'c) \<Rightarrow> ('k, 'v) chain \<Rightarrow> bool" where
  "keys_distinct canon ps \<longleftrightarrow> distinct (map (\<lambda>p. canon (fst p)) ps)"

definition chains_ok :: "('k \<Rightarrow> 64 word) \<Rightarrow> int \<Rightarrow> ('k, 'v) buckets \<Rightarrow> bool" where
  "chains_ok hash nb arr \<longleftrightarrow> 0 < nb \<and> length arr = nat nb \<and>
     (\<forall>i < length arr. \<forall>p \<in> set (arr ! i). bucket_index hash nb (fst p) = i)"

definition ht_wf :: "('k \<Rightarrow> 'c) \<Rightarrow> ('k, 'v) hash_table \<Rightarrow> bool" where
  "ht_wf canon ht \<longleftrightarrow> chains_ok (hashFunction ht) (numOfBuckets ht) (bucketArray ht) \<and>
     keys_distinct canon (stored ht) \<and> numOfElements ht = int (length (stored ht))"

lemma contents_simps [simp]:
  "contents canon [] = Map.empty"
  "contents canon (p # ps) = (contents canon ps)(canon (fst p) \<mapsto> snd p)"
  by (simp_all add: contents_def)

lemma contents_None_iff: "contents canon ps c = None \<longleftrightarrow> (\<forall>p \<in> set ps. canon (fst p) \<noteq> c)"
  by (induction ps) auto

lemma keys_distinct_simps [simp]:
  "keys_distinct canon []"
  "keys_distinct canon (p # ps) \<longleftrightarrow> contents canon ps (canon (fst p)) = None \<and> keys_distinct canon ps"
  by (auto simp: keys_distinct_def contents_None_iff image_iff)

lemma keys_distinct_mset: "mset ps = mset qs \<Longrightarrow> keys_distinct canon ps = keys_distinct canon qs"
  unfolding keys_distinct_def by (metis mset_map mset_eq_imp_distinct_iff)

lemma contents_mset:
  assumes "mset ps = mset qs" "keys_distinct canon ps"
  shows "contents canon ps = contents canon qs"
proof -
  have "keys_distinct canon qs"
    using assms keys_distinct_mset by blast
  moreover have "set ps = set qs"
    using assms(1) by (rule mset_eq_setD)
  ultimately show ?thesis
    using assms(2) unfolding contents_def keys_distinct_def
    by (subst map_of_inject_set) (auto simp: comp_def)
qed

lemma mset_concat_update:
  "i < length arr \<Longrightarrow> mset (concat (arr[i := c])) + mset (arr ! i) = mset (concat arr) + mset c"
proof (induction arr arbitrary: i)
  case (Cons a arr)
  then show ?case by (cases i) (auto simp: ac_simps)
qed simp

lemma bucket_index_bound: "0 < nb \<Longrightarrow> bucket_index hash nb k < nat nb"
  unfolding bucket_index_def using pos_mod_bound [of nb "uint (hash k)"]
  by (simp add: nat_less_eq_zless)

lemma chains_ok_bound: "chains_ok hash nb arr \<Longrightarrow> bucket_index hash nb k < length arr"
  by (auto simp: chains_ok_def bucket_index_bound)

lemma chains_ok_update:
  assumes "chains_ok hash nb arr" "\<forall>p \<in> set c. bucket_index hash nb (fst p) = h"
  shows "chains_ok hash nb (arr[h := c])"
  using assms unfolding chains_ok_def
  by (metis length_list_update nth_list_update_eq nth_list_update_neq)

lemma chains_ok_nth:
  "chains_ok hash nb arr \<Longrightarrow> p \<in> set (arr ! bucket_index hash nb k) \<Longrightarrow>
   bucket_index hash nb (fst p) = bucket_index hash nb k"
  using chains_ok_bound [of hash nb arr k] by (simp add: chains_ok_def)

lemma chains_ok_empty: "0 < nb \<Longrightarrow> chains_ok hash nb (replicate (nat nb) [])"
  by (simp add: chains_ok_def)

lemma in_stored_chain:
  assumes "chains_ok hash nb arr" "p \<in> set (concat arr)"
  shows "p \<in> set (arr ! bucket_index hash nb (fst p))"
proof -
  obtain c where "c \<in> set arr" "p \<in> set c"
    using assms(2) by auto
  then obtain i where "i < length arr" "p \<in> set (arr ! i)"
    by (auto simp: in_set_conv_nth)
  with assms(1) show ?thesis by (auto simp: chains_ok_def)
qed

subsection \<open>Rehashing keeps the pairs\<close>

lemma rehash_chain_ok:
  "chains_ok hash nb new \<Longrightarrow> chains_ok hash nb (rehash_chain hash nb c new) \<and>
   mset (concat (rehash_chain hash nb c new)) = mset c + mset (concat new)"
proof (induction c arbitrary: new)
  case (Cons p c)
  let ?h = "bucket_index hash nb (fst p)"
  have h: "?h < length new"
    by (rule chains_ok_bound [OF Cons.prems])
  have "chains_ok hash nb (new[?h := p # new ! ?h])"
    using Cons.prems chains_ok_nth [OF Cons.prems] by (auto intro!: chains_ok_update)
  moreover have "mset (concat (new[?h := p # new ! ?h])) = add_mset p (mset (concat new))"
    using mset_concat_update [OF h, of "p # new ! ?h"] by simp
  ultimately show ?case
    using Cons.IH [of "new[?h := p # new ! ?h]"] by (simp add: Let_def)
qed simp

lemma rehash_chains_ok:
  "chains_ok hash nb new \<Longrightarrow> chains_ok hash nb (rehash_chains hash nb cs new) \<and>
   mset (concat (rehash_chains hash nb cs new)) = mset (concat cs) + mset (concat new)"
proof (induction cs arbitrary: new)
  case (Cons c cs)
  then show ?case
    using rehash_chain_ok [OF Cons.prems, of c] Cons.IH [of "rehash_chain hash nb c new"]
    by (simp add: ac_simps)
qed simp

lemma next_candidate_ge: "n \<le> next_candidate n"
proof (induction n rule: next_candidate.induct)
  case (1 n)
  then show ?case by (subst next_candidate.simps) auto
qed

lemma next_candidate_prime: "isProbablePrime (next_candidate n)"
proof (induction n rule: next_candidate.induct)
  case (1 n)
  then show ?case by (subst next_candidate.simps) auto
qed

lemma next_candidate_odd: "odd n \<Longrightarrow> odd (next_candidate n)"
proof (induction n rule: next_candidate.induct)
  case (1 n)
  then show ?case by (subst next_candidate.simps) auto
qed

lemma or_1_ge: "5 \<le> (n :: int) \<Longrightarrow> 5 \<le> n OR 1"
  by (auto simp: or_one_eq)

lemma calculateIdeal_ge: "5 \<le> calculateIdealNumOfBuckets ht"
  unfolding calculateIdealNumOfBuckets_def Let_def
  using or_1_ge order_trans [OF _ next_candidate_ge] by (simp add: not_less)

text \<open>What \<open>HashTableRehash\<close> may change: the chains and their number, not the pairs.\<close>

lemma HashTableRehash_ok:
  assumes "0 \<le> n" "chains_ok (hashFunction ht) (numOfBuckets ht) (bucketArray ht)"
  shows "\<exists>ht'. HashTableRehash alloc ht n = Some ht' \<and>
     chains_ok (hashFunction ht') (numOfBuckets ht') (bucketArray ht') \<and>
     mset (stored ht') = mset (stored ht) \<and> numOfElements ht' = numOfElements ht \<and>
     keycmp ht' = keycmp ht \<and> hashFunction ht' = hashFunction ht \<and>
     keyDeallocator ht' = keyDeallocator ht \<and> valueDeallocator ht' = valueDeallocator ht \<and>
     valuecmp ht' = valuecmp ht"
proof -
  define nb where "nb = (if n = 0 then calculateIdealNumOfBuckets ht else n)"
  have "0 < nb"
    using calculateIdeal_ge [of ht] assms(1) by (auto simp: nb_def)
  then have "chains_ok (hashFunction ht) nb (rehash_chains (hashFunction ht) nb (bucketArray ht) (replicate (nat nb) []))"
    "mset (concat (rehash_chains (hashFunction ht) nb (bucketArray ht) (replicate (nat nb) []))) = mset (stored ht)"
    using rehash_chains_ok [OF chains_ok_empty] by (auto simp: stored_def)
  with assms show ?thesis
    unfolding HashTableRehash_def nb_def [symmetric] by (auto simp: Let_def stored_def)
qed

subsection \<open>Chains\<close>

lemma chain_find_Some:
  assumes "chain_find cmp key c = Some p"
  shows "p \<in> set c" "cmp key (fst p) = 0"
    "add_mset p (mset (chain_store cmp key v c)) = add_mset (key, v) (mset c)"
    "add_mset p (mset (chain_remove cmp key c)) = mset c"
  using assms by (induction c) (auto split: if_splits)

lemma chain_find_None: "chain_find cmp key c = None \<longleftrightarrow> (\<forall>p \<in> set c. cmp key (fst p) \<noteq> 0)"
  by (induction c) auto

lemma set_chain_store: "set (chain_store cmp key v c) \<subseteq> insert (key, v) (set c)"
  by (induction c) auto

lemma set_chain_remove: "set (chain_remove cmp key c) \<subseteq> set c"
  by (induction c) auto

section \<open>What a table asks of its key functions\<close>

definition table :: "('k \<Rightarrow> 'k \<Rightarrow> int) \<Rightarrow> ('k \<Rightarrow> 64 word) \<Rightarrow> ('k \<Rightarrow> 'c) \<Rightarrow> ('k, 'v) hash_table \<Rightarrow> bool" where
  "table cmp hash canon ht \<longleftrightarrow> ht_wf canon ht \<and> keycmp ht = cmp \<and> hashFunction ht = hash"

locale hash_keys =
  fixes cmp :: "'k \<Rightarrow> 'k \<Rightarrow> int" and hash :: "'k \<Rightarrow> 64 word" and canon :: "'k \<Rightarrow> 'c"
  assumes cmp_canon: "cmp x y = 0 \<longleftrightarrow> canon x = canon y"
    and hash_canon: "canon x = canon y \<Longrightarrow> hash x = hash y"
begin

lemma same_bucket: "canon x = canon y \<Longrightarrow> bucket_index hash nb x = bucket_index hash nb y"
  using hash_canon [of x y] by (simp add: bucket_index_def)

lemma contents_Some_iff:
  assumes "keys_distinct canon ps"
  shows "contents canon ps (canon k) = Some v \<longleftrightarrow> (\<exists>k'. (k', v) \<in> set ps \<and> canon k' = canon k)"
  using assms
proof (induction ps)
  case (Cons p ps)
  then show ?case
    by (cases p) (auto simp: contents_None_iff)
qed simp

lemma HashTableGet_contents:
  assumes "table cmp hash canon ht"
  shows "HashTableGet ht k = contents canon (stored ht) (canon k)"
proof -
  let ?h = "bucket_index hash (numOfBuckets ht) k"
  have ht: "chains_ok hash (numOfBuckets ht) (bucketArray ht)" "keys_distinct canon (stored ht)"
    "keycmp ht = cmp" "hashFunction ht = hash"
    using assms by (auto simp: table_def ht_wf_def)
  have chain: "chain_of ht k = bucketArray ht ! ?h"
    by (simp add: chain_of_def ht)
  show ?thesis
  proof (cases "chain_find cmp k (chain_of ht k)")
    case None
    have "canon (fst p) \<noteq> canon k" if "p \<in> set (stored ht)" for p
    proof
      assume eq: "canon (fst p) = canon k"
      have "p \<in> set (chain_of ht k)"
        using in_stored_chain [OF ht(1), of p] that same_bucket [OF eq] by (simp add: chain stored_def)
      with None eq show False by (auto simp: chain_find_None cmp_canon)
    qed
    then have "contents canon (stored ht) (canon k) = None"
      by (simp add: contents_None_iff)
    with None show ?thesis by (simp add: HashTableGet_def ht)
  next
    case (Some p)
    have "p \<in> set (stored ht)" "canon k = canon (fst p)"
      using chain_find_Some(1,2) [OF Some] chains_ok_bound [OF ht(1), of k]
      by (auto simp: stored_def chain cmp_canon)
    then have "contents canon (stored ht) (canon k) = Some (snd p)"
      using contents_Some_iff [OF ht(2), of k "snd p"] by (metis prod.collapse)
    with Some show ?thesis by (simp add: HashTableGet_def ht)
  qed
qed

text \<open>A pair in or out: how the map and the distinctness of keys follow the multiset.\<close>

lemma contents_add:
  assumes "mset qs = add_mset (k, v) (mset ps)" "keys_distinct canon ps" "contents canon ps (canon k) = None"
  shows "keys_distinct canon qs" "contents canon qs = (contents canon ps)(canon k \<mapsto> v)"
proof -
  have eq: "mset qs = mset ((k, v) # ps)"
    using assms(1) by simp
  moreover have "keys_distinct canon ((k, v) # ps)"
    using assms by simp
  ultimately show "keys_distinct canon qs" "contents canon qs = (contents canon ps)(canon k \<mapsto> v)"
    using keys_distinct_mset [OF eq] contents_mset [OF eq] by auto
qed

lemma contents_drop:
  assumes "add_mset (k, v) (mset qs) = mset ps" "keys_distinct canon ps"
  shows "keys_distinct canon qs" "contents canon qs = (contents canon ps)(canon k := None)"
proof -
  have eq: "mset ps = mset ((k, v) # qs)"
    using assms(1) by simp
  then have "keys_distinct canon ((k, v) # qs)"
    using assms(2) keys_distinct_mset by blast
  then show "keys_distinct canon qs" "contents canon qs = (contents canon ps)(canon k := None)"
    using contents_mset [OF eq assms(2)] by auto
qed

lemma chain_hit:
  assumes "table cmp hash canon ht" and hit: "chain_find cmp k (chain_of ht k) = Some (k0, v0)"
    and c: "add_mset (k0, v0) (mset c) = mset (chain_of ht k) + M" "set c \<subseteq> set (chain_of ht k) \<union> set_mset M"
    and M: "\<forall>p \<in># M. canon (fst p) = canon k"
  defines "arr \<equiv> (bucketArray ht)[bucket_index hash (numOfBuckets ht) k := c]"
  shows "chains_ok hash (numOfBuckets ht) arr"
    "add_mset (k0, v0) (mset (concat arr)) = mset (stored ht) + M" "canon k0 = canon k"
proof -
  have ht: "chains_ok hash (numOfBuckets ht) (bucketArray ht)"
    and chain: "chain_of ht k = bucketArray ht ! bucket_index hash (numOfBuckets ht) k"
    using assms(1) by (auto simp: table_def ht_wf_def chain_of_def)
  have "bucket_index hash (numOfBuckets ht) (fst p) = bucket_index hash (numOfBuckets ht) k"
    if "p \<in> set c" for p
    using that c(2) M chains_ok_nth [OF ht, of p k] same_bucket unfolding chain by blast
  then show "chains_ok hash (numOfBuckets ht) arr"
    unfolding arr_def by (intro chains_ok_update [OF ht]) blast
  have "add_mset (k0, v0) (mset (concat arr)) + mset (chain_of ht k) =
      mset (stored ht) + add_mset (k0, v0) (mset c)"
    using mset_concat_update [OF chains_ok_bound [OF ht, of k], of c]
    by (simp add: arr_def chain stored_def)
  then show "add_mset (k0, v0) (mset (concat arr)) = mset (stored ht) + M"
    using c(1) by (simp add: ac_simps)
  show "canon k0 = canon k"
    using chain_find_Some(2) [OF hit] by (simp add: cmp_canon)
qed

lemma rehash_table:
  assumes "table cmp hash canon ht" "0 \<le> n"
  shows "\<exists>ht'. HashTableRehash alloc ht n = Some ht' \<and> table cmp hash canon ht' \<and>
     mset (stored ht') = mset (stored ht) \<and>
     contents canon (stored ht') = contents canon (stored ht) \<and>
     keyDeallocator ht' = keyDeallocator ht \<and> valueDeallocator ht' = valueDeallocator ht"
proof -
  obtain ht' where ht': "HashTableRehash alloc ht n = Some ht'"
    "chains_ok (hashFunction ht') (numOfBuckets ht') (bucketArray ht')"
    "mset (stored ht') = mset (stored ht)" "numOfElements ht' = numOfElements ht"
    "keycmp ht' = keycmp ht" "hashFunction ht' = hashFunction ht"
    "keyDeallocator ht' = keyDeallocator ht" "valueDeallocator ht' = valueDeallocator ht"
    using HashTableRehash_ok [OF assms(2), of ht alloc] assms(1) by (auto simp: table_def ht_wf_def)
  moreover have "keys_distinct canon (stored ht')" "length (stored ht') = length (stored ht)"
    "contents canon (stored ht') = contents canon (stored ht)"
    using assms(1) ht'(3) keys_distinct_mset [OF ht'(3)] mset_eq_length [OF ht'(3)]
      contents_mset [OF ht'(3)] by (auto simp: table_def ht_wf_def)
  ultimately show ?thesis
    using assms(1) by (auto simp: table_def ht_wf_def)
qed

end

context hash_keys begin

lemma put_table:
  assumes "table cmp hash canon ht"
  shows "\<exists>ht' rc rel. HashTablePut a b ht k v = Some (ht', rc, rel) \<and> table cmp hash canon ht' \<and>
     (if HashTableGet ht k = None \<and> \<not> a then rc = -1 \<and> ht' = ht
      else rc = 0 \<and> contents canon (stored ht') = (contents canon (stored ht))(canon k \<mapsto> v))"
proof (cases "chain_find cmp k (chain_of ht k)")
  case (Some p)
  obtain k0 v0 where p: "p = (k0, v0)" by (cases p)
  let ?c = "chain_store cmp k v (chain_of ht k)"
  let ?ht' = "ht\<lparr>bucketArray := (bucketArray ht)[bucket_index hash (numOfBuckets ht) k := ?c]\<rparr>"
  have f: "keycmp ht = cmp" "hashFunction ht = hash" "keys_distinct canon (stored ht)"
    "numOfElements ht = int (length (stored ht))"
    using assms by (auto simp: table_def ht_wf_def)
  note hit = chain_hit [OF assms Some [unfolded p], of ?c "{#(k, v)#}"]
  have arr: "chains_ok hash (numOfBuckets ht) (bucketArray ?ht')"
    "add_mset (k0, v0) (mset (stored ?ht')) = add_mset (k, v) (mset (stored ht))" "canon k0 = canon k"
    using hit chain_find_Some(3) [OF Some [unfolded p], of v] set_chain_store [of cmp k v "chain_of ht k"]
    by (auto simp: stored_def)
  have "(k0, v0) \<in># mset (stored ht)"
    using chain_find_Some(1) [OF Some] p chains_ok_bound [of hash "numOfBuckets ht" "bucketArray ht" k] assms f
    by (auto simp: chain_of_def stored_def table_def ht_wf_def)
  then obtain qs where qs: "add_mset (k0, v0) (mset qs) = mset (stored ht)"
    by (metis ex_mset insert_DiffM)
  with arr(2) have qs': "mset (stored ?ht') = add_mset (k, v) (mset qs)"
    by (metis add_mset_commute add_mset_add_single add_right_imp_eq)
  note drop = contents_drop [OF qs f(3)]
  have none: "contents canon qs (canon k) = None"
    using drop(2) arr(3) by simp
  note add = contents_add [OF qs' drop(1) none]
  have "length (stored ?ht') = length (stored ht)"
    using arr(2) by (metis mset_eq_length mset.simps(2) length_Cons nat.inject)
  then have "table cmp hash canon ?ht'"
    using arr(1) add(1) f by (simp add: table_def ht_wf_def)
  moreover have "contents canon (stored ?ht') = (contents canon (stored ht))(canon k \<mapsto> v)"
    using add(2) drop(2) arr(3) by simp
  moreover have "HashTableGet ht k \<noteq> None"
    using Some f by (simp add: HashTableGet_def)
  ultimately show ?thesis
    using Some p f by (simp add: HashTablePut_def Let_def chain_of_def)
next
  case None
  have f: "keycmp ht = cmp" "hashFunction ht = hash" "keys_distinct canon (stored ht)"
    "chains_ok hash (numOfBuckets ht) (bucketArray ht)" "numOfElements ht = int (length (stored ht))"
    using assms by (auto simp: table_def ht_wf_def)
  have get: "HashTableGet ht k = None"
    using None f by (simp add: HashTableGet_def)
  let ?h = "bucket_index hash (numOfBuckets ht) k"
  let ?ht' = "ht\<lparr>bucketArray := (bucketArray ht)[?h := (k, v) # bucketArray ht ! ?h],
      numOfElements := numOfElements ht + 1\<rparr>"
  have m: "mset (stored ?ht') = add_mset (k, v) (mset (stored ht))"
    using mset_concat_update [OF chains_ok_bound [OF f(4), of k], of "(k, v) # bucketArray ht ! ?h"]
    by (simp add: stored_def)
  note add = contents_add [OF m f(3)]
  have "chains_ok hash (numOfBuckets ht) (bucketArray ?ht')"
    using chains_ok_nth [OF f(4)] by (auto intro!: chains_ok_update [OF f(4)])
  then have t: "table cmp hash canon ?ht'"
    using add f mset_eq_length [of "stored ?ht'" "(k, v) # stored ht"] m get HashTableGet_contents [OF assms, of k]
    by (simp add: table_def ht_wf_def)
  have c: "contents canon (stored ?ht') = (contents canon (stored ht))(canon k \<mapsto> v)"
    using add get HashTableGet_contents [OF assms, of k] by simp
  obtain ht'' where r: "HashTableRehash b ?ht' 0 = Some ht''" "table cmp hash canon ht''"
    "contents canon (stored ht'') = contents canon (stored ?ht')"
    using rehash_table [OF t, of 0 b] by auto
  show ?thesis
    using None f get t c r assms by (auto simp: HashTablePut_def Let_def chain_of_def)
qed

lemma remove_table:
  assumes "table cmp hash canon ht"
  shows "\<exists>ht' rel. HashTableRemove b ht k = Some (ht', rel) \<and> table cmp hash canon ht' \<and>
     contents canon (stored ht') = (contents canon (stored ht))(canon k := None)"
proof (cases "chain_find cmp k (chain_of ht k)")
  case None
  have "contents canon (stored ht) (canon k) = None"
    using None assms HashTableGet_contents [OF assms, of k] by (simp add: HashTableGet_def table_def)
  then have "contents canon (stored ht) = (contents canon (stored ht))(canon k := None)"
    by auto
  with None assms show ?thesis
    by (simp add: HashTableRemove_def Let_def chain_of_def table_def)
next
  case (Some p)
  obtain k0 v0 where p: "p = (k0, v0)" by (cases p)
  let ?c = "chain_remove cmp k (chain_of ht k)"
  let ?ht' = "ht\<lparr>bucketArray := (bucketArray ht)[bucket_index hash (numOfBuckets ht) k := ?c],
      numOfElements := numOfElements ht - 1\<rparr>"
  have f: "keycmp ht = cmp" "hashFunction ht = hash" "keys_distinct canon (stored ht)"
    "numOfElements ht = int (length (stored ht))"
    using assms by (auto simp: table_def ht_wf_def)
  note hit = chain_hit [OF assms Some [unfolded p], of ?c "{#}"]
  have arr: "chains_ok hash (numOfBuckets ht) (bucketArray ?ht')"
    "add_mset (k0, v0) (mset (stored ?ht')) = mset (stored ht)" "canon k0 = canon k"
    using hit chain_find_Some(4) [OF Some [unfolded p]] set_chain_remove [of cmp k "chain_of ht k"]
    by (auto simp: stored_def)
  note drop = contents_drop [OF arr(2) f(3)]
  have "length (stored ht) = Suc (length (stored ?ht'))"
    using arr(2) by (metis mset_eq_length mset.simps(2) length_Cons)
  then have t: "table cmp hash canon ?ht'"
    using arr(1) drop(1) f by (simp add: table_def ht_wf_def)
  obtain ht'' where r: "HashTableRehash b ?ht' 0 = Some ht''" "table cmp hash canon ht''"
    "contents canon (stored ht'') = contents canon (stored ?ht')"
    using rehash_table [OF t, of 0 b] by auto
  show ?thesis
    using Some p f t r drop arr(3) by (auto simp: HashTableRemove_def Let_def chain_of_def)
qed

lemma removeAll_table:
  assumes "table cmp hash canon ht"
  shows "\<exists>ht' rel. HashTableRemoveAll b ht = Some (ht', rel) \<and> table cmp hash canon ht' \<and>
     stored ht' = [] \<and> numOfElements ht' = 0"
proof -
  let ?ht' = "ht\<lparr>bucketArray := map (\<lambda>_. []) (bucketArray ht), numOfElements := 0\<rparr>"
  have empty: "concat (map (\<lambda>_. []) xs) = []" for xs :: "'z list"
    by (induction xs) auto
  have "table cmp hash canon ?ht'"
    using assms by (auto simp: table_def ht_wf_def chains_ok_def stored_def empty)
  then obtain ht'' where "HashTableRehash b ?ht' 5 = Some ht''" "table cmp hash canon ht''"
    "mset (stored ht'') = mset (stored ?ht')"
    using rehash_table [of ?ht' 5 b] by auto
  then show ?thesis
    by (auto simp: HashTableRemoveAll_def stored_def empty table_def ht_wf_def)
qed

end

subsection \<open>Iteration\<close>

text \<open>The client loop \<open>for (it = getFirst(..); it; it = getNext(..))\<close>, with at most \<open>n\<close> rounds.\<close>

fun iterate :: "nat \<Rightarrow> ('k, 'v) hash_table \<Rightarrow> (('k, 'v) hash_iter \<times> 'k \<times> 'v) option
    \<Rightarrow> ('k, 'v) chain option" where
  "iterate n ht None = Some []"
| "iterate 0 ht (Some x) = None"
| "iterate (Suc n) ht (Some (it, k, v)) =
     map_option ((#) (k, v)) (iterate n ht (hashTableGetNext ht it))"

definition ahead :: "('k, 'v) hash_table \<Rightarrow> int \<Rightarrow> ('k, 'v) chain \<Rightarrow> ('k, 'v) chain" where
  "ahead ht b pair = pair @ concat (drop (nat (b + 1)) (bucketArray ht))"

definition iter_at :: "('k, 'v) hash_table \<Rightarrow> ('k, 'v) hash_iter option \<Rightarrow> ('k, 'v) chain \<Rightarrow> bool" where
  "iter_at ht it ps \<longleftrightarrow> (case it of None \<Rightarrow> ps = []
     | Some i \<Rightarrow> 0 \<le> it_bucket i \<and> it_pair i \<noteq> [] \<and> ps = ahead ht (it_bucket i) (it_pair i))"

lemma ahead_step:
  assumes "0 \<le> b" "b + 1 < int (length (bucketArray ht))"
  shows "ahead ht b [] = ahead ht (b + 1) (bucketArray ht ! nat (b + 1))"
proof -
  have "drop (nat (b + 1)) (bucketArray ht) =
      bucketArray ht ! nat (b + 1) # drop (Suc (nat (b + 1))) (bucketArray ht)"
    using assms by (intro Cons_nth_drop_Suc [symmetric]) linarith
  moreover have "nat (b + 1 + 1) = Suc (nat (b + 1))"
    using assms(1) by simp
  ultimately show ?thesis by (simp add: ahead_def)
qed

lemma next_from_at:
  "0 \<le> b \<Longrightarrow> b < numOfBuckets ht \<Longrightarrow> length (bucketArray ht) = nat (numOfBuckets ht) \<Longrightarrow>
   iter_at ht (next_from ht b pair) (ahead ht b pair)"
proof (induction ht b pair rule: next_from.induct)
  case (1 ht b pair)
  show ?case
  proof (cases "pair = [] \<and> b + 1 < numOfBuckets ht")
    case True
    with 1 show ?thesis
      using ahead_step [of b ht] by (subst next_from.simps) auto
  next
    case False
    with 1(2-) show ?thesis
      by (subst next_from.simps) (auto simp: iter_at_def ahead_def)
  qed
qed

lemma first_from_at:
  assumes "bucketArray ht = pre @ cs" "b = int (length pre)"
  shows "iter_at ht (first_from b cs) (concat cs)"
  using assms
proof (induction b cs arbitrary: pre rule: first_from.induct)
  case (2 b c cs)
  have "nat (b + 1) = Suc (length pre)"
    using 2 by simp
  with 2 show ?case
    by (cases "c = []") (auto simp: iter_at_def ahead_def add.commute)
qed (simp add: iter_at_def)

lemma at_bucket:
  assumes "chains_ok hash (numOfBuckets ht) (bucketArray ht)"
    "next_from ht b pair = Some i \<or> first_from 0 (bucketArray ht) = Some i"
  shows "it_bucket i < numOfBuckets ht"
proof -
  have n: "next_from ht b pair = Some i \<Longrightarrow> it_bucket i < numOfBuckets ht" for b pair
  proof (induction ht b pair rule: next_from.induct)
    case (1 ht b pair)
    then show ?case by (subst (asm) (2) next_from.simps) (auto split: if_splits)
  qed
  have f: "first_from b' cs = Some i \<Longrightarrow> it_bucket i < b' + int (length cs)" for b' cs
    by (induction b' cs rule: first_from.induct) (auto split: if_splits)
  show ?thesis
    using assms n f [of 0 "bucketArray ht"] by (auto simp: chains_ok_def)
qed

definition give :: "('k, 'v) hash_iter option \<Rightarrow> (('k, 'v) hash_iter \<times> 'k \<times> 'v) option" where
  "give it = map_option (\<lambda>i. (i, fst (hd (it_pair i)), snd (hd (it_pair i)))) it"

lemma get_give:
  "hashTableGetFirst ht = give (first_from 0 (bucketArray ht))"
  "hashTableGetNext ht i = give (next_from ht (it_bucket i) (tl (it_pair i)))"
  by (auto simp: hashTableGetFirst_def hashTableGetNext_def give_def split: option.splits)

lemma iterate_at:
  assumes ok: "chains_ok hash (numOfBuckets ht) (bucketArray ht)"
  shows "iter_at ht it ps \<Longrightarrow> (\<forall>i. it = Some i \<longrightarrow> it_bucket i < numOfBuckets ht) \<Longrightarrow>
     iterate (length ps) ht (give it) = Some ps"
proof (induction ps arbitrary: it)
  case Nil
  then show ?case by (cases it) (auto simp: iter_at_def give_def ahead_def)
next
  case (Cons p ps)
  then obtain i where i: "it = Some i" "0 \<le> it_bucket i" "it_pair i \<noteq> []"
    "p # ps = ahead ht (it_bucket i) (it_pair i)"
    by (cases it) (auto simp: iter_at_def)
  let ?next = "next_from ht (it_bucket i) (tl (it_pair i))"
  have ps: "p = hd (it_pair i)" "ps = ahead ht (it_bucket i) (tl (it_pair i))"
    using i(3,4) by (cases "it_pair i"; simp add: ahead_def)+
  have "iter_at ht ?next ps"
    using next_from_at [of "it_bucket i" ht "tl (it_pair i)"] i Cons.prems ok ps
    by (auto simp: chains_ok_def)
  moreover have "\<forall>j. ?next = Some j \<longrightarrow> it_bucket j < numOfBuckets ht"
    using at_bucket [OF ok] by blast
  ultimately have "iterate (length ps) ht (hashTableGetNext ht i) = Some ps"
    using Cons.IH by (simp add: get_give)
  moreover have "give it = Some (i, fst p, snd p)"
    by (simp add: give_def i(1) ps(1))
  ultimately show ?case by (cases p) simp
qed

section \<open>The interface clients use\<close>

text \<open>
  What a client of a table may rely on: a lookup after an insertion or a removal, and an
  invariant that both keep.
\<close>

locale keyed_map =
  fixes inv :: "'t \<Rightarrow> bool" and get :: "'t \<Rightarrow> 'k \<Rightarrow> 'v option"
    and put :: "'t \<Rightarrow> 'k \<Rightarrow> 'v \<Rightarrow> 't" and remove :: "'t \<Rightarrow> 'k \<Rightarrow> 't"
    and same :: "'k \<Rightarrow> 'k \<Rightarrow> bool"
  assumes get_put: "inv t \<Longrightarrow> get (put t k v) k' = (if same k' k then Some v else get t k')"
    and get_remove: "inv t \<Longrightarrow> get (remove t k) k' = (if same k' k then None else get t k')"
    and inv_put: "inv t \<Longrightarrow> inv (put t k v)"
    and inv_remove: "inv t \<Longrightarrow> inv (remove t k)"
begin

lemma inv_fold_put: "inv t \<Longrightarrow> inv (fold (\<lambda>(k, v) t. put t k v) kvs t)"
  by (induction kvs arbitrary: t) (auto simp: inv_put)

text \<open>After a run of insertions a lookup sees the last one under the same key.\<close>

lemma get_fold_put:
  "inv t \<Longrightarrow> get (fold (\<lambda>(k, v) t. put t k v) kvs t) k =
     (case List.find (\<lambda>(k', v). same k k') (rev kvs) of Some (k', v) \<Rightarrow> Some v | None \<Rightarrow> get t k)"
proof (induction kvs arbitrary: t)
  case (Cons kv kvs)
  obtain k' v where kv: "kv = (k', v)" by (cases kv)
  show ?case
    using Cons.IH [OF inv_put [OF Cons.prems, of k' v]] get_put [OF Cons.prems, of k' v k]
    by (auto simp: kv find_append split: option.splits)
qed simp

end

definition ht_put :: "('k, 'v) hash_table \<Rightarrow> 'k \<Rightarrow> 'v \<Rightarrow> ('k, 'v) hash_table" where
  "ht_put ht k v = fst (the (HashTablePut True True ht k v))"

definition ht_remove :: "('k, 'v) hash_table \<Rightarrow> 'k \<Rightarrow> ('k, 'v) hash_table" where
  "ht_remove ht k = fst (the (HashTableRemove True ht k))"

context hash_keys begin

lemma ht_put_ok:
  assumes "table cmp hash canon ht"
  shows "table cmp hash canon (ht_put ht k v)"
    "HashTableGet (ht_put ht k v) k' = (if canon k' = canon k then Some v else HashTableGet ht k')"
proof -
  obtain ht' rc rel where p: "HashTablePut True True ht k v = Some (ht', rc, rel)"
    "table cmp hash canon ht'"
    "contents canon (stored ht') = (contents canon (stored ht))(canon k \<mapsto> v)"
    using put_table [OF assms, of True True k v] by auto
  then show "table cmp hash canon (ht_put ht k v)"
    "HashTableGet (ht_put ht k v) k' = (if canon k' = canon k then Some v else HashTableGet ht k')"
    using HashTableGet_contents [OF assms, of k'] HashTableGet_contents [OF p(2), of k']
    by (auto simp: ht_put_def)
qed

lemma ht_remove_ok:
  assumes "table cmp hash canon ht"
  shows "table cmp hash canon (ht_remove ht k)"
    "HashTableGet (ht_remove ht k) k' = (if canon k' = canon k then None else HashTableGet ht k')"
proof -
  obtain ht' rel where p: "HashTableRemove True ht k = Some (ht', rel)" "table cmp hash canon ht'"
    "contents canon (stored ht') = (contents canon (stored ht))(canon k := None)"
    using remove_table [OF assms, of True k] by auto
  then show "table cmp hash canon (ht_remove ht k)"
    "HashTableGet (ht_remove ht k) k' = (if canon k' = canon k then None else HashTableGet ht k')"
    using HashTableGet_contents [OF assms, of k'] HashTableGet_contents [OF p(2), of k']
    by (auto simp: ht_remove_def)
qed

end

sublocale hash_keys \<subseteq> hk: keyed_map "table cmp hash canon" HashTableGet ht_put ht_remove
  "\<lambda>k k'. canon k = canon k'"
  by unfold_locales (auto simp: ht_put_ok ht_remove_ok)

lemma charIcHash_loop_toupper: "charIcHash_loop s h = charHash_loop (map toupper s) h"
  by (induction s arbitrary: h) auto

interpretation char_keys: hash_keys charCmpFunction charHashFunction key_chars
  by unfold_locales (auto simp: charCmpFunction_def charHashFunction_def)

interpretation charIc_keys: hash_keys charIcCmpFunction charIcHashFunction "\<lambda>k. map tolower (key_chars k)"
  by unfold_locales
    (auto simp: charIcCmpFunction_def charIcHashFunction_def charIcHash_loop_toupper
      dest: map_toupper_of_tolower)

interpretation pointer_keys: hash_keys pointercmp "pointerHashFunction address" "\<lambda>p. p" for address
  by unfold_locales (auto simp: pointercmp_def)

lemma newHashTable_charIc:
  assumes "0 < n"
  shows "\<exists>ht. newHashTable vc n (UtilHashTable_charKey OR UtilHashTable_ignoreKeyCase) = Some ht \<and>
    table charIcCmpFunction charIcHashFunction (\<lambda>k. map tolower (key_chars k)) ht \<and> stored ht = []"
  using assms
  by (simp add: newHashTable_def HashTableCreate_def util_options Let_def table_def ht_wf_def
      chains_ok_def stored_def HashTableSetKeyComparisonFunction_def HashTableSetHashFunction_def
      HashTableSetValueComparisonFunction_def HashTableSetDeallocationFunctions_def)

context hash_keys begin

lemma put_spec:
  assumes "table cmp hash canon ht"
  shows "\<exists>ht' rc rel. HashTablePut a b ht k v = Some (ht', rc, rel) \<and> table cmp hash canon ht' \<and>
     (if HashTableGet ht k = None \<and> \<not> a then rc = -1 \<and> ht' = ht
      else rc = 0 \<and> (\<forall>k'. HashTableGet ht' k' = (if cmp k' k = 0 then Some v else HashTableGet ht k')))"
proof -
  obtain ht' rc rel where p: "HashTablePut a b ht k v = Some (ht', rc, rel)" "table cmp hash canon ht'"
    "if HashTableGet ht k = None \<and> \<not> a then rc = -1 \<and> ht' = ht
     else rc = 0 \<and> contents canon (stored ht') = (contents canon (stored ht))(canon k \<mapsto> v)"
    using put_table [OF assms, of a b k v] by blast
  then show ?thesis
    using HashTableGet_contents [OF assms] HashTableGet_contents [OF p(2)]
    by (auto simp: cmp_canon split: if_splits)
qed

lemma remove_spec:
  assumes "table cmp hash canon ht"
  shows "\<exists>ht' rel. HashTableRemove b ht k = Some (ht', rel) \<and> table cmp hash canon ht' \<and>
     (\<forall>k'. HashTableGet ht' k' = (if cmp k' k = 0 then None else HashTableGet ht k'))"
proof -
  obtain ht' rel where p: "HashTableRemove b ht k = Some (ht', rel)" "table cmp hash canon ht'"
    "contents canon (stored ht') = (contents canon (stored ht))(canon k := None)"
    using remove_table [OF assms, of b k] by blast
  then show ?thesis
    using HashTableGet_contents [OF assms] HashTableGet_contents [OF p(2)] by (auto simp: cmp_canon)
qed

lemma rehash_spec:
  assumes "table cmp hash canon ht" "0 \<le> n"
  shows "\<exists>ht'. HashTableRehash b ht n = Some ht' \<and> table cmp hash canon ht' \<and>
     mset (stored ht') = mset (stored ht) \<and> (\<forall>k. HashTableGet ht' k = HashTableGet ht k)"
proof -
  obtain ht' where p: "HashTableRehash b ht n = Some ht'" "table cmp hash canon ht'"
    "mset (stored ht') = mset (stored ht)" "contents canon (stored ht') = contents canon (stored ht)"
    using rehash_table [OF assms, of b] by blast
  then show ?thesis
    using HashTableGet_contents [OF assms(1)] HashTableGet_contents [OF p(2)] by auto
qed

end

lemma isProbablePrime_loop_iff:
  "odd i \<Longrightarrow> 3 \<le> i \<Longrightarrow> isProbablePrime_loop n i \<Longrightarrow> odd j \<Longrightarrow> i \<le> j \<Longrightarrow> j < 51 \<Longrightarrow> j dvd n \<Longrightarrow> n < 51"
proof (induction n i rule: isProbablePrime_loop.induct)
  case (1 n i)
  show ?case
  proof (cases "n = i")
    case False
    have "i < 51" using "1.prems" by simp
    with "1.prems"(3) False have "n mod i \<noteq> 0" "isProbablePrime_loop n (i + 2)"
      using isProbablePrime_loop_unroll(2) [of i n] by auto
    moreover from this "1.prems" have "i \<noteq> j" by auto
    with "1.prems"(1,4,5) have "i + 2 \<le> j" by presburger
    ultimately show ?thesis
      using "1.IH" [OF \<open>i < 51\<close> False] "1.prems" by auto
  qed (use "1.prems" in simp)
qed

section \<open>Tables keyed by names\<close>

text \<open>
  What the other components use of the front end: tables made with \<open>UtilHashTable_charKey\<close> and
  \<open>UtilHashTable_ignoreKeyCase\<close>. Such a table looks only at the characters of a key and frees neither
  keys nor values, so the address of a key is left at 0. Memory for a new pair is taken to be available.
\<close>

definition chars_key :: "string \<Rightarrow> char_key" where
  "chars_key s = \<lparr>key_address = 0, key_chars = s\<rparr>"

definition name_table :: "(char_key, 'v) hash_table \<Rightarrow> bool" where
  "name_table ht \<longleftrightarrow> table charIcCmpFunction charIcHashFunction (\<lambda>k. map tolower (key_chars k)) ht"

definition new_name_table :: "int \<Rightarrow> (char_key, 'v) hash_table" where
  "new_name_table buckets = the (newHashTable (\<lambda>_. []) buckets (UtilHashTable_charKey OR UtilHashTable_ignoreKeyCase))"

definition name_get :: "(char_key, 'v) hash_table \<Rightarrow> string \<Rightarrow> 'v option" where
  "name_get ht s = HashTableGet ht (chars_key s)"

definition name_put :: "(char_key, 'v) hash_table \<Rightarrow> string \<Rightarrow> 'v \<Rightarrow> (char_key, 'v) hash_table" where
  "name_put ht s v = ht_put ht (chars_key s) v"

definition name_remove :: "(char_key, 'v) hash_table \<Rightarrow> string \<Rightarrow> (char_key, 'v) hash_table" where
  "name_remove ht s = ht_remove ht (chars_key s)"

lemma new_name_table [simp]:
  assumes "0 < n"
  shows "name_table (new_name_table n :: (char_key, 'v) hash_table)"
    "name_get (new_name_table n :: (char_key, 'v) hash_table) s = None"
proof -
  let ?ht = "new_name_table n :: (char_key, 'v) hash_table"
  have t: "table charIcCmpFunction charIcHashFunction (\<lambda>k. map tolower (key_chars k)) ?ht" "stored ?ht = []"
    using newHashTable_charIc [OF assms, of "\<lambda>_ :: 'v. []"] unfolding new_name_table_def by auto
  then show "name_table ?ht" by (simp add: name_table_def)
  show "name_get ?ht s = None"
    using charIc_keys.HashTableGet_contents [OF t(1)] t(2) by (simp add: name_get_def)
qed

lemma name_put [simp]:
  assumes "name_table ht"
  shows "name_table (name_put ht s v)"
    "name_get (name_put ht s v) s' = (if map tolower s' = map tolower s then Some v else name_get ht s')"
  using charIc_keys.ht_put_ok [OF assms [unfolded name_table_def]]
  by (simp_all add: name_table_def name_put_def name_get_def chars_key_def)

lemma name_remove [simp]:
  assumes "name_table ht"
  shows "name_table (name_remove ht s)"
    "name_get (name_remove ht s) s' = (if map tolower s' = map tolower s then None else name_get ht s')"
  using charIc_keys.ht_remove_ok [OF assms [unfolded name_table_def]]
  by (simp_all add: name_table_def name_remove_def name_get_def chars_key_def)

lemma name_get_cong: "name_table ht \<Longrightarrow> map tolower s = map tolower s' \<Longrightarrow> name_get ht s = name_get ht s'"
  using charIc_keys.HashTableGet_contents [of ht] by (simp add: name_table_def name_get_def chars_key_def)

lemma iterate_stored:
  assumes "chains_ok hash (numOfBuckets t) (bucketArray t)"
  shows "iterate (length (stored t)) t (hashTableGetFirst t) = Some (stored t)"
  using iterate_at [OF assms first_from_at [of t "[]" "bucketArray t" 0]] at_bucket [OF assms]
  by (simp add: get_give stored_def)

lemma name_table_stored:
  assumes "name_table t"
  shows "iterate (length (stored t)) t (hashTableGetFirst t) = Some (stored t)"
    "distinct (map (\<lambda>p. lower (key_chars (fst p))) (stored t))"
    "name_get t n = Some v \<longleftrightarrow> (\<exists>k. (k, v) \<in> set (stored t) \<and> lower (key_chars k) = lower n)"
proof -
  have t: "table charIcCmpFunction charIcHashFunction (\<lambda>k. lower (key_chars k)) t"
    using assms by (simp add: name_table_def)
  then have "chains_ok (hashFunction t) (numOfBuckets t) (bucketArray t)"
    and d: "keys_distinct (\<lambda>k. lower (key_chars k)) (stored t)"
    by (auto simp: table_def ht_wf_def)
  then show "iterate (length (stored t)) t (hashTableGetFirst t) = Some (stored t)" by (intro iterate_stored)
  from d show "distinct (map (\<lambda>p. lower (key_chars (fst p))) (stored t))" by (simp add: keys_distinct_def)
  show "name_get t n = Some v \<longleftrightarrow> (\<exists>k. (k, v) \<in> set (stored t) \<and> lower (key_chars k) = lower n)"
    using charIc_keys.contents_Some_iff [OF d, of "chars_key n" v] charIc_keys.HashTableGet_contents [OF t, of "chars_key n"]
    by (simp add: name_get_def chars_key_def)
qed

interpretation names: keyed_map name_table name_get name_put name_remove
  "\<lambda>s s'. map tolower s = map tolower s'"
  by unfold_locales auto

section \<open>Properties\<close>

definition sample_table :: "(char_key, nat) hash_table" where
  "sample_table = the (newHashTable (\<lambda>_. []) 5 (UtilHashTable_charKey OR UtilHashTable_ignoreKeyCase))"

lemma sample_table:
  "table charIcCmpFunction charIcHashFunction (\<lambda>k. map tolower (key_chars k)) sample_table"
  using newHashTable_charIc [of 5 "\<lambda>_ :: nat. []"] unfolding sample_table_def by auto

lemma sample_table_get: "HashTableGet sample_table k = None"
proof -
  have "stored sample_table = []"
    using newHashTable_charIc [of 5 "\<lambda>_ :: nat. []"] unfolding sample_table_def by auto
  then show ?thesis
    by (simp add: charIc_keys.HashTableGet_contents [OF sample_table])
qed

text \<open>
  C4. \<open>HashTablePut\<close> on a table in order, with a key comparison that is an equivalence the
  hash function respects, leaves the table in order; it returns -1 and changes nothing if the
  key is new and the pair cannot be allocated, and otherwise returns 0 and afterwards every
  key equal to the one given is mapped to the value, every other key as before, whether or
  not the table was rehashed.
\<close>

theorem HashTablePut_correct:
  assumes "hash_keys cmp hash canon" "table cmp hash canon ht"
  shows "\<exists>ht' rc rel. HashTablePut a b ht k v = Some (ht', rc, rel) \<and> table cmp hash canon ht' \<and>
     (if HashTableGet ht k = None \<and> \<not> a then rc = -1 \<and> ht' = ht
      else rc = 0 \<and> (\<forall>k'. HashTableGet ht' k' = (if cmp k' k = 0 then Some v else HashTableGet ht k')))"
  using assms by (rule hash_keys.put_spec)

theorem HashTablePut_correct_witness:
  "\<exists>ht' rc rel. HashTablePut True True sample_table \<lparr>key_address = 64, key_chars = ''Port''\<rparr> (7::nat)
     = Some (ht', rc, rel) \<and> rc = 0 \<and>
     HashTableGet ht' \<lparr>key_address = 96, key_chars = ''PORT''\<rparr> = Some 7 \<and>
     HashTableGet ht' \<lparr>key_address = 96, key_chars = ''Host''\<rparr> = None"
proof -
  let ?k = "\<lparr>key_address = 64, key_chars = ''Port''\<rparr>"
  have cmp: "charIcCmpFunction \<lparr>key_address = 96, key_chars = ''PORT''\<rparr> ?k = 0"
    "charIcCmpFunction \<lparr>key_address = 96, key_chars = ''Host''\<rparr> ?k \<noteq> 0"
    by (simp_all add: charIcCmpFunction_def, code_simp+)
  show ?thesis
    using HashTablePut_correct [OF charIc_keys.hash_keys_axioms sample_table, of True True ?k 7]
      cmp by (fastforce simp: sample_table_get)
qed

text \<open>
  C5. \<open>HashTableRemove\<close> leaves a table in order that finds no key equal to the one given
  and every other key as before.
\<close>

theorem HashTableRemove_correct:
  assumes "hash_keys cmp hash canon" "table cmp hash canon ht"
  shows "\<exists>ht' rel. HashTableRemove b ht k = Some (ht', rel) \<and> table cmp hash canon ht' \<and>
     (\<forall>k'. HashTableGet ht' k' = (if cmp k' k = 0 then None else HashTableGet ht k'))"
  using assms by (rule hash_keys.remove_spec)

theorem HashTableRemove_correct_witness:
  "\<exists>ht' rel. HashTableRemove True sample_table \<lparr>key_address = 64, key_chars = ''Port''\<rparr> = Some (ht', rel) \<and>
     HashTableGet ht' \<lparr>key_address = 96, key_chars = ''PORT''\<rparr> = None"
  using HashTableRemove_correct [OF charIc_keys.hash_keys_axioms sample_table, of True
      "\<lparr>key_address = 64, key_chars = ''Port''\<rparr>"]
  by (fastforce simp: sample_table_get split: if_splits)

text \<open>
  \<open>HashTableRehash\<close>, to any number of buckets or to the computed one, keeps the table
  in order, keeps exactly the stored pairs, and changes the result of no lookup.
\<close>

lemma HashTableRehash_correct:
  assumes "hash_keys cmp hash canon" "table cmp hash canon ht" "0 \<le> n"
  shows "\<exists>ht'. HashTableRehash b ht n = Some ht' \<and> table cmp hash canon ht' \<and>
     mset (stored ht') = mset (stored ht) \<and> (\<forall>k. HashTableGet ht' k = HashTableGet ht k)"
  using assms by (rule hash_keys.rehash_spec)

lemma HashTableRehash_example:
  "\<exists>ht'. HashTableRehash True sample_table 11 = Some ht' \<and>
     mset (stored ht') = mset (stored sample_table) \<and> 
     HashTableGet ht' \<lparr>key_address = 64, key_chars = ''Port''\<rparr> = None"
  using HashTableRehash_correct [OF charIc_keys.hash_keys_axioms sample_table, of 11 True]
  by (auto simp: sample_table_get)

text \<open>
  C6. Iterating with \<open>hashTableGetFirst\<close> and \<open>hashTableGetNext\<close> ends after as many rounds
  as pairs are stored and hands out every stored pair exactly once, in bucket order.
\<close>

theorem hashTable_iteration:
  assumes "chains_ok hash (numOfBuckets ht) (bucketArray ht)"
  shows "iterate (length (stored ht)) ht (hashTableGetFirst ht) = Some (stored ht)"
  using iterate_at [OF assms first_from_at [of ht "[]" "bucketArray ht" 0]] at_bucket [OF assms]
  by (simp add: get_give stored_def)

definition two_chains :: "(nat, nat) hash_table" where
  "two_chains = \<lparr>numOfBuckets = 3, numOfElements = 3, bucketArray = [[], [(4, 40), (1, 10)], [(2, 20)]],
     idealRatio = 3, lowerRehashThreshold = 0, upperRehashThreshold = 15, keycmp = pointercmp,
     valuecmp = pointercmp, hashFunction = of_nat, keyDeallocator = False, valueDeallocator = False\<rparr>"

theorem hashTable_iteration_witness:
  "iterate 3 two_chains (hashTableGetFirst two_chains) = Some [(4, 40), (1, 10), (2, 20)]"
proof -
  have "chains_ok of_nat (numOfBuckets two_chains) (bucketArray two_chains)"
    by (auto simp: chains_ok_def two_chains_def bucket_index_def less_Suc_eq numeral_3_eq_3)
  from hashTable_iteration [OF this] show ?thesis
    by (simp add: two_chains_def stored_def numeral_3_eq_3)
qed

text \<open>
  \<open>calculateIdealNumOfBuckets\<close> returns, for any table: its search ends, and the
  number found is odd, at least 5, and has no odd divisor between 3 and 49 unless it is
  itself below 51.
\<close>

lemma calculateIdealNumOfBuckets_correct:
  "odd (calculateIdealNumOfBuckets ht) \<and> 5 \<le> calculateIdealNumOfBuckets ht \<and>
   (\<forall>j. odd j \<and> 3 \<le> j \<and> j < 51 \<and> j dvd calculateIdealNumOfBuckets ht \<longrightarrow>
      calculateIdealNumOfBuckets ht < 51)"
proof (intro conjI allI impI)
  show "odd (calculateIdealNumOfBuckets ht)"
    unfolding calculateIdealNumOfBuckets_def Let_def
    by (rule next_candidate_odd) (auto simp: or_one_eq)
  show "5 \<le> calculateIdealNumOfBuckets ht"
    by (rule calculateIdeal_ge)
  fix j :: int
  assume "odd j \<and> 3 \<le> j \<and> j < 51 \<and> j dvd calculateIdealNumOfBuckets ht"
  moreover have "isProbablePrime_loop (calculateIdealNumOfBuckets ht) 3"
    using next_candidate_prime
    by (simp add: calculateIdealNumOfBuckets_def isProbablePrime_def)
  ultimately show "calculateIdealNumOfBuckets ht < 51"
    using isProbablePrime_loop_iff [of 3] by auto
qed

lemma calculateIdealNumOfBuckets_example:
  "odd (calculateIdealNumOfBuckets two_chains) \<and> 5 \<le> calculateIdealNumOfBuckets two_chains"
  using calculateIdealNumOfBuckets_correct [of two_chains] by blast

end
