(* ===== verification/GenericList.thy ===== *)
theory GenericList
  imports Prelude "HOL-Library.Monad_Syntax"
begin

text \<open>
  The doubly linked list of \<open>src/genericlist.c\<close> and its front end \<open>UtilList\<close>, with its
  pointers. A list has three elements embedded in its \<open>info\<close> structure (\<open>pre_element\<close>,
  \<open>post_element\<close>, \<open>deleted_element\<close>) and allocated ones. The memory maps a pointer to
  the element it points to; a freed or never allocated element has no entry, and following
  a pointer without an entry gives \<^term>\<open>None\<close>, as does a loop that does not end. The address
  an allocation returns is an argument of the operation; it is any unused one.
\<close>

section \<open>Data\<close>

datatype ptr = NullP | Pre | Post | Deleted | Elem nat

record 'a element =
  el_pointer :: "'a option"
  el_previous :: ptr
  el_next :: ptr

record 'a glist =
  mem :: "ptr \<rightharpoonup> 'a element"
  current :: ptr
  lt :: "('a \<Rightarrow> 'a \<Rightarrow> bool) option"
  num_of_elements :: "32 word"

definition set_next :: "(ptr \<rightharpoonup> 'a element) \<Rightarrow> ptr \<Rightarrow> ptr \<Rightarrow> (ptr \<rightharpoonup> 'a element) option" where
  "set_next m p q = (case m p of None \<Rightarrow> None | Some e \<Rightarrow> Some (m(p \<mapsto> e\<lparr>el_next := q\<rparr>)))"

definition set_previous :: "(ptr \<rightharpoonup> 'a element) \<Rightarrow> ptr \<Rightarrow> ptr \<Rightarrow> (ptr \<rightharpoonup> 'a element) option" where
  "set_previous m p q = (case m p of None \<Rightarrow> None | Some e \<Rightarrow> Some (m(p \<mapsto> e\<lparr>el_previous := q\<rparr>)))"

text \<open>\<open>free\<close> of an allocated element; of anything else it is undefined.\<close>

definition free_elem :: "(ptr \<rightharpoonup> 'a element) \<Rightarrow> ptr \<Rightarrow> (ptr \<rightharpoonup> 'a element) option" where
  "free_elem m p = (case p of Elem a \<Rightarrow> (if m p = None then None else Some (m(p := None))) | _ \<Rightarrow> None)"

section \<open>Operations\<close>

text \<open>The links of \<open>deleted_element\<close> are not initialised by the code; here they are NULL.\<close>

definition initialize_list :: "'a glist" where
  "initialize_list =
     \<lparr>mem = [Pre \<mapsto> \<lparr>el_pointer = None, el_previous = Pre, el_next = Post\<rparr>,
             Post \<mapsto> \<lparr>el_pointer = None, el_previous = Pre, el_next = Post\<rparr>,
             Deleted \<mapsto> \<lparr>el_pointer = None, el_previous = NullP, el_next = NullP\<rparr>],
      current = Pre, lt = None, num_of_elements = 0\<rparr>"

definition initialize_sorted_list :: "('a \<Rightarrow> 'a \<Rightarrow> bool) option \<Rightarrow> 'a glist" where
  "initialize_sorted_list f = initialize_list\<lparr>lt := f\<rparr>"

definition add_to_beginning :: "nat \<Rightarrow> 'a glist \<Rightarrow> 'a option \<Rightarrow> 'a glist option" where
  "add_to_beginning a list pointer =
     (if pointer = None then Some list
      else do {
        pre \<leftarrow> mem list Pre;
        let element = \<lparr>el_pointer = pointer, el_previous = Pre, el_next = el_next pre\<rparr>;
        m \<leftarrow> set_previous ((mem list)(Elem a \<mapsto> element)) (el_next pre) (Elem a);
        m \<leftarrow> set_next m Pre (Elem a);
        Some (list\<lparr>mem := m, num_of_elements := num_of_elements list + 1\<rparr>)
      })"

definition add_to_end :: "nat \<Rightarrow> 'a glist \<Rightarrow> 'a option \<Rightarrow> 'a glist option" where
  "add_to_end a list pointer =
     (if pointer = None then Some list
      else do {
        post \<leftarrow> mem list Post;
        let element = \<lparr>el_pointer = pointer, el_previous = el_previous post, el_next = Post\<rparr>;
        m \<leftarrow> set_next ((mem list)(Elem a \<mapsto> element)) (el_previous post) (Elem a);
        m \<leftarrow> set_previous m Post (Elem a);
        Some (list\<lparr>mem := m, num_of_elements := num_of_elements list + 1\<rparr>)
      })"

partial_function (option) search_back ::
    "(ptr \<rightharpoonup> 'a element) \<Rightarrow> ptr \<Rightarrow> 'a option \<Rightarrow> ptr option" where
  "search_back m element pointer =
     (if element = Pre then Some element
      else case m element of None \<Rightarrow> None
        | Some e \<Rightarrow> if el_pointer e = pointer then Some element
                    else search_back m (el_previous e) pointer)"

text \<open>Unlinking and freeing an element, with the number of elements counted down.\<close>

definition unlink_elem :: "'a glist \<Rightarrow> ptr \<Rightarrow> 'a element \<Rightarrow> 'a glist option" where
  "unlink_elem list element e =
     do {
       m \<leftarrow> set_next (mem list) (el_previous e) (el_next e);
       m \<leftarrow> set_previous m (el_next e) (el_previous e);
       m \<leftarrow> free_elem m element;
       Some (list\<lparr>mem := m, num_of_elements := num_of_elements list - 1\<rparr>)
     }"

text \<open>Parking the cursor on \<open>deleted_element\<close>, which keeps the neighbours of the element.\<close>

definition park_current :: "'a glist \<Rightarrow> 'a element \<Rightarrow> 'a glist option" where
  "park_current list e =
     do {
       m \<leftarrow> set_previous (mem list) Deleted (el_previous e);
       m \<leftarrow> set_next m Deleted (el_next e);
       Some (list\<lparr>mem := m, current := Deleted\<rparr>)
     }"

definition remove_from_list :: "'a glist \<Rightarrow> 'a option \<Rightarrow> ('a glist \<times> 'a option) option" where
  "remove_from_list list pointer =
     do {
       post \<leftarrow> mem list Post;
       element \<leftarrow> search_back (mem list) (el_previous post) pointer;
       if element = Pre then Some (list, None)
       else do {
         e \<leftarrow> mem list element;
         list \<leftarrow> (if element = current list then park_current list e else Some list);
         list \<leftarrow> unlink_elem list element e;
         Some (list, pointer)
       }
     }"

definition remove_from_beginning :: "'a glist \<Rightarrow> ('a glist \<times> 'a option) option" where
  "remove_from_beginning list =
     (if num_of_elements list = 0 then Some (list, None)
      else do {
        pre \<leftarrow> mem list Pre;
        let element = el_next pre;
        let list = (if element = current list then list\<lparr>current := Pre\<rparr> else list);
        e \<leftarrow> mem list element;
        m \<leftarrow> set_next (mem list) Pre (el_next e);
        m \<leftarrow> set_previous m (el_next e) Pre;
        m \<leftarrow> free_elem m element;
        Some (list\<lparr>mem := m, num_of_elements := num_of_elements list - 1\<rparr>, el_pointer e)
      })"

definition remove_from_end :: "'a glist \<Rightarrow> ('a glist \<times> 'a option) option" where
  "remove_from_end list =
     (if num_of_elements list = 0 then Some (list, None)
      else do {
        post \<leftarrow> mem list Post;
        let element = el_previous post;
        let list = (if element = current list then list\<lparr>current := Post\<rparr> else list);
        e \<leftarrow> mem list element;
        m \<leftarrow> set_previous (mem list) Post (el_previous e);
        m \<leftarrow> set_next m (el_previous e) Post;
        m \<leftarrow> free_elem m element;
        Some (list\<lparr>mem := m, num_of_elements := num_of_elements list - 1\<rparr>, el_pointer e)
      })"

definition remove_current :: "'a glist \<Rightarrow> ('a glist \<times> 'a option) option" where
  "remove_current list =
     do {
       let element = current list;
       e \<leftarrow> mem list element;
       if el_pointer e = None then Some (list, None)
       else do {
         list \<leftarrow> park_current list e;
         m \<leftarrow> set_previous (mem list) (el_next e) (el_previous e);
         m \<leftarrow> set_next m (el_previous e) (el_next e);
         m \<leftarrow> free_elem m element;
         Some (list\<lparr>mem := m, num_of_elements := num_of_elements list - 1\<rparr>, el_pointer e)
       }
     }"

partial_function (option) free_all :: "(ptr \<rightharpoonup> 'a element) \<Rightarrow> ptr \<Rightarrow> (ptr \<rightharpoonup> 'a element) option" where
  "free_all m element =
     (if element = NullP \<or> element = Post then Some m
      else case m element of None \<Rightarrow> None
        | Some e \<Rightarrow>
            if el_next e = NullP then Some m
            else case m (el_next e) of None \<Rightarrow> None
              | Some n \<Rightarrow>
                  (case free_elem m (el_previous n) of None \<Rightarrow> None
                   | Some m' \<Rightarrow> free_all m' (el_next e)))"

definition remove_all :: "'a glist \<Rightarrow> 'a glist option" where
  "remove_all list =
     do {
       pre \<leftarrow> mem list Pre;
       m \<leftarrow> free_all (mem list) (el_next pre);
       m \<leftarrow> set_next m Pre Post;
       m \<leftarrow> set_previous m Post Pre;
       Some (list\<lparr>mem := m, num_of_elements := 0\<rparr>)
     }"

definition destroy_list :: "'a glist \<Rightarrow> unit option" where
  "destroy_list list = map_option (\<lambda>_. ()) (remove_all list)"

text \<open>The payload under the cursor, after the cursor was set.\<close>

definition current_in_list :: "'a glist \<Rightarrow> 'a option option" where
  "current_in_list list = map_option el_pointer (mem list (current list))"

definition move_to :: "'a glist \<Rightarrow> ptr \<Rightarrow> ('a glist \<times> 'a option) option" where
  "move_to list p = map_option (\<lambda>e. (list\<lparr>current := p\<rparr>, el_pointer e)) (mem list p)"

definition first_in_list :: "'a glist \<Rightarrow> ('a glist \<times> 'a option) option" where
  "first_in_list list =
     do {
       pre \<leftarrow> mem list Pre;
       e \<leftarrow> mem list (el_next pre);
       n \<leftarrow> mem list (el_next e);
       move_to list (el_previous n)
     }"

definition last_in_list :: "'a glist \<Rightarrow> ('a glist \<times> 'a option) option" where
  "last_in_list list =
     do {
       post \<leftarrow> mem list Post;
       e \<leftarrow> mem list (el_previous post);
       n \<leftarrow> mem list (el_previous e);
       move_to list (el_next n)
     }"

definition next_in_list :: "'a glist \<Rightarrow> ('a glist \<times> 'a option) option" where
  "next_in_list list = do { c \<leftarrow> mem list (current list); move_to list (el_next c) }"

definition previous_in_list :: "'a glist \<Rightarrow> ('a glist \<times> 'a option) option" where
  "previous_in_list list = do { c \<leftarrow> mem list (current list); move_to list (el_previous c) }"

definition reset_to_beginning :: "'a glist \<Rightarrow> 'a glist" where
  "reset_to_beginning list = list\<lparr>current := Pre\<rparr>"

definition num_of_objects :: "'a glist \<Rightarrow> 32 word" where
  "num_of_objects list = num_of_elements list"

definition is_empty :: "'a glist \<Rightarrow> bool" where
  "is_empty list = (num_of_elements list = 0)"

partial_function (option) search_forward ::
    "(ptr \<rightharpoonup> 'a element) \<Rightarrow> ptr \<Rightarrow> 'a option \<Rightarrow> ptr option" where
  "search_forward m element pointer =
     (if element = Post then Some element
      else case m element of None \<Rightarrow> None
        | Some e \<Rightarrow> if el_pointer e = pointer then Some element
                    else search_forward m (el_next e) pointer)"

definition is_in_list :: "'a glist \<Rightarrow> 'a option \<Rightarrow> bool option" where
  "is_in_list list pointer =
     do {
       pre \<leftarrow> mem list Pre;
       element \<leftarrow> search_forward (mem list) (el_next pre) pointer;
       Some (element \<noteq> Post)
     }"

text \<open>Copying; the elements of the copy are allocated at the addresses \<open>a\<close>, \<open>a + 1\<close>, ...\<close>

partial_function (option) copy_from ::
    "nat \<Rightarrow> (ptr \<rightharpoonup> 'a element) \<Rightarrow> ptr \<Rightarrow> 'a glist \<Rightarrow> 'a glist option" where
  "copy_from a m element copy =
     (if element = Post then Some copy
      else case m element of None \<Rightarrow> None
        | Some e \<Rightarrow> (case add_to_end a copy (el_pointer e) of None \<Rightarrow> None
            | Some copy' \<Rightarrow> copy_from (Suc a) m (el_next e) copy'))"

definition copy_list :: "nat \<Rightarrow> 'a glist \<Rightarrow> 'a glist option" where
  "copy_list a list =
     do {
       pre \<leftarrow> mem list Pre;
       copy_from a (mem list) (el_next pre) (initialize_sorted_list (lt list))
     }"

subsection \<open>The front end\<close>

definition listRelease :: "'a glist \<Rightarrow> unit option" where
  "listRelease ul = destroy_list ul"

definition listClone :: "nat \<Rightarrow> 'a glist \<Rightarrow> 'a glist option" where
  "listClone a ul = copy_list a ul"

definition listClear :: "'a glist \<Rightarrow> 'a glist option" where
  "listClear ul = remove_all ul"

definition listSize :: "'a glist \<Rightarrow> 32 word" where
  "listSize ul = num_of_objects ul"

definition listIsEmpty :: "'a glist \<Rightarrow> bool" where
  "listIsEmpty ul = is_empty ul"

definition listContains :: "'a glist \<Rightarrow> 'a option \<Rightarrow> bool option" where
  "listContains ul elm = is_in_list ul elm"

definition listAppend :: "nat \<Rightarrow> 'a glist \<Rightarrow> 'a option \<Rightarrow> 'a glist option" where
  "listAppend a ul elm = add_to_end a ul elm"

definition listPrepend :: "nat \<Rightarrow> 'a glist \<Rightarrow> 'a option \<Rightarrow> 'a glist option" where
  "listPrepend a ul elm = add_to_beginning a ul elm"

definition listAdd :: "nat \<Rightarrow> 'a glist \<Rightarrow> 'a option \<Rightarrow> 'a glist option" where
  "listAdd a ul elm = add_to_beginning a ul elm"

definition listGetFirst :: "'a glist \<Rightarrow> ('a glist \<times> 'a option) option" where
  "listGetFirst ul = first_in_list (reset_to_beginning ul)"

definition listGetLast :: "'a glist \<Rightarrow> ('a glist \<times> 'a option) option" where
  "listGetLast ul = last_in_list ul"

definition listGetNext :: "'a glist \<Rightarrow> ('a glist \<times> 'a option) option" where
  "listGetNext ul = next_in_list ul"

definition listGetPrevious :: "'a glist \<Rightarrow> ('a glist \<times> 'a option) option" where
  "listGetPrevious ul = previous_in_list ul"

definition listGetCurrent :: "'a glist \<Rightarrow> 'a option option" where
  "listGetCurrent ul = current_in_list ul"

definition listRemoveFirst :: "'a glist \<Rightarrow> ('a glist \<times> 'a option) option" where
  "listRemoveFirst ul = remove_from_beginning ul"

definition listRemoveLast :: "'a glist \<Rightarrow> ('a glist \<times> 'a option) option" where
  "listRemoveLast ul = remove_from_end ul"

definition listRemoveCurrent :: "'a glist \<Rightarrow> ('a glist \<times> 'a option) option" where
  "listRemoveCurrent ul = remove_current ul"

definition listRemoveThis :: "'a glist \<Rightarrow> 'a option \<Rightarrow> ('a glist \<times> 'a option) option" where
  "listRemoveThis ul elm = remove_from_list ul elm"

definition newList :: "'a glist" where
  "newList = initialize_list"

text \<open>
  The loops of the callers over \<open>getFirst\<close> and \<open>getNext\<close>: visiting all elements, and
  \<open>removeChild\<close> of \<open>src/classProvider.c\<close>, which removes the first matching one.
\<close>

partial_function (option) visit_from ::
    "('s \<Rightarrow> ('s \<times> 'a option) option) \<Rightarrow> 's \<Rightarrow> 'a option \<Rightarrow> ('s \<times> 'a list) option" where
  "visit_from getNext g x =
     (case x of None \<Rightarrow> Some (g, [])
      | Some y \<Rightarrow> (case getNext g of None \<Rightarrow> None
          | Some (g', x') \<Rightarrow> Option.bind (visit_from getNext g' x') (\<lambda>(g'', ys). Some (g'', y # ys))))"

definition visit ::
    "('s \<Rightarrow> ('s \<times> 'a option) option) \<Rightarrow> ('s \<Rightarrow> ('s \<times> 'a option) option) \<Rightarrow> 's \<Rightarrow> ('s \<times> 'a list) option" where
  "visit getFirst getNext g = (case getFirst g of None \<Rightarrow> None | Some (g', x) \<Rightarrow> visit_from getNext g' x)"

partial_function (option) remove_match ::
    "('s \<Rightarrow> ('s \<times> 'a option) option) \<Rightarrow> ('s \<Rightarrow> ('s \<times> 'a option) option) \<Rightarrow> ('a \<Rightarrow> bool) \<Rightarrow> 's \<Rightarrow>
     'a option \<Rightarrow> 's option" where
  "remove_match getNext removeCurrent P g x =
     (case x of None \<Rightarrow> Some g
      | Some y \<Rightarrow>
          if P y then (case removeCurrent g of None \<Rightarrow> None | Some (g', _) \<Rightarrow> Some g')
          else (case getNext g of None \<Rightarrow> None
            | Some (g', x') \<Rightarrow> remove_match getNext removeCurrent P g' x'))"

definition removeChild_from :: "string glist option \<Rightarrow> string \<Rightarrow> string glist option option" where
  "removeChild_from ul chd =
     (case ul of None \<Rightarrow> Some None
      | Some g \<Rightarrow> (case listGetFirst g of None \<Rightarrow> None
          | Some (g', child) \<Rightarrow>
              map_option Some
                (remove_match listGetNext listRemoveCurrent (\<lambda>child. strcasecmp child chd = 0) g' child)))"

section \<open>Chains of elements\<close>

definition nxt :: "(ptr \<rightharpoonup> 'a element) \<Rightarrow> ptr \<Rightarrow> ptr option" where
  "nxt m p = map_option el_next (m p)"

definition prv :: "(ptr \<rightharpoonup> 'a element) \<Rightarrow> ptr \<Rightarrow> ptr option" where
  "prv m p = map_option el_previous (m p)"

definition payload :: "(ptr \<rightharpoonup> 'a element) \<Rightarrow> ptr \<Rightarrow> 'a option option" where
  "payload m p = map_option el_pointer (m p)"

fun linked :: "(ptr \<rightharpoonup> 'a element) \<Rightarrow> ptr list \<Rightarrow> bool" where
  "linked m (p # q # ps) = (nxt m p = Some q \<and> prv m q = Some p \<and> linked m (q # ps))"
| "linked m ps = True"

lemma linked_append: "linked m (us @ p # vs) \<longleftrightarrow> linked m (us @ [p]) \<and> linked m (p # vs)"
proof (induction us)
  case (Cons u us)
  then show ?case by (cases us) auto
qed simp

lemma linked_frame:
  "(\<And>p. p \<in> set (butlast ps) \<Longrightarrow> nxt m' p = nxt m p) \<Longrightarrow> (\<And>p. p \<in> set (tl ps) \<Longrightarrow> prv m' p = prv m p) \<Longrightarrow>
   linked m' ps = linked m ps"
proof (induction ps rule: induct_list012)
  case (3 p q ps)
  have "linked m' (q # ps) = linked m (q # ps)"
  proof (rule "3.IH"(2))
    show "nxt m' r = nxt m r" if "r \<in> set (butlast (q # ps))" for r
      using that by (intro "3.prems"(1)) simp
    show "prv m' r = prv m r" if "r \<in> set (tl (q # ps))" for r
      using that by (intro "3.prems"(2)) simp
  qed
  moreover have "nxt m' p = nxt m p" by (rule "3.prems"(1)) simp
  moreover have "prv m' q = prv m q" by (rule "3.prems"(2)) simp
  ultimately show ?case by simp
qed simp_all

lemma linked_frame_left:
  assumes "\<And>r. r \<in> set us \<Longrightarrow> nxt m' r = nxt m r" "\<And>r. r \<in> set us \<or> r = p \<Longrightarrow> prv m' r = prv m r"
  shows "linked m' (us @ [p]) = linked m (us @ [p])"
proof (rule linked_frame)
  show "nxt m' r = nxt m r" if "r \<in> set (butlast (us @ [p]))" for r
    using that by (intro assms(1)) simp
  show "prv m' r = prv m r" if "r \<in> set (tl (us @ [p]))" for r
    using list.set_sel(2) [of "us @ [p]" r] that by (intro assms(2)) auto
qed

lemma linked_frame_right:
  assumes "\<And>r. r \<in> set (q # vs) \<Longrightarrow> nxt m' r = nxt m r" "\<And>r. r \<in> set vs \<Longrightarrow> prv m' r = prv m r"
  shows "linked m' (q # vs) = linked m (q # vs)"
proof (rule linked_frame)
  show "nxt m' r = nxt m r" if "r \<in> set (butlast (q # vs))" for r
    using in_set_butlastD [OF that] by (rule assms(1))
  show "prv m' r = prv m r" if "r \<in> set (tl (q # vs))" for r
    using that by (intro assms(2)) simp
qed

text \<open>Linking a new element between two neighbours, and unlinking one.\<close>

lemma linked_insert:
  assumes l: "linked m (us @ p # q # vs)" and d: "distinct (us @ p # n # q # vs)"
    and n: "nxt m' n = Some q" "prv m' n = Some p" "nxt m' p = Some n" "prv m' q = Some n"
    and fn: "\<And>r. r \<noteq> p \<Longrightarrow> r \<noteq> n \<Longrightarrow> nxt m' r = nxt m r" 
    and fp: "\<And>r. r \<noteq> q \<Longrightarrow> r \<noteq> n \<Longrightarrow> prv m' r = prv m r"
  shows "linked m' (us @ p # n # q # vs)"
proof -
  have "linked m (us @ [p])" "linked m (q # vs)"
    using l linked_append [of m us p "q # vs"] by auto
  moreover have "linked m' (us @ [p]) = linked m (us @ [p])"
    by (rule linked_frame_left; (rule fn | rule fp); use d in auto)
  moreover have "linked m' (q # vs) = linked m (q # vs)"
    by (rule linked_frame_right; (rule fn | rule fp); use d in auto)
  ultimately show ?thesis
    using n linked_append [of m' us p "n # q # vs"] by simp
qed

lemma linked_delete:
  assumes l: "linked m (us @ p # e # q # vs)" and d: "distinct (us @ p # e # q # vs)"
    and n: "nxt m' p = Some q" "prv m' q = Some p"
    and fn: "\<And>r. r \<noteq> p \<Longrightarrow> r \<noteq> e \<Longrightarrow> nxt m' r = nxt m r" 
    and fp: "\<And>r. r \<noteq> q \<Longrightarrow> r \<noteq> e \<Longrightarrow> prv m' r = prv m r"
  shows "linked m' (us @ p # q # vs)"
proof -
  have "linked m (us @ [p])" "linked m (q # vs)"
    using l linked_append [of m us p "e # q # vs"] by auto
  moreover have "linked m' (us @ [p]) = linked m (us @ [p])"
    by (rule linked_frame_left; (rule fn | rule fp); use d in auto)
  moreover have "linked m' (q # vs) = linked m (q # vs)"
    by (rule linked_frame_right; (rule fn | rule fp); use d in auto)
  ultimately show ?thesis
    using n linked_append [of m' us p "q # vs"] by simp
qed

text \<open>
  The list with the elements at the addresses \<open>as\<close> that point to \<open>xs\<close>, in order; all
  other addresses are free.
\<close>

abbreviation chain :: "nat list \<Rightarrow> ptr list" where
  "chain as \<equiv> Pre # map Elem as @ [Post]"

definition represents :: "'a glist \<Rightarrow> nat list \<Rightarrow> 'a list \<Rightarrow> bool" where
  "represents g as xs \<longleftrightarrow>
     distinct as \<and> linked (mem g) (chain as) \<and>
     map (\<lambda>a. payload (mem g) (Elem a)) as = map (\<lambda>x. Some (Some x)) xs \<and>
     payload (mem g) Pre = Some None \<and> payload (mem g) Post = Some None \<and>
     payload (mem g) Deleted = Some None \<and>
     prv (mem g) Pre = Some Pre \<and> nxt (mem g) Post = Some Post \<and>
     (\<forall>a. a \<notin> set as \<longrightarrow> mem g (Elem a) = None) \<and>
     num_of_elements g = of_nat (length xs)"

lemma represents_length: "represents g as xs \<Longrightarrow> length as = length xs"
  unfolding represents_def by (metis length_map)

lemma chain_distinct [simp]: "distinct (chain as) \<longleftrightarrow> distinct as"
  by (auto simp: distinct_map inj_on_def)

lemma represents_new: "represents newList [] []"
  by (simp add: represents_def newList_def initialize_list_def nxt_def prv_def payload_def)

text \<open>Reading and writing memory through the three fields.\<close>

lemma set_next_fields:
  assumes "m p \<noteq> None"
  obtains m' where "set_next m p q = Some m'" "nxt m' = (nxt m)(p := Some q)" "prv m' = prv m"
    "payload m' = payload m" "dom m' = dom m"
proof -
  from assms obtain e where e: "m p = Some e" by auto
  let ?m = "m(p \<mapsto> e\<lparr>el_next := q\<rparr>)"
  have "set_next m p q = Some ?m" "nxt ?m = (nxt m)(p := Some q)" "prv ?m = prv m"
    "payload ?m = payload m" "dom ?m = dom m"
    using e by (auto simp: set_next_def nxt_def prv_def payload_def fun_eq_iff)
  then show thesis by (rule that)
qed

lemma set_previous_fields:
  assumes "m p \<noteq> None"
  obtains m' where "set_previous m p q = Some m'" "prv m' = (prv m)(p := Some q)" "nxt m' = nxt m"
    "payload m' = payload m" "dom m' = dom m"
proof -
  from assms obtain e where e: "m p = Some e" by auto
  let ?m = "m(p \<mapsto> e\<lparr>el_previous := q\<rparr>)"
  have "set_previous m p q = Some ?m" "prv ?m = (prv m)(p := Some q)" "nxt ?m = nxt m"
    "payload ?m = payload m" "dom ?m = dom m"
    using e by (auto simp: set_previous_def nxt_def prv_def payload_def fun_eq_iff)
  then show thesis by (rule that)
qed

lemma field_dom: "nxt m p = Some q \<Longrightarrow> m p \<noteq> None" "prv m p = Some q \<Longrightarrow> m p \<noteq> None"
  "payload m p = Some x \<Longrightarrow> m p \<noteq> None"
  by (auto simp: nxt_def prv_def payload_def)

lemma chain_fields:
  assumes "represents g as xs" "chain as = us @ p # q # vs"
  shows "nxt (mem g) p = Some q" "prv (mem g) q = Some p"
  using assms linked_append [of "mem g" us p "q # vs"] by (auto simp: represents_def)

definition before :: "nat list \<Rightarrow> ptr" where
  "before as = last (Pre # map Elem as)"

definition after :: "nat list \<Rightarrow> ptr" where
  "after as = hd (map Elem as @ [Post])"

lemma before_simps [simp]: "before [] = Pre" "before (as @ [a]) = Elem a"
  by (simp_all add: before_def)

lemma after_simps [simp]: "after [] = Post" "after (a # as) = Elem a"
  by (simp_all add: after_def)

lemma chain_split:
  "chain (as @ bs) = butlast (Pre # map Elem as) @ before as # after bs # tl (map Elem bs @ [Post])"
proof -
  have "Pre # map Elem as = butlast (Pre # map Elem as) @ [before as]"
    by (simp only: before_def append_butlast_last_id list.distinct not_False_eq_True)
  moreover have "map Elem bs @ [Post] = after bs # tl (map Elem bs @ [Post])"
    by (simp add: after_def)
  ultimately show ?thesis
    by (metis append.assoc append_Cons append_Nil map_append)
qed

lemma chain_split3:
  "chain (as @ a # bs) = butlast (Pre # map Elem as) @ before as # Elem a # after bs # tl (map Elem bs @ [Post])"
proof -
  have "map Elem bs @ [Post] = after bs # tl (map Elem bs @ [Post])"
    by (simp add: after_def)
  then show ?thesis
    using chain_split [of as "a # bs"] by simp
qed

lemma payload_None: "payload m p = None \<longleftrightarrow> m p = None"
  by (simp add: payload_def)

lemma represents_free: "represents g as xs \<Longrightarrow> mem g (Elem a) = None \<longleftrightarrow> a \<notin> set as"
proof -
  assume r: "represents g as xs"
  have "mem g (Elem a) \<noteq> None" if a: "a \<in> set as"
  proof -
    have "payload (mem g) (Elem a) \<in> set (map (\<lambda>a. payload (mem g) (Elem a)) as)" using a by simp
    also have "\<dots> = set (map (\<lambda>x. Some (Some x)) xs)" using r by (simp add: represents_def)
    finally show ?thesis by (auto simp: payload_def)
  qed
  with r show ?thesis by (auto simp: represents_def)
qed

lemma represents_fields:
  assumes "represents g (as @ bs) xs"
  shows "nxt (mem g) (before as) = Some (after bs)" "prv (mem g) (after bs) = Some (before as)"
  using chain_fields [OF assms chain_split] .

lemma before_after_neq [simp]: "before as \<noteq> Post" "after as \<noteq> Pre" "before as \<noteq> NullP" "after as \<noteq> NullP"
   "before as \<noteq> Deleted" "after as \<noteq> Deleted"
   "Post \<noteq> before as" "Pre \<noteq> after as" "Deleted \<noteq> before as" "Deleted \<noteq> after as"
  using last_in_set [of "Pre # map Elem as"] hd_in_set [of "map Elem as @ [Post]"]
  unfolding before_def after_def by (auto simp: hd_append simp del: last.simps)

lemma before_in: "before as = Elem a \<Longrightarrow> a \<in> set as"
  using last_in_set [of "Pre # map Elem as"] unfolding before_def by (auto simp del: last.simps)

lemma after_in: "after as = Elem a \<Longrightarrow> a \<in> set as"
  using hd_in_set [of "map Elem as @ [Post]"] unfolding after_def by (auto simp: hd_append)

lemma represents_linked: "represents g as xs \<Longrightarrow> linked (mem g) (chain as)"
  by (simp add: represents_def)

lemma map_upd_outside:
  "a \<notin> set cs \<Longrightarrow> map (\<lambda>c. if c = a then y else f c) cs = map f cs"
  by (induction cs) auto

text \<open>One element linked in, and one unlinked, through the fields of the memory.\<close>

lemma represents_insert:
  assumes r: "represents g (as @ bs) (xs @ ys)" and len: "length as = length xs"
    and a: "mem g (Elem a) = None"
    and fn: "nxt (mem g') = (nxt (mem g))(before as := Some (Elem a), Elem a := Some (after bs))"
    and fp: "prv (mem g') = (prv (mem g))(after bs := Some (Elem a), Elem a := Some (before as))"
    and pl: "payload (mem g') = (payload (mem g))(Elem a := Some (Some x))"
    and num: "num_of_elements g' = num_of_elements g + 1"
  shows "represents g' (as @ a # bs) (xs @ x # ys)"
proof -
  have na: "a \<notin> set (as @ bs)"
    using represents_free [OF r] a by blast
  have dist: "distinct (as @ a # bs)"
    using r na by (simp add: represents_def)
  have neq: "before as \<noteq> Elem a" "after bs \<noteq> Elem a"
    using na before_in after_in by fastforce+
  note l = represents_linked [OF r, unfolded chain_split]
  note d = dist [THEN chain_distinct [THEN iffD2], unfolded chain_split3]
  have "linked (mem g') (chain (as @ a # bs))"
    unfolding chain_split3 by (rule linked_insert [OF l d]) (use neq d in \<open>simp_all add: fn fp\<close>)
  then show ?thesis
    using r na dist len num before_after_neq [of as] before_after_neq [of bs]
    by (simp add: represents_def pl fn fp payload_None [symmetric] map_upd_outside)
qed

lemma represents_delete:
  assumes r: "represents g (as @ a # bs) (xs @ x # ys)" and len: "length as = length xs"
    and fn: "nxt (mem g') = (nxt (mem g))(before as := Some (after bs), Elem a := None)"
    and fp: "prv (mem g') = (prv (mem g))(after bs := Some (before as), Elem a := None)"
    and pl: "payload (mem g') = (payload (mem g))(Elem a := None)"
    and num: "num_of_elements g' = num_of_elements g - 1"
  shows "represents g' (as @ bs) (xs @ ys)"
proof -
  have na: "a \<notin> set (as @ bs)" and dist: "distinct (as @ a # bs)"
    using r by (auto simp: represents_def)
  have neq: "before as \<noteq> Elem a" "after bs \<noteq> Elem a"
    using na before_in after_in by fastforce+
  note l = represents_linked [OF r, unfolded chain_split3]
  note d = dist [THEN chain_distinct [THEN iffD2], unfolded chain_split3]
  have "linked (mem g') (chain (as @ bs))"
    unfolding chain_split by (rule linked_delete [OF l d]) (use neq d in \<open>simp_all add: fn fp\<close>)
  then show ?thesis
    using r na dist len num
    by (simp add: represents_def pl fn fp payload_None [symmetric] map_upd_outside)
qed

lemma alloc_fields:
  "nxt (m(p \<mapsto> e)) = (nxt m)(p := Some (el_next e))"
  "prv (m(p \<mapsto> e)) = (prv m)(p := Some (el_previous e))"
  "payload (m(p \<mapsto> e)) = (payload m)(p := Some (el_pointer e))"
  by (auto simp: nxt_def prv_def payload_def)

lemma free_fields:
  assumes "m (Elem a) \<noteq> None"
  obtains m' where "free_elem m (Elem a) = Some m'" "nxt m' = (nxt m)(Elem a := None)"
    "prv m' = (prv m)(Elem a := None)" "payload m' = (payload m)(Elem a := None)"
proof -
  have "free_elem m (Elem a) = Some (m(Elem a := None))"
    "nxt (m(Elem a := None)) = (nxt m)(Elem a := None)"
    "prv (m(Elem a := None)) = (prv m)(Elem a := None)"
    "payload (m(Elem a := None)) = (payload m)(Elem a := None)"
    using assms by (auto simp: free_elem_def nxt_def prv_def payload_def)
  then show thesis by (rule that)
qed

lemma fields_some:
  "nxt m p = Some q \<Longrightarrow> \<exists>e. m p = Some e \<and> el_next e = q"
  "prv m p = Some q \<Longrightarrow> \<exists>e. m p = Some e \<and> el_previous e = q"
  by (auto simp: nxt_def prv_def)

lemma add_to_end_ok:
  assumes r: "represents g as xs" and a: "mem g (Elem a) = None"
  shows "\<exists>g'. add_to_end a g (Some x) = Some g' \<and> represents g' (as @ [a]) (xs @ [x]) \<and>
    current g' = current g \<and> nxt (mem g') Deleted = nxt (mem g) Deleted \<and> lt g' = lt g"
proof -
  have f: "nxt (mem g) (before as) = Some Post" "prv (mem g) Post = Some (before as)"
    using represents_fields [of g as "[]" xs] r by simp_all
  obtain post where post: "mem g Post = Some post" "el_previous post = before as"
    using fields_some(2) [OF f(2)] by auto
  let ?m0 = "(mem g)(Elem a \<mapsto> \<lparr>el_pointer = Some x, el_previous = before as, el_next = Post\<rparr>)"
  have "before as \<noteq> Elem a" using a f(1) field_dom(1) by fastforce
  then have "?m0 (before as) \<noteq> None" using field_dom(1) [OF f(1)] by simp
  then obtain m1 where m1: "set_next ?m0 (before as) (Elem a) = Some m1"
      "nxt m1 = (nxt ?m0)(before as := Some (Elem a))" "prv m1 = prv ?m0" "payload m1 = payload ?m0" "dom m1 = dom ?m0"
    by (rule set_next_fields)
  have "m1 Post \<noteq> None" using post m1(5) by auto
  then obtain m2 where m2: "set_previous m1 Post (Elem a) = Some m2"
      "prv m2 = (prv m1)(Post := Some (Elem a))" "nxt m2 = nxt m1" "payload m2 = payload m1" "dom m2 = dom m1"
    by (rule set_previous_fields)
  let ?g = "g\<lparr>mem := m2, num_of_elements := num_of_elements g + 1\<rparr>"
  have "represents ?g (as @ a # []) (xs @ x # [])"
    by (rule represents_insert [where g = g])
      (use r a \<open>before as \<noteq> Elem a\<close> represents_length [OF r] in
        \<open>auto simp: m1 m2 alloc_fields\<close>)
  moreover have "nxt m2 Deleted = nxt (mem g) Deleted"
    using before_after_neq [of as] by (simp add: m1 m2 alloc_fields)
  ultimately show ?thesis
    using m1(1) m2(1) post by (intro exI [of _ ?g]) (simp add: add_to_end_def)
qed

lemma add_to_beginning_ok:
  assumes r: "represents g as xs" and a: "mem g (Elem a) = None"
  shows "\<exists>g'. add_to_beginning a g (Some x) = Some g' \<and> represents g' (a # as) (x # xs) \<and>
    current g' = current g \<and> nxt (mem g') Deleted = nxt (mem g) Deleted \<and> lt g' = lt g"
proof -
  have f: "nxt (mem g) Pre = Some (after as)" "prv (mem g) (after as) = Some Pre"
    using represents_fields [of g "[]" as xs] r by simp_all
  obtain pre where pre: "mem g Pre = Some pre" "el_next pre = after as"
    using fields_some(1) [OF f(1)] by auto
  let ?m0 = "(mem g)(Elem a \<mapsto> \<lparr>el_pointer = Some x, el_previous = Pre, el_next = after as\<rparr>)"
  have "after as \<noteq> Elem a" using a f(2) field_dom(2) by fastforce
  then have "?m0 (after as) \<noteq> None" using field_dom(2) [OF f(2)] by simp
  then obtain m1 where m1: "set_previous ?m0 (after as) (Elem a) = Some m1"
      "prv m1 = (prv ?m0)(after as := Some (Elem a))" "nxt m1 = nxt ?m0" "payload m1 = payload ?m0" "dom m1 = dom ?m0"
    by (rule set_previous_fields)
  have "m1 Pre \<noteq> None" using pre m1(5) by auto
  then obtain m2 where m2: "set_next m1 Pre (Elem a) = Some m2"
      "nxt m2 = (nxt m1)(Pre := Some (Elem a))" "prv m2 = prv m1" "payload m2 = payload m1" "dom m2 = dom m1"
    by (rule set_next_fields)
  let ?g = "g\<lparr>mem := m2, num_of_elements := num_of_elements g + 1\<rparr>"
  have "represents ?g ([] @ a # as) ([] @ x # xs)"
    by (rule represents_insert [where g = g])
      (use r a \<open>after as \<noteq> Elem a\<close> in \<open>auto simp: m1 m2 alloc_fields\<close>)
  moreover have "nxt m2 Deleted = nxt (mem g) Deleted"
    by (simp add: m1 m2 alloc_fields)
  ultimately show ?thesis
    using m1(1) m2(1) pre by (intro exI [of _ ?g]) (simp add: add_to_beginning_def)
qed

text \<open>Unlinking, in either order of the two writes.\<close>

lemma unlink_fields:
  assumes r: "represents g (as @ a # bs) (xs @ x # ys)" and len: "length as = length xs"
    and m: "nxt m = (nxt (mem g))(Deleted := d)" "prv m = (prv (mem g))(Deleted := d')"
      "payload m = payload (mem g)" "dom m = dom (mem g)"
  shows "\<exists>m1 m2 m3. set_next m (before as) (after bs) = Some m1 \<and>
       set_previous m1 (after bs) (before as) = Some m2 \<and> free_elem m2 (Elem a) = Some m3 \<and>
       represents (g\<lparr>mem := m3, current := c, num_of_elements := num_of_elements g - 1\<rparr>) (as @ bs) (xs @ ys) \<and>
       nxt m3 Deleted = d" (is ?P)
    "\<exists>m1 m2 m3. set_previous m (after bs) (before as) = Some m1 \<and>
       set_next m1 (before as) (after bs) = Some m2 \<and> free_elem m2 (Elem a) = Some m3 \<and>
       represents (g\<lparr>mem := m3, current := c, num_of_elements := num_of_elements g - 1\<rparr>) (as @ bs) (xs @ ys) \<and>
       nxt m3 Deleted = d" (is ?Q)
proof -
  have ra: "represents g ((as @ [a]) @ bs) (xs @ x # ys)" using r by simp
  have f: "nxt (mem g) (before as) = Some (Elem a)" "prv (mem g) (after bs) = Some (Elem a)"
    using represents_fields [OF r] represents_fields [OF ra] by simp_all
  have dom: "m (before as) \<noteq> None" "m (after bs) \<noteq> None" "m (Elem a) \<noteq> None"
    using field_dom(1) [OF f(1)] field_dom(2) [OF f(2)] represents_free [OF r, of a] m(4) by auto
  have fin: "represents (g\<lparr>mem := m', current := c, num_of_elements := num_of_elements g - 1\<rparr>) (as @ bs) (xs @ ys)"
    if "nxt m' = (nxt m)(before as := Some (after bs), Elem a := None)"
      "prv m' = (prv m)(after bs := Some (before as), Elem a := None)"
      "payload m' = (payload m)(Elem a := None)" for m'
  proof -
    let ?g = "g\<lparr>mem := m\<rparr>"
    have "linked m (chain (as @ a # bs)) = linked (mem g) (chain (as @ a # bs))"
      by (rule linked_frame) (auto simp: m dest!: in_set_butlastD)
    then have "represents ?g (as @ a # bs) (xs @ x # ys)"
      using r by (simp add: represents_def m payload_None [symmetric])
    then show ?thesis
      by (rule represents_delete [OF _ len]) (simp_all add: that)
  qed
  show ?P
  proof -
    obtain m1 where m1: "set_next m (before as) (after bs) = Some m1"
      "nxt m1 = (nxt m)(before as := Some (after bs))" "prv m1 = prv m" "payload m1 = payload m" "dom m1 = dom m"
      using dom(1) by (rule set_next_fields)
    have "m1 (after bs) \<noteq> None" using dom m1(5) by auto
    then obtain m2 where m2: "set_previous m1 (after bs) (before as) = Some m2"
      "prv m2 = (prv m1)(after bs := Some (before as))" "nxt m2 = nxt m1" "payload m2 = payload m1" "dom m2 = dom m1"
      by (rule set_previous_fields)
    have "m2 (Elem a) \<noteq> None" using dom m1(5) m2(5) by auto
    then obtain m3 where m3: "free_elem m2 (Elem a) = Some m3" "nxt m3 = (nxt m2)(Elem a := None)"
      "prv m3 = (prv m2)(Elem a := None)" "payload m3 = (payload m2)(Elem a := None)"
      by (rule free_fields)
    have "nxt m3 Deleted = d" using before_after_neq [of as] by (simp add: m1 m2 m3 m)
    with m1(1) m2(1) m3(1) fin [of m3] show ?thesis by (simp add: m1 m2 m3)
  qed
  show ?Q
  proof -
    obtain m1 where m1: "set_previous m (after bs) (before as) = Some m1"
      "prv m1 = (prv m)(after bs := Some (before as))" "nxt m1 = nxt m" "payload m1 = payload m" "dom m1 = dom m"
      using dom(2) by (rule set_previous_fields)
    have "m1 (before as) \<noteq> None" using dom m1(5) by auto
    then obtain m2 where m2: "set_next m1 (before as) (after bs) = Some m2"
      "nxt m2 = (nxt m1)(before as := Some (after bs))" "prv m2 = prv m1" "payload m2 = payload m1" "dom m2 = dom m1"
      by (rule set_next_fields)
    have "m2 (Elem a) \<noteq> None" using dom m1(5) m2(5) by auto
    then obtain m3 where m3: "free_elem m2 (Elem a) = Some m3" "nxt m3 = (nxt m2)(Elem a := None)"
      "prv m3 = (prv m2)(Elem a := None)" "payload m3 = (payload m2)(Elem a := None)"
      by (rule free_fields)
    have "nxt m3 Deleted = d" using before_after_neq [of as] by (simp add: m1 m2 m3 m)
    with m1(1) m2(1) m3(1) fin [of m3] show ?thesis by (simp add: m1 m2 m3)
  qed
qed

lemma represents_current [simp]: "represents (g\<lparr>current := c\<rparr>) as xs = represents g as xs"
  "represents (g\<lparr>mem := m, current := c, num_of_elements := k\<rparr>) as xs = represents (g\<lparr>mem := m, num_of_elements := k\<rparr>) as xs"
  "represents (g\<lparr>current := c, mem := m, num_of_elements := k\<rparr>) as xs = represents (g\<lparr>mem := m, num_of_elements := k\<rparr>) as xs"
  by (simp_all add: represents_def)

lemma element_at:
  assumes "represents g (as @ a # bs) (xs @ x # ys)" "length as = length xs"
  shows "mem g (Elem a) = Some \<lparr>el_pointer = Some x, el_previous = before as, el_next = after bs\<rparr>"
proof -
  have r: "represents g ((as @ [a]) @ bs) (xs @ x # ys)" using assms by simp
  have "payload (mem g) (Elem a) = Some (Some x)"
    using assms by (simp add: represents_def)
  then show ?thesis
    using represents_fields(2) [OF assms(1)] represents_fields(1) [OF r]
    by (auto simp: payload_def nxt_def prv_def)
qed

lemma sentinels:
  assumes "represents g as xs"
  shows "mem g Pre = Some \<lparr>el_pointer = None, el_previous = Pre, el_next = after as\<rparr>"
    "mem g Post = Some \<lparr>el_pointer = None, el_previous = before as, el_next = Post\<rparr>"
proof -
  have f: "nxt (mem g) Pre = Some (after as)" "prv (mem g) Post = Some (before as)"
    using represents_fields(1) [of g "[]" as xs] represents_fields(2) [of g as "[]" xs] assms by simp_all
  have "payload (mem g) Pre = Some None" "prv (mem g) Pre = Some Pre"
    "payload (mem g) Post = Some None" "nxt (mem g) Post = Some Post"
    using assms by (simp_all add: represents_def)
  with f show "mem g Pre = Some \<lparr>el_pointer = None, el_previous = Pre, el_next = after as\<rparr>"
    "mem g Post = Some \<lparr>el_pointer = None, el_previous = before as, el_next = Post\<rparr>"
    by (auto simp: payload_def nxt_def prv_def)
qed

lemma represents_num: "represents g as xs \<Longrightarrow> num_of_elements g = of_nat (length xs)"
  by (simp add: represents_def)

lemma num_nonzero:
  assumes "represents g as xs" "xs \<noteq> []" "length xs < 2 ^ 32"
  shows "num_of_elements g \<noteq> 0"
proof -
  have "(2::nat) ^ 32 dvd length xs \<Longrightarrow> False" using assms(2,3) by (auto dest: dvd_imp_le)
  then show ?thesis
    using represents_num [OF assms(1)] by (auto simp: word_of_nat_eq_0_iff)
qed

lemma remove_from_beginning_ok:
  assumes r: "represents g (a # as) (x # xs)" and n: "length (x # xs) < 2 ^ 32"
  shows "\<exists>g'. remove_from_beginning g = Some (g', Some x) \<and> represents g' as xs \<and>
    current g' = (if current g = Elem a then Pre else current g) \<and> nxt (mem g') Deleted = nxt (mem g) Deleted"
proof -
  let ?c = "if current g = Elem a then Pre else current g"
  from r have r': "represents g ([] @ a # as) ([] @ x # xs)" by simp
  have m: "mem g Pre = Some \<lparr>el_pointer = None, el_previous = Pre, el_next = Elem a\<rparr>"
    "mem g (Elem a) = Some \<lparr>el_pointer = Some x, el_previous = Pre, el_next = after as\<rparr>"
    using sentinels [OF r] element_at [OF r'] by simp_all
  obtain m1 m2 m3 where "set_next (mem g) Pre (after as) = Some m1"
       "set_previous m1 (after as) Pre = Some m2" "free_elem m2 (Elem a) = Some m3"
       "represents (g\<lparr>mem := m3, current := ?c, num_of_elements := num_of_elements g - 1\<rparr>) as xs"
       "nxt m3 Deleted = nxt (mem g) Deleted"
    using unlink_fields(1) [OF r', of "mem g" "nxt (mem g) Deleted" "prv (mem g) Deleted" ?c] by auto
  then show ?thesis
    using m num_nonzero [OF r _ n] by (auto simp: remove_from_beginning_def Let_def)
qed

lemma remove_from_end_ok:
  assumes r: "represents g (as @ [a]) (xs @ [x])" and n: "length (xs @ [x]) < 2 ^ 32"
  shows "\<exists>g'. remove_from_end g = Some (g', Some x) \<and> represents g' as xs \<and>
    current g' = (if current g = Elem a then Post else current g) \<and> nxt (mem g') Deleted = nxt (mem g) Deleted"
proof -
  let ?c = "if current g = Elem a then Post else current g"
  have len: "length as = length xs" using represents_length [OF r] by simp
  have m: "mem g Post = Some \<lparr>el_pointer = None, el_previous = Elem a, el_next = Post\<rparr>"
    "mem g (Elem a) = Some \<lparr>el_pointer = Some x, el_previous = before as, el_next = Post\<rparr>"
    using sentinels [OF r] element_at [OF r len] by simp_all
  obtain m1 m2 m3 where "set_previous (mem g) Post (before as) = Some m1"
       "set_next m1 (before as) Post = Some m2" "free_elem m2 (Elem a) = Some m3"
       "represents (g\<lparr>mem := m3, current := ?c, num_of_elements := num_of_elements g - 1\<rparr>) as xs"
       "nxt m3 Deleted = nxt (mem g) Deleted"
    using unlink_fields(2) [OF r len, of "mem g" "nxt (mem g) Deleted" "prv (mem g) Deleted" ?c] by auto
  then show ?thesis
    using m num_nonzero [OF r _ n] by (auto simp: remove_from_end_def Let_def)
qed

lemma remove_from_empty:
  assumes "represents g as []"
  shows "remove_from_beginning g = Some (g, None)" "remove_from_end g = Some (g, None)"
  using represents_num [OF assms] by (simp_all add: remove_from_beginning_def remove_from_end_def)

lemma park_fields:
  assumes r: "represents g as xs"
  shows "\<exists>m. park_current g e = Some (g\<lparr>mem := m, current := Deleted\<rparr>) \<and>
    nxt m = (nxt (mem g))(Deleted := Some (el_next e)) \<and> prv m = (prv (mem g))(Deleted := Some (el_previous e)) \<and>
    payload m = payload (mem g) \<and> dom m = dom (mem g) \<and> (\<forall>p. p \<noteq> Deleted \<longrightarrow> m p = mem g p)"
proof -
  have "payload (mem g) Deleted = Some None" using r by (simp add: represents_def)
  then obtain d where "mem g Deleted = Some d" by (auto simp: payload_def)
  then show ?thesis
    by (intro exI [of _ "(mem g)(Deleted \<mapsto> d\<lparr>el_previous := el_previous e, el_next := el_next e\<rparr>)"])
      (auto simp: park_current_def set_previous_def set_next_def nxt_def prv_def payload_def)
qed

lemma remove_current_ok:
  assumes r: "represents g (as @ a # bs) (xs @ x # ys)" and len: "length as = length xs"
    and c: "current g = Elem a"
  shows "\<exists>g'. remove_current g = Some (g', Some x) \<and> represents g' (as @ bs) (xs @ ys) \<and>
    current g' = Deleted \<and> nxt (mem g') Deleted = Some (after bs)"
proof -
  let ?e = "\<lparr>el_pointer = Some x, el_previous = before as, el_next = after bs\<rparr>"
  obtain m where m: "park_current g ?e = Some (g\<lparr>mem := m, current := Deleted\<rparr>)"
    "nxt m = (nxt (mem g))(Deleted := Some (after bs))" "prv m = (prv (mem g))(Deleted := Some (before as))"
    "payload m = payload (mem g)" "dom m = dom (mem g)"
    using park_fields [OF r, of ?e] by auto
  obtain m1 m2 m3 where "set_previous m (after bs) (before as) = Some m1"
       "set_next m1 (before as) (after bs) = Some m2" "free_elem m2 (Elem a) = Some m3"
       "represents (g\<lparr>mem := m3, current := Deleted, num_of_elements := num_of_elements g - 1\<rparr>) (as @ bs) (xs @ ys)"
       "nxt m3 Deleted = Some (after bs)"
    using unlink_fields(2) [OF r len m(2-5), of Deleted] by auto
  then show ?thesis
    using m(1) element_at [OF r len] c by (auto simp: remove_current_def)
qed

lemma remove_current_none:
  assumes r: "represents g as xs" and c: "current g \<in> {Pre, Post, Deleted}"
  shows "remove_current g = Some (g, None)"
proof -
  have "payload (mem g) (current g) = Some None" using r c by (auto simp: represents_def)
  then show ?thesis by (auto simp: remove_current_def payload_def)
qed

text \<open>Searching.\<close>

lemma search_back_ok:
  "represents g (as @ bs) (xs @ ys) \<Longrightarrow> length as = length xs \<Longrightarrow>
   (Some x \<notin> Some ` set xs \<longrightarrow> search_back (mem g) (before as) (Some x) = Some Pre) \<and>
   (\<forall>us vs. xs = us @ x # vs \<and> x \<notin> set vs \<longrightarrow>
      search_back (mem g) (before as) (Some x) = Some (Elem (as ! length us)))"
proof (induction as arbitrary: xs bs ys rule: rev_induct)
  case Nil
  then show ?case by (simp add: search_back.simps)
next
  case (snoc a as)
  then obtain zs z where xs: "xs = zs @ [z]" "length as = length zs"
    by (metis length_append_singleton length_Suc_conv_rev)
  from snoc.prems xs have r: "represents g (as @ a # bs) (zs @ z # ys)" by simp
  note IH = snoc.IH [OF r xs(2)]
  note el = element_at [OF r xs(2)]
  have step: "search_back (mem g) (before (as @ [a])) (Some x) =
     (if z = x then Some (Elem a) else search_back (mem g) (before as) (Some x))"
    by (subst search_back.simps) (simp add: el)
  have "search_back (mem g) (before (as @ [a])) (Some x) = Some (Elem ((as @ [a]) ! length us))"
    if us: "xs = us @ x # vs" "x \<notin> set vs" for us vs
  proof (cases "z = x")
    case True
    with us xs have "vs = []" by (metis append_butlast_last_id last_ConsR last_appendR last_in_set last_snoc list.discI)
    with us xs have "us = zs" by simp
    with True xs step show ?thesis by (simp add: nth_append)
  next
    case False
    then have "vs \<noteq> []" using us xs by auto
    then obtain ws where "vs = ws @ [z]" using us xs
      by (metis append_butlast_last_id last_ConsR last_appendR last_snoc list.discI)
    with us xs have "zs = us @ x # ws" "x \<notin> set ws" by auto
    with IH False step xs(2) show ?thesis by (auto simp: nth_append)
  qed
  moreover have "search_back (mem g) (before (as @ [a])) (Some x) = Some Pre" if "x \<notin> set xs"
    using that IH step xs(1) by auto
  ultimately show ?case by auto
qed

lemma search_forward_ok:
  "represents g (as @ bs) (xs @ ys) \<Longrightarrow> length as = length xs \<Longrightarrow>
   \<exists>p. search_forward (mem g) (after bs) (Some x) = Some p \<and> (p \<noteq> Post) = (x \<in> set ys)"
proof (induction bs arbitrary: as xs ys)
  case Nil
  then have "ys = []" by (auto dest: represents_length)
  then show ?case by (simp add: search_forward.simps)
next
  case (Cons b bs)
  then obtain y zs where ys: "ys = y # zs"
    by (cases ys) (auto dest: represents_length)
  from Cons.prems ys have r: "represents g (as @ b # bs) (xs @ y # zs)" by simp
  have "represents g ((as @ [b]) @ bs) ((xs @ [y]) @ zs)" "length (as @ [b]) = length (xs @ [y])"
    using r Cons.prems by simp_all
  note IH = Cons.IH [OF this]
  have "search_forward (mem g) (Elem b) (Some x) =
     (if y = x then Some (Elem b) else search_forward (mem g) (after bs) (Some x))"
    by (subst search_forward.simps) (simp add: element_at [OF r Cons.prems(2)])
  then show ?case using IH ys by auto
qed

lemma is_in_list_ok:
  assumes "represents g as xs"
  shows "is_in_list g (Some x) = Some (x \<in> set xs)"
  using search_forward_ok [of g "[]" as "[]" xs x] sentinels(1) [OF assms] assms
  by (auto simp: is_in_list_def)

lemma remove_from_list_absent:
  assumes "represents g as xs" "x \<notin> set xs"
  shows "remove_from_list g (Some x) = Some (g, None)"
  using search_back_ok [of g as "[]" xs "[]" x] sentinels(2) [OF assms(1)] assms represents_length [OF assms(1)]
  by (auto simp: remove_from_list_def)

lemma remove_from_list_ok:
  assumes r: "represents g (as @ a # bs) (xs @ x # ys)" and len: "length as = length xs" and x: "x \<notin> set ys"
  shows "\<exists>g'. remove_from_list g (Some x) = Some (g', Some x) \<and> represents g' (as @ bs) (xs @ ys) \<and>
    (if current g = Elem a then current g' = Deleted \<and> nxt (mem g') Deleted = Some (after bs)
     else current g' = current g \<and> nxt (mem g') Deleted = nxt (mem g) Deleted)"
proof -
  have s: "search_back (mem g) (before (as @ a # bs)) (Some x) = Some (Elem a)"
    using search_back_ok [of g "as @ a # bs" "[]" "xs @ x # ys" "[]" x] r x len represents_length [OF r]
    by (force simp: nth_append)
  let ?e = "\<lparr>el_pointer = Some x, el_previous = before as, el_next = after bs\<rparr>"
  note el = element_at [OF r len]
  note post = sentinels(2) [OF r]
  show ?thesis
  proof (cases "current g = Elem a")
    case True
    obtain m where m: "park_current g ?e = Some (g\<lparr>mem := m, current := Deleted\<rparr>)"
      "nxt m = (nxt (mem g))(Deleted := Some (after bs))" "prv m = (prv (mem g))(Deleted := Some (before as))"
      "payload m = payload (mem g)" "dom m = dom (mem g)"
      using park_fields [OF r, of ?e] by auto
    show ?thesis
      using unlink_fields(1) [OF r len m(2-5), of Deleted] m(1) el post s True
      by (auto simp: remove_from_list_def unlink_elem_def)
  next
    case False
    show ?thesis
      using unlink_fields(1) [OF r len, of "mem g" "nxt (mem g) Deleted" "prv (mem g) Deleted" "current g"] el post s False
      by (auto simp: remove_from_list_def unlink_elem_def)
  qed
qed

text \<open>Freeing all elements.\<close>

lemma free_all_ok:
  "linked m (map Elem as @ [Post]) \<Longrightarrow> distinct as \<Longrightarrow> m Post \<noteq> None \<Longrightarrow>
   free_all m (after as) = Some (\<lambda>p. if p \<in> Elem ` set as then None else m p)"
proof (induction as arbitrary: m)
  case Nil
  then show ?case by (simp add: free_all.simps)
next
  case (Cons a as)
  let ?m = "m(Elem a := None)"
  have l: "nxt m (Elem a) = Some (after as)" "prv m (after as) = Some (Elem a)" "linked m (map Elem as @ [Post])"
    using Cons.prems(1) by (cases as; simp)+
  obtain e n where en: "m (Elem a) = Some e" "el_next e = after as" "m (after as) = Some n" "el_previous n = Elem a"
    using fields_some(1) [OF l(1)] fields_some(2) [OF l(2)] by auto
  have "linked ?m (map Elem as @ [Post]) = linked m (map Elem as @ [Post])"
    by (rule linked_frame)
      (use Cons.prems(2) in \<open>auto simp: nxt_def prv_def dest!: in_set_butlastD list.set_sel(2) [rotated]\<close>)
  with l have "free_all ?m (after as) = Some (\<lambda>p. if p \<in> Elem ` set as then None else ?m p)"
    using Cons.prems by (intro Cons.IH) (simp_all del: fun_upd_apply, simp)
  moreover have "free_all m (Elem a) = free_all ?m (after as)"
    using en by (subst free_all.simps) (auto simp: free_elem_def)
  ultimately show ?case by (auto simp: fun_eq_iff)
qed

lemma remove_all_ok:
  assumes r: "represents g as xs"
  shows "\<exists>g'. remove_all g = Some g' \<and> represents g' [] [] \<and> current g' = current g"
proof -
  have "linked (mem g) (map Elem as @ [Post])"
    using represents_linked [OF r] by (cases as) auto
  moreover have "distinct as" using r by (simp add: represents_def)
  ultimately have f: "free_all (mem g) (after as) = Some (\<lambda>p. if p \<in> Elem ` set as then None else mem g p)"
    (is "_ = Some ?m") using sentinels(2) [OF r] by (intro free_all_ok) auto
  have "payload (mem g) Deleted = Some None" using r by (simp add: represents_def)
  then show ?thesis
    using f sentinels [OF r] represents_free [OF r]
    by (auto simp: remove_all_def set_next_def set_previous_def represents_def nxt_def prv_def payload_def)
qed

text \<open>
  A container with a cursor: \<open>holds g xs\<close> says what it contains, \<open>on g xs x ys\<close> that the
  cursor is on \<open>x\<close> between \<open>xs\<close> and \<open>ys\<close>, \<open>gap g xs ys\<close> that it is between \<open>xs\<close> and \<open>ys\<close>,
  where an element was removed.
\<close>

locale cursor_list =
  fixes holds :: "'s \<Rightarrow> 'a list \<Rightarrow> bool"
    and on :: "'s \<Rightarrow> 'a list \<Rightarrow> 'a \<Rightarrow> 'a list \<Rightarrow> bool"
    and gap :: "'s \<Rightarrow> 'a list \<Rightarrow> 'a list \<Rightarrow> bool"
    and getFirst :: "'s \<Rightarrow> ('s \<times> 'a option) option"
    and getNext :: "'s \<Rightarrow> ('s \<times> 'a option) option"
    and removeCurrent :: "'s \<Rightarrow> ('s \<times> 'a option) option"
  assumes first_Nil: "holds g [] \<Longrightarrow> \<exists>g'. getFirst g = Some (g', None) \<and> holds g' []"
    and first_Cons: "holds g (x # xs) \<Longrightarrow> \<exists>g'. getFirst g = Some (g', Some x) \<and> on g' [] x xs"
    and next_Nil: "on g xs x [] \<Longrightarrow> \<exists>g'. getNext g = Some (g', None) \<and> holds g' (xs @ [x])"
    and next_Cons: "on g xs x (y # ys) \<Longrightarrow> \<exists>g'. getNext g = Some (g', Some y) \<and> on g' (xs @ [x]) y ys"
    and remove_on: "on g xs x ys \<Longrightarrow> \<exists>g'. removeCurrent g = Some (g', Some x) \<and> gap g' xs ys"
    and gap_next_Nil: "gap g xs [] \<Longrightarrow> \<exists>g'. getNext g = Some (g', None) \<and> holds g' xs"
    and gap_next_Cons: "gap g xs (y # ys) \<Longrightarrow> \<exists>g'. getNext g = Some (g', Some y) \<and> on g' xs y ys"
    and gap_holds: "gap g xs ys \<Longrightarrow> holds g (xs @ ys)"
begin

lemma visit_from_on:
  "on g xs x ys \<Longrightarrow> \<exists>g'. visit_from getNext g (Some x) = Some (g', x # ys) \<and> holds g' (xs @ x # ys)"
proof (induction ys arbitrary: g xs x)
  case Nil
  then obtain g' where "getNext g = Some (g', None)" "holds g' (xs @ [x])"
    using next_Nil by blast
  then show ?case by (simp add: visit_from.simps [of _ g] visit_from.simps [of _ g'])
next
  case (Cons y ys)
  then obtain g' where "getNext g = Some (g', Some y)" "on g' (xs @ [x]) y ys"
    using next_Cons by blast
  then show ?case using Cons.IH [of g' "xs @ [x]" y] by (auto simp: visit_from.simps [of _ g])
qed

lemma visit_all: "holds g xs \<Longrightarrow> \<exists>g'. visit getFirst getNext g = Some (g', xs) \<and> holds g' xs"
proof (cases xs)
  case Nil
  moreover assume "holds g xs"
  ultimately show ?thesis
    using first_Nil [of g] by (auto simp: visit_def visit_from.simps)
next
  case (Cons x ys)
  moreover assume "holds g xs"
  ultimately obtain g' where "getFirst g = Some (g', Some x)" "on g' [] x ys"
    using first_Cons by blast
  then show ?thesis using visit_from_on [of g' "[]" x ys] Cons by (auto simp: visit_def)
qed

text \<open>The first element that matches is removed, and nothing else.\<close>

lemma remove_match_on:
  "on g xs x ys \<Longrightarrow> \<exists>g'. remove_match getNext removeCurrent P g (Some x) = Some g' \<and>
     holds g' (xs @ takeWhile (\<lambda>z. \<not> P z) (x # ys) @ tl (dropWhile (\<lambda>z. \<not> P z) (x # ys)))"
proof (induction ys arbitrary: g xs x)
  case Nil
  show ?case
  proof (cases "P x")
    case True
    then show ?thesis
      using remove_on [OF Nil] gap_holds [of _ xs "[]"] by (auto simp: remove_match.simps [of _ _ _ g])
  next
    case False
    obtain g' where "getNext g = Some (g', None)" "holds g' (xs @ [x])"
      using next_Nil [OF Nil] by blast
    then show ?thesis using False
      by (simp add: remove_match.simps [of _ _ _ g] remove_match.simps [of _ _ _ g'])
  qed
next
  case (Cons y ys)
  show ?case
  proof (cases "P x")
    case True
    then show ?thesis
      using remove_on [OF Cons.prems] gap_holds [of _ xs "y # ys"] by (auto simp: remove_match.simps [of _ _ _ g])
  next
    case False
    obtain g' where "getNext g = Some (g', Some y)" "on g' (xs @ [x]) y ys"
      using next_Cons [OF Cons.prems] by blast
    then show ?thesis using Cons.IH [of g' "xs @ [x]" y] False
      by (auto simp: remove_match.simps [of _ _ _ g])
  qed
qed

lemma remove_first_match:
  assumes "holds g xs"
  shows "\<exists>g' x g''. getFirst g = Some (g', x) \<and> remove_match getNext removeCurrent P g' x = Some g'' \<and>
    holds g'' (takeWhile (\<lambda>z. \<not> P z) xs @ tl (dropWhile (\<lambda>z. \<not> P z) xs))"
proof (cases xs)
  case Nil
  then show ?thesis using first_Nil [of g] assms by (auto simp: remove_match.simps)
next
  case (Cons x ys)
  then obtain g' where "getFirst g = Some (g', Some x)" "on g' [] x ys"
    using first_Cons assms by blast
  then show ?thesis using remove_match_on [of g' "[]" x ys P] Cons by auto
qed

end

section \<open>The list refines a list with a cursor\<close>

definition list_holds :: "'a glist \<Rightarrow> 'a list \<Rightarrow> bool" where
  "list_holds g xs \<longleftrightarrow> (\<exists>as. represents g as xs)"

definition list_on :: "'a glist \<Rightarrow> 'a list \<Rightarrow> 'a \<Rightarrow> 'a list \<Rightarrow> bool" where
  "list_on g xs x ys \<longleftrightarrow>
     (\<exists>as a bs. represents g (as @ a # bs) (xs @ x # ys) \<and> length as = length xs \<and> current g = Elem a)"

definition list_gap :: "'a glist \<Rightarrow> 'a list \<Rightarrow> 'a list \<Rightarrow> bool" where
  "list_gap g xs ys \<longleftrightarrow>
     (\<exists>as bs. represents g (as @ bs) (xs @ ys) \<and> length as = length xs \<and>
        current g = Deleted \<and> nxt (mem g) Deleted = Some (after bs))"

lemma next_step:
  assumes r: "represents g (as @ bs) (xs @ ys)" and len: "length as = length xs"
    and c: "nxt (mem g) (current g) = Some (after bs)"
  shows "ys = [] \<Longrightarrow> \<exists>g'. listGetNext g = Some (g', None) \<and> list_holds g' xs"
    "ys = z # zs \<Longrightarrow> \<exists>g'. listGetNext g = Some (g', Some z) \<and> list_on g' xs z zs"
proof -
  have len': "length bs = length ys" using represents_length [OF r] len by simp
  obtain e where e: "mem g (current g) = Some e" "el_next e = after bs"
    using fields_some(1) [OF c] by blast
  show "\<exists>g'. listGetNext g = Some (g', None) \<and> list_holds g' xs" if "ys = []"
  proof -
    have "bs = []" using that len' by simp
    then have "listGetNext g = Some (g\<lparr>current := Post\<rparr>, None)"
      using e sentinels(2) [OF r] by (simp add: listGetNext_def next_in_list_def move_to_def)
    then show ?thesis using r that by (auto simp: list_holds_def)
  qed
  show "\<exists>g'. listGetNext g = Some (g', Some z) \<and> list_on g' xs z zs" if ys: "ys = z # zs"
  proof -
    obtain b bs' where bs: "bs = b # bs'" using ys len' by (cases bs) auto
    have r': "represents g (as @ b # bs') (xs @ z # zs)" using r ys bs by simp
    have "listGetNext g = Some (g\<lparr>current := Elem b\<rparr>, Some z)"
      using e bs element_at [OF r' len] by (simp add: listGetNext_def next_in_list_def move_to_def)
    moreover have "list_on (g\<lparr>current := Elem b\<rparr>) xs z zs"
      unfolding list_on_def by (intro exI [of _ as] exI [of _ b] exI [of _ bs']) (use r' len in simp)
    ultimately show ?thesis by blast
  qed
qed

lemma first_step:
  assumes r: "represents g as xs"
  shows "xs = [] \<Longrightarrow> listGetFirst g = Some (g\<lparr>current := Pre\<rparr>, None)"
    "xs = y # ys \<Longrightarrow> \<exists>a. listGetFirst g = Some (g\<lparr>current := Elem a\<rparr>, Some y) \<and>
       list_on (g\<lparr>current := Elem a\<rparr>) [] y ys"
proof -
  show "listGetFirst g = Some (g\<lparr>current := Pre\<rparr>, None)" if "xs = []"
    using sentinels [OF r] represents_length [OF r] that
    by (simp add: listGetFirst_def reset_to_beginning_def first_in_list_def move_to_def)
  show "\<exists>a. listGetFirst g = Some (g\<lparr>current := Elem a\<rparr>, Some y) \<and>
       list_on (g\<lparr>current := Elem a\<rparr>) [] y ys" if xs: "xs = y # ys"
  proof -
    obtain a as' where as: "as = a # as'" using represents_length [OF r] xs by (cases as) auto
    have r': "represents g ([] @ a # as') ([] @ y # ys)" "represents g ([a] @ as') (y # ys)"
      using r as xs by simp_all
    have "mem g Pre = Some \<lparr>el_pointer = None, el_previous = Pre, el_next = Elem a\<rparr>"
      using sentinels [OF r] as by simp
    moreover have "mem g (Elem a) = Some \<lparr>el_pointer = Some y, el_previous = Pre, el_next = after as'\<rparr>"
      using element_at [OF r'(1)] by simp
    moreover have "\<exists>n. mem g (after as') = Some n \<and> el_previous n = Elem a"
      using fields_some(2) [OF represents_fields(2) [OF r'(2)]] by (simp add: before_def)
    ultimately have "listGetFirst g = Some (g\<lparr>current := Elem a\<rparr>, Some y)"
      by (auto simp: listGetFirst_def reset_to_beginning_def first_in_list_def move_to_def)
    moreover have "list_on (g\<lparr>current := Elem a\<rparr>) [] y ys"
      unfolding list_on_def by (intro exI [of _ "[]"] exI [of _ a] exI [of _ as']) (use r'(1) in simp)
    ultimately show ?thesis by blast
  qed
qed

lemma list_on_next: "list_on g xs x ys \<Longrightarrow>
   \<exists>as bs. represents g (as @ bs) ((xs @ [x]) @ ys) \<and> length as = length (xs @ [x]) \<and>
     nxt (mem g) (current g) = Some (after bs)"
proof -
  assume "list_on g xs x ys"
  then obtain as a bs where r: "represents g (as @ a # bs) (xs @ x # ys)" "length as = length xs" "current g = Elem a"
    unfolding list_on_def by blast
  then have "represents g ((as @ [a]) @ bs) ((xs @ [x]) @ ys)" by simp
  moreover have "nxt (mem g) (current g) = Some (after bs)"
    using element_at [OF r(1,2)] r(3) by (simp add: nxt_def)
  ultimately show ?thesis using r(2) by (intro exI [of _ "as @ [a]"] exI [of _ bs]) simp
qed

lemma list_on_remove:
  assumes "list_on g xs x ys"
  shows "\<exists>g'. listRemoveCurrent g = Some (g', Some x) \<and> list_gap g' xs ys"
proof -
  from assms obtain as a bs where r: "represents g (as @ a # bs) (xs @ x # ys)" "length as = length xs" "current g = Elem a"
    unfolding list_on_def by blast
  show ?thesis
    unfolding list_gap_def listRemoveCurrent_def using remove_current_ok [OF r] r(2) by blast
qed

interpretation ul: cursor_list list_holds list_on list_gap listGetFirst listGetNext listRemoveCurrent
proof
  fix g :: "'a glist" and x y and xs ys :: "'a list"
  show "list_holds g [] \<Longrightarrow> \<exists>g'. listGetFirst g = Some (g', None) \<and> list_holds g' []"
    using first_step(1) [of g _ "[]"] by (force simp: list_holds_def)
  show "list_holds g (x # xs) \<Longrightarrow> \<exists>g'. listGetFirst g = Some (g', Some x) \<and> list_on g' [] x xs"
    using first_step(2) [of g _ "x # xs"] unfolding list_holds_def by blast
  show "list_on g xs x [] \<Longrightarrow> \<exists>g'. listGetNext g = Some (g', None) \<and> list_holds g' (xs @ [x])"
    using next_step(1) [of g _ _ "xs @ [x]" "[]"] list_on_next [of g xs x "[]"] by metis
  show "list_on g xs x (y # ys) \<Longrightarrow> \<exists>g'. listGetNext g = Some (g', Some y) \<and> list_on g' (xs @ [x]) y ys"
    using next_step(2) [of g _ _ "xs @ [x]" "y # ys"] list_on_next [of g xs x "y # ys"] by metis
  show "list_on g xs x ys \<Longrightarrow> \<exists>g'. listRemoveCurrent g = Some (g', Some x) \<and> list_gap g' xs ys"
    by (rule list_on_remove)
  show "list_gap g xs [] \<Longrightarrow> \<exists>g'. listGetNext g = Some (g', None) \<and> list_holds g' xs"
    using next_step(1) [of g _ _ xs "[]"] unfolding list_gap_def by metis
  show "list_gap g xs (y # ys) \<Longrightarrow> \<exists>g'. listGetNext g = Some (g', Some y) \<and> list_on g' xs y ys"
    using next_step(2) [of g _ _ xs "y # ys"] unfolding list_gap_def by metis
  show "list_gap g xs ys \<Longrightarrow> list_holds g (xs @ ys)"
    unfolding list_gap_def list_holds_def by blast
qed

lemma copy_from_ok:
  "represents g (as @ bs) (xs @ ys) \<Longrightarrow> length as = length xs \<Longrightarrow> represents c cs zs \<Longrightarrow>
   (\<And>i. a \<le> i \<Longrightarrow> i \<notin> set cs) \<Longrightarrow>
   \<exists>c'. copy_from a (mem g) (after bs) c = Some c' \<and> list_holds c' (zs @ ys) \<and> current c' = current c \<and> lt c' = lt c"
proof (induction bs arbitrary: as xs ys a c cs zs)
  case Nil
  then have "ys = []" by (auto dest: represents_length)
  then show ?case using Nil.prems by (auto simp: copy_from.simps list_holds_def)
next
  case (Cons b bs)
  then obtain y ys' where ys: "ys = y # ys'" by (cases ys) (auto dest: represents_length)
  from Cons.prems ys have r: "represents g (as @ b # bs) (xs @ y # ys')" by simp
  have "mem c (Elem a) = None" using represents_free [OF Cons.prems(3)] Cons.prems(4) [of a] by simp
  then obtain c' where c': "add_to_end a c (Some y) = Some c'" "represents c' (cs @ [a]) (zs @ [y])"
    "current c' = current c" "lt c' = lt c"
    using add_to_end_ok [OF Cons.prems(3)] by blast
  have "\<exists>d. copy_from (Suc a) (mem g) (after bs) c' = Some d \<and> list_holds d ((zs @ [y]) @ ys') \<and>
      current d = current c' \<and> lt d = lt c'"
    by (rule Cons.IH [of "as @ [b]" "xs @ [y]"]) (use r Cons.prems c'(2) in \<open>auto\<close>)
  moreover have "copy_from a (mem g) (Elem b) c = copy_from (Suc a) (mem g) (after bs) c'"
    by (subst copy_from.simps) (simp add: element_at [OF r Cons.prems(2)] c')
  ultimately show ?case using ys c' by auto
qed

lemma represents_initialize: "represents (initialize_sorted_list f) [] []"
  using represents_new by (simp add: represents_def newList_def initialize_sorted_list_def)

lemma list_holds_last:
  assumes "list_holds g (xs @ [x])"
  obtains as a where "represents g (as @ [a]) (xs @ [x])"
proof -
  obtain bs where "represents g bs (xs @ [x])" using assms by (auto simp: list_holds_def)
  then show thesis using that represents_length by (metis length_append_singleton length_Suc_conv_rev)
qed

section \<open>Properties\<close>

lemma list_add_correct_clauses:
  "list_holds newList []"
  "list_holds g xs \<Longrightarrow> mem g (Elem a) = None \<Longrightarrow>
     \<exists>g'. listAppend a g (Some x) = Some g' \<and> list_holds g' (xs @ [x])"
  "list_holds g xs \<Longrightarrow> mem g (Elem a) = None \<Longrightarrow>
     \<exists>g'. listPrepend a g (Some x) = Some g' \<and> listAdd a g (Some x) = Some g' \<and> list_holds g' (x # xs)"
  "listAppend a g None = Some g \<and> listPrepend a g None = Some g \<and> listAdd a g None = Some g"
  "list_holds g xs \<Longrightarrow> listSize g = of_nat (length xs) \<and> listContains g (Some x) = Some (x \<in> set xs)"
proof -
  show "list_holds newList []" using represents_new by (auto simp: list_holds_def)
  show "\<exists>g'. listAppend a g (Some x) = Some g' \<and> list_holds g' (xs @ [x])"
    if l: "list_holds g xs" "mem g (Elem a) = None"
  proof -
    obtain as where r: "represents g as xs" using l by (auto simp: list_holds_def)
    show ?thesis using add_to_end_ok [OF r l(2), of x] unfolding list_holds_def listAppend_def by blast
  qed
  show "\<exists>g'. listPrepend a g (Some x) = Some g' \<and> listAdd a g (Some x) = Some g' \<and> list_holds g' (x # xs)"
    if l: "list_holds g xs" "mem g (Elem a) = None"
  proof -
    obtain as where r: "represents g as xs" using l by (auto simp: list_holds_def)
    show ?thesis using add_to_beginning_ok [OF r l(2), of x]
      unfolding list_holds_def listPrepend_def listAdd_def by blast
  qed
  show "listAppend a g None = Some g \<and> listPrepend a g None = Some g \<and> listAdd a g None = Some g"
    by (simp add: listAppend_def listPrepend_def listAdd_def add_to_end_def add_to_beginning_def)
  show "listSize g = of_nat (length xs) \<and> listContains g (Some x) = Some (x \<in> set xs)" if l: "list_holds g xs"
  proof -
    obtain as where r: "represents g as xs" using l by (auto simp: list_holds_def)
    show ?thesis using represents_num [OF r] is_in_list_ok [OF r]
      by (simp add: listSize_def num_of_objects_def listContains_def)
  qed
qed

text \<open>C7. Adding to a list: a new list is empty, \<open>append\<close> adds at the end, \<open>prepend\<close> and \<open>add\<close> at the
  beginning, with any unused address the allocator returns; a NULL element is refused and leaves
  the list as it is. \<open>size\<close> is the number of elements modulo the width of the counter, and
  \<open>contains\<close> decides membership.\<close>

theorem list_add_correct:
  "list_holds newList [] \<and>
   (list_holds g xs \<longrightarrow> mem g (Elem a) = None \<longrightarrow>
      (\<exists>g'. listAppend a g (Some x) = Some g' \<and> list_holds g' (xs @ [x]))) \<and>
   (list_holds g xs \<longrightarrow> mem g (Elem a) = None \<longrightarrow>
      (\<exists>g'. listPrepend a g (Some x) = Some g' \<and> listAdd a g (Some x) = Some g' \<and> list_holds g' (x # xs))) \<and>
   (listAppend a g None = Some g \<and> listPrepend a g None = Some g \<and> listAdd a g None = Some g) \<and>
   (list_holds g xs \<longrightarrow> listSize g = of_nat (length xs) \<and> listContains g (Some x) = Some (x \<in> set xs))"
  by ((rule list_add_correct_clauses; assumption) | rule conjI | rule impI)+

theorem list_add_correct_witness:
  "(\<exists>g'. listAppend 0 newList (Some ''a'') = Some g' \<and> list_holds g' [''a'']) \<and>
   (\<exists>g'. listPrepend 0 newList (Some ''a'') = Some g' \<and> listAdd 0 newList (Some ''a'') = Some g' \<and> list_holds g' [''a'']) \<and>
   listSize (newList :: string glist) = 0 \<and> listContains newList (Some ''a'') = Some False"
  using list_add_correct [THEN conjunct2, THEN conjunct1, rule_format, OF list_add_correct [THEN conjunct1, rule_format], of 0 "''a''"] list_add_correct [THEN conjunct2, THEN conjunct2, THEN conjunct1, rule_format, OF list_add_correct [THEN conjunct1, rule_format], of 0 "''a''"]
    list_add_correct [THEN conjunct2, THEN conjunct2, THEN conjunct2, THEN conjunct2, rule_format, OF list_add_correct [THEN conjunct1, rule_format], of "''a''"]
  by (auto simp: newList_def initialize_list_def)

lemma list_remove_correct_clauses:
  assumes "length xs < 2 ^ 32 - 1"
  shows "list_holds g (x # xs) \<Longrightarrow> \<exists>g'. listRemoveFirst g = Some (g', Some x) \<and> list_holds g' xs"
    "list_holds g (xs @ [x]) \<Longrightarrow> \<exists>g'. listRemoveLast g = Some (g', Some x) \<and> list_holds g' xs"
    "list_holds g [] \<Longrightarrow> listRemoveFirst g = Some (g, None) \<and> listRemoveLast g = Some (g, None)"
    "list_holds g (us @ x # vs) \<Longrightarrow> x \<notin> set vs \<Longrightarrow>
       \<exists>g'. listRemoveThis g (Some x) = Some (g', Some x) \<and> list_holds g' (us @ vs)"
    "list_holds g xs \<Longrightarrow> x \<notin> set xs \<Longrightarrow> listRemoveThis g (Some x) = Some (g, None)"
proof -
  show "\<exists>g'. listRemoveFirst g = Some (g', Some x) \<and> list_holds g' xs" if l: "list_holds g (x # xs)"
  proof -
    obtain as where r: "represents g as (x # xs)" using l by (auto simp: list_holds_def)
    moreover obtain a as' where "as = a # as'" using represents_length [OF r] by (cases as) auto
    ultimately show ?thesis using remove_from_beginning_ok [of g a as' x xs] assms
      unfolding list_holds_def listRemoveFirst_def by auto
  qed
  show "\<exists>g'. listRemoveLast g = Some (g', Some x) \<and> list_holds g' xs" if l: "list_holds g (xs @ [x])"
  proof -
    obtain as a where "represents g (as @ [a]) (xs @ [x])" using l by (rule list_holds_last)
    then show ?thesis using remove_from_end_ok [of g as a xs x] assms
      unfolding list_holds_def listRemoveLast_def by auto
  qed
  show "listRemoveFirst g = Some (g, None) \<and> listRemoveLast g = Some (g, None)" if "list_holds g []"
    using that by (auto simp: list_holds_def listRemoveFirst_def listRemoveLast_def remove_from_empty)
  show "\<exists>g'. listRemoveThis g (Some x) = Some (g', Some x) \<and> list_holds g' (us @ vs)"
    if l: "list_holds g (us @ x # vs)" "x \<notin> set vs"
  proof -
    obtain cs where r: "represents g cs (us @ x # vs)" using l by (auto simp: list_holds_def)
    define n where "n = length us"
    have n: "n < length cs" using represents_length [OF r] by (simp add: n_def)
    have "cs = take n cs @ cs ! n # drop (Suc n) cs" using n by (simp add: id_take_nth_drop)
    with r have "represents g (take n cs @ cs ! n # drop (Suc n) cs) (us @ x # vs)" by metis
    then show ?thesis
      using remove_from_list_ok [of g "take n cs" "cs ! n" "drop (Suc n) cs" us x vs] n l(2)
      unfolding list_holds_def listRemoveThis_def n_def by fastforce
  qed
  show "listRemoveThis g (Some x) = Some (g, None)" if "list_holds g xs" "x \<notin> set xs"
    using that by (auto simp: list_holds_def listRemoveThis_def remove_from_list_absent)
qed

text \<open>C8. Removing from a list with fewer elements than the counter can count: \<open>removeFirst\<close> and
  \<open>removeLast\<close> take off the first and the last element and return it, and return NULL on the empty
  list; \<open>removeThis\<close> takes off the last occurrence of the element, and returns NULL when it does not
  occur. No operation follows a freed pointer.\<close>

theorem list_remove_correct:
  assumes "length xs < 2 ^ 32 - 1"
  shows "(list_holds g (x # xs) \<longrightarrow>
      (\<exists>g'. listRemoveFirst g = Some (g', Some x) \<and> list_holds g' xs)) \<and>
   (list_holds g (xs @ [x]) \<longrightarrow>
      (\<exists>g'. listRemoveLast g = Some (g', Some x) \<and> list_holds g' xs)) \<and>
   (list_holds g [] \<longrightarrow> listRemoveFirst g = Some (g, None) \<and> listRemoveLast g = Some (g, None)) \<and>
   (list_holds g (us @ x # vs) \<longrightarrow> x \<notin> set vs \<longrightarrow>
      (\<exists>g'. listRemoveThis g (Some x) = Some (g', Some x) \<and> list_holds g' (us @ vs))) \<and>
   (list_holds g xs \<longrightarrow> x \<notin> set xs \<longrightarrow> listRemoveThis g (Some x) = Some (g, None))"
  by ((rule list_remove_correct_clauses [OF assms]; assumption) | rule conjI | rule impI)+

theorem list_remove_correct_witness:
  "\<exists>g g' g'' :: string glist. listAppend 0 newList (Some ''a'') = Some g \<and> listAppend 1 g (Some ''b'') = Some g' \<and>
     listRemoveFirst g' = Some (g'', Some ''a'') \<and> list_holds g'' [''b'']"
proof -
  obtain g :: "string glist" where g: "listAppend 0 newList (Some ''a'') = Some g" "represents g [0] [''a'']"
    using add_to_end_ok [OF represents_new, of 0 "''a''"]
    by (auto simp: newList_def initialize_list_def listAppend_def)
  obtain g' where g': "listAppend 1 g (Some ''b'') = Some g'" "represents g' [0, 1] [''a'', ''b'']"
    using add_to_end_ok [OF g(2), of 1 "''b''"] represents_free [OF g(2), of 1] by (auto simp: listAppend_def)
  then have "list_holds g' (''a'' # [''b''])" by (auto simp: list_holds_def)
  from list_remove_correct [THEN conjunct1, rule_format, OF _ this] show ?thesis using g g' by auto
qed

text \<open>The loop over \<open>getFirst\<close> and \<open>getNext\<close> visits exactly the elements of the list, in order,
  ends, and leaves the list as it was.\<close>

lemma list_iteration:
  assumes "list_holds g xs"
  shows "\<exists>g'. visit listGetFirst listGetNext g = Some (g', xs) \<and> list_holds g' xs"
  using assms by (rule ul.visit_all)

lemma list_iteration_example:
  "\<exists>g g' :: string glist. listAppend 0 newList (Some ''a'') = Some g \<and>
     visit listGetFirst listGetNext g = Some (g', [''a'']) \<and> list_holds g' [''a'']"
proof -
  obtain g :: "string glist" where g: "listAppend 0 newList (Some ''a'') = Some g" "represents g [0] [''a'']"
    using add_to_end_ok [OF represents_new, of 0 "''a''"]
    by (auto simp: newList_def initialize_list_def listAppend_def)
  then have "list_holds g [''a'']" by (auto simp: list_holds_def)
  from list_iteration [OF this] show ?thesis using g by auto
qed

lemma removeChild_from_correct_clauses:
  "removeChild_from None chd = Some None"
  "list_holds g xs \<Longrightarrow> \<exists>g'. removeChild_from (Some g) chd = Some (Some g') \<and>
     list_holds g' (takeWhile (\<lambda>c. strcasecmp c chd \<noteq> 0) xs @ tl (dropWhile (\<lambda>c. strcasecmp c chd \<noteq> 0) xs))"
  using ul.remove_first_match [of g xs "\<lambda>c. strcasecmp c chd = 0"] by (auto simp: removeChild_from_def)

text \<open>\<open>removeChild\<close>, on the list of children the lookup of the parent class returned,
  removes the first child whose name equals the given one up to the case of
  letters, and nothing else; a class without a list of children is left alone.\<close>

lemma removeChild_from_correct:
  "removeChild_from None chd = Some None \<and>
   (list_holds g xs \<longrightarrow>
      (\<exists>g'. removeChild_from (Some g) chd = Some (Some g') \<and>
     list_holds g' (takeWhile (\<lambda>c. strcasecmp c chd \<noteq> 0) xs @ tl (dropWhile (\<lambda>c. strcasecmp c chd \<noteq> 0) xs))))"
  by ((rule removeChild_from_correct_clauses; assumption) | rule conjI | rule impI)+

lemma removeChild_from_example:
  "\<exists>g g' g'' :: string glist. listAppend 0 newList (Some ''Sub'') = Some g \<and> listAppend 1 g (Some ''Other'') = Some g' \<and>
     removeChild_from (Some g') ''SUB'' = Some (Some g'') \<and> list_holds g'' [''Other'']"
proof -
  obtain g :: "string glist" where g: "listAppend 0 newList (Some ''Sub'') = Some g" "represents g [0] [''Sub'']"
    using add_to_end_ok [OF represents_new, of 0 "''Sub''"]
    by (auto simp: newList_def initialize_list_def listAppend_def)
  obtain g' where g': "listAppend 1 g (Some ''Other'') = Some g'" "represents g' [0, 1] [''Sub'', ''Other'']"
    using add_to_end_ok [OF g(2), of 1 "''Other''"] represents_free [OF g(2), of 1] by (auto simp: listAppend_def)
  have l: "list_holds g' [''Sub'', ''Other'']" using g'(2) by (auto simp: list_holds_def)
  have "strcasecmp ''Sub'' ''SUB'' = 0" by code_simp
  then show ?thesis
    using removeChild_from_correct [THEN conjunct2, rule_format, OF l, of "''SUB''"] g g' by auto
qed

lemma list_clear_clone_correct_clauses:
  "list_holds g xs \<Longrightarrow> \<exists>g'. listClear g = Some g' \<and> list_holds g' [] \<and> listGetFirst g' \<noteq> None"
  "list_on g xs x ys \<Longrightarrow> \<exists>g'. listClear g = Some g' \<and> listGetCurrent g' = None \<and> listGetNext g' = None \<and>
     listRemoveCurrent g' = None"
  "list_holds g xs \<Longrightarrow> \<exists>c. listClone a g = Some c \<and> list_holds c xs \<and> current c = Pre \<and> lt c = lt g"
proof -
  show "\<exists>g'. listClear g = Some g' \<and> list_holds g' [] \<and> listGetFirst g' \<noteq> None" if l: "list_holds g xs"
  proof -
    obtain as where r: "represents g as xs" using l by (auto simp: list_holds_def)
    obtain g' where "remove_all g = Some g'" "represents g' [] []" using remove_all_ok [OF r] by blast
    then show ?thesis using first_step(1) [of g' "[]" "[]"] by (auto simp: listClear_def list_holds_def)
  qed
  show "\<exists>g'. listClear g = Some g' \<and> listGetCurrent g' = None \<and> listGetNext g' = None \<and>
     listRemoveCurrent g' = None" if l: "list_on g xs x ys"
  proof -
    obtain as a bs where r: "represents g (as @ a # bs) (xs @ x # ys)" "current g = Elem a"
      using l unfolding list_on_def by blast
    obtain g' where g': "remove_all g = Some g'" "represents g' [] []" "current g' = Elem a"
      using remove_all_ok [OF r(1)] r(2) by auto
    then have "mem g' (current g') = None" using represents_free [OF g'(2), of a] by simp
    with g' show ?thesis
      by (simp add: listClear_def listGetCurrent_def current_in_list_def listGetNext_def next_in_list_def
          listRemoveCurrent_def remove_current_def)
  qed
  show "\<exists>c. listClone a g = Some c \<and> list_holds c xs \<and> current c = Pre \<and> lt c = lt g" if l: "list_holds g xs"
  proof -
    obtain as where r: "represents g as xs" using l by (auto simp: list_holds_def)
    show ?thesis
      using copy_from_ok [of g "[]" as "[]" xs "initialize_sorted_list (lt g)" "[]" "[]" a] r represents_initialize
        sentinels(1) [OF r]
      by (auto simp: listClone_def copy_list_def initialize_sorted_list_def initialize_list_def)
  qed
qed

text \<open>\<open>clear\<close> frees every element and leaves an empty list, and \<open>clone\<close> makes a list of the same
  elements. But \<open>clear\<close> leaves the cursor where it was: when the cursor is on an element, \<open>getCurrent\<close>,
  \<open>getNext\<close> and \<open>removeCurrent\<close> after it read freed memory, until \<open>getFirst\<close> sets the cursor again.\<close>

lemma list_clear_clone_correct:
  "(list_holds g xs \<longrightarrow>
      (\<exists>g'. listClear g = Some g' \<and> list_holds g' [] \<and> listGetFirst g' \<noteq> None)) \<and>
   (list_on g xs x ys \<longrightarrow>
      (\<exists>g'. listClear g = Some g' \<and> listGetCurrent g' = None \<and> listGetNext g' = None \<and>
     listRemoveCurrent g' = None)) \<and>
   (list_holds g xs \<longrightarrow>
      (\<exists>c. listClone a g = Some c \<and> list_holds c xs \<and> current c = Pre \<and> lt c = lt g))"
  by ((rule list_clear_clone_correct_clauses; assumption) | rule conjI | rule impI)+

lemma list_clear_clone_example:
  "\<exists>g g' c :: string glist. listAppend 0 newList (Some ''a'') = Some g \<and>
     listClear g = Some g' \<and> list_holds g' [] \<and> listClone 0 g = Some c \<and> list_holds c [''a'']"
proof -
  obtain g :: "string glist" where g: "listAppend 0 newList (Some ''a'') = Some g" "represents g [0] [''a'']"
    using add_to_end_ok [OF represents_new, of 0 "''a''"]
    by (auto simp: newList_def initialize_list_def listAppend_def)
  then have l: "list_holds g [''a'']" by (auto simp: list_holds_def)
  from list_clear_clone_correct [THEN conjunct1, rule_format, OF l] list_clear_clone_correct [THEN conjunct2, THEN conjunct2, rule_format, OF l, of 0] show ?thesis using g by blast
qed

end
