(* ===== verification/StringBuffer.thy ===== *)
theory StringBuffer
  imports Prelude "HOL-Library.Monad_Syntax"
begin

text \<open>
  The growing buffer \<open>UtilStringBuffer\<close> of \<open>src/sfcUtil/utilStringBuffer.c\<close>. An allocated block is
  the list of its bytes, an uninitialised byte is \<^term>\<open>None\<close>; a read of an uninitialised byte, an
  access outside a block and a signed overflow, which the language leaves undefined, give the
  result \<^term>\<open>None\<close>. A string argument is the list of its characters up to the terminator.
\<close>

section \<open>Blocks of memory\<close>

type_synonym block = "char option list"

definition NUL :: char where
  "NUL = CHR 0x00"

definition int_ok :: "int \<Rightarrow> bool" where
  "int_ok i \<longleftrightarrow> - (2 ^ 31) \<le> i \<and> i < 2 ^ 31"

definition malloc :: "nat \<Rightarrow> block" where
  "malloc n = replicate n None"

definition realloc :: "block \<Rightarrow> nat \<Rightarrow> block" where
  "realloc b n = take n b @ replicate (n - length b) None"

text \<open>Copying bytes into a block at an offset.\<close>

definition memcpy :: "block \<Rightarrow> int \<Rightarrow> block \<Rightarrow> block option" where
  "memcpy b off src =
     (if 0 \<le> off \<and> nat off + length src \<le> length b
      then Some (take (nat off) b @ src @ drop (nat off + length src) b) else None)"

text \<open>The string at the start of a block, as \<open>strlen\<close>, \<open>strcpy\<close> or \<open>strdup\<close> read it.\<close>

fun cstr :: "block \<Rightarrow> string option" where
  "cstr [] = None"
| "cstr (None # b) = None"
| "cstr (Some c # b) = (if c = NUL then Some [] else map_option (\<lambda>s. c # s) (cstr b))"

definition bytes :: "string \<Rightarrow> block" where
  "bytes s = map Some s"

definition strdup :: "block \<Rightarrow> block option" where
  "strdup b = map_option (\<lambda>s. bytes (s @ [NUL])) (cstr b)"

section \<open>The buffer\<close>

record string_buffer =
  sb_hdl :: "block option"
  sb_max :: int
  sb_len :: int

definition newStringBuffer :: "int \<Rightarrow> string_buffer option" where
  "newStringBuffer s =
     (let s = (if s = 0 then 32 else s)
      in if s < 0 then None
         else do {
           hdl \<leftarrow> memcpy (malloc (nat s)) 0 (bytes [NUL]);
           Some \<lparr>sb_hdl = Some hdl, sb_max = s, sb_len = 0\<rparr>
         })"

definition sbft_getCharPtr :: "string_buffer \<Rightarrow> block option" where
  "sbft_getCharPtr sb = sb_hdl sb"

definition sbft_getSize :: "string_buffer \<Rightarrow> int" where
  "sbft_getSize sb = sb_len sb"

text \<open>The loop that doubles \<open>max\<close> until the new contents fit.\<close>

partial_function (option) double_max :: "int \<Rightarrow> int \<Rightarrow> int option" where
  "double_max need m =
     (if need \<ge> m then (if int_ok (m * 2) then double_max need (m * 2) else None) else Some m)"

text \<open>The shared beginning of the two append functions: room for \<open>sl\<close> more bytes.\<close>

definition make_room :: "string_buffer \<Rightarrow> int \<Rightarrow> string_buffer option" where
  "make_room sb sl =
     (if \<not> int_ok sl \<or> \<not> int_ok (sl + sb_len sb + 1) then None
      else if sl + sb_len sb + 1 \<ge> sb_max sb then
        do {
          m \<leftarrow> double_max (sl + sb_len sb + 1) (if sb_max sb = 0 then 8 else sb_max sb);
          if \<not> int_ok (m + 2) \<or> m + 2 < 0 then None
          else Some (sb\<lparr>sb_hdl := Some (realloc (case sb_hdl sb of None \<Rightarrow> [] | Some b \<Rightarrow> b) (nat (m + 2))),
                        sb_max := m\<rparr>)
        }
      else Some sb)"

definition sbft_appendChars :: "string_buffer \<Rightarrow> string option \<Rightarrow> string_buffer option" where
  "sbft_appendChars sb chars =
     (case chars of None \<Rightarrow> Some sb
      | Some s \<Rightarrow> do {
          let sl = int (length s);
          sb \<leftarrow> make_room sb sl;
          hdl \<leftarrow> sb_hdl sb;
          hdl \<leftarrow> memcpy hdl (sb_len sb) (bytes (s @ [NUL]));
          Some (sb\<lparr>sb_hdl := Some hdl, sb_len := sb_len sb + sl\<rparr>)
        })"

definition sbft_appendBlock :: "string_buffer \<Rightarrow> string option \<Rightarrow> string_buffer option" where
  "sbft_appendBlock sb data =
     (case data of None \<Rightarrow> Some sb
      | Some s \<Rightarrow> do {
          let sl = int (length s);
          sb \<leftarrow> make_room sb sl;
          hdl \<leftarrow> sb_hdl sb;
          hdl \<leftarrow> memcpy hdl (sb_len sb) (bytes s);
          hdl \<leftarrow> memcpy hdl (sb_len sb + sl) (bytes [NUL]);
          Some (sb\<lparr>sb_hdl := Some hdl, sb_len := sb_len sb + sl\<rparr>)
        })"

definition sbft_append6Chars :: "string_buffer \<Rightarrow> string option \<Rightarrow> string option \<Rightarrow> string option \<Rightarrow> string option \<Rightarrow>
    string option \<Rightarrow> string option \<Rightarrow> string_buffer option" where
  "sbft_append6Chars sb c1 c2 c3 c4 c5 c6 =
     do {
       sb \<leftarrow> sbft_appendChars sb c1;
       sb \<leftarrow> sbft_appendChars sb c2;
       sb \<leftarrow> sbft_appendChars sb c3;
       sb \<leftarrow> sbft_appendChars sb c4;
       sb \<leftarrow> sbft_appendChars sb c5;
       sbft_appendChars sb c6
     }"

definition sbft_append5Chars :: "string_buffer \<Rightarrow> string option \<Rightarrow> string option \<Rightarrow> string option \<Rightarrow> string option \<Rightarrow>
    string option \<Rightarrow> string_buffer option" where
  "sbft_append5Chars sb c1 c2 c3 c4 c5 =
     do {
       sb \<leftarrow> sbft_appendChars sb c1;
       sb \<leftarrow> sbft_appendChars sb c2;
       sb \<leftarrow> sbft_appendChars sb c3;
       sb \<leftarrow> sbft_appendChars sb c4;
       sbft_appendChars sb c5
     }"

definition sbft_append3Chars :: "string_buffer \<Rightarrow> string option \<Rightarrow> string option \<Rightarrow> string option \<Rightarrow> string_buffer option" where
  "sbft_append3Chars sb c1 c2 c3 =
     do {
       sb \<leftarrow> sbft_appendChars sb c1;
       sb \<leftarrow> sbft_appendChars sb c2;
       sbft_appendChars sb c3
     }"

definition sbft_reset :: "string_buffer \<Rightarrow> string_buffer option" where
  "sbft_reset sb =
     (if sb_max sb \<noteq> 0 then
        do {
          hdl \<leftarrow> sb_hdl sb;
          hdl \<leftarrow> memcpy hdl 0 (bytes [NUL]);
          Some (sb\<lparr>sb_hdl := Some hdl, sb_len := 0\<rparr>)
        }
      else Some (sb\<lparr>sb_len := 0\<rparr>))"

definition sbft_clone :: "string_buffer \<Rightarrow> string_buffer option" where
  "sbft_clone sb =
     (case sb_hdl sb of None \<Rightarrow> Some (sb\<lparr>sb_max := sb_len sb\<rparr>)
      | Some b \<Rightarrow> do {
          d \<leftarrow> strdup b;
          Some (sb\<lparr>sb_hdl := Some d, sb_max := sb_len sb\<rparr>)
        })"

section \<open>The contents of a buffer\<close>

text \<open>\<open>holds_text sb s\<close>: the buffer holds the bytes \<open>s\<close> with a terminator, inside its block.\<close>

definition holds_text :: "string_buffer \<Rightarrow> string \<Rightarrow> bool" where
  "holds_text sb s \<longleftrightarrow>
     (\<exists>rest. sb_hdl sb = Some (bytes (s @ [NUL]) @ rest) \<and> sb_len sb = int (length s) \<and>
        0 \<le> sb_max sb \<and> nat (sb_max sb) \<le> length s + 1 + length rest)"

lemma length_bytes [simp]: "length (bytes s) = length s"
  by (simp add: bytes_def)

lemma bytes_append: "bytes (s @ t) = bytes s @ bytes t"
  by (simp add: bytes_def)

lemma double_max_ok:
  "0 < m \<Longrightarrow> need < 2 ^ 30 - 1 \<Longrightarrow> \<exists>m'. double_max need m = Some m' \<and> need < m' \<and> m \<le> m' \<and> (m' = m \<or> m' \<le> 2 * need)"
proof (induction "nat (need + 1 - m)" arbitrary: m rule: less_induct)
  case less
  show ?case
  proof (cases "need \<ge> m")
    case True
    have ok: "int_ok (m * 2)" using True less.prems by (simp add: int_ok_def)
    have "\<exists>m'. double_max need (m * 2) = Some m' \<and> need < m' \<and> m * 2 \<le> m' \<and> (m' = m * 2 \<or> m' \<le> 2 * need)"
    proof (cases "need \<ge> m * 2")
      case t: True
      then show ?thesis using less.prems by (intro less.hyps) auto
    next
      case False
      then show ?thesis by (subst double_max.simps) simp
    qed
    then show ?thesis using True ok less.prems by (subst double_max.simps) (auto simp del: double_max.simps)
  next
    case False
    then show ?thesis by (subst double_max.simps) simp
  qed
qed

lemma make_room_ok:
  assumes h: "holds_text sb s" and n: "int n + sb_len sb + 1 < 2 ^ 30 - 1"
  shows "\<exists>sb' rest. make_room sb (int n) = Some sb' \<and> sb_hdl sb' = Some (bytes (s @ [NUL]) @ rest) \<and>
    sb_len sb' = int (length s) \<and> 0 \<le> sb_max sb' \<and> nat (sb_max sb') \<le> length s + 1 + length rest \<and> n \<le> length rest"
proof -
  obtain rest where r: "sb_hdl sb = Some (bytes (s @ [NUL]) @ rest)" "sb_len sb = int (length s)"
      "0 \<le> sb_max sb" "nat (sb_max sb) \<le> length s + 1 + length rest"
    using h by (auto simp: holds_text_def)
  let ?need = "int n + int (length s) + 1"
  have ok: "int_ok (int n)" "int_ok ?need" using n r(2) by (auto simp: int_ok_def)
  show ?thesis
  proof (cases "?need \<ge> sb_max sb")
    case True
    let ?m = "if sb_max sb = 0 then 8 else sb_max sb"
    have need: "0 < ?m" "?need < 2 ^ 30 - 1" using r(2,3) n by auto
    obtain m where m: "double_max ?need ?m = Some m" "?need < m" "m = ?m \<or> m \<le> 2 * ?need"
      using double_max_ok [OF need] by blast
    have mok: "int_ok (m + 2)" "0 \<le> m" using m True n r(2) by (auto simp: int_ok_def split: if_splits)
    let ?rest = "drop (length s + 1) (realloc (bytes (s @ [NUL]) @ rest) (nat (m + 2)))"
    have long: "length s + 1 + n < nat m" using m(2) by simp
    then have "take (length s + 1) (realloc (bytes (s @ [NUL]) @ rest) (nat (m + 2))) = bytes (s @ [NUL])"
      by (simp add: realloc_def)
    then have split: "realloc (bytes (s @ [NUL]) @ rest) (nat (m + 2)) = bytes (s @ [NUL]) @ ?rest"
      by (metis append_take_drop_id)
    have "length (realloc b k) = k" for b k by (simp add: realloc_def)
    then have "length ?rest = nat (m + 2) - (length s + 1)" by (simp only: length_drop)
    then have "nat m \<le> length s + 1 + length ?rest" "n \<le> length ?rest" using long by linarith+
    then show ?thesis
      using True m(1) ok mok r split by (auto simp: make_room_def Let_def)
  next
    case False
    then have "n \<le> length rest" using r by linarith
    then show ?thesis using False ok r by (simp add: make_room_def)
  qed
qed

lemma memcpy_mid:
  "memcpy (a @ b @ c) (int (length a)) d = Some (a @ d @ c)" if "length b = length d"
  using that by (simp add: memcpy_def)

lemma appendChars_ok:
  assumes h: "holds_text sb s" and n: "length c + length s + 1 < 2 ^ 30 - 1"
  shows "\<exists>sb'. sbft_appendChars sb (Some c) = Some sb' \<and> holds_text sb' (s @ c)"
proof -
  have "int (length c) + sb_len sb + 1 < 2 ^ 30 - 1" using h n by (auto simp: holds_text_def)
  from make_room_ok [OF h this] obtain sb' rest where r: "make_room sb (int (length c)) = Some sb'"
    "sb_hdl sb' = Some (bytes (s @ [NUL]) @ rest)" "sb_len sb' = int (length s)" "0 \<le> sb_max sb'"
    "nat (sb_max sb') \<le> length s + 1 + length rest" "length c \<le> length rest" by blast
  have e: "bytes (s @ [NUL]) @ rest = bytes s @ (bytes [NUL] @ take (length c) rest) @ drop (length c) rest"
    by (simp add: bytes_append)
  have "memcpy (bytes (s @ [NUL]) @ rest) (int (length s)) (bytes (c @ [NUL])) = Some (bytes s @ bytes (c @ [NUL]) @ drop (length c) rest)"
    unfolding e using memcpy_mid [of "bytes [NUL] @ take (length c) rest" "bytes (c @ [NUL])" "bytes s" "drop (length c) rest"] r(6)
    by (simp del: append_assoc append_take_drop_id)
  with r show ?thesis by (auto simp: sbft_appendChars_def holds_text_def bytes_append)
qed

lemma appendBlock_ok:
  assumes h: "holds_text sb s" and n: "length c + length s + 1 < 2 ^ 30 - 1"
  shows "\<exists>sb'. sbft_appendBlock sb (Some c) = Some sb' \<and> holds_text sb' (s @ c)"
proof -
  have "int (length c) + sb_len sb + 1 < 2 ^ 30 - 1" using h n by (auto simp: holds_text_def)
  from make_room_ok [OF h this] obtain sb' rest where r: "make_room sb (int (length c)) = Some sb'"
    "sb_hdl sb' = Some (bytes (s @ [NUL]) @ rest)" "sb_len sb' = int (length s)" "0 \<le> sb_max sb'"
    "nat (sb_max sb') \<le> length s + 1 + length rest" "length c \<le> length rest" by blast
  let ?b = "bytes [NUL] @ rest"
  have b: "bytes (s @ [NUL]) @ rest = bytes s @ take (length c) ?b @ drop (length c) ?b"
    by (simp only: bytes_append append_assoc append_take_drop_id)
  have 1: "memcpy (bytes (s @ [NUL]) @ rest) (int (length s)) (bytes c) = Some (bytes s @ bytes c @ drop (length c) ?b)"
    unfolding b using memcpy_mid [of "take (length c) ?b" "bytes c" "bytes s" "drop (length c) ?b"] r(6) by simp
  have "length (drop (length c) ?b) > 0" using r(6) by (simp only: length_drop length_append length_bytes) simp
  then have ne: "drop (length c) ?b \<noteq> []" by (metis length_greater_0_conv)
  then obtain y ys where ys: "drop (length c) ?b = y # ys" by (cases "drop (length c) ?b") auto
  have len: "length ys = length rest - length c" using arg_cong [OF ys, of length] by simp
  have 2: "memcpy (bytes s @ bytes c @ drop (length c) ?b) (int (length s) + int (length c)) (bytes [NUL]) =
      Some (bytes (s @ c) @ bytes [NUL] @ ys)"
    using memcpy_mid [of "[y]" "bytes [NUL]" "bytes (s @ c)" ys] unfolding ys by (simp add: bytes_append)
  show ?thesis using r 1 2 len by (auto simp: sbft_appendBlock_def holds_text_def bytes_append)
qed

lemma cstr_bytes: "NUL \<notin> set s \<Longrightarrow> cstr (bytes (s @ [NUL]) @ rest) = Some s"
  by (induction s) (auto simp: bytes_def)

lemma appendChars_opt:
  assumes "holds_text sb s" "length (case c of None \<Rightarrow> [] | Some t \<Rightarrow> t) + length s + 1 < 2 ^ 30 - 1"
  shows "\<exists>sb'. sbft_appendChars sb c = Some sb' \<and> holds_text sb' (s @ (case c of None \<Rightarrow> [] | Some t \<Rightarrow> t))"
  using assms appendChars_ok [of sb s] by (cases c) (auto simp: sbft_appendChars_def)

abbreviation text_of :: "string option \<Rightarrow> string" where
  "text_of c \<equiv> (case c of None \<Rightarrow> [] | Some t \<Rightarrow> t)"

section \<open>Properties\<close>

lemma string_buffer_append_correct_clauses:
  "0 \<le> n \<Longrightarrow> \<exists>sb. newStringBuffer n = Some sb \<and> holds_text sb []"
  "holds_text sb s \<Longrightarrow> length (text_of c) + length s < 2 ^ 30 - 2 \<Longrightarrow>
     \<exists>sb'. sbft_appendChars sb c = Some sb' \<and> holds_text sb' (s @ text_of c)"
  "holds_text sb s \<Longrightarrow> length (text_of c) + length s < 2 ^ 30 - 2 \<Longrightarrow>
     \<exists>sb'. sbft_appendBlock sb c = Some sb' \<and> holds_text sb' (s @ text_of c)"
  "holds_text sb s \<Longrightarrow> length (concat (map text_of [c, d, e, f, g, h])) + length s < 2 ^ 30 - 2 \<Longrightarrow>
     (\<exists>sb'. sbft_append3Chars sb c d e = Some sb' \<and> holds_text sb' (s @ concat (map text_of [c, d, e]))) \<and>
     (\<exists>sb'. sbft_append5Chars sb c d e f g = Some sb' \<and> holds_text sb' (s @ concat (map text_of [c, d, e, f, g]))) \<and>
     (\<exists>sb'. sbft_append6Chars sb c d e f g h = Some sb' \<and> holds_text sb' (s @ concat (map text_of [c, d, e, f, g, h])))"
proof -
  show "\<exists>sb. newStringBuffer n = Some sb \<and> holds_text sb []" if "0 \<le> n"
  proof -
    define k where "k = (if n = 0 then 32 else n)"
    have k: "0 < k" using that by (simp add: k_def)
    then have "malloc (nat k) = [] @ [None] @ malloc (nat k - 1)"
      by (cases "nat k") (simp_all add: malloc_def)
    then have "memcpy (malloc (nat k)) 0 (bytes [NUL]) = Some (bytes [NUL] @ malloc (nat k - 1))"
      using memcpy_mid [of "[None]" "bytes [NUL]" "[]" "malloc (nat k - 1)"] by simp
    then show ?thesis using k
      by (auto simp: newStringBuffer_def Let_def holds_text_def k_def [symmetric] malloc_def)
  qed
  show "\<exists>sb'. sbft_appendChars sb c = Some sb' \<and> holds_text sb' (s @ text_of c)"
    if "holds_text sb s" "length (text_of c) + length s < 2 ^ 30 - 2"
    using that by (intro appendChars_opt) auto
  show "\<exists>sb'. sbft_appendBlock sb c = Some sb' \<and> holds_text sb' (s @ text_of c)"
    if "holds_text sb s" "length (text_of c) + length s < 2 ^ 30 - 2"
    using that appendBlock_ok [of sb s] by (cases c) (auto simp: sbft_appendBlock_def)
  assume h: "holds_text sb s" and n: "length (concat (map text_of [c, d, e, f, g, h])) + length s < 2 ^ 30 - 2"
  obtain sb1 where 1: "sbft_appendChars sb c = Some sb1" "holds_text sb1 (s @ text_of c)"
    using appendChars_opt [OF h, of c] n by auto
  obtain sb2 where 2: "sbft_appendChars sb1 d = Some sb2" "holds_text sb2 (s @ text_of c @ text_of d)"
    using appendChars_opt [OF 1(2), of d] n by auto
  obtain sb3 where 3: "sbft_appendChars sb2 e = Some sb3" "holds_text sb3 (s @ text_of c @ text_of d @ text_of e)"
    using appendChars_opt [OF 2(2), of e] n by auto
  obtain sb4 where 4: "sbft_appendChars sb3 f = Some sb4" "holds_text sb4 (s @ text_of c @ text_of d @ text_of e @ text_of f)"
    using appendChars_opt [OF 3(2), of f] n by auto
  obtain sb5 where 5: "sbft_appendChars sb4 g = Some sb5"
      "holds_text sb5 (s @ text_of c @ text_of d @ text_of e @ text_of f @ text_of g)"
    using appendChars_opt [OF 4(2), of g] n by auto
  obtain sb6 where 6: "sbft_appendChars sb5 h = Some sb6"
      "holds_text sb6 (s @ text_of c @ text_of d @ text_of e @ text_of f @ text_of g @ text_of h)"
    using appendChars_opt [OF 5(2), of h] n by auto
  show "(\<exists>sb'. sbft_append3Chars sb c d e = Some sb' \<and> holds_text sb' (s @ concat (map text_of [c, d, e]))) \<and>
     (\<exists>sb'. sbft_append5Chars sb c d e f g = Some sb' \<and> holds_text sb' (s @ concat (map text_of [c, d, e, f, g]))) \<and>
     (\<exists>sb'. sbft_append6Chars sb c d e f g h = Some sb' \<and> holds_text sb' (s @ concat (map text_of [c, d, e, f, g, h])))"
    using 1(1) 2(1) 3 4(1) 5 6 by (simp add: sbft_append3Chars_def sbft_append5Chars_def sbft_append6Chars_def)
qed

text \<open> C9. Building a string: a new buffer of any size, 0 meaning 32, is empty; appending characters or
  a block of data adds them at the end, stays inside the allocated block and keeps it terminated,
  whatever growth it takes, as long as the result stays below \<open>2 ^ 30 - 2\<close> bytes, so that doubling
  the capacity does not overflow an \<open>int\<close>; the loop that doubles ends. A NULL argument adds nothing.
  The functions that append several strings append them in order.\<close>

theorem string_buffer_append_correct:
  "(0 \<le> n \<longrightarrow>
      (\<exists>sb. newStringBuffer n = Some sb \<and> holds_text sb [])) \<and>
   (holds_text sb s \<longrightarrow> length (text_of c) + length s < 2 ^ 30 - 2 \<longrightarrow>
      (\<exists>sb'. sbft_appendChars sb c = Some sb' \<and> holds_text sb' (s @ text_of c))) \<and>
   (holds_text sb s \<longrightarrow> length (text_of c) + length s < 2 ^ 30 - 2 \<longrightarrow>
      (\<exists>sb'. sbft_appendBlock sb c = Some sb' \<and> holds_text sb' (s @ text_of c))) \<and>
   (holds_text sb s \<longrightarrow> length (concat (map text_of [c, d, e, f, g, h])) + length s < 2 ^ 30 - 2 \<longrightarrow> (\<exists>sb'. sbft_append3Chars sb c d e = Some sb' \<and> holds_text sb' (s @ concat (map text_of [c, d, e]))) \<and>
     (\<exists>sb'. sbft_append5Chars sb c d e f g = Some sb' \<and> holds_text sb' (s @ concat (map text_of [c, d, e, f, g]))) \<and>
     (\<exists>sb'. sbft_append6Chars sb c d e f g h = Some sb' \<and> holds_text sb' (s @ concat (map text_of [c, d, e, f, g, h]))))"
  by ((rule string_buffer_append_correct_clauses; assumption) | rule conjI | rule impI)+

theorem string_buffer_append_correct_witness:
  "\<exists>sb sb'. newStringBuffer 1 = Some sb \<and> sbft_appendChars sb (Some ''<CIM/>'') = Some sb' \<and> holds_text sb' ''<CIM/>''"
proof -
  obtain sb where sb: "newStringBuffer 1 = Some sb" "holds_text sb []"
    using string_buffer_append_correct [THEN conjunct1, rule_format, of 1] by auto
  then show ?thesis using string_buffer_append_correct [THEN conjunct2, THEN conjunct1, rule_format, of sb "[]" "Some ''<CIM/>''"] by auto
qed

lemma string_buffer_clone_reset_correct_clauses:
  "holds_text sb s \<Longrightarrow> NUL \<notin> set s \<Longrightarrow>
     Option.bind (sbft_getCharPtr sb) cstr = Some s \<and> sbft_getSize sb = int (length s)"
  "holds_text sb s \<Longrightarrow> 0 < sb_max sb \<or> s = [] \<Longrightarrow> \<exists>sb'. sbft_reset sb = Some sb' \<and> holds_text sb' []"
  "holds_text sb s \<Longrightarrow> NUL \<notin> set s \<Longrightarrow> \<exists>sb'. sbft_clone sb = Some sb' \<and> holds_text sb' s"
  "holds_text sb (s @ [NUL] @ t) \<Longrightarrow> NUL \<notin> set s \<Longrightarrow>
     \<exists>sb'. sbft_clone sb = Some sb' \<and> sb_hdl sb' = Some (bytes (s @ [NUL])) \<and>
       sb_len sb' = int (length s + 1 + length t) \<and> \<not> holds_text sb' (s @ [NUL] @ t)"
proof -
  show "Option.bind (sbft_getCharPtr sb) cstr = Some s \<and> sbft_getSize sb = int (length s)"
    if "holds_text sb s" "NUL \<notin> set s"
    using that cstr_bytes by (auto simp: holds_text_def sbft_getCharPtr_def sbft_getSize_def)
  show "\<exists>sb'. sbft_reset sb = Some sb' \<and> holds_text sb' []" if h: "holds_text sb s" "0 < sb_max sb \<or> s = []"
  proof -
    obtain rest where r: "sb_hdl sb = Some (bytes (s @ [NUL]) @ rest)" "0 \<le> sb_max sb"
        "nat (sb_max sb) \<le> length s + 1 + length rest" using h by (auto simp: holds_text_def)
    obtain y ys where ys: "bytes (s @ [NUL]) = [y] @ ys" by (cases s) (auto simp: bytes_def)
    have l: "length ys = length s" using arg_cong [OF ys, of length] by simp
    have "memcpy (bytes (s @ [NUL]) @ rest) 0 (bytes [NUL]) = Some (bytes [NUL] @ ys @ rest)"
      using memcpy_mid [of "[y]" "bytes [NUL]" "[]" "ys @ rest"] ys by simp
    then show ?thesis using r h l by (auto simp: sbft_reset_def holds_text_def)
  qed
  show "\<exists>sb'. sbft_clone sb = Some sb' \<and> holds_text sb' s" if "holds_text sb s" "NUL \<notin> set s"
    using that cstr_bytes [of s] by (auto simp: sbft_clone_def strdup_def holds_text_def)
  show "\<exists>sb'. sbft_clone sb = Some sb' \<and> sb_hdl sb' = Some (bytes (s @ [NUL])) \<and>
       sb_len sb' = int (length s + 1 + length t) \<and> \<not> holds_text sb' (s @ [NUL] @ t)"
    if h: "holds_text sb (s @ [NUL] @ t)" "NUL \<notin> set s"
  proof -
    obtain rest where r: "sb_hdl sb = Some (bytes ((s @ [NUL] @ t) @ [NUL]) @ rest)"
        "sb_len sb = int (length (s @ [NUL] @ t))" using h(1) unfolding holds_text_def by blast
    have "cstr (bytes ((s @ [NUL] @ t) @ [NUL]) @ rest) = Some s"
      using cstr_bytes [OF h(2), of "bytes (t @ [NUL]) @ rest"] by (simp add: bytes_def)
    then show ?thesis using r by (auto simp: sbft_clone_def strdup_def holds_text_def bytes_append dest: arg_cong [of _ _ length])
  qed
qed

text \<open>Reading, resetting and cloning: the characters of a buffer without NUL bytes are read back as a
  string; \<open>reset\<close> empties a buffer; the clone of a buffer without NUL bytes holds the same text and
  takes further text. The clone of a buffer into which a block with a NUL byte was appended has a block
  that ends at that byte and a length beyond it.\<close>

lemma string_buffer_clone_reset_correct:
  "(holds_text sb s \<longrightarrow> NUL \<notin> set s \<longrightarrow> Option.bind (sbft_getCharPtr sb) cstr = Some s \<and> sbft_getSize sb = int (length s)) \<and>
   (holds_text sb s \<longrightarrow> (0 < sb_max sb \<or> s = []) \<longrightarrow>
      (\<exists>sb'. sbft_reset sb = Some sb' \<and> holds_text sb' [])) \<and>
   (holds_text sb s \<longrightarrow> NUL \<notin> set s \<longrightarrow>
      (\<exists>sb'. sbft_clone sb = Some sb' \<and> holds_text sb' s)) \<and>
   (holds_text sb (s @ [NUL] @ t) \<longrightarrow> NUL \<notin> set s \<longrightarrow>
      (\<exists>sb'. sbft_clone sb = Some sb' \<and> sb_hdl sb' = Some (bytes (s @ [NUL])) \<and>
       sb_len sb' = int (length s + 1 + length t) \<and> \<not> holds_text sb' (s @ [NUL] @ t)))"
  by ((rule string_buffer_clone_reset_correct_clauses; assumption) | rule conjI | rule impI)+

lemma string_buffer_clone_reset_example:
  "\<exists>sb sb' sb''. newStringBuffer 0 = Some sb \<and> sbft_appendBlock sb (Some [CHR ''a'', NUL, CHR ''b'']) = Some sb' \<and>
     sbft_clone sb' = Some sb'' \<and> sb_hdl sb'' = Some (bytes ''a'' @ bytes [NUL]) \<and> sb_len sb'' = 3"
proof -
  let ?s = "[CHR ''a'', NUL, CHR ''b'']"
  have sb: "newStringBuffer 0 = Some \<lparr>sb_hdl = Some (bytes [NUL] @ malloc 31), sb_max = 32, sb_len = 0\<rparr>"
    by (auto simp: newStringBuffer_def memcpy_def malloc_def)
  then have "holds_text \<lparr>sb_hdl = Some (bytes [NUL] @ malloc 31), sb_max = 32, sb_len = 0\<rparr> []"
    by (simp add: holds_text_def malloc_def)
  from appendBlock_ok [OF this, of ?s] obtain sb' where
    sb': "sbft_appendBlock \<lparr>sb_hdl = Some (bytes [NUL] @ malloc 31), sb_max = 32, sb_len = 0\<rparr> (Some ?s) = Some sb'"
      "holds_text sb' ([CHR ''a''] @ [NUL] @ [CHR ''b''])" by auto
  have n: "NUL \<notin> set [CHR ''a'']" by (simp add: NUL_def)
  have len: "sb_len sb' = 3" using sb'(2) by (auto simp: holds_text_def)
  show ?thesis using string_buffer_clone_reset_correct [THEN conjunct2, THEN conjunct2, THEN conjunct2, rule_format, OF sb'(2) n] sb sb'(1) len
    by (auto simp: bytes_def)
qed

end
