(* ===== verification/QueryOperation.thy ===== *)
theory QueryOperation
  imports Prelude "HOL-Library.Monad_Syntax"
begin

text \<open>
  The evaluation of WHERE conditions: operands, operations and predicate normal forms of
  \<open>src/queryOperation.c\<close>, and the property source \<open>queryGetValue\<close> of \<open>src/providerDrv.c\<close>.
  The type variable \<open>'i\<close> stands for the instances; what the code asks of them
  (\<open>getProperty\<close>, \<open>instGetClassName\<close>, \<open>instanceCompare\<close>) and of the class provider
  (\<open>isChild\<close>) are arguments. A result \<^term>\<open>None\<close> stands for undefined behaviour: following a NULL or
  wild pointer, a signed overflow, an overrun of a fixed buffer. Operands are allocated by
  \<open>calloc\<close> and property values start from zero, so a member of the union \<open>CMPIValue\<close> that
  was not written is zero exactly when the member that was written is.
\<close>

section \<open>Values\<close>

text \<open>A double: finite (\<open>NegZero\<close> is the other zero), infinite, or not a number.\<close>

datatype double = Fin rat | NegZero | PInf | NInf | NaN

fun dbl_sub_sign :: "double \<Rightarrow> double \<Rightarrow> int" where
  "dbl_sub_sign NaN _ = 0"
| "dbl_sub_sign _ NaN = 0"
| "dbl_sub_sign PInf PInf = 0"
| "dbl_sub_sign PInf _ = 1"
| "dbl_sub_sign NInf NInf = 0"
| "dbl_sub_sign NInf _ = - 1"
| "dbl_sub_sign _ PInf = - 1"
| "dbl_sub_sign _ NInf = 1"
| "dbl_sub_sign (Fin a) (Fin b) = (if a < b then - 1 else if a > b then 1 else 0)"
| "dbl_sub_sign (Fin a) NegZero = (if a < 0 then - 1 else if a > 0 then 1 else 0)"
| "dbl_sub_sign NegZero (Fin b) = (if 0 < b then - 1 else if 0 > b then 1 else 0)"
| "dbl_sub_sign NegZero NegZero = 0"

datatype QLOpd = QL_Invalid | QL_NotFound | QL_Null | QL_Integer | QL_UInteger | QL_Double | QL_Boolean
  | QL_Chars | QL_Char | QL_PropertyName | QL_Name | QL_Inst | QL_Ref | QL_DateTime

definition opd_code :: "QLOpd \<Rightarrow> int" where
  "opd_code t = (case t of QL_Invalid \<Rightarrow> 0 | QL_NotFound \<Rightarrow> 1 | QL_Null \<Rightarrow> 2 | QL_Integer \<Rightarrow> 3 | QL_UInteger \<Rightarrow> 4
     | QL_Double \<Rightarrow> 5 | QL_Boolean \<Rightarrow> 6 | QL_Chars \<Rightarrow> 7 | QL_Char \<Rightarrow> 8 | QL_PropertyName \<Rightarrow> 9 | QL_Name \<Rightarrow> 10
     | QL_Inst \<Rightarrow> 11 | QL_Ref \<Rightarrow> 12 | QL_DateTime \<Rightarrow> 13)"

datatype QLFnc = QL_FNC_NoFunction | QL_FNC_BadFunction | QL_FNC_Classname | QL_FNC_Namespacename
  | QL_FNC_Namespacetype | QL_FNC_Hostport | QL_FNC_Modelpath | QL_FNC_Classpath | QL_FNC_Objectpath
  | QL_FNC_InstanceToReference | QL_FNC_CurrentDateTime | QL_FNC_DateTime
  | QL_FNC_MicrosecondsToTimestamp | QL_FNC_MicrosecondsToInterval

record QLPropertyNameData =
  className :: "string option"
  propName :: string
  index :: int

text \<open>
  The union of an operand or a property value, by the member that was written last;
  \<open>V_zero\<close> when none was. A chain of property names is the list of its parts.
\<close>

datatype 'i ql_value = V_zero | V_sint64 "64 word" | V_real64 double | V_boolean "8 word"
  | V_chars "string option" | V_char16 "16 word" | V_inst 'i | V_prop "QLPropertyNameData list"

text \<open>Reading a member of the union: the bits are zero when those of the written member are.\<close>

fun is_zero :: "'i ql_value \<Rightarrow> bool" where
  "is_zero V_zero = True"
| "is_zero (V_sint64 w) = (w = 0)"
| "is_zero (V_real64 d) = (d = Fin 0)"
| "is_zero (V_boolean b) = (b = 0)"
| "is_zero (V_chars p) = (p = None)"
| "is_zero (V_char16 c) = (c = 0)"
| "is_zero (V_inst i) = False"
| "is_zero (V_prop ns) = (ns = [])"

text \<open>The member \<open>sint64\<close>, \<open>real64\<close>, \<open>boolean\<close>; \<^term>\<open>None\<close> when another one was written.\<close>

fun get_sint64 :: "'i ql_value \<Rightarrow> 64 word option" where
  "get_sint64 (V_sint64 w) = Some w"
| "get_sint64 V_zero = Some 0"
| "get_sint64 _ = None"

fun get_real64 :: "'i ql_value \<Rightarrow> double option" where
  "get_real64 (V_real64 d) = Some d"
| "get_real64 V_zero = Some (Fin 0)"
| "get_real64 _ = None"

fun get_boolean :: "'i ql_value \<Rightarrow> 8 word option" where
  "get_boolean (V_boolean b) = Some b"
| "get_boolean V_zero = Some 0"
| "get_boolean _ = None"

text \<open>Reading the string a non-NULL \<open>chars\<close> points to.\<close>

fun deref_chars :: "'i ql_value \<Rightarrow> string option" where
  "deref_chars (V_chars p) = p"
| "deref_chars _ = None"

section \<open>The property source\<close>

record 'i prop_source =
  src_data :: 'i
  src_sns :: string
  src_getValue :: "'i \<Rightarrow> string \<Rightarrow> ('i ql_value \<times> QLOpd) option"
  src_className :: "'i \<Rightarrow> string"
  src_isChild :: "string \<Rightarrow> string \<Rightarrow> string \<Rightarrow> bool"
  src_instanceCompare :: "'i \<Rightarrow> 'i option \<Rightarrow> int"

text \<open>A property of an instance: its type code and its value, by the member that is set.\<close>

datatype 'i cmpi_value = C_int8 "8 word" | C_int16 "16 word" | C_int32 "32 word" | C_int64 "64 word"
  | C_real64 double | C_real32 double | C_boolean "8 word" | C_char16 "16 word" | C_inst 'i
  | C_string "string option option" | C_pointer

type_synonym 'i cmpi_data = "16 word \<times> 'i cmpi_value"

abbreviation CMPI_UINT :: "16 word" where "CMPI_UINT \<equiv> 0x80"
abbreviation CMPI_SINT :: "16 word" where "CMPI_SINT \<equiv> 0xC0"
abbreviation CMPI_boolean :: "16 word" where "CMPI_boolean \<equiv> 2"
abbreviation CMPI_char16 :: "16 word" where "CMPI_char16 \<equiv> 3"
abbreviation CMPI_real32 :: "16 word" where "CMPI_real32 \<equiv> 8"
abbreviation CMPI_real64 :: "16 word" where "CMPI_real64 \<equiv> 12"
abbreviation CMPI_uint8 :: "16 word" where "CMPI_uint8 \<equiv> 0x80"
abbreviation CMPI_uint16 :: "16 word" where "CMPI_uint16 \<equiv> 0x90"
abbreviation CMPI_uint32 :: "16 word" where "CMPI_uint32 \<equiv> 0xA0"
abbreviation CMPI_sint8 :: "16 word" where "CMPI_sint8 \<equiv> 0xC0"
abbreviation CMPI_sint16 :: "16 word" where "CMPI_sint16 \<equiv> 0xD0"
abbreviation CMPI_sint32 :: "16 word" where "CMPI_sint32 \<equiv> 0xE0"
abbreviation CMPI_sint64 :: "16 word" where "CMPI_sint64 \<equiv> 0xF0"
abbreviation CMPI_instance :: "16 word" where "CMPI_instance \<equiv> 0x1000"
abbreviation CMPI_string :: "16 word" where "CMPI_string \<equiv> 0x1600"

unbundle bit_operations_syntax

definition queryGetValue :: "('i \<Rightarrow> string \<Rightarrow> 'i cmpi_data option) \<Rightarrow> 'i \<Rightarrow> string \<Rightarrow> ('i ql_value \<times> QLOpd) option" where
  "queryGetValue getProperty ci name =
     (case getProperty ci name of
        None \<Rightarrow> Some (V_zero, QL_NotFound)
      | Some (t, d) \<Rightarrow>
          if t AND CMPI_SINT = CMPI_SINT then
            (if t = CMPI_sint32 then (case d of C_int32 w \<Rightarrow> Some (V_sint64 (scast w), QL_Integer) | _ \<Rightarrow> None)
             else if t = CMPI_sint16 then (case d of C_int16 w \<Rightarrow> Some (V_sint64 (scast w), QL_Integer) | _ \<Rightarrow> None)
             else if t = CMPI_sint8 then (case d of C_int8 w \<Rightarrow> Some (V_sint64 (scast w), QL_Integer) | _ \<Rightarrow> None)
             else (case d of C_int64 w \<Rightarrow> Some (V_sint64 w, QL_Integer) | _ \<Rightarrow> None))
          else if t AND CMPI_UINT \<noteq> 0 then
            (if t = CMPI_uint32 then (case d of C_int32 w \<Rightarrow> Some (V_sint64 (ucast w), QL_UInteger) | _ \<Rightarrow> None)
             else if t = CMPI_uint16 then (case d of C_int16 w \<Rightarrow> Some (V_sint64 (ucast w), QL_UInteger) | _ \<Rightarrow> None)
             else if t = CMPI_uint8 then (case d of C_int8 w \<Rightarrow> Some (V_sint64 (ucast w), QL_UInteger) | _ \<Rightarrow> None)
             else (case d of C_int64 w \<Rightarrow> Some (V_sint64 w, QL_UInteger) | _ \<Rightarrow> None))
          else if t = CMPI_string then
            (case d of C_string (Some hdl) \<Rightarrow> Some (V_chars hdl, QL_Chars) | _ \<Rightarrow> None)
          else if t = CMPI_boolean then (case d of C_boolean b \<Rightarrow> Some (V_boolean b, QL_Boolean) | _ \<Rightarrow> None)
          else if t = CMPI_real64 then (case d of C_real64 r \<Rightarrow> Some (V_real64 r, QL_Double) | _ \<Rightarrow> None)
          else if t = CMPI_real32 then (case d of C_real32 r \<Rightarrow> Some (V_real64 r, QL_Double) | _ \<Rightarrow> None)
          else if t = CMPI_char16 then (case d of C_char16 c \<Rightarrow> Some (V_char16 c, QL_Char) | _ \<Rightarrow> None)
          else if t = CMPI_instance then (case d of C_inst i \<Rightarrow> Some (V_inst i, QL_Inst) | _ \<Rightarrow> None)
          else Some (V_zero, QL_Invalid))"

text \<open>
  Following a chain of property names. A part that is not an instance ends the loop, and the
  lookup after the loop asks for that part again.
\<close>

fun getPropValue :: "('i \<Rightarrow> string \<Rightarrow> ('i ql_value \<times> QLOpd) option) \<Rightarrow> 'i \<Rightarrow> QLPropertyNameData list \<Rightarrow>
    ('i ql_value \<times> QLOpd) option" where
  "getPropValue getValue data [] = None"
| "getPropValue getValue data [pd] = getValue data (propName pd)"
| "getPropValue getValue data (pd # pd' # pds) =
     (case getValue data (propName pd) of
        None \<Rightarrow> None
      | Some (v, type) \<Rightarrow>
          if type \<noteq> QL_Inst then getValue data (propName pd)
          else (case v of V_inst i \<Rightarrow> getPropValue getValue i (pd' # pds) | _ \<Rightarrow> None))"

section \<open>Operands\<close>

datatype operand_ft = qLintQueryOperandFt | qLdoubleQueryOperandFt | qLbooleanQueryOperandFt
  | qLcharsQueryOperandFt | qLpropQueryOperandFt | qLinstQueryOperandFt | qLnameQueryOperandFt

record 'i operand =
  od_ft :: operand_ft
  od_type :: QLOpd
  od_fncArgType :: QLOpd
  od_fnc :: QLFnc
  od_val :: "'i ql_value"

definition new_operand :: "operand_ft \<Rightarrow> QLOpd \<Rightarrow> 'i ql_value \<Rightarrow> 'i operand" where
  "new_operand ft type v =
     \<lparr>od_ft = ft, od_type = type, od_fncArgType = QL_Invalid, od_fnc = QL_FNC_NoFunction, od_val = v\<rparr>"

definition newIntQueryOperand :: "64 word \<Rightarrow> 'i operand" where
  "newIntQueryOperand val = new_operand qLintQueryOperandFt QL_Integer (V_sint64 val)"

definition newDoubleQueryOperand :: "double \<Rightarrow> 'i operand" where
  "newDoubleQueryOperand val = new_operand qLdoubleQueryOperandFt QL_Double (V_real64 val)"

definition newBooleanQueryOperand :: "8 word \<Rightarrow> 'i operand" where
  "newBooleanQueryOperand val = new_operand qLbooleanQueryOperandFt QL_Boolean (V_boolean val)"

definition newCharsQueryOperand :: "string option \<Rightarrow> 'i operand" where
  "newCharsQueryOperand val = new_operand qLcharsQueryOperandFt QL_Chars (V_chars val)"

definition newNameQueryOperand :: "string option \<Rightarrow> 'i operand" where
  "newNameQueryOperand val = new_operand qLnameQueryOperandFt QL_Name (V_chars val)"

definition newPropQueryOperand :: "QLPropertyNameData list \<Rightarrow> 'i operand" where
  "newPropQueryOperand val = new_operand qLpropQueryOperandFt QL_PropertyName (V_prop val)"

definition newInstQueryOperand :: "'i \<Rightarrow> 'i operand" where
  "newInstQueryOperand ci = new_operand qLinstQueryOperandFt QL_Inst (V_inst ci)"

text \<open>A function operand keeps neither its argument nor a property name.\<close>

definition newFncQueryOperand :: "QLFnc \<Rightarrow> QLOpd \<Rightarrow> 'i operand option" where
  "newFncQueryOperand fnc argType =
     (let op = \<lparr>od_ft = qLpropQueryOperandFt, od_type = QL_PropertyName, od_fncArgType = argType, od_fnc = fnc,
                od_val = V_zero\<rparr>
      in if fnc \<in> {QL_FNC_Classname, QL_FNC_Namespacename, QL_FNC_Namespacetype, QL_FNC_Hostport, QL_FNC_Modelpath} then
           (if argType \<noteq> QL_Chars \<and> argType \<noteq> QL_PropertyName then None else Some (op\<lparr>od_type := QL_Chars\<rparr>))
         else if fnc \<in> {QL_FNC_Classpath, QL_FNC_Objectpath} then
           (if argType \<noteq> QL_Chars \<and> argType \<noteq> QL_PropertyName then None else Some (op\<lparr>od_type := QL_Ref\<rparr>))
         else if fnc = QL_FNC_InstanceToReference then
           (if argType \<noteq> QL_Inst then None else Some (op\<lparr>od_type := QL_Ref\<rparr>))
         else Some op)"

subsection \<open>Comparison\<close>

text \<open>The property an operand names; \<open>propertyName\<close> is NULL when no name was stored.\<close>

definition operand_prop :: "'i operand \<Rightarrow> 'i prop_source \<Rightarrow> ('i ql_value \<times> QLOpd) option" where
  "operand_prop op src =
     (case od_val op of V_prop pds \<Rightarrow> getPropValue (src_getValue src) (src_data src) pds | _ \<Rightarrow> None)"

text \<open>The value and type the comparisons use of their right-hand side.\<close>

definition other_value :: "'i operand \<Rightarrow> 'i prop_source \<Rightarrow> ('i ql_value \<times> QLOpd) option" where
  "other_value op src = (if od_type op = QL_PropertyName then operand_prop op src else Some (od_val op, od_type op))"

definition to_int :: "64 word \<Rightarrow> int" where
  "to_int w = sint (ucast w :: 32 word)"

definition long_sub :: "64 word \<Rightarrow> 64 word \<Rightarrow> 64 word option" where
  "long_sub a b = (if - (2 ^ 63) \<le> sint a - sint b \<and> sint a - sint b < 2 ^ 63 then Some (a - b) else None)"

definition intCompare :: "'i operand \<Rightarrow> 'i operand \<Rightarrow> 'i prop_source \<Rightarrow> int option" where
  "intCompare self op src =
     do {
       sov \<leftarrow> get_sint64 (od_val self);
       (v, type) \<leftarrow> other_value op src;
       if type = QL_Integer then do { ov \<leftarrow> get_sint64 v; d \<leftarrow> long_sub sov ov; Some (to_int d) }
       else if type = QL_UInteger then do { ov \<leftarrow> get_sint64 v; Some (to_int (sov - ov)) }
       else Some (- (2 + opd_code type))
     }"

text \<open>The value of a property is replaced by the \<open>double\<close> member of its operand, whose bits are those
  of a pointer to the property name: its value is not determined.\<close>

definition doubleCompare :: "'i operand \<Rightarrow> 'i operand \<Rightarrow> 'i prop_source \<Rightarrow> int option" where
  "doubleCompare self op src =
     do {
       sov \<leftarrow> get_real64 (od_val self);
       (v, type) \<leftarrow> other_value op src;
       if type = QL_Double then do { ov \<leftarrow> get_real64 (od_val op); Some (dbl_sub_sign sov ov) }
       else Some (- 2)
     }"

definition booleanCompare :: "'i operand \<Rightarrow> 'i operand \<Rightarrow> 'i prop_source \<Rightarrow> int option" where
  "booleanCompare self op src =
     do {
       sov \<leftarrow> get_boolean (od_val self);
       (v, type) \<leftarrow> other_value op src;
       if type = QL_Boolean then
         do { ov \<leftarrow> get_boolean v; Some ((if sov \<noteq> 0 then 1 else 0) - (if ov \<noteq> 0 then 1 else 0)) }
       else Some (- (2 + opd_code type))
     }"

definition charsCompare :: "'i operand \<Rightarrow> 'i operand \<Rightarrow> 'i prop_source \<Rightarrow> int option" where
  "charsCompare self op src =
     do {
       (v, type) \<leftarrow> other_value op src;
       if is_zero (od_val self) \<or> is_zero v then
         (if is_zero (od_val self) \<and> is_zero v then Some 0
          else if is_zero (od_val self) then Some (- 1)
          else Some 1)
       else if type = QL_Chars then
         do { sov \<leftarrow> deref_chars (od_val self); ov \<leftarrow> deref_chars v; Some (strcmp sov ov) }
       else Some (- 2)
     }"

definition instCompare :: "'i operand \<Rightarrow> 'i operand \<Rightarrow> 'i prop_source \<Rightarrow> int option" where
  "instCompare self op src =
     (case od_val self of
        V_inst i \<Rightarrow>
          do {
            (ov, type) \<leftarrow> (if od_type op = QL_PropertyName then other_value op src else Some (V_zero, od_type op));
            if type = QL_Name then
              do {
                name \<leftarrow> deref_chars (od_val op);
                if strcasecmp (src_className src i) name = 0 then Some 0
                else Some (if src_isChild src (src_sns src) name (src_className src i) then 0 else 1)
              }
            else if type = QL_Inst then
              Some (src_instanceCompare src i (case ov of V_inst j \<Rightarrow> Some j | _ \<Rightarrow> None))
            else Some (- 2)
          }
      | _ \<Rightarrow> None)"

definition nameCompare :: "'i operand \<Rightarrow> 'i operand \<Rightarrow> 'i prop_source \<Rightarrow> int option" where
  "nameCompare self op src = Some (- 2)"

text \<open>
  A property is compared as an operand of its value's type. For a \<open>char16\<close> property the
  operand compares as a string, with the character code in place of the pointer.
\<close>

definition propCompare :: "'i operand \<Rightarrow> 'i operand \<Rightarrow> 'i prop_source \<Rightarrow> int option" where
  "propCompare self op src =
     do {
       (v, type) \<leftarrow> operand_prop self src;
       (case type of
          QL_Integer \<Rightarrow> do { w \<leftarrow> get_sint64 v; intCompare (newIntQueryOperand w) op src }
        | QL_UInteger \<Rightarrow> do { w \<leftarrow> get_sint64 v; intCompare ((newIntQueryOperand w)\<lparr>od_type := QL_UInteger\<rparr>) op src }
        | QL_Double \<Rightarrow> do { d \<leftarrow> get_real64 v; doubleCompare (newDoubleQueryOperand d) op src }
        | QL_Boolean \<Rightarrow> do { b \<leftarrow> get_boolean v; booleanCompare (newBooleanQueryOperand b) op src }
        | QL_Chars \<Rightarrow> charsCompare (new_operand qLcharsQueryOperandFt QL_Chars v) op src
        | QL_Char \<Rightarrow> charsCompare (new_operand qLcharsQueryOperandFt QL_Char v) op src
        | QL_Inst \<Rightarrow> instCompare (new_operand qLinstQueryOperandFt QL_Char v) op src
        | QL_Null \<Rightarrow>
            (if od_type op = QL_PropertyName
             then do { (v', type') \<leftarrow> operand_prop op src; Some (if type' = QL_Null then 0 else - 2) }
             else Some (- 2))
        | _ \<Rightarrow> Some (- 2))
     }"

definition od_compare :: "'i operand \<Rightarrow> 'i operand \<Rightarrow> 'i prop_source \<Rightarrow> int option" where
  "od_compare self op src =
     (case od_ft self of
        qLintQueryOperandFt \<Rightarrow> intCompare self op src
      | qLdoubleQueryOperandFt \<Rightarrow> doubleCompare self op src
      | qLbooleanQueryOperandFt \<Rightarrow> booleanCompare self op src
      | qLcharsQueryOperandFt \<Rightarrow> charsCompare self op src
      | qLpropQueryOperandFt \<Rightarrow> propCompare self op src
      | qLinstQueryOperandFt \<Rightarrow> instCompare self op src
      | qLnameQueryOperandFt \<Rightarrow> nameCompare self op src)"

subsection \<open>Printing operands\<close>

text \<open>The format \<open>%g\<close> is an argument.\<close>

fun propToString_parts :: "QLPropertyNameData list \<Rightarrow> string" where
  "propToString_parts [] = ''''"
| "propToString_parts (pd # pds) =
     (case className pd of None \<Rightarrow> '''' | Some c \<Rightarrow> c @ ''::'') @ propName pd @
     (if pds = [] then '''' else ''.'') @ propToString_parts pds"

fun propToString_size :: "QLPropertyNameData list \<Rightarrow> nat" where
  "propToString_size [] = 0"
| "propToString_size (pd # pds) =
     (case className pd of None \<Rightarrow> 0 | Some c \<Rightarrow> 2 + length c) + length (propName pd) +
     (if pds = [] then 0 else 1) + propToString_size pds"

text \<open>Concatenating into a buffer of the given size; \<^term>\<open>None\<close> when the terminator does not fit.\<close>

definition into_buffer :: "nat \<Rightarrow> string \<Rightarrow> string option" where
  "into_buffer n s = (if length s < n then Some s else None)"

definition propToString :: "'i operand \<Rightarrow> string option" where
  "propToString op =
     (case od_val op of
        V_prop pds \<Rightarrow> into_buffer (propToString_size pds + 8) (propToString_parts pds)
      | _ \<Rightarrow> into_buffer 8 '''')"

definition od_toString :: "(double \<Rightarrow> string) \<Rightarrow> 'i operand \<Rightarrow> string option" where
  "od_toString fmt_g op =
     (case od_ft op of
        qLintQueryOperandFt \<Rightarrow> do { w \<leftarrow> get_sint64 (od_val op); into_buffer 64 (sprintf_d (sint w)) }
      | qLdoubleQueryOperandFt \<Rightarrow> do { d \<leftarrow> get_real64 (od_val op); into_buffer 64 (fmt_g d) }
      | qLbooleanQueryOperandFt \<Rightarrow> do { b \<leftarrow> get_boolean (od_val op); Some (if b \<noteq> 0 then ''true'' else ''false'') }
      | qLcharsQueryOperandFt \<Rightarrow> deref_chars (od_val op)
      | qLpropQueryOperandFt \<Rightarrow> propToString op
      | qLinstQueryOperandFt \<Rightarrow> Some ''*** instance ***''
      | qLnameQueryOperandFt \<Rightarrow> deref_chars (od_val op))"

text \<open>The table of type names has six entries, fewer than there are types.\<close>

definition types :: "string list" where
  "types = [''-inv-'', ''integer'', ''double'', ''boolean'', ''chars'', ''name'']"

definition typeToString :: "'i operand \<Rightarrow> string option" where
  "typeToString op = (let i = nat (opd_code (od_type op)) in if i < length types then Some (types ! i) else None)"

section \<open>Operations\<close>

datatype QLOp = QL_OR | QL_AND | QL_NOT | QL_EQ | QL_NE | QL_LT | QL_LE | QL_GT | QL_GE | QL_ISA | QL_NOT_ISA
  | QL_LIKE | QL_NOT_LIKE | QL_IS_NULL | QL_IS_NOT_NULL | QL_IS_TRUE | QL_IS_NOT_TRUE | QL_IS_FALSE
  | QL_IS_NOT_FALSE | QL_nop | QL_bin

text \<open>The function tables of the operations.\<close>

datatype operation_ft = qlAndOperationFt | qlOrOperationFt | qlNotOperationFt | qlIsNullOperationFt
  | qlIsNotNullOperationFt | qlBinOperationFt | qlLtOperationFt | qlGtOperationFt | qlLeOperationFt
  | qlGeOperationFt | qlEqOperationFt | qlNeOperationFt | qlIsaOperationFt | qlLikeOperationFt
  | qlNotLikeOperationFt

datatype 'i operation =
  Operation (on_ft: operation_ft) (on_lhon: "'i operation option") (on_rhon: "'i operation option")
    (on_lhod: "'i operand option") (on_rhod: "'i operand option") (on_opr: QLOp) (on_invert: bool)

definition newAndOperation :: "'i operation \<Rightarrow> 'i operation \<Rightarrow> 'i operation" where
  "newAndOperation lo ro = Operation qlAndOperationFt (Some lo) (Some ro) None None QL_AND False"

definition newOrOperation :: "'i operation \<Rightarrow> 'i operation \<Rightarrow> 'i operation" where
  "newOrOperation lo ro = Operation qlOrOperationFt (Some lo) (Some ro) None None QL_OR False"

definition newNotOperation :: "'i operation \<Rightarrow> 'i operation" where
  "newNotOperation lo = Operation qlNotOperationFt (Some lo) None None None QL_NOT False"

definition newBinaryOperation :: "'i operation \<Rightarrow> 'i operation" where
  "newBinaryOperation lo = Operation qlBinOperationFt (Some lo) None None None QL_bin False"

definition newIsNullOperation :: "'i operand \<Rightarrow> 'i operation" where
  "newIsNullOperation lo = Operation qlIsNullOperationFt None None (Some lo) None QL_IS_NULL False"

definition newIsNotNullOperation :: "'i operand \<Rightarrow> 'i operation" where
  "newIsNotNullOperation lo = Operation qlIsNotNullOperationFt None None (Some lo) None QL_IS_NOT_NULL False"

definition new_predicate :: "operation_ft \<Rightarrow> QLOp \<Rightarrow> 'i operand \<Rightarrow> 'i operand \<Rightarrow> 'i operation" where
  "new_predicate ft opr lo ro = Operation ft None None (Some lo) (Some ro) opr False"

definition newLtOperation :: "'i operand \<Rightarrow> 'i operand \<Rightarrow> 'i operation" where
  "newLtOperation lo ro = new_predicate qlLtOperationFt QL_LT lo ro"

definition newGtOperation :: "'i operand \<Rightarrow> 'i operand \<Rightarrow> 'i operation" where
  "newGtOperation lo ro = new_predicate qlGtOperationFt QL_GT lo ro"

definition newLeOperation :: "'i operand \<Rightarrow> 'i operand \<Rightarrow> 'i operation" where
  "newLeOperation lo ro = new_predicate qlLeOperationFt QL_LE lo ro"

definition newGeOperation :: "'i operand \<Rightarrow> 'i operand \<Rightarrow> 'i operation" where
  "newGeOperation lo ro = new_predicate qlGeOperationFt QL_GE lo ro"

definition newEqOperation :: "'i operand \<Rightarrow> 'i operand \<Rightarrow> 'i operation" where
  "newEqOperation lo ro = new_predicate qlEqOperationFt QL_EQ lo ro"

definition newNeOperation :: "'i operand \<Rightarrow> 'i operand \<Rightarrow> 'i operation" where
  "newNeOperation lo ro = new_predicate qlNeOperationFt QL_NE lo ro"

definition newIsaOperation :: "'i operand \<Rightarrow> 'i operand \<Rightarrow> 'i operation" where
  "newIsaOperation lo ro = new_predicate qlIsaOperationFt QL_ISA lo ro"

definition newLikeOperation :: "'i operand \<Rightarrow> 'i operand \<Rightarrow> 'i operation" where
  "newLikeOperation lo ro = new_predicate qlLikeOperationFt QL_LIKE lo ro"

definition newNotLikeOperation :: "'i operand \<Rightarrow> 'i operand \<Rightarrow> 'i operation" where
  "newNotLikeOperation lo ro = new_predicate qlNotLikeOperationFt QL_NOT_LIKE lo ro"

subsection \<open>Evaluation of the predicates\<close>

definition compare_sides :: "'i operation \<Rightarrow> 'i prop_source \<Rightarrow> int option" where
  "compare_sides op source =
     (case (on_lhod op, on_rhod op) of (Some l, Some r) \<Rightarrow> od_compare l r source | _ \<Rightarrow> None)"

definition ltEvaluate :: "'i operation \<Rightarrow> 'i prop_source \<Rightarrow> bool option" where
  "ltEvaluate op source = map_option (\<lambda>c. if on_invert op then c \<ge> 0 else c < 0) (compare_sides op source)"

definition gtEvaluate :: "'i operation \<Rightarrow> 'i prop_source \<Rightarrow> bool option" where
  "gtEvaluate op source = map_option (\<lambda>c. if on_invert op then c \<le> 0 else c > 0) (compare_sides op source)"

definition leEvaluate :: "'i operation \<Rightarrow> 'i prop_source \<Rightarrow> bool option" where
  "leEvaluate op source = map_option (\<lambda>c. if on_invert op then c > 0 else c \<le> 0) (compare_sides op source)"

definition geEvaluate :: "'i operation \<Rightarrow> 'i prop_source \<Rightarrow> bool option" where
  "geEvaluate op source = map_option (\<lambda>c. if on_invert op then c < 0 else c \<ge> 0) (compare_sides op source)"

definition eqEvaluate :: "'i operation \<Rightarrow> 'i prop_source \<Rightarrow> bool option" where
  "eqEvaluate op source = map_option (\<lambda>c. if on_invert op then c \<noteq> 0 else c = 0) (compare_sides op source)"

definition neEvaluate :: "'i operation \<Rightarrow> 'i prop_source \<Rightarrow> bool option" where
  "neEvaluate op source = map_option (\<lambda>c. if on_invert op then c = 0 else c \<noteq> 0) (compare_sides op source)"

definition isaEvaluate :: "'i operation \<Rightarrow> 'i prop_source \<Rightarrow> bool option" where
  "isaEvaluate op source = map_option (\<lambda>c. if on_invert op then c \<noteq> 0 else c = 0) (compare_sides op source)"

text \<open>\<open>strstr\<close>: the rest of the string from the first occurrence.\<close>

fun prefix_of :: "string \<Rightarrow> string \<Rightarrow> bool" where
  "prefix_of [] _ = True"
| "prefix_of (c # cs) [] = False"
| "prefix_of (c # cs) (d # ds) = (c = d \<and> prefix_of cs ds)"

fun strstr :: "string \<Rightarrow> string \<Rightarrow> string option" where
  "strstr s p = (if prefix_of p s then Some s else case s of [] \<Rightarrow> None | _ # s' \<Rightarrow> strstr s' p)"

declare strstr.simps [simp del]

text \<open>For the pattern consisting of one percent sign the code stores before the start of its buffer.\<close>

definition match_re :: "string option \<Rightarrow> string option \<Rightarrow> bool option" where
  "match_re str re =
     (case (re, str) of
        (Some re, Some str) \<Rightarrow>
          if re = [] \<or> str = [] then Some False
          else if hd re = CHR ''%'' then
            (if last re = CHR ''%'' then
               (if length re = 1 then None
                else Some (strstr str (butlast (tl re)) \<noteq> None))
             else
               (case strstr str (tl re) of
                  Some tmp \<Rightarrow> Some (strcmp tmp (tl re) = 0)
                | None \<Rightarrow> Some False))
          else if last re = CHR ''%'' then
            Some (prefix_of (butlast re) str)
          else Some (strcmp str re = 0)
      | _ \<Rightarrow> Some False)"

text \<open>The strings that \<open>LIKE\<close> compares: the left one must be a property.\<close>

definition like_sides :: "'i operation \<Rightarrow> 'i prop_source \<Rightarrow> ('i ql_value \<times> 'i ql_value \<times> QLOpd) option" where
  "like_sides op source =
     (case (on_lhod op, on_rhod op) of
        (Some l, Some r) \<Rightarrow>
          do {
            (v, _) \<leftarrow> operand_prop l source;
            (v', type) \<leftarrow> other_value r source;
            Some (v, v', type)
          }
      | _ \<Rightarrow> None)"

definition like_with :: "(bool \<Rightarrow> bool) \<Rightarrow> 'i operation \<Rightarrow> 'i prop_source \<Rightarrow> bool option" where
  "like_with f op source =
     do {
       (sov, ov, type) \<leftarrow> like_sides op source;
       if type = QL_Chars \<and> \<not> is_zero sov \<and> \<not> is_zero ov then
         do {
           s \<leftarrow> deref_chars sov;
           p \<leftarrow> deref_chars ov;
           rc \<leftarrow> match_re (Some s) (Some p);
           Some (f rc)
         }
       else Some False
     }"

definition likeEvaluate :: "'i operation \<Rightarrow> 'i prop_source \<Rightarrow> bool option" where
  "likeEvaluate op source = like_with (\<lambda>rc. rc) op source"

definition notLikeEvaluate :: "'i operation \<Rightarrow> 'i prop_source \<Rightarrow> bool option" where
  "notLikeEvaluate op source = like_with (\<lambda>rc. \<not> rc) op source"

definition isNullEvaluate :: "'i operation \<Rightarrow> 'i prop_source \<Rightarrow> bool option" where
  "isNullEvaluate op source = Some True"

definition isNotNullEvaluate :: "'i operation \<Rightarrow> 'i prop_source \<Rightarrow> bool option" where
  "isNotNullEvaluate op source = Some False"

subsection \<open>Evaluation\<close>

text \<open>The lazy connectives of the language, on values that may be undefined.\<close>

definition lazy_and :: "bool option \<Rightarrow> bool option \<Rightarrow> bool option" where
  "lazy_and a b = (case a of None \<Rightarrow> None | Some x \<Rightarrow> if x then b else Some False)"

definition lazy_or :: "bool option \<Rightarrow> bool option \<Rightarrow> bool option" where
  "lazy_or a b = (case a of None \<Rightarrow> None | Some x \<Rightarrow> if x then Some True else b)"

text \<open>The connectives, on the values of their two sides; an absent right-hand side counts as true.\<close>

definition andEvaluate :: "bool \<Rightarrow> bool option \<Rightarrow> bool option \<Rightarrow> bool option" where
  "andEvaluate invert left right = (if invert then lazy_or left right else lazy_and left right)"

definition orEvaluate :: "bool \<Rightarrow> bool option \<Rightarrow> bool option \<Rightarrow> bool option" where
  "orEvaluate invert left right = (if invert then lazy_and left right else lazy_or left right)"

definition notEvaluate :: "bool option \<Rightarrow> bool option" where
  "notEvaluate left = left"

definition binEvaluate :: "bool option \<Rightarrow> bool option" where
  "binEvaluate left = left"

lemmas connective_evaluate [simp] = andEvaluate_def orEvaluate_def notEvaluate_def binEvaluate_def

fun evaluate :: "'i operation \<Rightarrow> 'i prop_source \<Rightarrow> bool option" where
  "evaluate (Operation ft lhon rhon lhod rhod opr iv) source =
     (let op = Operation ft lhon rhon lhod rhod opr iv;
          left = (case lhon of None \<Rightarrow> None | Some l \<Rightarrow> evaluate l source);
          right = (case rhon of None \<Rightarrow> Some True | Some r \<Rightarrow> evaluate r source)
      in case ft of
        qlAndOperationFt \<Rightarrow> andEvaluate iv left right
      | qlOrOperationFt \<Rightarrow> orEvaluate iv left right
      | qlNotOperationFt \<Rightarrow> notEvaluate left
      | qlBinOperationFt \<Rightarrow> binEvaluate left
      | qlIsNullOperationFt \<Rightarrow> isNullEvaluate op source
      | qlIsNotNullOperationFt \<Rightarrow> isNotNullEvaluate op source
      | qlLtOperationFt \<Rightarrow> ltEvaluate op source
      | qlGtOperationFt \<Rightarrow> gtEvaluate op source
      | qlLeOperationFt \<Rightarrow> leEvaluate op source
      | qlGeOperationFt \<Rightarrow> geEvaluate op source
      | qlEqOperationFt \<Rightarrow> eqEvaluate op source
      | qlNeOperationFt \<Rightarrow> neEvaluate op source
      | qlIsaOperationFt \<Rightarrow> isaEvaluate op source
      | qlLikeOperationFt \<Rightarrow> likeEvaluate op source
      | qlNotLikeOperationFt \<Rightarrow> notLikeEvaluate op source)"

text \<open>
  \<open>eliminateNots\<close>, which all tables share. The call made for the right-hand operation passes the
  left-hand one again, so it repeats the assignments of the first call, and the right-hand
  operation keeps its flags.
\<close>

fun relEliminateNots :: "'i operation \<Rightarrow> bool \<Rightarrow> 'i operation" where
  "relEliminateNots (Operation ft lhon rhon lhod rhod opr iv) invert =
     Operation ft (map_option (\<lambda>l. relEliminateNots l invert) lhon) rhon lhod rhod opr invert"

definition andOperation :: "'i operation \<Rightarrow> QLOp" where
  "andOperation op = (if on_invert op then QL_OR else QL_AND)"

definition orOperation :: "'i operation \<Rightarrow> QLOp" where
  "orOperation op = (if on_invert op then QL_AND else QL_OR)"

definition notOperation :: "'i operation \<Rightarrow> QLOp" where
  "notOperation op = (if on_invert op then QL_nop else QL_NOT)"

definition isNullOperation :: "'i operation \<Rightarrow> QLOp" where
  "isNullOperation op = (if on_invert op then QL_IS_NOT_NULL else QL_IS_NULL)"

definition isNotNullOperation :: "'i operation \<Rightarrow> QLOp" where
  "isNotNullOperation op = (if on_invert op then QL_IS_NULL else QL_IS_NOT_NULL)"

definition binOperation :: "'i operation \<Rightarrow> QLOp" where
  "binOperation op = (if on_invert op then QL_IS_NULL else QL_IS_NOT_NULL)"

definition ltOperation :: "'i operation \<Rightarrow> QLOp" where
  "ltOperation op = (if on_invert op then QL_GE else QL_LT)"

definition gtOperation :: "'i operation \<Rightarrow> QLOp" where
  "gtOperation op = (if on_invert op then QL_LE else QL_GT)"

definition leOperation :: "'i operation \<Rightarrow> QLOp" where
  "leOperation op = (if on_invert op then QL_GT else QL_LE)"

definition geOperation :: "'i operation \<Rightarrow> QLOp" where
  "geOperation op = (if on_invert op then QL_LT else QL_GE)"

definition eqOperation :: "'i operation \<Rightarrow> QLOp" where
  "eqOperation op = (if on_invert op then QL_NE else QL_EQ)"

definition neOperation :: "'i operation \<Rightarrow> QLOp" where
  "neOperation op = (if on_invert op then QL_EQ else QL_NE)"

definition isaOperation :: "'i operation \<Rightarrow> QLOp" where
  "isaOperation op = (if on_invert op then QL_NOT_ISA else QL_ISA)"

definition likeOperation :: "'i operation \<Rightarrow> QLOp" where
  "likeOperation op = QL_LIKE"

definition notLikeOperation :: "'i operation \<Rightarrow> QLOp" where
  "notLikeOperation op = QL_NOT_LIKE"

lemmas operation_defs = andOperation_def orOperation_def notOperation_def isNullOperation_def
  isNotNullOperation_def binOperation_def ltOperation_def gtOperation_def leOperation_def geOperation_def
  eqOperation_def neOperation_def isaOperation_def likeOperation_def notLikeOperation_def

text \<open>The dispatch through the function table.\<close>

definition operation_of :: "'i operation \<Rightarrow> QLOp" where
  "operation_of op =
     (case on_ft op of
        qlAndOperationFt \<Rightarrow> andOperation op
      | qlOrOperationFt \<Rightarrow> orOperation op
      | qlNotOperationFt \<Rightarrow> notOperation op
      | qlIsNullOperationFt \<Rightarrow> isNullOperation op
      | qlIsNotNullOperationFt \<Rightarrow> isNotNullOperation op
      | qlBinOperationFt \<Rightarrow> binOperation op
      | qlLtOperationFt \<Rightarrow> ltOperation op
      | qlGtOperationFt \<Rightarrow> gtOperation op
      | qlLeOperationFt \<Rightarrow> leOperation op
      | qlGeOperationFt \<Rightarrow> geOperation op
      | qlEqOperationFt \<Rightarrow> eqOperation op
      | qlNeOperationFt \<Rightarrow> neOperation op
      | qlIsaOperationFt \<Rightarrow> isaOperation op
      | qlLikeOperationFt \<Rightarrow> likeOperation op
      | qlNotLikeOperationFt \<Rightarrow> notLikeOperation op)"

definition isBinaryOperation :: "'i operation \<Rightarrow> bool" where
  "isBinaryOperation op = (on_ft op \<notin>
     {qlAndOperationFt, qlOrOperationFt, qlNotOperationFt, qlIsNullOperationFt, qlIsNotNullOperationFt})"

subsection \<open>Normal forms\<close>

text \<open>
  The lists of lists of predicates. Only the connectives and the wrapper of a predicate
  have the functions; the tables of the predicates themselves have NULL in their place.
\<close>

definition appendArray :: "'a list \<Rightarrow> 'a list \<Rightarrow> 'a list" where
  "appendArray t f = fold (\<lambda>d t. t @ [d]) f t"

definition product_lists :: "'a list list \<Rightarrow> 'a list list \<Rightarrow> 'a list list" where
  "product_lists lc rc = concat (map (\<lambda>lci. map (\<lambda>rcii. appendArray (appendArray [] lci) rcii) rc) lc)"

text \<open>The functions of the tables, on the form of the left side and, when there is one, of the right side.\<close>

definition andGetPredicateDisjunction :: "'a list list option \<Rightarrow> 'a list list option option \<Rightarrow> 'a list list option" where
  "andGetPredicateDisjunction left right =
     (case right of None \<Rightarrow> left | Some r \<Rightarrow> do { lc \<leftarrow> left; rc \<leftarrow> r; Some (product_lists lc rc) })"

definition andGetPredicateConjunction :: "'a list list option \<Rightarrow> 'a list list option option \<Rightarrow> 'a list list option" where
  "andGetPredicateConjunction left right =
     (case right of None \<Rightarrow> left | Some r \<Rightarrow> do { lc \<leftarrow> left; rc \<leftarrow> r; Some (appendArray lc rc) })"

definition orGetPredicatesDisjunction :: "'a list list option \<Rightarrow> 'a list list option option \<Rightarrow> 'a list list option" where
  "orGetPredicatesDisjunction left right =
     (case right of None \<Rightarrow> left | Some r \<Rightarrow> do { lc \<leftarrow> left; rc \<leftarrow> r; Some (appendArray lc rc) })"

definition orGetPredicateConjunction :: "'a list list option \<Rightarrow> 'a list list option option \<Rightarrow> 'a list list option" where
  "orGetPredicateConjunction left right =
     (case right of None \<Rightarrow> left | Some r \<Rightarrow> do { lc \<leftarrow> left; rc \<leftarrow> r; Some (product_lists lc rc) })"

definition notGetPredicateDisjunction :: "'a list list option \<Rightarrow> 'a list list option" where
  "notGetPredicateDisjunction left = left"

definition notGetPredicateConjunction :: "'a list list option \<Rightarrow> 'a list list option" where
  "notGetPredicateConjunction left = left"

definition binGetPredicateDisjunction :: "'a \<Rightarrow> 'a list list option" where
  "binGetPredicateDisjunction op = Some [[op]]"

definition binGetPredicateConjunction :: "'a \<Rightarrow> 'a list list option" where
  "binGetPredicateConjunction op = Some [[op]]"

lemmas normal_form_defs [simp] = andGetPredicateDisjunction_def andGetPredicateConjunction_def
  orGetPredicatesDisjunction_def orGetPredicateConjunction_def notGetPredicateDisjunction_def
  notGetPredicateConjunction_def binGetPredicateDisjunction_def binGetPredicateConjunction_def

fun getPredicateDisjunction :: "'i operation \<Rightarrow> 'i operation list list option" where
  "getPredicateDisjunction (Operation ft lhon rhon lhod rhod opr iv) =
     (let left = (case lhon of None \<Rightarrow> None | Some l \<Rightarrow> getPredicateDisjunction l);
          right = (case rhon of None \<Rightarrow> None | Some r \<Rightarrow> Some (getPredicateDisjunction r))
      in case ft of
        qlAndOperationFt \<Rightarrow> andGetPredicateDisjunction left right
      | qlOrOperationFt \<Rightarrow> orGetPredicatesDisjunction left right
      | qlNotOperationFt \<Rightarrow> notGetPredicateDisjunction left
      | qlBinOperationFt \<Rightarrow> binGetPredicateDisjunction (Operation ft lhon rhon lhod rhod opr iv)
      | _ \<Rightarrow> None)"

fun getPredicateConjunction :: "'i operation \<Rightarrow> 'i operation list list option" where
  "getPredicateConjunction (Operation ft lhon rhon lhod rhod opr iv) =
     (let left = (case lhon of None \<Rightarrow> None | Some l \<Rightarrow> getPredicateConjunction l);
          right = (case rhon of None \<Rightarrow> None | Some r \<Rightarrow> Some (getPredicateConjunction r))
      in case ft of
        qlAndOperationFt \<Rightarrow> andGetPredicateConjunction left right
      | qlOrOperationFt \<Rightarrow> orGetPredicateConjunction left right
      | qlNotOperationFt \<Rightarrow> notGetPredicateConjunction left
      | qlBinOperationFt \<Rightarrow> binGetPredicateConjunction (Operation ft lhon rhon lhod rhod opr iv)
      | _ \<Rightarrow> None)"

subsection \<open>Printing operations\<close>

definition opnToChars :: "string option \<Rightarrow> string \<Rightarrow> string \<Rightarrow> string option" where
  "opnToChars ls opr rn =
     (case ls of None \<Rightarrow> None
      | Some ls \<Rightarrow> into_buffer (32 + length ls + length rn) (''['' @ ls @ ''] '' @ opr @ '' ['' @ rn @ '']''))"

text \<open>The predicates print into a buffer of 512 bytes.\<close>

definition predicate_toString :: "(double \<Rightarrow> string) \<Rightarrow> 'i operation \<Rightarrow> string \<Rightarrow> string option" where
  "predicate_toString fmt_g op name =
     do {
       l \<leftarrow> (case on_lhod op of None \<Rightarrow> None | Some l \<Rightarrow> od_toString fmt_g l);
       r \<leftarrow> (case on_rhod op of None \<Rightarrow> Some ''--'' | Some r \<Rightarrow> od_toString fmt_g r);
       into_buffer 512 (l @ name @ r)
     }"

definition andToString :: "bool \<Rightarrow> string option \<Rightarrow> string option \<Rightarrow> string option" where
  "andToString invert ls rn = do { r \<leftarrow> rn; opnToChars ls (if invert then ''QL_OR'' else ''QL_AND'') r }"

definition orToString :: "bool \<Rightarrow> string option \<Rightarrow> string option \<Rightarrow> string option" where
  "orToString invert ls rn = do { r \<leftarrow> rn; opnToChars ls (if invert then ''QL_AND'' else ''QL_OR'') r }"

definition notToString :: "bool \<Rightarrow> string option \<Rightarrow> string option \<Rightarrow> string option" where
  "notToString invert ls rn = do { r \<leftarrow> rn; opnToChars ls (if invert then ''QL_nop'' else ''QL_NOT'') r }"

definition isNullToString :: "bool \<Rightarrow> string option \<Rightarrow> string option" where
  "isNullToString invert ls = opnToChars ls (if invert then ''QL_IS_NOT_NULL'' else ''QL_IS_NULL'') ''---''"

definition isNotNullToString :: "bool \<Rightarrow> string option \<Rightarrow> string option" where
  "isNotNullToString invert ls = opnToChars ls (if invert then ''QL_IS_NULL'' else ''QL_IS_NOT_NULL'') ''---''"

definition binToString :: "bool \<Rightarrow> string option \<Rightarrow> string option" where
  "binToString invert ls = opnToChars ls (if invert then ''QL_IS_NOT_TRUE'' else ''QL_IS_TRUE'') ''---''"

definition ltToString :: "(double \<Rightarrow> string) \<Rightarrow> 'i operation \<Rightarrow> string option" where
  "ltToString fmt_g op = predicate_toString fmt_g op (if on_invert op then '' QL_GE '' else '' QL_LT '')"

definition gtToString :: "(double \<Rightarrow> string) \<Rightarrow> 'i operation \<Rightarrow> string option" where
  "gtToString fmt_g op = predicate_toString fmt_g op (if on_invert op then '' QL_LE '' else '' QL_GT '')"

definition leToString :: "(double \<Rightarrow> string) \<Rightarrow> 'i operation \<Rightarrow> string option" where
  "leToString fmt_g op = predicate_toString fmt_g op (if on_invert op then '' QL_GT '' else '' QL_LE '')"

definition geToString :: "(double \<Rightarrow> string) \<Rightarrow> 'i operation \<Rightarrow> string option" where
  "geToString fmt_g op = predicate_toString fmt_g op (if on_invert op then '' QL_LT '' else '' QL_GE '')"

definition eqToString :: "(double \<Rightarrow> string) \<Rightarrow> 'i operation \<Rightarrow> string option" where
  "eqToString fmt_g op = predicate_toString fmt_g op (if on_invert op then '' QL_NE '' else '' QL_EQ '')"

definition neToString :: "(double \<Rightarrow> string) \<Rightarrow> 'i operation \<Rightarrow> string option" where
  "neToString fmt_g op = predicate_toString fmt_g op (if on_invert op then '' QL_EQ '' else '' QL_NE '')"

definition isaToString :: "(double \<Rightarrow> string) \<Rightarrow> 'i operation \<Rightarrow> string option" where
  "isaToString fmt_g op = predicate_toString fmt_g op (if on_invert op then '' QL_NOT_ISA '' else '' QL_ISA '')"

definition likeToString :: "(double \<Rightarrow> string) \<Rightarrow> 'i operation \<Rightarrow> string option" where
  "likeToString fmt_g op = predicate_toString fmt_g op ''QL_LIKE ''"

definition notLikeToString :: "(double \<Rightarrow> string) \<Rightarrow> 'i operation \<Rightarrow> string option" where
  "notLikeToString fmt_g op = predicate_toString fmt_g op ''QL_NOT_LIKE ''"

lemmas toString_defs = andToString_def orToString_def notToString_def isNullToString_def
  isNotNullToString_def binToString_def ltToString_def gtToString_def leToString_def geToString_def
  eqToString_def neToString_def isaToString_def likeToString_def notLikeToString_def

fun on_toString :: "(double \<Rightarrow> string) \<Rightarrow> 'i operation \<Rightarrow> string option" where
  "on_toString fmt_g (Operation ft lhon rhon lhod rhod opr iv) =
     (let op = Operation ft lhon rhon lhod rhod opr iv;
          ls = (case lhon of None \<Rightarrow> Some ''?l?'' | Some l \<Rightarrow> on_toString fmt_g l);
          rn = (case rhon of None \<Rightarrow> Some ''?r?'' | Some r \<Rightarrow> on_toString fmt_g r)
      in case ft of
        qlAndOperationFt \<Rightarrow> andToString iv ls rn
      | qlOrOperationFt \<Rightarrow> orToString iv ls rn
      | qlNotOperationFt \<Rightarrow> notToString iv ls rn
      | qlIsNullOperationFt \<Rightarrow> isNullToString iv ls
      | qlIsNotNullOperationFt \<Rightarrow> isNotNullToString iv ls
      | qlBinOperationFt \<Rightarrow> binToString iv ls
      | qlLtOperationFt \<Rightarrow> ltToString fmt_g op
      | qlGtOperationFt \<Rightarrow> gtToString fmt_g op
      | qlLeOperationFt \<Rightarrow> leToString fmt_g op
      | qlGeOperationFt \<Rightarrow> geToString fmt_g op
      | qlEqOperationFt \<Rightarrow> eqToString fmt_g op
      | qlNeOperationFt \<Rightarrow> neToString fmt_g op
      | qlIsaOperationFt \<Rightarrow> isaToString fmt_g op
      | qlLikeOperationFt \<Rightarrow> likeToString fmt_g op
      | qlNotLikeOperationFt \<Rightarrow> notLikeToString fmt_g op)"

section \<open>Select expressions\<close>

text \<open>\<open>evaluate\<close>, \<open>getDOC\<close> and \<open>getCOD\<close> of a select expression, on its optional condition.\<close>

definition eft_evaluate :: "'i operation option \<Rightarrow> 'i prop_source \<Rightarrow> bool option" where
  "eft_evaluate condition src = (case condition of None \<Rightarrow> Some True | Some w \<Rightarrow> evaluate w src)"

definition eft_getDOC :: "'i operation option \<Rightarrow> 'i operation list list option option" where
  "eft_getDOC condition =
     (case condition of None \<Rightarrow> Some None | Some w \<Rightarrow> map_option Some (getPredicateDisjunction w))"

definition eft_getCOD :: "'i operation option \<Rightarrow> 'i operation list list option option" where
  "eft_getCOD condition =
     (case condition of None \<Rightarrow> Some None | Some w \<Rightarrow> map_option Some (getPredicateConjunction w))"

section \<open>Conditions as the parser builds them\<close>

inductive condition :: "'i operation \<Rightarrow> bool" where
  condition_bin: "condition (newBinaryOperation p)"
| condition_and: "condition a \<Longrightarrow> condition b \<Longrightarrow> condition (newAndOperation a b)"
| condition_or: "condition a \<Longrightarrow> condition b \<Longrightarrow> condition (newOrOperation a b)"
| condition_not: "condition a \<Longrightarrow> condition (newNotOperation a)"

text \<open>The predicates of a condition, and the condition without its negations.\<close>

fun leaves :: "'i operation \<Rightarrow> 'i operation list" where
  "leaves (Operation ft lhon rhon lhod rhod opr iv) =
     (if ft = qlBinOperationFt then [Operation ft lhon rhon lhod rhod opr iv]
      else (case lhon of None \<Rightarrow> [] | Some l \<Rightarrow> leaves l) @ (case rhon of None \<Rightarrow> [] | Some r \<Rightarrow> leaves r))"

fun strip_nots :: "'i operation \<Rightarrow> 'i operation" where
  "strip_nots (Operation ft lhon rhon lhod rhod opr iv) =
     (if ft = qlNotOperationFt then (case lhon of None \<Rightarrow> Operation ft lhon rhon lhod rhod opr iv | Some l \<Rightarrow> strip_nots l)
      else if ft = qlBinOperationFt then Operation ft lhon rhon lhod rhod opr iv
      else Operation ft (map_option strip_nots lhon) (map_option strip_nots rhon) lhod rhod opr iv)"

lemma appendArray_append [simp]: "appendArray t f = t @ f"
  by (induction f arbitrary: t) (simp_all add: appendArray_def)

lemma connective_simps [simp]:
  "evaluate (newAndOperation a b) src = lazy_and (evaluate a src) (evaluate b src)"
  "evaluate (newOrOperation a b) src = lazy_or (evaluate a src) (evaluate b src)"
  "evaluate (newNotOperation a) src = evaluate a src"
  "leaves (newAndOperation a b) = leaves a @ leaves b" "leaves (newOrOperation a b) = leaves a @ leaves b"
  "leaves (newNotOperation a) = leaves a" "leaves (newBinaryOperation p) = [newBinaryOperation p]"
  "strip_nots (newAndOperation a b) = newAndOperation (strip_nots a) (strip_nots b)"
  "strip_nots (newOrOperation a b) = newOrOperation (strip_nots a) (strip_nots b)"
  "strip_nots (newNotOperation a) = strip_nots a" "strip_nots (newBinaryOperation p) = newBinaryOperation p"
  by (simp_all add: newAndOperation_def newOrOperation_def newNotOperation_def newBinaryOperation_def)

lemma normal_form_simps [simp]:
  "getPredicateDisjunction (newAndOperation a b) =
     Option.bind (getPredicateDisjunction a) (\<lambda>x. Option.bind (getPredicateDisjunction b) (\<lambda>y. Some (product_lists x y)))"
  "getPredicateDisjunction (newOrOperation a b) =
     Option.bind (getPredicateDisjunction a) (\<lambda>x. Option.bind (getPredicateDisjunction b) (\<lambda>y. Some (x @ y)))"
  "getPredicateDisjunction (newNotOperation a) = getPredicateDisjunction a"
  "getPredicateDisjunction (newBinaryOperation p) = Some [[newBinaryOperation p]]"
  "getPredicateConjunction (newAndOperation a b) =
     Option.bind (getPredicateConjunction a) (\<lambda>x. Option.bind (getPredicateConjunction b) (\<lambda>y. Some (x @ y)))"
  "getPredicateConjunction (newOrOperation a b) =
     Option.bind (getPredicateConjunction a) (\<lambda>x. Option.bind (getPredicateConjunction b) (\<lambda>y. Some (product_lists x y)))"
  "getPredicateConjunction (newNotOperation a) = getPredicateConjunction a"
  "getPredicateConjunction (newBinaryOperation p) = Some [[newBinaryOperation p]]"
  by (simp_all add: newAndOperation_def newOrOperation_def newNotOperation_def newBinaryOperation_def)

lemma product_lists_all:
  "(\<exists>c\<in>set (product_lists x y). \<forall>p\<in>set c. P p) \<longleftrightarrow>
   (\<exists>c\<in>set x. \<forall>p\<in>set c. P p) \<and> (\<exists>c\<in>set y. \<forall>p\<in>set c. P p)"
  by (simp add: product_lists_def ball_Un)

lemma product_lists_ex:
  "(\<forall>c\<in>set (product_lists x y). \<exists>p\<in>set c. P p) \<longleftrightarrow>
   (\<forall>c\<in>set x. \<exists>p\<in>set c. P p) \<or> (\<forall>c\<in>set y. \<exists>p\<in>set c. P p)"
  by (simp add: product_lists_def bex_Un)

lemma evaluate_total:
  "condition w \<Longrightarrow> (\<And>p. p \<in> set (leaves w) \<Longrightarrow> evaluate p src \<noteq> None) \<Longrightarrow> \<exists>b. evaluate w src = Some b"
proof (induction rule: condition.induct)
  case (condition_and a b)
  then have "\<exists>x. evaluate a src = Some x" "\<exists>y. evaluate b src = Some y" by simp_all
  then show ?case by (auto simp: lazy_and_def)
next
  case (condition_or a b)
  then have "\<exists>x. evaluate a src = Some x" "\<exists>y. evaluate b src = Some y" by simp_all
  then show ?case by (auto simp: lazy_or_def)
qed simp_all

lemma lazy_some [simp]:
  "lazy_and (Some a) (Some b) = Some (a \<and> b)" "lazy_or (Some a) (Some b) = Some (a \<or> b)"
  by (auto simp: lazy_and_def lazy_or_def)

lemma disjunction_ok:
  "condition w \<Longrightarrow> (\<And>p. p \<in> set (leaves w) \<Longrightarrow> evaluate p src \<noteq> None) \<Longrightarrow>
   \<exists>d. getPredicateDisjunction w = Some d \<and> (\<Union>c\<in>set d. set c) \<subseteq> set (leaves w) \<and>
     evaluate w src = Some (\<exists>c\<in>set d. \<forall>p\<in>set c. evaluate p src = Some True)"
proof (induction rule: condition.induct)
  case (condition_bin p)
  obtain b where b: "evaluate (newBinaryOperation p) src = Some b" using condition_bin by fastforce
  then show ?case by auto
next
  case (condition_and a b)
  obtain x y where xy: "getPredicateDisjunction a = Some x" "(\<Union>c\<in>set x. set c) \<subseteq> set (leaves a)"
     "evaluate a src = Some (\<exists>c\<in>set x. \<forall>p\<in>set c. evaluate p src = Some True)"
     "getPredicateDisjunction b = Some y" "(\<Union>c\<in>set y. set c) \<subseteq> set (leaves b)"
     "evaluate b src = Some (\<exists>c\<in>set y. \<forall>p\<in>set c. evaluate p src = Some True)"
    using condition_and.IH condition_and.prems by auto
  moreover have "(\<Union>c\<in>set (product_lists x y). set c) \<subseteq> set (leaves a) \<union> set (leaves b)"
    using xy(2,5) by (auto simp: product_lists_def)
  ultimately show ?case by (simp add: product_lists_all)
next
  case (condition_or a b)
  obtain x y where xy: "getPredicateDisjunction a = Some x" "(\<Union>c\<in>set x. set c) \<subseteq> set (leaves a)"
     "evaluate a src = Some (\<exists>c\<in>set x. \<forall>p\<in>set c. evaluate p src = Some True)"
     "getPredicateDisjunction b = Some y" "(\<Union>c\<in>set y. set c) \<subseteq> set (leaves b)"
     "evaluate b src = Some (\<exists>c\<in>set y. \<forall>p\<in>set c. evaluate p src = Some True)"
    using condition_or.IH condition_or.prems by auto
  then show ?case by (auto simp: bex_Un)
qed simp_all

lemma conjunction_ok:
  "condition w \<Longrightarrow> (\<And>p. p \<in> set (leaves w) \<Longrightarrow> evaluate p src \<noteq> None) \<Longrightarrow>
   \<exists>d. getPredicateConjunction w = Some d \<and> (\<Union>c\<in>set d. set c) \<subseteq> set (leaves w) \<and>
     evaluate w src = Some (\<forall>c\<in>set d. \<exists>p\<in>set c. evaluate p src = Some True)"
proof (induction rule: condition.induct)
  case (condition_bin p)
  obtain b where b: "evaluate (newBinaryOperation p) src = Some b" using condition_bin by fastforce
  then show ?case by auto
next
  case (condition_and a b)
  obtain x y where xy: "getPredicateConjunction a = Some x" "(\<Union>c\<in>set x. set c) \<subseteq> set (leaves a)"
     "evaluate a src = Some (\<forall>c\<in>set x. \<exists>p\<in>set c. evaluate p src = Some True)"
     "getPredicateConjunction b = Some y" "(\<Union>c\<in>set y. set c) \<subseteq> set (leaves b)"
     "evaluate b src = Some (\<forall>c\<in>set y. \<exists>p\<in>set c. evaluate p src = Some True)"
    using condition_and.IH condition_and.prems by auto
  then show ?case by (auto simp: ball_Un)
next
  case (condition_or a b)
  obtain x y where xy: "getPredicateConjunction a = Some x" "(\<Union>c\<in>set x. set c) \<subseteq> set (leaves a)"
     "evaluate a src = Some (\<forall>c\<in>set x. \<exists>p\<in>set c. evaluate p src = Some True)"
     "getPredicateConjunction b = Some y" "(\<Union>c\<in>set y. set c) \<subseteq> set (leaves b)"
     "evaluate b src = Some (\<forall>c\<in>set y. \<exists>p\<in>set c. evaluate p src = Some True)"
    using condition_or.IH condition_or.prems by auto
  moreover have "(\<Union>c\<in>set (product_lists x y). set c) \<subseteq> set (leaves a) \<union> set (leaves b)"
    using xy(2,5) by (auto simp: product_lists_def)
  ultimately show ?case by (simp add: product_lists_ex)
qed simp_all

lemma strip_nots_evaluate: "condition w \<Longrightarrow> evaluate (strip_nots w) src = evaluate w src"
  by (induction rule: condition.induct) simp_all

lemma strip_nots_condition: "condition w \<Longrightarrow> condition (strip_nots w) \<and> getPredicateDisjunction (strip_nots w) = getPredicateDisjunction w"
  by (induction rule: condition.induct) (auto intro: condition.intros)

section \<open>Properties\<close>

text \<open>The source of the witnesses: one instance with the given properties.\<close>

definition sample_source :: "(string \<Rightarrow> unit cmpi_data option) \<Rightarrow> unit prop_source" where
  "sample_source props =
     \<lparr>src_data = (), src_sns = ''root/cimv2'', src_getValue = queryGetValue (\<lambda>_. props), src_className = (\<lambda>_. ''CIM_A''),
      src_isChild = (\<lambda>_ _ _. False), src_instanceCompare = (\<lambda>_ _. 0)\<rparr>"

definition prop_named :: "string \<Rightarrow> 'i operand" where
  "prop_named n = newPropQueryOperand [\<lparr>className = None, propName = n, index = - 99999\<rparr>]"

text \<open>C10. The predicate normal forms of a condition, as \<open>getDOC\<close> and \<open>getCOD\<close> hand them to providers: for every
  condition the parser builds whose predicates all evaluate, both forms exist, consist of predicates of the
  condition, and are equivalent to it: the condition evaluates to true if and only if all predicates of some member of the
  disjunction of conjunctions do, and if and only if some predicate of every member of the conjunction of
  disjunctions does.\<close>

theorem normal_forms_correct:
  assumes "condition w" "\<And>p. p \<in> set (leaves w) \<Longrightarrow> evaluate p src \<noteq> None"
  shows "\<exists>d c. eft_getDOC (Some w) = Some (Some d) \<and> eft_getCOD (Some w) = Some (Some c) \<and>
     (\<Union>x\<in>set d. set x) \<subseteq> set (leaves w) \<and> (\<Union>x\<in>set c. set x) \<subseteq> set (leaves w) \<and>
     eft_evaluate (Some w) src = Some (\<exists>x\<in>set d. \<forall>p\<in>set x. evaluate p src = Some True) \<and>
     eft_evaluate (Some w) src = Some (\<forall>x\<in>set c. \<exists>p\<in>set x. evaluate p src = Some True)"
  using disjunction_ok [OF assms] conjunction_ok [OF assms]
  unfolding eft_getDOC_def eft_getCOD_def eft_evaluate_def by fastforce

theorem normal_forms_correct_witness:
  "\<exists>d. eft_getDOC (Some (newAndOperation (newBinaryOperation (newEqOperation (newIntQueryOperand 1) (newIntQueryOperand 1)))
        (newBinaryOperation (newLtOperation (newIntQueryOperand 5) (newIntQueryOperand 3))))) = Some (Some d) \<and>
     Some False = Some (\<exists>x\<in>set d. \<forall>p\<in>set x. evaluate p (sample_source (\<lambda>_. None)) = Some True)"
proof -
  let ?p = "newBinaryOperation (newEqOperation (newIntQueryOperand 1) (newIntQueryOperand 1)) :: unit operation"
  let ?q = "newBinaryOperation (newLtOperation (newIntQueryOperand 5) (newIntQueryOperand 3)) :: unit operation"
  have ev: "evaluate ?p (sample_source (\<lambda>_. None)) = Some True" "evaluate ?q (sample_source (\<lambda>_. None)) = Some False"
    by code_simp+
  have "condition (newAndOperation ?p ?q)" by (intro condition.intros)
  moreover have "evaluate p (sample_source (\<lambda>_. None)) \<noteq> None" if "p \<in> set (leaves (newAndOperation ?p ?q))" for p
    using that ev by auto
  ultimately obtain d where "eft_getDOC (Some (newAndOperation ?p ?q)) = Some (Some d)"
    "eft_evaluate (Some (newAndOperation ?p ?q)) (sample_source (\<lambda>_. None)) =
       Some (\<exists>x\<in>set d. \<forall>p\<in>set x. evaluate p (sample_source (\<lambda>_. None)) = Some True)"
    using normal_forms_correct [of "newAndOperation ?p ?q" "sample_source (\<lambda>_. None)"] by blast
  moreover have "eft_evaluate (Some (newAndOperation ?p ?q)) (sample_source (\<lambda>_. None)) = Some False"
    using ev by (simp add: eft_evaluate_def)
  ultimately show ?thesis by auto
qed

lemma negation_has_no_effect_clauses:
  assumes "condition w"
  shows "eft_evaluate (Some (strip_nots w)) src = eft_evaluate (Some w) src"
    "eft_getDOC (Some (strip_nots w)) = eft_getDOC (Some w)"
    "eft_evaluate (Some (newNotOperation w)) src = eft_evaluate (Some w) src"
  using strip_nots_evaluate [OF assms] strip_nots_condition [OF assms]
  by (simp_all add: eft_evaluate_def eft_getDOC_def)

text \<open>A negation in a condition has no effect. The value of a condition and its normal form are those of the
  condition with every \<open>NOT\<close> removed: the operation \<open>newNotOperation\<close> evaluates its argument
  and nothing calls \<open>eliminateNots\<close> for it. In particular a condition and its negation are true of the
  same instances.\<close>

lemma negation_has_no_effect:
  assumes "condition w"
  shows "eft_evaluate (Some (strip_nots w)) src = eft_evaluate (Some w) src \<and>
   eft_getDOC (Some (strip_nots w)) = eft_getDOC (Some w) \<and>
   eft_evaluate (Some (newNotOperation w)) src = eft_evaluate (Some w) src"
  by ((rule negation_has_no_effect_clauses [OF assms]; assumption) | rule conjI | rule impI)+

lemma negation_has_no_effect_example:
  "eft_evaluate (Some (newNotOperation (newBinaryOperation (newEqOperation (prop_named ''a'') (newIntQueryOperand 1)))))
     (sample_source [''a'' \<mapsto> (CMPI_sint64, C_int64 1)]) = Some True"
proof -
  let ?p = "newBinaryOperation (newEqOperation (prop_named ''a'') (newIntQueryOperand 1)) :: unit operation"
  have "eft_evaluate (Some ?p) (sample_source [''a'' \<mapsto> (CMPI_sint64, C_int64 1)]) = Some True"
    by code_simp
  then show ?thesis
    using negation_has_no_effect [THEN conjunct2, THEN conjunct2, rule_format, OF condition_bin, of "newEqOperation (prop_named ''a'') (newIntQueryOperand 1)"] by metis
qed

text \<open>The relation a comparison operator stands for, on the sign of the comparison.\<close>

fun relation :: "QLOp \<Rightarrow> int \<Rightarrow> bool" where
  "relation QL_LT c = (c < 0)" | "relation QL_LE c = (c \<le> 0)" | "relation QL_GT c = (c > 0)"
| "relation QL_GE c = (c \<ge> 0)" | "relation QL_EQ c = (c = 0)" | "relation QL_NE c = (c \<noteq> 0)"
| "relation QL_ISA c = (c = 0)" | "relation QL_NOT_ISA c = (c \<noteq> 0)" | "relation _ c = False"

definition comparison_fts :: "operation_ft set" where
  "comparison_fts = {qlLtOperationFt, qlGtOperationFt, qlLeOperationFt, qlGeOperationFt, qlEqOperationFt,
     qlNeOperationFt, qlIsaOperationFt}"

lemmas predicate_evaluate = ltEvaluate_def gtEvaluate_def leEvaluate_def geEvaluate_def eqEvaluate_def
  neEvaluate_def isaEvaluate_def compare_sides_def operation_of_def
  comparison_fts_def operation_defs

lemma comparison_predicates_correct_clauses:
  "ft \<in> comparison_fts \<Longrightarrow> evaluate (relEliminateNots (new_predicate ft opr l r) b) src =
     map_option (relation (operation_of (relEliminateNots (new_predicate ft opr l r) b))) (od_compare l r src)"
  "ft \<in> comparison_fts \<Longrightarrow> evaluate (relEliminateNots (new_predicate ft opr l r) True) src =
     map_option Not (evaluate (new_predicate ft opr l r) src)"
  "ft \<in> {qlLikeOperationFt, qlNotLikeOperationFt} \<Longrightarrow>
     evaluate (relEliminateNots (new_predicate ft opr l r) b) src = evaluate (new_predicate ft opr l r) src"
  "evaluate (relEliminateNots (newIsNullOperation l) b) src = Some True \<and>
     evaluate (relEliminateNots (newIsNotNullOperation l) b) src = Some False"
proof -
  show "evaluate (relEliminateNots (new_predicate ft opr l r) b) src =
     map_option (relation (operation_of (relEliminateNots (new_predicate ft opr l r) b))) (od_compare l r src)"
    if "ft \<in> comparison_fts"
    using that by (cases b; cases "od_compare l r src") (auto simp: new_predicate_def predicate_evaluate)
  show "evaluate (relEliminateNots (new_predicate ft opr l r) True) src =
     map_option Not (evaluate (new_predicate ft opr l r) src)" if "ft \<in> comparison_fts"
    using that by (cases "od_compare l r src") (auto simp: new_predicate_def predicate_evaluate)
  show "evaluate (relEliminateNots (new_predicate ft opr l r) b) src = evaluate (new_predicate ft opr l r) src"
    if "ft \<in> {qlLikeOperationFt, qlNotLikeOperationFt}"
    using that by (auto simp: new_predicate_def likeEvaluate_def notLikeEvaluate_def like_with_def like_sides_def)
  show "evaluate (relEliminateNots (newIsNullOperation l) b) src = Some True \<and>
     evaluate (relEliminateNots (newIsNotNullOperation l) b) src = Some False"
    by (simp add: newIsNullOperation_def newIsNotNullOperation_def isNullEvaluate_def isNotNullEvaluate_def)
qed

text \<open>C11. The comparison predicates: whatever the flag set by \<open>eliminateNots\<close>, a comparison evaluates to the relation that
  \<open>operation\<close> reports for it, applied to the result of comparing its operands, and it is undefined only when
  that comparison is. Setting the flag turns a comparison into its negation. \<open>LIKE\<close>, \<open>NOT LIKE\<close>
  and the tests for NULL ignore the flag.\<close>

theorem comparison_predicates_correct:
  "(ft \<in> comparison_fts \<longrightarrow> evaluate (relEliminateNots (new_predicate ft opr l r) b) src =
     map_option (relation (operation_of (relEliminateNots (new_predicate ft opr l r) b))) (od_compare l r src)) \<and>
   (ft \<in> comparison_fts \<longrightarrow> evaluate (relEliminateNots (new_predicate ft opr l r) True) src =
     map_option Not (evaluate (new_predicate ft opr l r) src)) \<and>
   (ft \<in> {qlLikeOperationFt, qlNotLikeOperationFt} \<longrightarrow> evaluate (relEliminateNots (new_predicate ft opr l r) b) src = evaluate (new_predicate ft opr l r) src) \<and>
   (evaluate (relEliminateNots (newIsNullOperation l) b) src = Some True \<and>
     evaluate (relEliminateNots (newIsNotNullOperation l) b) src = Some False)"
  by ((rule comparison_predicates_correct_clauses; assumption) | rule conjI | rule impI)+

theorem comparison_predicates_correct_witness:
  "evaluate (relEliminateNots (newLtOperation (newIntQueryOperand 3) (newIntQueryOperand 5)) True) (sample_source (\<lambda>_. None))
     = Some False \<and>
   evaluate (relEliminateNots (new_predicate qlLtOperationFt QL_LT (newIntQueryOperand 3) (newIntQueryOperand 5)) True)
     (sample_source (\<lambda>_. None)) = map_option (relation QL_GE) (Some (- 2))"
proof -
  have "od_compare (newIntQueryOperand 3) (newIntQueryOperand 5) (sample_source (\<lambda>_. None)) = Some (- 2)" by code_simp
  moreover have "operation_of (relEliminateNots (new_predicate qlLtOperationFt QL_LT (newIntQueryOperand 3 :: unit operand)
      (newIntQueryOperand 5)) True) = QL_GE" by code_simp
  moreover have "qlLtOperationFt \<in> comparison_fts" by (simp add: comparison_fts_def)
  ultimately show ?thesis
    using comparison_predicates_correct [THEN conjunct1, rule_format, of qlLtOperationFt QL_LT "newIntQueryOperand 3" "newIntQueryOperand 5" True
        "sample_source (\<lambda>_. None)"] by (simp add: newLtOperation_def)
qed

lemma to_int_signed: "to_int w = signed_take_bit 31 (sint w)"
  unfolding to_int_def
  by (transfer) (simp add: signed_take_bit_take_bit take_bit_signed_take_bit signed_take_bit_signed_take_bit min_def)

lemma int_truncation:
  "signed_take_bit 31 i = (0::int) \<longleftrightarrow> 2 ^ 32 dvd i"
  "- (2 ^ 31) \<le> i \<Longrightarrow> i < 2 ^ 31 \<Longrightarrow> signed_take_bit 31 i = (i::int)"
  using signed_take_bit_eq_iff_take_bit_eq [of 31 i 0]
  by (simp_all add: take_bit_eq_0_iff signed_take_bit_int_eq_self)

lemma long_sub_ok:
  assumes "- (2 ^ 63) \<le> sint a - sint b" "sint a - sint b < 2 ^ 63"
  shows "\<exists>d. long_sub a b = Some d \<and> sint d = sint a - sint b"
  using assms by (simp add: long_sub_def sint_word_ariths signed_take_bit_int_eq_self)

lemma integer_comparison_clauses:
  assumes "- (2 ^ 63) \<le> sint a - sint b" "sint a - sint b < 2 ^ 63"
  shows "\<exists>c. od_compare (newIntQueryOperand a) (newIntQueryOperand b) src = Some c \<and>
      (- (2 ^ 31) \<le> sint a - sint b \<and> sint a - sint b < 2 ^ 31 \<longrightarrow> c = sint a - sint b) \<and>
      (c = 0 \<longleftrightarrow> 2 ^ 32 dvd sint a - sint b)"
    "src_getValue src (src_data src) n = Some (V_sint64 a, QL_Integer) \<Longrightarrow>
       od_compare (prop_named n) (newIntQueryOperand b) src =
       od_compare (newIntQueryOperand a) (newIntQueryOperand b) src"
proof -
  obtain d where d: "long_sub a b = Some d" "sint d = sint a - sint b" using long_sub_ok [OF assms] by blast
  have "od_compare (newIntQueryOperand a) (newIntQueryOperand b) src = Some (to_int d)"
    using d(1) by (simp add: od_compare_def newIntQueryOperand_def new_operand_def intCompare_def other_value_def)
  then show "\<exists>c. od_compare (newIntQueryOperand a) (newIntQueryOperand b) src = Some c \<and>
      (- (2 ^ 31) \<le> sint a - sint b \<and> sint a - sint b < 2 ^ 31 \<longrightarrow> c = sint a - sint b) \<and>
      (c = 0 \<longleftrightarrow> 2 ^ 32 dvd sint a - sint b)"
    using int_truncation [of "sint d"] d(2) by (auto simp: to_int_signed)
  show "od_compare (prop_named n) (newIntQueryOperand b) src =
       od_compare (newIntQueryOperand a) (newIntQueryOperand b) src"
    if "src_getValue src (src_data src) n = Some (V_sint64 a, QL_Integer)"
    using that
    by (simp add: prop_named_def newPropQueryOperand_def new_operand_def od_compare_def propCompare_def operand_prop_def
        newIntQueryOperand_def intCompare_def)
qed

text \<open>C12. Comparing integers: when the 64-bit difference does not overflow, the comparison of a literal with a literal, or of
  a signed integer property with a literal, is that difference reduced to 32 bits. So it has the right sign
  when the two are less than \<open>2 ^ 31\<close> apart, and reports equality exactly when they differ by a multiple of
  \<open>2 ^ 32\<close>: integers that far apart are wrongly found equal.\<close>

theorem integer_comparison:
  assumes "- (2 ^ 63) \<le> sint a - sint b" "sint a - sint b < 2 ^ 63"
  shows "(\<exists>c. od_compare (newIntQueryOperand a) (newIntQueryOperand b) src = Some c \<and>
      (- (2 ^ 31) \<le> sint a - sint b \<and> sint a - sint b < 2 ^ 31 \<longrightarrow> c = sint a - sint b) \<and>
      (c = 0 \<longleftrightarrow> 2 ^ 32 dvd sint a - sint b)) \<and>
   (src_getValue src (src_data src) n = Some (V_sint64 a, QL_Integer) \<longrightarrow> od_compare (prop_named n) (newIntQueryOperand b) src =
       od_compare (newIntQueryOperand a) (newIntQueryOperand b) src)"
  by ((rule integer_comparison_clauses [OF assms]; assumption) | rule conjI | rule impI)+

theorem integer_comparison_witness:
  "\<exists>c. od_compare (newIntQueryOperand 0x100000000) (newIntQueryOperand 0) (sample_source (\<lambda>_. None)) = Some c \<and> c = 0"
proof -
  have "sint (0x100000000 :: 64 word) = 2 ^ 32" by code_simp
  then show ?thesis using integer_comparison [THEN conjunct1, rule_format, of "0x100000000" 0 "sample_source (\<lambda>_. None)"] by auto
qed

text \<open>Comparing reals and characters.\<close>

lemma prop_named_value [simp]:
  "operand_prop (prop_named n) src = src_getValue src (src_data src) n" "od_type (prop_named n) = QL_PropertyName"
  "od_ft (prop_named n) = qLpropQueryOperandFt" "od_val (prop_named n) = V_prop [\<lparr>className = None, propName = n, index = - 99999\<rparr>]"
  by (simp_all add: prop_named_def newPropQueryOperand_def new_operand_def operand_prop_def)

lemma real_and_character_comparison_clauses:
  "src_getValue src (src_data src) n = Some (V_real64 x, QL_Double) \<Longrightarrow>
     od_compare (prop_named n) (newDoubleQueryOperand y) src = Some (dbl_sub_sign x y) \<and>
     od_compare (newDoubleQueryOperand y) (prop_named n) src = None"
  "src_getValue src (src_data src) n = Some (V_chars (Some s), QL_Chars) \<Longrightarrow>
     od_compare (prop_named n) (newCharsQueryOperand (Some t)) src = Some (strcmp s t) \<and>
     od_compare (newCharsQueryOperand (Some t)) (prop_named n) src = Some (strcmp t s)"
  "src_getValue src (src_data src) n = Some (V_char16 c, QL_Char) \<Longrightarrow> c \<noteq> 0 \<Longrightarrow>
     od_compare (prop_named n) (newCharsQueryOperand (Some t)) src = None"
  by (simp_all add: od_compare_def propCompare_def doubleCompare_def charsCompare_def newDoubleQueryOperand_def
      newCharsQueryOperand_def new_operand_def other_value_def)



text \<open>String matching.\<close>

lemma prefix_of_iff: "prefix_of p s \<longleftrightarrow> (\<exists>t. s = p @ t)"
  by (induction p s rule: prefix_of.induct) auto

lemma strstr_Some: "strstr s p = Some t \<longleftrightarrow>
    (\<exists>u. s = u @ t \<and> prefix_of p t \<and> (\<forall>u' t'. s = u' @ t' \<and> prefix_of p t' \<longrightarrow> length u \<le> length u'))"
proof (induction s)
  case Nil
  then show ?case by (auto simp: strstr.simps)
next
  case (Cons c s)
  show ?case
  proof (cases "prefix_of p (c # s)")
    case True
    then have "strstr (c # s) p = Some (c # s)" by (simp add: strstr.simps)
    moreover have "u = []" if "\<forall>u' t'. c # s = u' @ t' \<and> prefix_of p t' \<longrightarrow> length u \<le> length u'" for u :: string
      using that True by (metis append_Nil le_zero_eq length_0_conv)
    ultimately show ?thesis using True by fastforce
  next
    case False
    then have "strstr (c # s) p = strstr s p" by (subst strstr.simps) simp
    moreover have "(\<exists>u. c # s = u @ t \<and> prefix_of p t \<and> (\<forall>u' t'. c # s = u' @ t' \<and> prefix_of p t' \<longrightarrow> length u \<le> length u'))
      \<longleftrightarrow> (\<exists>u. s = u @ t \<and> prefix_of p t \<and> (\<forall>u' t'. s = u' @ t' \<and> prefix_of p t' \<longrightarrow> length u \<le> length u'))" (is "?L = ?R")
    proof
      assume ?L
      then obtain u where u: "c # s = u @ t" "prefix_of p t"
        "\<And>u' t'. c # s = u' @ t' \<Longrightarrow> prefix_of p t' \<Longrightarrow> length u \<le> length u'" by blast
      then obtain v where v: "u = c # v" "s = v @ t" using False by (cases u) auto
      moreover have "length v \<le> length u'" if "s = u' @ t'" "prefix_of p t'" for u' t'
        using u(3) [of "c # u'" t'] that v(1) by simp
      ultimately show ?R using u(2) by blast
    next
      assume ?R
      then obtain u where u: "s = u @ t" "prefix_of p t" "\<And>u' t'. s = u' @ t' \<Longrightarrow> prefix_of p t' \<Longrightarrow> length u \<le> length u'"
        by blast
      have "length (c # u) \<le> length u'" if "c # s = u' @ t'" "prefix_of p t'" for u' t'
        using that u(3) [of "tl u'" t'] False by (cases u') auto
      then show ?L using u(1,2) by (intro exI [of _ "c # u"]) auto
    qed
    ultimately show ?thesis using Cons.IH by simp
  qed
qed

lemma strstr_found: "strstr s p \<noteq> None \<longleftrightarrow> (\<exists>u v. s = u @ p @ v)"
proof (induction s)
  case Nil
  then show ?case by (auto simp: strstr.simps prefix_of_iff)
next
  case (Cons c s)
  have "(\<exists>u v. c # s = u @ p @ v) \<longleftrightarrow> prefix_of p (c # s) \<or> (\<exists>u v. s = u @ p @ v)"
    by (auto simp: prefix_of_iff Cons_eq_append_conv)
  then show ?case using Cons.IH by (subst strstr.simps) auto
qed

lemma match_re_correct_clauses:
  "s \<noteq> [] \<Longrightarrow> p \<noteq> [] \<Longrightarrow> hd p \<noteq> CHR ''%'' \<Longrightarrow> last p \<noteq> CHR ''%'' \<Longrightarrow> match_re (Some s) (Some p) = Some (s = p)"
  "s \<noteq> [] \<Longrightarrow> p \<noteq> [] \<Longrightarrow> hd p \<noteq> CHR ''%'' \<Longrightarrow> match_re (Some s) (Some (p @ ''%'')) = Some (\<exists>v. s = p @ v)"
  "s \<noteq> [] \<Longrightarrow> match_re (Some s) (Some (''%'' @ p @ ''%'')) = Some (\<exists>u v. s = u @ p @ v)"
  "s \<noteq> [] \<Longrightarrow> p \<noteq> [] \<Longrightarrow> last p \<noteq> CHR ''%'' \<Longrightarrow> match_re (Some s) (Some (''%'' @ p)) =
     Some (\<exists>u. s = u @ p \<and> (\<forall>u' v. s = u' @ p @ v \<longrightarrow> length u \<le> length u'))"
  "match_re (Some ''abab'') (Some ''%ab'') = Some False"
  "s \<noteq> [] \<Longrightarrow> match_re (Some s) (Some ''%'') = None"
proof -
  show "match_re (Some s) (Some p) = Some (s = p)" if "s \<noteq> []" "p \<noteq> []" "hd p \<noteq> CHR ''%''" "last p \<noteq> CHR ''%''"
    using that by (simp add: match_re_def strcmp_eq_0)
  show "match_re (Some s) (Some (p @ ''%'')) = Some (\<exists>v. s = p @ v)" if "s \<noteq> []" "p \<noteq> []" "hd p \<noteq> CHR ''%''"
    using that by (simp add: match_re_def prefix_of_iff)
  show "match_re (Some s) (Some (''%'' @ p @ ''%'')) = Some (\<exists>u v. s = u @ p @ v)" if "s \<noteq> []"
    using that strstr_found [of s p] by (simp add: match_re_def)
  show "match_re (Some s) (Some (''%'' @ p)) =
     Some (\<exists>u. s = u @ p \<and> (\<forall>u' v. s = u' @ p @ v \<longrightarrow> length u \<le> length u'))"
    if h: "s \<noteq> []" "p \<noteq> []" "last p \<noteq> CHR ''%''"
  proof -
    have "match_re (Some s) (Some (''%'' @ p)) = Some (strstr s p = Some p)"
      using h by (auto simp: match_re_def strcmp_eq_0 split: option.splits)
    then show ?thesis unfolding strstr_Some by (auto simp: prefix_of_iff)
  qed
  show "match_re (Some ''abab'') (Some ''%ab'') = Some False" by code_simp
  show "match_re (Some s) (Some ''%'') = None" if "s \<noteq> []"
    using that by (simp add: match_re_def)
qed

text \<open>C14. Matching a string against the pattern of \<open>LIKE\<close>, both not empty: a pattern without a percent sign at either end matches
  itself, \<open>x%\<close> the strings that begin with \<open>x\<close>, \<open>%x%\<close> those that contain \<open>x\<close>. The pattern
  \<open>%x\<close> matches the strings whose first occurrence of \<open>x\<close> is at their end, fewer than those
  that end with \<open>x\<close>: \<open>abab\<close> does not match \<open>%ab\<close>. The pattern \<open>%\<close> writes before its buffer.\<close>

theorem match_re_correct:
  "(s \<noteq> [] \<longrightarrow> p \<noteq> [] \<longrightarrow> hd p \<noteq> CHR ''%'' \<longrightarrow> last p \<noteq> CHR ''%'' \<longrightarrow> match_re (Some s) (Some p) = Some (s = p)) \<and>
   (s \<noteq> [] \<longrightarrow> p \<noteq> [] \<longrightarrow> hd p \<noteq> CHR ''%'' \<longrightarrow> match_re (Some s) (Some (p @ ''%'')) = Some (\<exists>v. s = p @ v)) \<and>
   (s \<noteq> [] \<longrightarrow> match_re (Some s) (Some (''%'' @ p @ ''%'')) = Some (\<exists>u v. s = u @ p @ v)) \<and>
   (s \<noteq> [] \<longrightarrow> p \<noteq> [] \<longrightarrow> last p \<noteq> CHR ''%'' \<longrightarrow> match_re (Some s) (Some (''%'' @ p)) =
     Some (\<exists>u. s = u @ p \<and> (\<forall>u' v. s = u' @ p @ v \<longrightarrow> length u \<le> length u'))) \<and>
   match_re (Some ''abab'') (Some ''%ab'') = Some False \<and>
   (s \<noteq> [] \<longrightarrow> match_re (Some s) (Some ''%'') = None)"
  by ((rule match_re_correct_clauses; assumption) | rule conjI | rule impI)+

theorem match_re_correct_witness:
  "match_re (Some ''eth0'') (Some (''eth'' @ ''%'')) = Some True"
  using match_re_correct [THEN conjunct2, THEN conjunct1, rule_format, of "''eth0''" "''eth''"] by simp

text \<open>Following property names.\<close>

lemma getPropValue_chain:
  assumes "\<And>k. k < length is - 1 \<Longrightarrow> getValue (is ! k) (propName (pds ! k)) = Some (V_inst (is ! Suc k), QL_Inst)"
    and "length is = length pds" "pds \<noteq> []"
  shows "getPropValue getValue (hd is) pds = getValue (last is) (propName (last pds))"
  using assms
proof (induction pds arbitrary: "is" rule: induct_list012)
  case 1
  then show ?case by simp
next
  case (2 pd)
  then show ?case by (cases "is") auto
next
  case (3 pd pd' pds)
  then obtain i j js where js: "is = i # j # js" by (auto simp: length_Suc_conv)
  have "getValue i (propName pd) = Some (V_inst j, QL_Inst)" using "3.prems"(1) [of 0] js by simp
  moreover have "getPropValue getValue (hd (j # js)) (pd' # pds) = getValue (last (j # js)) (propName (last (pd' # pds)))"
  proof (rule "3.IH"(2))
    show "getValue ((j # js) ! k) (propName ((pd' # pds) ! k)) = Some (V_inst ((j # js) ! Suc k), QL_Inst)"
      if "k < length (j # js) - 1" for k using "3.prems"(1) [of "Suc k"] js that by simp
    show "length (j # js) = length (pd' # pds)" using "3.prems"(2) js by simp
  qed simp
  ultimately show ?case using js by simp
qed

lemma property_path_correct_clauses:
  "(\<And>k. k < length is - 1 \<Longrightarrow> getValue (is ! k) (propName (pds ! k)) = Some (V_inst (is ! Suc k), QL_Inst)) \<Longrightarrow>
   length is = length pds \<Longrightarrow> pds \<noteq> [] \<Longrightarrow>
   getPropValue getValue (hd is) pds = getValue (last is) (propName (last pds))"
  "getValue i (propName pd) = Some (v, type) \<Longrightarrow> type \<noteq> QL_Inst \<Longrightarrow>
   getPropValue getValue i (pd # pds) = Some (v, type)"
proof -
  show "getPropValue getValue (hd is) pds = getValue (last is) (propName (last pds))"
    if "\<And>k. k < length is - 1 \<Longrightarrow> getValue (is ! k) (propName (pds ! k)) = Some (V_inst (is ! Suc k), QL_Inst)"
      "length is = length pds" "pds \<noteq> []"
    using that by (rule getPropValue_chain)
  show "getPropValue getValue i (pd # pds) = Some (v, type)"
    if "getValue i (propName pd) = Some (v, type)" "type \<noteq> QL_Inst"
    using that by (cases pds) auto
qed

text \<open>Following a chain of property names \<open>a.b.c\<close>: when every part but the last names an embedded instance, the value is that of the
  last part in the last instance. When a part before the last does not name an instance, the chain is not
  rejected: the type set to invalid is overwritten, and the value is that of this part.\<close>

lemma property_path_correct:
  "((\<forall>k. k < length is - 1 \<longrightarrow> getValue (is ! k) (propName (pds ! k)) = Some (V_inst (is ! Suc k), QL_Inst)) \<longrightarrow> length is = length pds \<longrightarrow> pds \<noteq> [] \<longrightarrow> getPropValue getValue (hd is) pds = getValue (last is) (propName (last pds))) \<and>
   (getValue i (propName pd) = Some (v, type) \<longrightarrow> type \<noteq> QL_Inst \<longrightarrow> getPropValue getValue i (pd # pds) = Some (v, type))"
  using property_path_correct_clauses(1) [of "is" getValue pds]
    property_path_correct_clauses(2) [of getValue i pd v type pds] by blast

lemma property_path_example:
  "getPropValue (queryGetValue (\<lambda>_. [''a'' \<mapsto> (CMPI_sint64, C_int64 7)])) ()
     [\<lparr>className = None, propName = ''a'', index = 0\<rparr>, \<lparr>className = None, propName = ''b'', index = 0\<rparr>] =
   Some (V_sint64 7, QL_Integer)"
proof -
  let ?a = "\<lparr>className = None, propName = ''a'', index = 0\<rparr>"
  have "queryGetValue (\<lambda>_. [''a'' \<mapsto> (CMPI_sint64, C_int64 7)]) () (propName ?a) = Some (V_sint64 7, QL_Integer)"
    by code_simp
  then show ?thesis
    using property_path_correct [THEN conjunct2, rule_format, of "queryGetValue (\<lambda>_. [''a'' \<mapsto> (CMPI_sint64, C_int64 7)])" "()" ?a] by blast
qed

text \<open>Printing.\<close>

lemma propToString_fits: "length (propToString_parts pds) = propToString_size pds"
  by (induction pds) (auto split: option.splits)

lemma opnToChars_fits: "length opr < 26 \<Longrightarrow> opnToChars (Some ls) opr rn \<noteq> None"
  by (simp add: opnToChars_def into_buffer_def)

lemma sprintf_d_fits: "length (sprintf_d (sint (w :: 64 word))) < 64"
proof -
  have "- (2 ^ 63) \<le> sint w" "sint w < 2 ^ 63"
    using sint_greater_eq [of w] sint_less [of w] by simp_all
  then have "nat \<bar>sint w\<bar> < 10 ^ 20" by simp
  then have "length (dec_digits (nat \<bar>sint w\<bar>)) \<le> 20" by (rule dec_digits_length) simp
  then show ?thesis by (auto simp: sprintf_d_def)
qed

lemma printing_bounds_clauses:
  "od_toString fmt (newIntQueryOperand w) = Some (sprintf_d (sint w))"
  "od_toString fmt (newPropQueryOperand pds) = Some (propToString_parts pds)"
  "on_toString fmt a \<noteq> None \<Longrightarrow> on_toString fmt b \<noteq> None \<Longrightarrow>
     on_toString fmt (newAndOperation a b) \<noteq> None \<and> on_toString fmt (newOrOperation a b) \<noteq> None \<and>
     on_toString fmt (newNotOperation a) \<noteq> None \<and> on_toString fmt (newBinaryOperation a) \<noteq> None"
  "od_toString fmt l = Some s \<Longrightarrow> od_toString fmt r = Some t \<Longrightarrow>
     on_toString fmt (newEqOperation l r) = (if length s + 7 + length t < 512 then Some (s @ '' QL_EQ '' @ t) else None)"
proof -
  show "od_toString fmt (newIntQueryOperand w) = Some (sprintf_d (sint w))"
    using sprintf_d_fits [of w] by (simp add: od_toString_def newIntQueryOperand_def new_operand_def into_buffer_def)
  show "od_toString fmt (newPropQueryOperand pds) = Some (propToString_parts pds)"
    by (simp add: od_toString_def newPropQueryOperand_def new_operand_def propToString_def into_buffer_def propToString_fits)
  show "on_toString fmt (newAndOperation a b) \<noteq> None \<and> on_toString fmt (newOrOperation a b) \<noteq> None \<and>
     on_toString fmt (newNotOperation a) \<noteq> None \<and> on_toString fmt (newBinaryOperation a) \<noteq> None"
    if "on_toString fmt a \<noteq> None" "on_toString fmt b \<noteq> None"
    using that by (auto simp: newAndOperation_def newOrOperation_def newNotOperation_def newBinaryOperation_def
        opnToChars_def into_buffer_def toString_defs)
  show "on_toString fmt (newEqOperation l r) = (if length s + 7 + length t < 512 then Some (s @ '' QL_EQ '' @ t) else None)"
    if "od_toString fmt l = Some s" "od_toString fmt r = Some t"
    using that by (simp add: newEqOperation_def new_predicate_def predicate_toString_def into_buffer_def toString_defs)
qed

text \<open>Printing stays inside its buffers as far as the lengths of the parts are computed: an integer operand and a
  property name of any length fit, and so does every connective whose parts can be printed. A comparison is printed into 512 bytes whatever its
  operands: it fits if and only if the two operands and the operator are shorter than that.\<close>

lemma printing_bounds:
  "od_toString fmt (newIntQueryOperand w) = Some (sprintf_d (sint w)) \<and>
   od_toString fmt (newPropQueryOperand pds) = Some (propToString_parts pds) \<and>
   (on_toString fmt a \<noteq> None \<longrightarrow> on_toString fmt b \<noteq> None \<longrightarrow> on_toString fmt (newAndOperation a b) \<noteq> None \<and> on_toString fmt (newOrOperation a b) \<noteq> None \<and>
     on_toString fmt (newNotOperation a) \<noteq> None \<and> on_toString fmt (newBinaryOperation a) \<noteq> None) \<and>
   (od_toString fmt l = Some s \<longrightarrow> od_toString fmt r = Some t \<longrightarrow> on_toString fmt (newEqOperation l r) = (if length s + 7 + length t < 512 then Some (s @ '' QL_EQ '' @ t) else None))"
  by ((rule printing_bounds_clauses; assumption) | rule conjI | rule impI)+

lemma printing_bounds_example:
  "on_toString (\<lambda>_. '''') (newEqOperation (newIntQueryOperand 1) (newIntQueryOperand 2)) = Some ''1 QL_EQ 2''"
proof -
  have "od_toString (\<lambda>_. '''') (newIntQueryOperand 1 :: unit operand) = Some ''1''" 
    "od_toString (\<lambda>_. '''') (newIntQueryOperand 2 :: unit operand) = Some ''2''" by code_simp+
  then show ?thesis
    using printing_bounds [THEN conjunct2, THEN conjunct2, THEN conjunct2, rule_format, of "\<lambda>_. ''''" "newIntQueryOperand 1" "''1''" "newIntQueryOperand 2" "''2''"]
      by (simp add: newIntQueryOperand_def od_toString_def new_operand_def)
qed

end
