(* ===== verification/FileRepository.thy ===== *)
theory FileRepository
  imports Prelude "HOL-Library.Monad_Syntax"
begin

text \<open>
  The file repository of \<open>src/fileRepository.c\<close>, which keeps the instances of a class as blobs in one data
  file and describes them in a text index beside it. Files are a map from path names to contents; the
  directories exist and files can be created. An index record is
  \<open>length keylength key bloblength offset\<close>, separated by blanks and ended by CR LF. A result
  \<^term>\<open>None\<close> stands for undefined behaviour: an access outside the index or a read beyond the data.
\<close>

section \<open>Numbers in text\<close>

definition is_delim :: "char \<Rightarrow> bool" where
  "is_delim c \<longleftrightarrow> c = CHR '' '' \<or> c = CHR 0x09"

text \<open>\<open>atoi\<close> of a text that starts with a digit; blanks before it are skipped.\<close>

definition atoi :: "string \<Rightarrow> nat" where
  "atoi s = digits_value (takeWhile is_digit (dropWhile is_delim s))"

text \<open>One number of a record: blanks, digits; the value and the rest of the text.\<close>

definition scan_num :: "string \<Rightarrow> (nat \<times> string) option" where
  "scan_num s =
     (let t = dropWhile is_delim s; d = takeWhile is_digit t
      in if d = [] then None else Some (digits_value d, dropWhile is_digit t))"

section \<open>The index\<close>

record blob_index =
  bi_index :: string
  bi_pos :: nat
  bi_len :: nat
  bi_blen :: nat
  bi_bofs :: nat
  bi_next :: nat

datatype record_result = Failure | Found "string" | Mismatch

text \<open>
  Reading the record at \<open>next\<close>. The result \<open>Failure\<close> is the code's -1, \<open>Mismatch\<close> its 1 and
  \<open>Found\<close> its 0, with the key of the record. An empty key asks for any record.
\<close>

definition getIndexRecordCase :: "blob_index \<Rightarrow> string \<Rightarrow> bool \<Rightarrow> (blob_index \<times> record_result) option" where
  "getIndexRecordCase bi key ignorecase =
     (if bi_next bi \<ge> length (bi_index bi) then Some (bi, Failure)
      else case scan_num (drop (bi_next bi) (bi_index bi)) of
        None \<Rightarrow> Some (bi, Failure)
      | Some (elen, t) \<Rightarrow>
          if elen = 0 then Some (bi, Failure)
          else case scan_num t of
            None \<Rightarrow> Some (bi, Failure)
          | Some (ekl, t) \<Rightarrow>
              if ekl = 0 then Some (bi, Failure)
              else let kb = dropWhile is_delim t in
                if length kb < ekl then None
                else case scan_num (drop ekl kb) of
                  None \<Rightarrow> Some (bi, Failure)
                | Some (blen, t) \<Rightarrow>
                    if blen = 0 then Some (bi, Failure)
                    else case scan_num t of
                      None \<Rightarrow> Some (bi, Failure)
                    | Some (bofs, t) \<Rightarrow>
                        let bi' = bi\<lparr>bi_pos := bi_next bi, bi_len := elen, bi_blen := blen, bi_bofs := bofs,
                                     bi_next := bi_next bi + elen\<rparr>;
                            found = take ekl kb
                        in if key \<noteq> [] \<and>
                              (if ignorecase then length key \<noteq> ekl \<or> strcasecmp found key \<noteq> 0
                               else length key \<noteq> ekl \<or> strcmp found key \<noteq> 0)
                           then Some (bi', Mismatch)
                           else Some (bi', Found found))"

definition getIndexRecord :: "blob_index \<Rightarrow> string \<Rightarrow> (blob_index \<times> record_result) option" where
  "getIndexRecord bi key = getIndexRecordCase bi key False"

partial_function (option) indxLocate_loop ::
    "blob_index \<Rightarrow> string \<Rightarrow> bool \<Rightarrow> (blob_index \<times> bool) option" where
  "indxLocate_loop bi key ignorecase =
     (if bi_next bi < length (bi_index bi) then
        (case getIndexRecordCase bi key ignorecase of
           None \<Rightarrow> None
         | Some (bi', loc) \<Rightarrow>
             (case loc of
                Failure \<Rightarrow> Some (bi', False)
              | Found k \<Rightarrow> Some (bi', True)
              | Mismatch \<Rightarrow> indxLocate_loop bi' key ignorecase))
      else Some (bi, False))"

definition indxLocateCase :: "blob_index \<Rightarrow> string \<Rightarrow> bool \<Rightarrow> (blob_index \<times> bool) option" where
  "indxLocateCase bi key ignorecase = indxLocate_loop (bi\<lparr>bi_next := 0\<rparr>) key ignorecase"

definition indxLocate :: "blob_index \<Rightarrow> string \<Rightarrow> (blob_index \<times> bool) option" where
  "indxLocate bi key = indxLocateCase bi key False"

text \<open>
  Lowering the offset of a record by \<open>adj\<close>, in place. The digits of the offset are those before the CR
  and after the last blank; the new ones are written right aligned into the same space by way of a
  buffer of 32 bytes.
\<close>

definition adjust_record :: "string \<Rightarrow> nat \<Rightarrow> string option" where
  "adjust_record rec adj =
     (if length rec < 2 then None
      else let body = butlast (butlast rec);
               old = rev (takeWhile (\<lambda>c. c \<noteq> CHR '' '') (rev body));
               new = sprintf_d (int (atoi old) - int adj);
               str = replicate (length old) CHR '' '' @ new
           in if length body = length old \<or> length str \<ge> 32 \<or> last (butlast rec) \<noteq> CHR 0x0D then None
              else Some (take (length body - length old) body @ take (length old) (drop (length new) str) @
                         drop (length body) rec))"

partial_function (option) adjust :: "string \<Rightarrow> nat \<Rightarrow> string option" where
  "adjust t adj =
     (if t = [] then Some []
      else if atoi t = 0 \<or> length t < atoi t then None
      else (case adjust_record (take (atoi t) t) adj of
              None \<Rightarrow> None
            | Some r \<Rightarrow> Option.bind (adjust (drop (atoi t) t) adj) (\<lambda>rs. Some (r @ rs))))"

section \<open>Files\<close>

type_synonym files = "string \<rightharpoonup> string"

definition BASE :: string where
  "BASE = ''repository''"

definition getRepDir :: "string option \<Rightarrow> string option \<Rightarrow> string" where
  "getRepDir repfn registrationDir =
     (case repfn of Some d \<Rightarrow> d
      | None \<Rightarrow> (case registrationDir of None \<Rightarrow> ''/var/lib/sfcb/registration'' | Some d \<Rightarrow> d) @ ''/'' @ BASE @ ''/'')"

definition ns_dir :: "string \<Rightarrow> string \<Rightarrow> string" where
  "ns_dir dir ns = dir @ map tolower (ns @ ''/'')"

definition fnd :: "string \<Rightarrow> string \<Rightarrow> string \<Rightarrow> string" where
  "fnd dir ns cls = ns_dir dir ns @ map tolower cls"

definition fnx :: "string \<Rightarrow> string \<Rightarrow> string \<Rightarrow> string" where
  "fnx dir ns cls = fnd dir ns cls @ ''.idx''"

text \<open>Opening the index; with \<open>mki\<close> it is created when it does not exist.\<close>

definition getIndex :: "string \<Rightarrow> string \<Rightarrow> string \<Rightarrow> bool \<Rightarrow> files \<Rightarrow> (files \<times> blob_index) option" where
  "getIndex dir ns cls mki fs =
     (let bi = \<lparr>bi_index = [], bi_pos = 0, bi_len = 0, bi_blen = 0, bi_bofs = 0, bi_next = 0\<rparr>
      in case fs (fnx dir ns cls) of
           None \<Rightarrow> (if mki then Some (fs(fnx dir ns cls \<mapsto> []), bi) else None)
         | Some t \<Rightarrow> Some (fs, bi\<lparr>bi_index := t\<rparr>))"

text \<open>
  The end of \<open>rebuild\<close>: the temporary files take the place of the old ones, and empty ones are removed.
\<close>

definition replace_files :: "string \<Rightarrow> string \<Rightarrow> string \<Rightarrow> string \<Rightarrow> string \<Rightarrow> files \<Rightarrow> files" where
  "replace_files dir ns cls x d fs =
     (let xn = ns_dir dir ns @ ''idx''; dn = ns_dir dir ns @ ''inst'';
          fs = fs(xn \<mapsto> x, dn \<mapsto> d);
          fs = fs(fnd dir ns cls := None);
          fs = fs(fnx dir ns cls := None);
          fs = (if d \<noteq> [] then fs(fnd dir ns cls \<mapsto> d, dn := None) else fs(dn := None))
      in if x \<noteq> [] then fs(fnx dir ns cls \<mapsto> x, xn := None) else fs(xn := None))"

text \<open>
  Writing data and index anew without the record at \<open>pos\<close> and its blob, with a blob added at the end. The
  temporary files are opened, which empties them, before the old data are copied.
\<close>

definition rebuild :: "string \<Rightarrow> string \<Rightarrow> string \<Rightarrow> blob_index \<Rightarrow> nat \<Rightarrow> string \<Rightarrow> files \<Rightarrow> files option" where
  "rebuild dir ns cls bi dlen blob fs =
     do {
       data \<leftarrow> (fs(ns_dir dir ns @ ''idx'' \<mapsto> [], ns_dir dir ns @ ''inst'' \<mapsto> [])) (fnd dir ns cls);
       if dlen < bi_bofs bi + bi_blen bi \<or> length data < dlen then None
       else do {
         let d = take (bi_bofs bi) data @ take (dlen - (bi_bofs bi + bi_blen bi)) (drop (bi_bofs bi + bi_blen bi) data) @ blob;
         adjusted \<leftarrow> adjust (drop (bi_pos bi) (bi_index bi)) (bi_blen bi);
         let index = take (bi_pos bi) (bi_index bi) @ adjusted;
         let x = take (bi_pos bi) index @ drop (bi_pos bi + bi_len bi) index;
         Some (replace_files dir ns cls x d fs)
       }
     }"

text \<open>
  A new index record. The length of the record overwrites the four blanks printed for it, and the blank
  that ends it the character after it.
\<close>

definition index_entry :: "string \<Rightarrow> nat \<Rightarrow> nat \<Rightarrow> string" where
  "index_entry bid len ofs =
     (let idxe = ''    '' @ dec_digits (length bid) @ '' '' @ bid @ '' '' @ dec_digits len @ '' '' @ dec_digits ofs @
            [CHR 0x0D, CHR 0x0A];
          es = dec_digits (length idxe)
      in es @ '' '' @ drop (length es + 1) idxe)"

definition addBlob :: "string \<Rightarrow> string \<Rightarrow> string \<Rightarrow> string \<Rightarrow> string \<Rightarrow> files \<Rightarrow> (files \<times> int) option" where
  "addBlob dir ns cls bid blob fs =
     (case getIndex dir ns cls True fs of
        None \<Rightarrow> Some (fs, 1)
      | Some (fs, bi) \<Rightarrow>
          if bi_index bi = [] then
            Some (fs(fnd dir ns cls \<mapsto> blob, fnx dir ns cls \<mapsto> index_entry bid (length blob) 0), 0)
          else do {
            (bi, found) \<leftarrow> indxLocate bi bid;
            if found then
              (case fs (fnd dir ns cls) of
                 None \<Rightarrow> Some (fs, - 1)
               | Some data \<Rightarrow> do {
                   let bi = bi\<lparr>bi_index := bi_index bi @ index_entry bid (length blob) (length data)\<rparr>;
                   fs \<leftarrow> rebuild dir ns cls bi (length data) blob fs;
                   Some (fs, 0)
                 })
            else do {
              let data = (case fs (fnd dir ns cls) of None \<Rightarrow> [] | Some d \<Rightarrow> d);
              let index = bi_index bi @ index_entry bid (length blob) (length data);
              Some (fs(fnd dir ns cls \<mapsto> data @ blob, fnx dir ns cls \<mapsto> index), 0)
            }
          })"

definition deleteBlob :: "string \<Rightarrow> string \<Rightarrow> string \<Rightarrow> string \<Rightarrow> files \<Rightarrow> (files \<times> int) option" where
  "deleteBlob dir ns cls bid fs =
     (case getIndex dir ns cls False fs of
        None \<Rightarrow> Some (fs, 1)
      | Some (fs, bi) \<Rightarrow> do {
          (bi, found) \<leftarrow> indxLocate bi bid;
          if found then
            (case fs (fnd dir ns cls) of
               None \<Rightarrow> Some (fs, - 1)
             | Some data \<Rightarrow> do { fs \<leftarrow> rebuild dir ns cls bi (length data) [] fs; Some (fs, 0) })
          else Some (fs, 1)
        })"

definition existingBlob :: "string \<Rightarrow> string \<Rightarrow> string \<Rightarrow> string \<Rightarrow> files \<Rightarrow> bool option" where
  "existingBlob dir ns cls bid fs =
     (case getIndex dir ns cls False fs of
        None \<Rightarrow> Some False
      | Some (fs, bi) \<Rightarrow> do { (bi, found) \<leftarrow> indxLocate bi bid; Some found })"

text \<open>Reading the blob of the current record from the data; a short read leaves its buffer unset.\<close>

definition read_blob :: "blob_index \<Rightarrow> string \<Rightarrow> string option" where
  "read_blob bi data =
     (if length data < bi_bofs bi + bi_blen bi then None else Some (take (bi_blen bi) (drop (bi_bofs bi) data)))"

text \<open>A missing data file ends the process, here \<^term>\<open>None\<close> too. The inner option is the code's NULL.\<close>

definition getBlob :: "string \<Rightarrow> string \<Rightarrow> string \<Rightarrow> string \<Rightarrow> files \<Rightarrow> string option option" where
  "getBlob dir ns cls bid fs =
     (let ignorecase = (strcmp ''qualifiers'' cls = 0)
      in case getIndex dir ns cls False fs of
           None \<Rightarrow> Some None
         | Some (fs, bi) \<Rightarrow> do {
             (bi, found) \<leftarrow> indxLocateCase bi bid ignorecase;
             if found then do { data \<leftarrow> fs (fnd dir ns cls); b \<leftarrow> read_blob bi data; Some (Some b) }
             else Some None
           })"

text \<open>Iteration over the records.\<close>

definition getFirst :: "blob_index \<Rightarrow> string \<Rightarrow> (blob_index \<times> (string \<times> string) option) option" where
  "getFirst bi data =
     do {
       (bi, r) \<leftarrow> getIndexRecord (bi\<lparr>bi_next := 0\<rparr>) [];
       (case r of Found k \<Rightarrow> do { b \<leftarrow> read_blob bi data; Some (bi, Some (k, b)) } | _ \<Rightarrow> Some (bi, None))
     }"

definition getNext :: "blob_index \<Rightarrow> string \<Rightarrow> (blob_index \<times> (string \<times> string) option) option" where
  "getNext bi data =
     do {
       (bi, r) \<leftarrow> getIndexRecord bi [];
       (case r of Found k \<Rightarrow> do { b \<leftarrow> read_blob bi data; Some (bi, Some (k, b)) } | _ \<Rightarrow> Some (bi, None))
     }"

text \<open>The loop of the callers: \<open>getFirst\<close>, then \<open>getNext\<close> until it returns NULL.\<close>

partial_function (option) list_from ::
    "blob_index \<Rightarrow> string \<Rightarrow> (string \<times> string) option \<Rightarrow> (string \<times> string) list option" where
  "list_from bi data cur =
     (case cur of None \<Rightarrow> Some []
      | Some x \<Rightarrow> (case getNext bi data of None \<Rightarrow> None
          | Some (bi', cur') \<Rightarrow> Option.bind (list_from bi' data cur') (\<lambda>xs. Some (x # xs))))"

definition list_blobs :: "string \<Rightarrow> string \<Rightarrow> string \<Rightarrow> files \<Rightarrow> (string \<times> string) list option" where
  "list_blobs dir ns cls fs =
     (case getIndex dir ns cls False fs of
        None \<Rightarrow> Some []
      | Some (fs, bi) \<Rightarrow> do {
          let data = (case fs (fnd dir ns cls) of None \<Rightarrow> [] | Some d \<Rightarrow> d);
          (bi, cur) \<leftarrow> getFirst bi data;
          list_from bi data cur
        })"

section \<open>Numbers\<close>

lemma digit_not_delim: "is_digit c \<Longrightarrow> \<not> is_delim c"
  by (auto simp: is_digit_def is_delim_def)

lemma takeWhile_digits: "\<not> is_digit c \<Longrightarrow> takeWhile is_digit (dec_digits n @ c # t) = dec_digits n"
  "\<not> is_digit c \<Longrightarrow> dropWhile is_digit (dec_digits n @ c # t) = c # t"
  using dec_digits_digit [of n] by (simp_all add: takeWhile_append2 dropWhile_append2)

lemma dropWhile_delims:
  assumes "\<forall>c\<in>set ws. is_delim c" "t \<noteq> []" "\<not> is_delim (hd t)"
  shows "dropWhile is_delim (ws @ t) = t"
  using assms by (cases t) (simp_all add: dropWhile_append2)

lemma hd_dec_digits: "\<not> is_delim (hd (dec_digits n @ t))"
  using dec_digits_digit [of n] digit_not_delim dec_digits_not_Nil [of n]
  by (metis append_is_Nil_conv hd_append2 list.set_sel(1))

lemma scan_num_dec:
  assumes "\<forall>c\<in>set ws. is_delim c" "\<not> is_digit c"
  shows "scan_num (ws @ dec_digits n @ c # t) = Some (n, c # t)"
proof -
  have "dropWhile is_delim (ws @ dec_digits n @ c # t) = dec_digits n @ c # t"
    using hd_dec_digits by (intro dropWhile_delims assms(1)) auto
  then show ?thesis using takeWhile_digits [OF assms(2)] by (simp add: scan_num_def Let_def)
qed

lemma atoi_dec: "\<not> is_digit c \<Longrightarrow> atoi (dec_digits n @ c # t) = n"
  using dropWhile_delims [of "[]" "dec_digits n @ c # t"] hd_dec_digits [of n "c # t"] takeWhile_digits [of c n t]
  by (simp add: atoi_def)

lemma atoi_dec' [simp]: "atoi (dec_digits n) = n"
  using dropWhile_delims [of "[]" "dec_digits n"] hd_dec_digits [of n "[]"] dec_digits_digit [of n]
  by (simp add: atoi_def takeWhile_eq_all_conv [THEN iffD2])

section \<open>Index records\<close>

abbreviation CRLF :: string where
  "CRLF \<equiv> [CHR 0x0D, CHR 0x0A]"

text \<open>A record whose offset has \<open>pad\<close> extra blanks before it.\<close>

definition entry_body :: "string \<Rightarrow> nat \<Rightarrow> nat \<Rightarrow> nat \<Rightarrow> string" where
  "entry_body bid bl pad ofs =
     dec_digits (length bid) @ '' '' @ bid @ '' '' @ dec_digits bl @ '' '' @ replicate pad (CHR '' '') @ dec_digits ofs @ CRLF"

definition entry_text :: "string \<Rightarrow> nat \<Rightarrow> nat \<Rightarrow> nat \<Rightarrow> string" where
  "entry_text bid bl pad ofs =
     (let es = dec_digits (4 + length (entry_body bid bl pad ofs))
      in es @ replicate (4 - length es) (CHR '' '') @ entry_body bid bl pad ofs)"

text \<open>The keys the format can hold.\<close>

definition key_ok :: "string \<Rightarrow> bool" where
  "key_ok bid \<longleftrightarrow> bid \<noteq> [] \<and> \<not> is_delim (hd bid)"

definition entry_ok :: "string \<Rightarrow> nat \<Rightarrow> nat \<Rightarrow> nat \<Rightarrow> bool" where
  "entry_ok bid bl pad ofs \<longleftrightarrow> key_ok bid \<and> 0 < bl \<and> 4 + length (entry_body bid bl pad ofs) < 1000"

lemma es_short: "n < 1000 \<Longrightarrow> length (dec_digits n) \<le> 3"
  using dec_digits_length [of n 3] by simp

lemma length_entry_text:
  assumes "4 + length (entry_body bid bl pad ofs) < 1000"
  shows "length (entry_text bid bl pad ofs) = 4 + length (entry_body bid bl pad ofs)"
  using es_short [OF assms] by (simp add: entry_text_def Let_def)

lemma index_entry_text:
  assumes "4 + length (entry_body bid bl 0 ofs) < 1000"
  shows "index_entry bid bl ofs = entry_text bid bl 0 ofs"
proof -
  let ?es = "dec_digits (4 + length (entry_body bid bl 0 ofs))"
  have l: "length ?es \<le> 3" by (rule es_short [OF assms])
  have idxe: "''    '' @ dec_digits (length bid) @ '' '' @ bid @ '' '' @ dec_digits bl @ '' '' @ dec_digits ofs @ CRLF =
      replicate 4 (CHR '' '') @ entry_body bid bl 0 ofs"
    by (simp add: entry_body_def numeral_eq_Suc)
  have "'' '' @ drop (length ?es + 1) (replicate 4 (CHR '' '') @ entry_body bid bl 0 ofs) =
      replicate (4 - length ?es) (CHR '' '') @ entry_body bid bl 0 ofs"
    using l by (simp add: Suc_diff_le flip: replicate_Suc)
  then show ?thesis
    unfolding index_entry_def entry_text_def idxe Let_def by (simp add: add.commute)
qed

text \<open>Reading a record back.\<close>

lemma getIndexRecord_entry:
  assumes ok: "entry_ok bid bl pad ofs"
    and idx: "bi_index bi = pre @ entry_text bid bl pad ofs @ post" "bi_next bi = length pre"
  shows "getIndexRecordCase bi key ic =
    (let bi' = bi\<lparr>bi_pos := length pre, bi_len := length (entry_text bid bl pad ofs), bi_blen := bl, bi_bofs := ofs,
                  bi_next := length pre + length (entry_text bid bl pad ofs)\<rparr>
     in if key \<noteq> [] \<and> (if ic then length key \<noteq> length bid \<or> strcasecmp bid key \<noteq> 0
                              else length key \<noteq> length bid \<or> strcmp bid key \<noteq> 0)
        then Some (bi', Mismatch) else Some (bi', Found bid))"
proof -
  let ?n = "4 + length (entry_body bid bl pad ofs)"
  have n: "?n < 1000" and key: "bid \<noteq> []" "\<not> is_delim (hd bid)" "0 < bl"
    using ok by (simp_all add: entry_ok_def key_ok_def)
  have len: "length (entry_text bid bl pad ofs) = ?n" by (rule length_entry_text [OF n])
  have sp: "\<not> is_digit (CHR '' '')" "\<not> is_digit (CHR 0x0D)" "is_delim (CHR '' '')"
    by (simp_all add: is_digit_def is_delim_def)
  obtain k where k: "4 - length (dec_digits ?n) = Suc k"
    using es_short [OF n] that [of "3 - length (dec_digits ?n)"] by linarith
  define t5 where "t5 = '' '' @ replicate pad (CHR '' '') @ dec_digits ofs @ CRLF @ post"
  define t4 where "t4 = '' '' @ dec_digits bl @ t5"
  define t3 where "t3 = '' '' @ bid @ t4"
  define t2 where "t2 = replicate (Suc k) (CHR '' '') @ dec_digits (length bid) @ t3"
  have 1: "scan_num (entry_text bid bl pad ofs @ post) = Some (?n, t2)"
    using scan_num_dec [of "[]" "CHR '' ''" ?n] sp(1) k
    by (simp add: entry_text_def Let_def entry_body_def t2_def t3_def t4_def t5_def)
  have 2: "scan_num t2 = Some (length bid, t3)"
    using scan_num_dec [of "replicate (Suc k) (CHR '' '')" "CHR '' ''" "length bid"] sp
    by (simp add: t2_def t3_def)
  have 3: "dropWhile is_delim t3 = bid @ t4"
    using dropWhile_delims [of "'' ''" "bid @ t4"] sp key by (simp add: t3_def)
  have 4: "scan_num t4 = Some (bl, t5)"
    using scan_num_dec [of "'' ''" "CHR '' ''" bl] sp by (simp add: t4_def t5_def)
  have 5: "scan_num t5 = Some (ofs, CRLF @ post)"
    using scan_num_dec [of "'' '' @ replicate pad (CHR '' '')" "CHR 0x0D" ofs] sp by (simp add: t5_def)
  have range: "\<not> length (bi_index bi) \<le> length pre" using idx len by simp
  have "drop (length pre) (bi_index bi) = entry_text bid bl pad ofs @ post" using idx by simp
  note scan = 1 [folded this] 2 3
  have "?n \<noteq> 0" "length bid \<noteq> 0" "bl \<noteq> 0" "\<not> length (bid @ t4) < length bid"
    "drop (length bid) (bid @ t4) = t4" "take (length bid) (bid @ t4) = bid"
    using key by simp_all
  then show ?thesis
    by (simp only: getIndexRecordCase_def range scan 4 5 Let_def if_False option.case prod.case idx(2) len)
qed

section \<open>The index as a list of entries\<close>

text \<open>An entry is a key, a blob and the padding of its record; the blobs follow each other in the data.\<close>

type_synonym entry = "string \<times> string \<times> nat"

definition blobs :: "entry list \<Rightarrow> string" where
  "blobs es = concat (map (\<lambda>(k, b, p). b) es)"

fun render :: "nat \<Rightarrow> entry list \<Rightarrow> string" where
  "render ofs [] = []"
| "render ofs ((k, b, p) # es) = entry_text k (length b) p ofs @ render (ofs + length b) es"

fun entries_ok :: "nat \<Rightarrow> entry list \<Rightarrow> bool" where
  "entries_ok ofs [] = True"
| "entries_ok ofs ((k, b, p) # es) = (entry_ok k (length b) p ofs \<and> entries_ok (ofs + length b) es)"

definition keys :: "entry list \<Rightarrow> string list" where
  "keys es = map fst es"

lemma blobs_simps [simp]: "blobs [] = []" "blobs ((k, b, p) # es) = b @ blobs es" "blobs (es @ fs) = blobs es @ blobs fs"
  by (simp_all add: blobs_def)

lemma keys_simps [simp]: "keys [] = []" "keys ((k, b, p) # es) = k # keys es" "keys (es @ fs) = keys es @ keys fs"
  by (simp_all add: keys_def)

lemma render_append: "render ofs (es @ fs) = render ofs es @ render (ofs + length (blobs es)) fs"
  by (induction ofs es rule: render.induct) (simp_all add: add.assoc)

lemma entries_ok_append:
  "entries_ok ofs (es @ fs) \<longleftrightarrow> entries_ok ofs es \<and> entries_ok (ofs + length (blobs es)) fs"
  by (induction ofs es rule: render.induct) (simp_all add: add.assoc)

text \<open>How the keys are compared.\<close>

definition same_key :: "bool \<Rightarrow> string \<Rightarrow> string \<Rightarrow> bool" where
  "same_key ic k key \<longleftrightarrow> (if ic then map tolower k = map tolower key else k = key)"

lemma key_test:
  "(if ic then length key \<noteq> length k \<or> strcasecmp k key \<noteq> 0 else length key \<noteq> length k \<or> strcmp k key \<noteq> 0) \<longleftrightarrow>
   \<not> same_key ic k key"
  unfolding same_key_def strcasecmp_eq_0 strcmp_eq_0 by (metis length_map)

definition at_record :: "blob_index \<Rightarrow> nat \<Rightarrow> nat \<Rightarrow> nat \<Rightarrow> nat \<Rightarrow> blob_index" where
  "at_record bi ps n bl ofs = bi\<lparr>bi_pos := ps, bi_len := n, bi_blen := bl, bi_bofs := ofs, bi_next := ps + n\<rparr>"

lemma at_record_simps [simp]:
  "bi_index (at_record bi ps n bl ofs) = bi_index bi" "bi_pos (at_record bi ps n bl ofs) = ps"
  "bi_len (at_record bi ps n bl ofs) = n" "bi_blen (at_record bi ps n bl ofs) = bl"
  "bi_bofs (at_record bi ps n bl ofs) = ofs" "bi_next (at_record bi ps n bl ofs) = ps + n"
  by (simp_all add: at_record_def)

lemma locate_step:
  assumes "bi_index bi = pre @ render ofs ((k, b, p) # es)" "bi_next bi = length pre"
    "entries_ok ofs ((k, b, p) # es)" "key \<noteq> []"
  shows "indxLocate_loop bi key ic =
     (let bi' = at_record bi (length pre) (length (entry_text k (length b) p ofs)) (length b) ofs
      in if same_key ic k key then Some (bi', True) else indxLocate_loop bi' key ic)"
proof -
  have "entry_text k (length b) p ofs \<noteq> []" by (simp add: entry_text_def Let_def)
  then show ?thesis
    using getIndexRecord_entry [of k "length b" p ofs bi pre "render (ofs + length b) es" key ic] assms
    by (subst indxLocate_loop.simps) (simp add: key_test Let_def at_record_def)
qed

lemma locate_absent:
  "bi_index bi = pre @ render ofs es \<Longrightarrow> bi_next bi = length pre \<Longrightarrow> entries_ok ofs es \<Longrightarrow> key \<noteq> [] \<Longrightarrow>
   (\<forall>k\<in>set (keys es). \<not> same_key ic k key) \<Longrightarrow>
   \<exists>bi'. indxLocate_loop bi key ic = Some (bi', False) \<and> bi_index bi' = bi_index bi"
proof (induction ofs es arbitrary: bi pre rule: render.induct)
  case (1 ofs)
  then show ?case by (subst indxLocate_loop.simps) simp
next
  case (2 ofs k b p es)
  let ?bi = "at_record bi (length pre) (length (entry_text k (length b) p ofs)) (length b) ofs"
  have "indxLocate_loop bi key ic = indxLocate_loop ?bi key ic"
    using locate_step [OF "2.prems"(1-4)] "2.prems"(5) by (simp add: Let_def)
  moreover have "\<exists>bi'. indxLocate_loop ?bi key ic = Some (bi', False) \<and> bi_index bi' = bi_index ?bi"
    by (rule "2.IH" [of ?bi "pre @ entry_text k (length b) p ofs"]) (use "2.prems" in auto)
  ultimately show ?case by simp
qed

lemma locate_found:
  "bi_index bi = pre @ render ofs (us @ (k, b, p) # vs) \<Longrightarrow> bi_next bi = length pre \<Longrightarrow>
   entries_ok ofs (us @ (k, b, p) # vs) \<Longrightarrow> key \<noteq> [] \<Longrightarrow>
   same_key ic k key \<Longrightarrow> (\<forall>k\<in>set (keys us). \<not> same_key ic k key) \<Longrightarrow>
   \<exists>bi'. indxLocate_loop bi key ic = Some (bi', True) \<and> bi_index bi' = bi_index bi \<and>
     bi_pos bi' = length pre + length (render ofs us) \<and>
     bi_len bi' = length (entry_text k (length b) p (ofs + length (blobs us))) \<and>
     bi_blen bi' = length b \<and> bi_bofs bi' = ofs + length (blobs us)"
proof (induction ofs us arbitrary: bi pre rule: render.induct)
  case (1 ofs)
  show ?case
    using locate_step [of bi pre ofs k b p vs key ic] "1.prems" by (simp add: Let_def)
next
  case (2 ofs k' b' p' us)
  let ?t = "entry_text k' (length b') p' ofs"
  let ?bi = "at_record bi (length pre) (length ?t) (length b') ofs"
  have "indxLocate_loop bi key ic = indxLocate_loop ?bi key ic"
    using locate_step [of bi pre ofs k' b' p' "us @ (k, b, p) # vs" key ic] "2.prems" by (simp add: Let_def)
  moreover have "\<exists>bi'. indxLocate_loop ?bi key ic = Some (bi', True) \<and> bi_index bi' = bi_index ?bi \<and>
     bi_pos bi' = length (pre @ ?t) + length (render (ofs + length b') us) \<and>
     bi_len bi' = length (entry_text k (length b) p ((ofs + length b') + length (blobs us))) \<and>
     bi_blen bi' = length b \<and> bi_bofs bi' = (ofs + length b') + length (blobs us)"
    by (rule "2.IH" [of ?bi "pre @ ?t"]) (use "2.prems" in auto)
  ultimately show ?case by (auto simp: add.assoc)
qed

section \<open>Moving offsets\<close>

lemma dec_digits_no_blank: "CHR '' '' \<notin> set (dec_digits n)"
  using dec_digits_digit [of n] by (auto simp: is_digit_def)

lemma last_word: "rev (takeWhile (\<lambda>c. c \<noteq> CHR '' '') (rev (A @ '' '' @ dec_digits n))) = dec_digits n"
proof -
  have "takeWhile (\<lambda>c. c \<noteq> CHR '' '') (rev (dec_digits n) @ CHR '' '' # rev A) = rev (dec_digits n)"
    using dec_digits_no_blank [of n] by (subst takeWhile_append2) auto
  then show ?thesis by simp
qed

lemma sprintf_d_length: "i < 10 ^ 10 \<Longrightarrow> - (10 ^ 10) < i \<Longrightarrow> length (sprintf_d i) \<le> 11"
proof -
  assume "i < 10 ^ 10" "- (10 ^ 10) < i"
  then have "nat i < 10 ^ 10" "nat (- i) < 10 ^ 10" by (simp_all only: nat_less_numeral_power_cancel_iff)
  then show ?thesis
    using dec_digits_length [of "nat i" 10] dec_digits_length [of "nat (- i)" 10] by (simp add: sprintf_d_def)
qed

lemma adjust_record_eq:
  assumes "n < 10 ^ 10" "adj < 10 ^ 10"
  defines "new \<equiv> sprintf_d (int n - int adj)"
  shows "adjust_record (A @ '' '' @ dec_digits n @ CRLF) adj =
     Some (A @ '' '' @ take (length (dec_digits n)) (drop (length new) (replicate (length (dec_digits n)) (CHR '' '') @ new)) @ CRLF)"
proof -
  let ?rec = "A @ '' '' @ dec_digits n @ CRLF"
  have b: "butlast (butlast ?rec) = A @ '' '' @ dec_digits n" "last (butlast ?rec) = CHR 0x0D"
    by (simp_all add: butlast_append)
  have l: "length (dec_digits n) \<le> 10" using dec_digits_length [of n 10] assms by simp
  have "length new \<le> 11" unfolding new_def using assms by (intro sprintf_d_length) auto
  then have "length (replicate (length (dec_digits n)) (CHR '' '') @ new) < 32" using l by simp
  then show ?thesis
    unfolding adjust_record_def b last_word Let_def atoi_dec' new_def by simp
qed

lemma adjust_record_length:
  assumes "n < 10 ^ 10" "adj < 10 ^ 10"
  shows "\<exists>r. adjust_record (A @ '' '' @ dec_digits n @ CRLF) adj = Some r \<and> length r = length (A @ '' '' @ dec_digits n @ CRLF)"
  using adjust_record_eq [OF assms] by simp

lemma adjust_record_lower:
  assumes "n < 10 ^ 10" "adj \<le> n"
  shows "adjust_record (A @ '' '' @ dec_digits n @ CRLF) adj =
     Some (A @ '' '' @ replicate (length (dec_digits n) - length (dec_digits (n - adj))) (CHR '' '') @ dec_digits (n - adj) @ CRLF)"
proof -
  have "sprintf_d (int n - int adj) = dec_digits (n - adj)"
    using assms by (simp add: sprintf_d_def flip: of_nat_diff)
  moreover have "length (dec_digits (n - adj)) \<le> length (dec_digits n)" by (rule dec_digits_mono) simp
  ultimately show ?thesis using adjust_record_eq [of n adj A] assms by simp
qed

text \<open>The end of a record, as \<open>adjust\<close> finds it.\<close>

lemma entry_text_split:
  "\<exists>A. entry_text k bl p n = A @ '' '' @ dec_digits n @ CRLF"
proof (cases p)
  case 0
  have "entry_text k bl p n = (let es = dec_digits (4 + length (entry_body k bl p n))
      in es @ replicate (4 - length es) (CHR '' '') @ dec_digits (length k) @ '' '' @ k @ '' '' @ dec_digits bl) @ '' '' @ dec_digits n @ CRLF"
    using 0 by (simp add: entry_text_def entry_body_def Let_def)
  then show ?thesis by blast
next
  case (Suc q)
  have "replicate p (CHR '' '') = replicate q (CHR '' '') @ '' ''" using Suc by (simp add: replicate_append_same)
  then have "entry_text k bl p n = (let es = dec_digits (4 + length (entry_body k bl p n))
      in es @ replicate (4 - length es) (CHR '' '') @ dec_digits (length k) @ '' '' @ k @ '' '' @ dec_digits bl @ '' '' @
         replicate q (CHR '' '')) @ '' '' @ dec_digits n @ CRLF"
    by (simp add: entry_text_def entry_body_def Let_def)
  then show ?thesis by blast
qed

lemma entry_body_length:
  "length (entry_body k bl p n) = length (dec_digits (length k)) + length k + length (dec_digits bl) + p + length (dec_digits n) + 5"
  by (simp add: entry_body_def)

lemma atoi_entry_text:
  assumes "entry_ok k bl p n"
  shows "atoi (entry_text k bl p n @ t) = length (entry_text k bl p n)"
proof -
  have n: "4 + length (entry_body k bl p n) < 1000" using assms by (simp add: entry_ok_def)
  obtain j where j: "4 - length (dec_digits (4 + length (entry_body k bl p n))) = Suc j"
    using es_short [OF n] that [of "3 - length (dec_digits (4 + length (entry_body k bl p n)))"] by linarith
  have "\<not> is_digit (CHR '' '')" by (simp add: is_digit_def)
  then show ?thesis
    using length_entry_text [OF n] j
      atoi_dec [of "CHR '' ''" "4 + length (entry_body k bl p n)" "replicate j (CHR '' '') @ entry_body k bl p n @ t"]
    by (simp add: entry_text_def Let_def)
qed

lemma adjust_entry:
  assumes ok: "entry_ok k bl p n" and n: "n < 10 ^ 10" "adj < 10 ^ 10"
    and r: "adjust_record (entry_text k bl p n) adj = Some r" and t: "adjust t adj = Some t'"
  shows "adjust (entry_text k bl p n @ t) adj = Some (r @ t')"
proof -
  have "length (entry_text k bl p n) \<noteq> 0" by (simp add: entry_text_def Let_def)
  then show ?thesis
    using r t by (subst adjust.simps) (simp add: atoi_entry_text [OF ok])
qed

text \<open>A record that keeps its place, with a lower offset.\<close>

lemma adjust_record_entry:
  assumes ok: "entry_ok k bl p n" and n: "n < 10 ^ 10" "adj \<le> n"
  defines "p' \<equiv> p + length (dec_digits n) - length (dec_digits (n - adj))"
  shows "adjust_record (entry_text k bl p n) adj = Some (entry_text k bl p' (n - adj)) \<and> entry_ok k bl p' (n - adj)"
proof -
  have mono: "length (dec_digits (n - adj)) \<le> length (dec_digits n)" by (rule dec_digits_mono) simp
  have len: "length (entry_body k bl p' (n - adj)) = length (entry_body k bl p n)"
    using mono by (simp add: entry_body_length p'_def)
  define A where "A = (let es = dec_digits (4 + length (entry_body k bl p n))
      in es @ replicate (4 - length es) (CHR '' '') @ dec_digits (length k) @ '' '' @ k @ '' '' @ dec_digits bl)"
  have split: "replicate q (CHR '' '') @ '' '' = '' '' @ replicate q (CHR '' '')" for q
    by (simp add: replicate_append_same)
  have e1: "entry_text k bl p n = (A @ replicate p (CHR '' '')) @ '' '' @ dec_digits n @ CRLF"
    using split [of p] by (simp add: entry_text_def entry_body_def A_def Let_def)
  have pp: "p' = p + (length (dec_digits n) - length (dec_digits (n - adj)))" using mono by (simp add: p'_def)
  have "'' '' @ replicate p' (CHR '' '') @ dec_digits (n - adj) @ CRLF =
      replicate p (CHR '' '') @ '' '' @ replicate (length (dec_digits n) - length (dec_digits (n - adj))) (CHR '' '') @
        dec_digits (n - adj) @ CRLF"
    unfolding pp replicate_add using split [of p] by (metis append_assoc)
  then have e2: "entry_text k bl p' (n - adj) = (A @ replicate p (CHR '' '')) @ '' '' @
      replicate (length (dec_digits n) - length (dec_digits (n - adj))) (CHR '' '') @ dec_digits (n - adj) @ CRLF"
    unfolding entry_text_def len unfolding A_def entry_body_def Let_def by simp
  show ?thesis
    using adjust_record_lower [OF n, of "A @ replicate p (CHR '' '')"] ok len by (simp add: e1 e2 entry_ok_def)
qed

lemma adjust_render:
  "entries_ok ofs es \<Longrightarrow> ofs + length (blobs es) < 10 ^ 10 \<Longrightarrow> adj \<le> ofs \<Longrightarrow>
   \<exists>es'. adjust (render ofs es) adj = Some (render (ofs - adj) es') \<and> entries_ok (ofs - adj) es' \<and>
     map (\<lambda>(k, b, p). (k, b)) es' = map (\<lambda>(k, b, p). (k, b)) es \<and> length (render (ofs - adj) es') = length (render ofs es)"
proof (induction ofs es rule: render.induct)
  case (1 ofs)
  then show ?case by (subst adjust.simps) (auto intro: exI [of _ "[]"])
next
  case (2 ofs k b p es)
  have ok: "entry_ok k (length b) p ofs" and n: "ofs < 10 ^ 10" "adj < 10 ^ 10" using "2.prems" by auto
  let ?p = "p + length (dec_digits ofs) - length (dec_digits (ofs - adj))"
  have r: "adjust_record (entry_text k (length b) p ofs) adj = Some (entry_text k (length b) ?p (ofs - adj))"
    "entry_ok k (length b) ?p (ofs - adj)" using adjust_record_entry [OF ok n(1) "2.prems"(3)] by simp_all
  obtain es' where es': "adjust (render (ofs + length b) es) adj = Some (render (ofs + length b - adj) es')"
    "entries_ok (ofs + length b - adj) es'" "map (\<lambda>(k, b, p). (k, b)) es' = map (\<lambda>(k, b, p). (k, b)) es"
    "length (render (ofs + length b - adj) es') = length (render (ofs + length b) es)"
    using "2.IH" "2.prems" by auto
  have eq: "ofs + length b - adj = ofs - adj + length b" using "2.prems"(3) by simp
  have "length (entry_body k (length b) ?p (ofs - adj)) = length (entry_body k (length b) p ofs)"
    using dec_digits_mono [of "ofs - adj" ofs] by (simp add: entry_body_length)
  then have "length (entry_text k (length b) ?p (ofs - adj)) = length (entry_text k (length b) p ofs)"
    using ok r(2) by (simp add: length_entry_text entry_ok_def)
  then show ?case
    using adjust_entry [OF ok n r(1) es'(1)] r(2) es' unfolding eq
    by (intro exI [of _ "(k, b, ?p) # es'"]) simp
qed

section \<open>The repository of a class\<close>

abbreviation strip_pad :: "entry list \<Rightarrow> (string \<times> string) list" where
  "strip_pad es \<equiv> map (\<lambda>(k, b, p). (k, b)) es"

text \<open>
  The files of the class hold the objects \<open>xs\<close>, whose offsets are values of an \<open>int\<close>, so that \<open>atoi\<close> reads
  them exactly. The paths of the two temporary files must not be those of the class.
\<close>

definition class_ok :: "string \<Rightarrow> bool" where
  "class_ok cls \<longleftrightarrow> map tolower cls \<noteq> ''inst'' \<and> map tolower cls \<noteq> ''idx''"

definition repo :: "string \<Rightarrow> string \<Rightarrow> string \<Rightarrow> files \<Rightarrow> (string \<times> string) list \<Rightarrow> bool" where
  "repo dir ns cls fs xs \<longleftrightarrow>
     distinct (map fst xs) \<and> length (concat (map snd xs)) < 2 ^ 31 \<and>
     (\<exists>es. strip_pad es = xs \<and> entries_ok 0 es \<and>
        (if es = [] then fs (fnx dir ns cls) \<in> {None, Some []}
         else fs (fnx dir ns cls) = Some (render 0 es) \<and> fs (fnd dir ns cls) = Some (blobs es)))"

lemma blobs_strip: "strip_pad es = strip_pad es' \<Longrightarrow> blobs es = blobs es'"
  unfolding blobs_def by (metis (mono_tags, lifting) case_prod_unfold comp_def map_eq_conv map_map snd_conv fst_conv)

lemma blobs_concat: "blobs es = concat (map snd (strip_pad es))"
  unfolding blobs_def by (simp add: case_prod_unfold comp_def)

lemma keys_strip: "keys es = map fst (strip_pad es)"
  unfolding keys_def by (simp add: case_prod_unfold comp_def)

lemma render_empty: "render ofs es = [] \<longleftrightarrow> es = []"
  by (cases "(ofs, es)" rule: render.cases) (simp_all add: entry_text_def Let_def)

lemma blobs_empty: "entries_ok ofs es \<Longrightarrow> blobs es = [] \<longleftrightarrow> es = []"
  by (cases "(ofs, es)" rule: render.cases) (auto simp: entry_ok_def)

lemma paths:
  assumes "class_ok cls"
  shows "fnd dir ns cls \<noteq> ns_dir dir ns @ ''inst''" "fnd dir ns cls \<noteq> ns_dir dir ns @ ''idx''"
    "fnx dir ns cls \<noteq> ns_dir dir ns @ ''inst''" "fnx dir ns cls \<noteq> ns_dir dir ns @ ''idx''" "fnx dir ns cls \<noteq> fnd dir ns cls"
proof -
  show "fnd dir ns cls \<noteq> ns_dir dir ns @ ''inst''" "fnd dir ns cls \<noteq> ns_dir dir ns @ ''idx''"
    "fnx dir ns cls \<noteq> fnd dir ns cls"
    using assms by (simp_all add: fnd_def fnx_def class_ok_def)
  have "last (map tolower cls @ ''.idx'') \<noteq> last ''inst''" by simp
  then have "map tolower cls @ ''.idx'' \<noteq> ''inst''" by metis
  then show "fnx dir ns cls \<noteq> ns_dir dir ns @ ''inst''" by (simp add: fnd_def fnx_def)
  have "length (map tolower cls @ ''.idx'') \<noteq> length ''idx''" by simp
  then have "map tolower cls @ ''.idx'' \<noteq> ''idx''" by metis
  then show "fnx dir ns cls \<noteq> ns_dir dir ns @ ''idx''" by (simp add: fnd_def fnx_def)
qed

text \<open>Files an operation does not touch.\<close>

definition frame :: "string \<Rightarrow> string \<Rightarrow> string \<Rightarrow> files \<Rightarrow> files \<Rightarrow> bool" where
  "frame dir ns cls fs fs' \<longleftrightarrow>
     (\<forall>q. q \<notin> {fnd dir ns cls, fnx dir ns cls, ns_dir dir ns @ ''inst'', ns_dir dir ns @ ''idx''} \<longrightarrow> fs' q = fs q)"

lemma replace_files_ok:
  assumes "class_ok cls"
  shows "frame dir ns cls fs (replace_files dir ns cls x d fs)"
    "replace_files dir ns cls x d fs (fnx dir ns cls) = (if x = [] then None else Some x)"
    "replace_files dir ns cls x d fs (fnd dir ns cls) = (if d = [] then None else Some d)"
  using paths [OF assms, of dir ns] by (auto simp: replace_files_def frame_def Let_def)

lemma rebuild_ok:
  assumes c: "class_ok cls" and ok: "entries_ok 0 (us @ (k, b, p) # vs)"
    and data: "fs (fnd dir ns cls) = Some (blobs us @ b @ rest)" "blobs vs = rest @ blob"
    and small: "length (blobs us @ b @ blobs vs) < 10 ^ 10"
    and bi: "bi_index bi = render 0 (us @ (k, b, p) # vs)" "bi_pos bi = length (render 0 us)"
      "bi_len bi = length (entry_text k (length b) p (length (blobs us)))"
      "bi_blen bi = length b" "bi_bofs bi = length (blobs us)"
  shows "\<exists>fs' vs'. rebuild dir ns cls bi (length (blobs us @ b @ rest)) blob fs = Some fs' \<and> strip_pad vs' = strip_pad vs \<and>
    entries_ok 0 (us @ vs') \<and> frame dir ns cls fs fs' \<and>
    (if us @ vs' = [] then fs' (fnx dir ns cls) = None
     else fs' (fnx dir ns cls) = Some (render 0 (us @ vs')) \<and> fs' (fnd dir ns cls) = Some (blobs (us @ vs')))"
proof -
  let ?o = "length (blobs us)" and ?t = "entry_text k (length b) p (length (blobs us))"
  have eok: "entry_ok k (length b) p ?o" "entries_ok 0 us" "entries_ok (?o + length b) vs"
    using ok by (simp_all add: entries_ok_append)
  have n: "?o < 10 ^ 10" "length b < 10 ^ 10" using small by simp_all
  obtain A where A: "?t = A @ '' '' @ dec_digits ?o @ CRLF" using entry_text_split by blast
  obtain r where r: "adjust_record ?t (length b) = Some r" "length r = length ?t"
    unfolding A using adjust_record_length [OF n, of A] by blast
  obtain vs' where vs': "adjust (render (?o + length b) vs) (length b) = Some (render ?o vs')" "entries_ok ?o vs'"
    "strip_pad vs' = strip_pad vs" "length (render ?o vs') = length (render (?o + length b) vs)"
    using adjust_render [OF eok(3), of "length b"] small by auto
  have idx: "bi_index bi = render 0 us @ ?t @ render (?o + length b) vs" using bi(1) by (simp add: render_append)
  have adj: "adjust (drop (bi_pos bi) (bi_index bi)) (bi_blen bi) = Some (r @ render ?o vs')"
    using adjust_entry [OF eok(1) n r(1) vs'(1)] by (simp add: idx bi(2,4))
  let ?x = "render 0 (us @ vs')" and ?d = "blobs (us @ vs')"
  have x: "take (bi_pos bi) (take (bi_pos bi) (bi_index bi) @ r @ render ?o vs') @
      drop (bi_pos bi + bi_len bi) (take (bi_pos bi) (bi_index bi) @ r @ render ?o vs') = ?x"
    using r(2) by (simp add: idx bi(2,3) render_append)
  have bv: "blobs vs' = blobs vs" by (rule blobs_strip [OF vs'(3)])
  have d: "take (bi_bofs bi) (blobs us @ b @ rest) @ take (length (blobs us @ b @ rest) - (bi_bofs bi + bi_blen bi))
      (drop (bi_bofs bi + bi_blen bi) (blobs us @ b @ rest)) @ blob = ?d"
    using data(2) bv by (simp add: bi(4,5))
  have okv: "entries_ok 0 (us @ vs')" using eok vs'(2) by (simp add: entries_ok_append)
  note P = paths [OF c, of dir ns]
  have "rebuild dir ns cls bi (length (blobs us @ b @ rest)) blob fs = Some (replace_files dir ns cls ?x ?d fs)"
    unfolding rebuild_def adj Let_def bind.bind_lunit x d using P data bv by (simp add: bi(4,5))
  moreover have "if us @ vs' = [] then replace_files dir ns cls ?x ?d fs (fnx dir ns cls) = None
     else replace_files dir ns cls ?x ?d fs (fnx dir ns cls) = Some ?x \<and> replace_files dir ns cls ?x ?d fs (fnd dir ns cls) = Some ?d"
    using replace_files_ok(2,3) [OF c] render_empty [of 0 "us @ vs'"] blobs_empty [OF okv] by metis
  moreover have "frame dir ns cls fs (replace_files dir ns cls ?x ?d fs)" by (rule replace_files_ok(1) [OF c])
  ultimately show ?thesis using vs'(3) okv by blast
qed

lemma strip_pad_split:
  assumes "strip_pad es = xs @ (k, b) # ys"
  obtains us p vs where "es = us @ (k, b, p) # vs" "strip_pad us = xs" "strip_pad vs = ys"
  using assms by (auto simp: map_eq_append_conv map_eq_Cons_conv)

lemma same_key_False [simp]: "same_key False k key \<longleftrightarrow> k = key"
  by (simp add: same_key_def)

lemma locate_in_repo:
  assumes "entries_ok 0 (us @ (k, b, p) # vs)" "distinct (keys (us @ (k, b, p) # vs))"
    "bi_index bi = render 0 (us @ (k, b, p) # vs)"
  shows "\<exists>bi'. indxLocate bi k = Some (bi', True) \<and> bi_index bi' = bi_index bi \<and>
     bi_pos bi' = length (render 0 us) \<and> bi_len bi' = length (entry_text k (length b) p (length (blobs us))) \<and>
     bi_blen bi' = length b \<and> bi_bofs bi' = length (blobs us)"
proof -
  have "k \<noteq> []" using assms(1) by (simp add: entries_ok_append entry_ok_def key_ok_def)
  then show ?thesis
    using locate_found [of "bi\<lparr>bi_next := 0\<rparr>" "[]" 0 us k b p vs k False] assms
    by (auto simp: indxLocate_def indxLocateCase_def)
qed

lemma locate_not_in_repo:
  assumes "entries_ok 0 es" "key \<notin> set (keys es)" "key \<noteq> []" "bi_index bi = render 0 es"
  shows "\<exists>bi'. indxLocate bi key = Some (bi', False) \<and> bi_index bi' = bi_index bi"
  using locate_absent [of "bi\<lparr>bi_next := 0\<rparr>" "[]" 0 es key False] assms
  by (auto simp: indxLocate_def indxLocateCase_def)

abbreviation index_of :: "string \<Rightarrow> blob_index" where
  "index_of t \<equiv> \<lparr>bi_index = t, bi_pos = 0, bi_len = 0, bi_blen = 0, bi_bofs = 0, bi_next = 0\<rparr>"

lemma getIndex_Some: "fs (fnx dir ns cls) = Some t \<Longrightarrow> getIndex dir ns cls mki fs = Some (fs, index_of t)"
  by (simp add: getIndex_def Let_def)

text \<open>The operations on a class whose repository is not empty.\<close>

lemma repo_nonempty:
  assumes "repo dir ns cls fs xs" "xs \<noteq> []"
  obtains es where "strip_pad es = xs" "entries_ok 0 es" "distinct (keys es)" "es \<noteq> []"
    "fs (fnx dir ns cls) = Some (render 0 es)" "fs (fnd dir ns cls) = Some (blobs es)"
  using assms unfolding repo_def by (auto simp: keys_strip split: if_splits)

lemma repo_small: "repo dir ns cls fs xs \<Longrightarrow> length (concat (map snd xs)) < 2 ^ 31"
  by (simp add: repo_def)

lemma repoI:
  assumes "distinct (map fst (strip_pad es))" "length (blobs es) < 2 ^ 31" "entries_ok 0 es"
    "if es = [] then fs (fnx dir ns cls) = None
     else fs (fnx dir ns cls) = Some (render 0 es) \<and> fs (fnd dir ns cls) = Some (blobs es)"
  shows "repo dir ns cls fs (strip_pad es)"
  unfolding repo_def using assms unfolding blobs_concat by (auto intro!: exI [of _ es] split: if_splits)

lemma deleteBlob_present:
  assumes r: "repo dir ns cls fs (xs @ (k, b) # ys)" and c: "class_ok cls"
  shows "\<exists>fs'. deleteBlob dir ns cls k fs = Some (fs', 0) \<and> repo dir ns cls fs' (xs @ ys) \<and> frame dir ns cls fs fs'"
proof -
  obtain es where es: "strip_pad es = xs @ (k, b) # ys" "entries_ok 0 es" "distinct (keys es)"
    "fs (fnx dir ns cls) = Some (render 0 es)" "fs (fnd dir ns cls) = Some (blobs es)"
    using repo_nonempty [OF r] by auto
  obtain us p vs where u: "es = us @ (k, b, p) # vs" "strip_pad us = xs" "strip_pad vs = ys"
    using strip_pad_split [OF es(1)] by blast
  obtain bi where bi: "indxLocate (index_of (render 0 es)) k = Some (bi, True)" "bi_index bi = render 0 es"
     "bi_pos bi = length (render 0 us)" "bi_len bi = length (entry_text k (length b) p (length (blobs us)))"
     "bi_blen bi = length b" "bi_bofs bi = length (blobs us)"
    using locate_in_repo [of us k b p vs "index_of (render 0 es)"] es u by auto
  have small: "length (blobs us @ b @ blobs vs) < 2 ^ 31" using repo_small [OF r] u by (simp add: blobs_concat)
  then have "length (blobs us @ b @ blobs vs) < 10 ^ 10" by simp
  then obtain fs' vs' where f: "rebuild dir ns cls bi (length (blobs us @ b @ blobs vs)) [] fs = Some fs'"
     "strip_pad vs' = strip_pad vs" "entries_ok 0 (us @ vs')" "frame dir ns cls fs fs'"
     "if us @ vs' = [] then fs' (fnx dir ns cls) = None
      else fs' (fnx dir ns cls) = Some (render 0 (us @ vs')) \<and> fs' (fnd dir ns cls) = Some (blobs (us @ vs'))"
    using rebuild_ok [OF c, of us k b p vs fs dir ns "blobs vs" "[]" bi] es(2,5) u(1) bi(2-) by auto
  have "distinct (map fst (strip_pad (us @ vs')))" using es(3) u f(2) by (auto simp: keys_strip)
  moreover have "length (blobs (us @ vs')) < 2 ^ 31" using small blobs_strip [OF f(2)] by simp
  ultimately have "repo dir ns cls fs' (xs @ ys)" using repoI [OF _ _ f(3,5)] u f(2) by simp
  then show ?thesis
    using f(1,4) bi(1) es(4,5) u(1) by (auto simp: deleteBlob_def getIndex_Some)
qed

lemma deleteBlob_absent:
  assumes r: "repo dir ns cls fs xs" and k: "k \<notin> fst ` set xs" "k \<noteq> []"
  shows "deleteBlob dir ns cls k fs = Some (fs, 1)"
proof (cases "xs = []")
  case True
  then have "fs (fnx dir ns cls) \<in> {None, Some []}" using r by (auto simp: repo_def split: if_splits)
  then show ?thesis
    using locate_not_in_repo [of "[]" k "index_of []"] k
    by (auto simp: deleteBlob_def getIndex_Some) (simp add: getIndex_def)
next
  case False
  obtain es where es: "strip_pad es = xs" "entries_ok 0 es" "fs (fnx dir ns cls) = Some (render 0 es)"
    using repo_nonempty [OF r False] by auto
  have "k \<notin> set (keys es)" using k es(1) by (auto simp: keys_strip)
  then show ?thesis
    using locate_not_in_repo [OF es(2) _ k(2), of "index_of (render 0 es)"] es(3)
    by (auto simp: deleteBlob_def getIndex_Some)
qed

text \<open>Keys of up to 900 characters leave the length of a record at three digits.\<close>

lemma new_entry_ok:
  assumes "key_ok k" "length k \<le> 900" "b \<noteq> []" "n + length b < 10 ^ 10"
  shows "entry_ok k (length b) 0 n" "index_entry k (length b) n = entry_text k (length b) 0 n"
proof -
  have "length (dec_digits (length k)) \<le> 3" "length (dec_digits (length b)) \<le> 10" "length (dec_digits n) \<le> 10"
    using assms dec_digits_length [of "length k" 3] dec_digits_length [of "length b" 10] dec_digits_length [of n 10] by simp_all
  then have len: "4 + length (entry_body k (length b) 0 n) < 1000" using assms(2) by (simp add: entry_body_length)
  then show "entry_ok k (length b) 0 n" using assms by (simp add: entry_ok_def)
  show "index_entry k (length b) n = entry_text k (length b) 0 n" by (rule index_entry_text [OF len])
qed

definition without :: "string \<Rightarrow> (string \<times> string) list \<Rightarrow> (string \<times> string) list" where
  "without k xs = filter (\<lambda>x. fst x \<noteq> k) xs"

lemma without_absent: "k \<notin> fst ` set xs \<Longrightarrow> without k xs = xs"
  by (induction xs) (auto simp: without_def)

lemma without_present: "distinct (map fst (ys @ (k, b) # zs)) \<Longrightarrow> without k (ys @ (k, b) # zs) = ys @ zs"
proof -
  assume "distinct (map fst (ys @ (k, b) # zs))"
  then have "k \<notin> fst ` set ys" "k \<notin> fst ` set zs" by auto
  then show ?thesis using without_absent [of k ys] without_absent [of k zs] by (simp add: without_def)
qed

lemma repo_distinct: "repo dir ns cls fs xs \<Longrightarrow> distinct (map fst xs)"
  by (simp add: repo_def)

text \<open>Adding to a class without objects, adding a new key, and replacing the object of a key.\<close>

lemma addBlob_empty:
  assumes r: "repo dir ns cls fs []" and k: "key_ok k" "length k \<le> 900" "b \<noteq> []" "length b < 2 ^ 31" and c: "class_ok cls"
  shows "\<exists>fs'. addBlob dir ns cls k b fs = Some (fs', 0) \<and> repo dir ns cls fs' [(k, b)] \<and> frame dir ns cls fs fs'"
proof -
  have n: "entry_ok k (length b) 0 0" "index_entry k (length b) 0 = entry_text k (length b) 0 0"
    using new_entry_ok [of k b 0] k by simp_all
  let ?f = "fs(fnd dir ns cls \<mapsto> b, fnx dir ns cls \<mapsto> index_entry k (length b) 0)"
  have "fs (fnx dir ns cls) \<in> {None, Some []}" using r by (auto simp: repo_def split: if_splits)
  then have "addBlob dir ns cls k b fs = Some (?f, 0)"
    by (auto simp: addBlob_def getIndex_def Let_def fun_upd_twist [OF paths(5) [OF c]])
  moreover have "repo dir ns cls ?f (strip_pad [(k, b, 0)])"
    using n k(4) paths [OF c, of dir ns] by (intro repoI) simp_all
  ultimately show ?thesis by (auto simp: frame_def)
qed

lemma addBlob_new:
  assumes r: "repo dir ns cls fs xs" and ne: "xs \<noteq> []" and new: "k \<notin> fst ` set xs"
    and k: "key_ok k" "length k \<le> 900" "b \<noteq> []" "length (concat (map snd xs)) + length b < 2 ^ 31" and c: "class_ok cls"
  shows "\<exists>fs'. addBlob dir ns cls k b fs = Some (fs', 0) \<and> repo dir ns cls fs' (xs @ [(k, b)]) \<and> frame dir ns cls fs fs'"
proof -
  obtain es where es: "strip_pad es = xs" "entries_ok 0 es" "distinct (keys es)" "es \<noteq> []"
    "fs (fnx dir ns cls) = Some (render 0 es)" "fs (fnd dir ns cls) = Some (blobs es)"
    using repo_nonempty [OF r ne] by auto
  have n: "entry_ok k (length b) 0 (length (blobs es))"
    "index_entry k (length b) (length (blobs es)) = entry_text k (length b) 0 (length (blobs es))"
    using new_entry_ok [OF k(1-3), of "length (blobs es)"] k(4) es(1) by (simp_all add: blobs_concat)
  have "k \<notin> set (keys es)" "k \<noteq> []" using new es(1) k(1) by (auto simp: keys_strip key_ok_def)
  then obtain bi where bi: "indxLocate (index_of (render 0 es)) k = Some (bi, False)" "bi_index bi = render 0 es"
    using locate_not_in_repo [OF es(2), of k "index_of (render 0 es)"] by auto
  let ?es = "es @ [(k, b, 0)]"
  let ?f = "fs(fnd dir ns cls \<mapsto> blobs es @ b, fnx dir ns cls \<mapsto> render 0 ?es)"
  have "addBlob dir ns cls k b fs = Some (?f, 0)"
    using bi es(4-6) n(2) render_empty [of 0 es] by (simp add: addBlob_def getIndex_Some render_append Let_def)
  moreover have "repo dir ns cls ?f (strip_pad ?es)"
    using n(1) es(1-3) k(4) \<open>k \<notin> set (keys es)\<close> paths [OF c, of dir ns]
    by (intro repoI) (simp_all add: entries_ok_append keys_strip blobs_concat)
  ultimately show ?thesis using es(1) by (auto simp: frame_def)
qed

lemma addBlob_replace:
  assumes r: "repo dir ns cls fs (ys @ (k, b0) # zs)"
    and k: "key_ok k" "length k \<le> 900" "b \<noteq> []" "length (concat (map snd (ys @ (k, b0) # zs))) + length b < 2 ^ 31"
    and c: "class_ok cls"
  shows "\<exists>fs'. addBlob dir ns cls k b fs = Some (fs', 0) \<and> repo dir ns cls fs' (ys @ zs @ [(k, b)]) \<and> frame dir ns cls fs fs'"
proof -
  obtain es where es: "strip_pad es = ys @ (k, b0) # zs" "entries_ok 0 es" "distinct (keys es)" "es \<noteq> []"
    "fs (fnx dir ns cls) = Some (render 0 es)" "fs (fnd dir ns cls) = Some (blobs es)"
    using repo_nonempty [OF r] by auto
  obtain us p vs where u: "es = us @ (k, b0, p) # vs" "strip_pad us = ys" "strip_pad vs = zs"
    using strip_pad_split [OF es(1)] by blast
  have n: "entry_ok k (length b) 0 (length (blobs es))"
    "index_entry k (length b) (length (blobs es)) = entry_text k (length b) 0 (length (blobs es))"
    using new_entry_ok [OF k(1-3), of "length (blobs es)"] k(4) es(1) by (simp_all add: blobs_concat)
  obtain bi where bi: "indxLocate (index_of (render 0 es)) k = Some (bi, True)" "bi_index bi = render 0 es"
     "bi_pos bi = length (render 0 us)" "bi_len bi = length (entry_text k (length b0) p (length (blobs us)))"
     "bi_blen bi = length b0" "bi_bofs bi = length (blobs us)"
    using locate_in_repo [of us k b0 p vs "index_of (render 0 es)"] es u by auto
  let ?vs = "vs @ [(k, b, 0)]"
  let ?bi = "bi\<lparr>bi_index := render 0 (us @ (k, b0, p) # ?vs)\<rparr>"
  have idx: "bi_index bi @ index_entry k (length b) (length (blobs es)) = render 0 (us @ (k, b0, p) # ?vs)"
    using bi(2) n(2) render_append [of 0 es "[(k, b, 0)]"] u(1) by simp
  have ok: "entries_ok 0 (us @ (k, b0, p) # ?vs)"
    using es(2) n(1) entries_ok_append [of 0 es "[(k, b, 0)]"] u(1) by simp
  have small31: "length (blobs us @ b0 @ blobs ?vs) < 2 ^ 31" using k(4) u by (simp add: blobs_concat)
  then have small: "length (blobs us @ b0 @ blobs ?vs) < 10 ^ 10" by simp
  obtain fs' vs' where f: "rebuild dir ns cls ?bi (length (blobs us @ b0 @ blobs vs)) b fs = Some fs'"
     "strip_pad vs' = strip_pad ?vs" "entries_ok 0 (us @ vs')" "frame dir ns cls fs fs'"
     "if us @ vs' = [] then fs' (fnx dir ns cls) = None
      else fs' (fnx dir ns cls) = Some (render 0 (us @ vs')) \<and> fs' (fnd dir ns cls) = Some (blobs (us @ vs'))"
    using rebuild_ok [OF c ok _ _ small, of fs dir ns "blobs vs" b ?bi] es(6) u(1) bi(3-) by auto
  have "distinct (map fst (strip_pad (us @ vs')))" using es(3) u f(2) by (auto simp: keys_strip)
  moreover have "length (blobs (us @ vs')) < 2 ^ 31" using small31 blobs_strip [OF f(2)] by simp
  ultimately have "repo dir ns cls fs' (ys @ zs @ [(k, b)])" using repoI [OF _ _ f(3,5)] u f(2) by simp
  moreover have "addBlob dir ns cls k b fs = Some (fs', 0)"
    using f(1) bi(1) es(4-6) idx u(1) render_empty [of 0 es] by (simp add: addBlob_def getIndex_Some)
  ultimately show ?thesis using f(4) by blast
qed

lemma read_blob_at:
  assumes "bi_blen bi = length b" "bi_bofs bi = length us"
  shows "read_blob bi (us @ b @ vs) = Some b"
  using assms by (simp add: read_blob_def)

lemma find_first:
  assumes "find P xs = Some x"
  obtains us vs where "xs = us @ x # vs" "P x" "\<forall>y\<in>set us. \<not> P y"
proof -
  obtain i where i: "i < length xs" "P (xs ! i)" "x = xs ! i" "\<forall>j<i. \<not> P (xs ! j)"
    using assms by (auto simp: find_Some_iff)
  have "xs = take i xs @ x # drop (Suc i) xs" using i by (simp add: id_take_nth_drop)
  moreover have "\<forall>y\<in>set (take i xs). \<not> P y" using i(1,4) by (auto simp: in_set_conv_nth)
  ultimately show thesis using that i by metis
qed

lemma repo_locate:
  assumes r: "repo dir ns cls fs xs" and k: "k \<noteq> []"
  shows "getIndex dir ns cls False fs = None \<and> xs = [] \<or>
    (\<exists>bi bi'. getIndex dir ns cls False fs = Some (fs, bi) \<and>
      (case find (\<lambda>x. same_key ic (fst x) k) xs of
         None \<Rightarrow> indxLocateCase bi k ic = Some (bi', False)
       | Some x \<Rightarrow> indxLocateCase bi k ic = Some (bi', True) \<and>
           (\<exists>data. fs (fnd dir ns cls) = Some data \<and> read_blob bi' data = Some (snd x))))"
proof (cases "xs = []")
  case True
  then have "fs (fnx dir ns cls) = None \<or> fs (fnx dir ns cls) = Some []" using r by (auto simp: repo_def split: if_splits)
  then show ?thesis
  proof
    assume "fs (fnx dir ns cls) = Some []"
    then show ?thesis
      using True locate_absent [of "index_of []" "[]" 0 "[]" k ic] k getIndex_Some [of fs dir ns cls "[]"]
      by (auto simp: indxLocateCase_def)
  qed (use True in \<open>simp add: getIndex_def\<close>)
next
  case False
  obtain es where es: "strip_pad es = xs" "entries_ok 0 es" "fs (fnx dir ns cls) = Some (render 0 es)"
    "fs (fnd dir ns cls) = Some (blobs es)" using repo_nonempty [OF r False] by metis
  let ?bi = "index_of (render 0 es)"
  show ?thesis
  proof (cases "find (\<lambda>x. same_key ic (fst x) k) xs")
    case None
    then have "\<forall>key\<in>set (keys es). \<not> same_key ic key k" using es(1) by (auto simp: find_None_iff keys_strip)
    then show ?thesis
      using locate_absent [of ?bi "[]" 0 es k ic] es(2,3) k None getIndex_Some [of fs dir ns cls]
      by (auto simp: indxLocateCase_def)
  next
    case (Some x)
    then obtain ys zs where x: "xs = ys @ (fst x, snd x) # zs" "same_key ic (fst x) k" "\<forall>y\<in>set ys. \<not> same_key ic (fst y) k"
      using find_first [OF Some] by auto
    obtain us p vs where u: "es = us @ (fst x, snd x, p) # vs" "strip_pad us = ys" "strip_pad vs = zs"
      using strip_pad_split [of es ys "fst x" "snd x" zs] es(1) x(1) by blast
    have "\<forall>key\<in>set (keys us). \<not> same_key ic key k" using x(3) u(2) by (auto simp: keys_strip)
    then obtain bi' where "indxLocateCase ?bi k ic = Some (bi', True)" "bi_blen bi' = length (snd x)"
       "bi_bofs bi' = length (blobs us)"
      using locate_found [of ?bi "[]" 0 us "fst x" "snd x" p vs k ic] es(2) u(1) k x(2) by (auto simp: indxLocateCase_def)
    then show ?thesis
      using Some es(3,4) u(1) read_blob_at [of bi' "snd x" "blobs us" "blobs vs"] getIndex_Some [of fs dir ns cls] by auto
  qed
qed

lemma getNext_at:
  assumes "bi_index bi = pre @ render ofs ((k, b, p) # es)" "bi_next bi = length pre" "entries_ok ofs ((k, b, p) # es)"
    "data = us @ b @ vs" "ofs = length us"
  shows "getNext bi data = Some (at_record bi (length pre) (length (entry_text k (length b) p ofs)) (length b) ofs, Some (k, b))"
  using assms getIndexRecord_entry [of k "length b" p ofs bi pre "render (ofs + length b) es" "[]" False]
    read_blob_at [of _ b us vs]
  by (simp add: getNext_def getIndexRecord_def at_record_def Let_def)

lemma list_from_ok:
  "bi_index bi = pre @ render ofs es \<Longrightarrow> bi_next bi = length pre \<Longrightarrow> entries_ok ofs es \<Longrightarrow>
   data = us @ blobs es \<Longrightarrow> ofs = length us \<Longrightarrow> list_from bi data (Some x) = Some (x # strip_pad es)"
proof (induction ofs es arbitrary: bi pre us x rule: render.induct)
  case (1 ofs)
  then have "getNext bi data = Some (bi, None)"
    by (simp add: getNext_def getIndexRecord_def getIndexRecordCase_def)
  then show ?case by (simp add: list_from.simps [of bi] list_from.simps [of bi _ None])
next
  case (2 ofs k b p es)
  let ?t = "entry_text k (length b) p ofs"
  let ?bi = "at_record bi (length pre) (length ?t) (length b) ofs"
  have "getNext bi data = Some (?bi, Some (k, b))"
    using getNext_at [OF "2.prems"(1-3), of data us "blobs es"] "2.prems"(4,5) by simp
  moreover have "list_from ?bi data (Some (k, b)) = Some ((k, b) # strip_pad es)"
    by (rule "2.IH" [of ?bi "pre @ ?t" "us @ b"]) (use "2.prems" in auto)
  ultimately show ?case by (subst list_from.simps) simp
qed

lemma getFirst_getNext: "getFirst bi data = getNext (bi\<lparr>bi_next := 0\<rparr>) data"
  by (simp add: getFirst_def getNext_def)

section \<open>Properties\<close>

text \<open> C15. \<open>addBlob\<close> stores an object: it always succeeds, replaces the object of the same key and adds a new one at the end, leaves
  all other objects and all files of other classes as they are, and keeps the index, with all its offsets
  after an object was taken out, an exact description of the data. It is proved for keys that do not begin with a
  blank and have at most 900 characters, objects that are not empty, and a total below \<open>2 ^ 31\<close> bytes.\<close>

theorem addBlob_correct:
  assumes r: "repo dir ns cls fs xs" and c: "class_ok cls" and k: "key_ok k" "length k \<le> 900" "b \<noteq> []"
    and small: "length (concat (map snd xs)) + length b < 2 ^ 31"
  shows "\<exists>fs'. addBlob dir ns cls k b fs = Some (fs', 0) \<and> repo dir ns cls fs' (without k xs @ [(k, b)]) \<and>
    frame dir ns cls fs fs'"
proof (cases "k \<in> fst ` set xs")
  case True
  then obtain ys b0 zs where xs: "xs = ys @ (k, b0) # zs" using split_list by (metis imageE prod.collapse)
  then show ?thesis
    using addBlob_replace [of dir ns cls fs ys k b0 zs b] r k small c without_present [of ys k b0 zs] repo_distinct [OF r] by simp
next
  case False
  show ?thesis
  proof (cases "xs = []")
    case True
    then show ?thesis using addBlob_empty [of dir ns cls fs k b] r k small c by (simp add: without_def)
  next
    case ne: False
    show ?thesis using addBlob_new [OF r ne False k small c] without_absent [OF False] by simp
  qed
qed

theorem addBlob_correct_witness:
  "\<exists>fs' fs''. addBlob ''/r/'' ''root'' ''CIM_A'' ''1'' ''xy'' (\<lambda>_. None) = Some (fs', 0) \<and>
     addBlob ''/r/'' ''root'' ''CIM_A'' ''1'' ''z'' fs' = Some (fs'', 0) \<and> repo ''/r/'' ''root'' ''CIM_A'' fs'' [(''1'', ''z'')]"
proof -
  have c: "class_ok ''CIM_A''" by code_simp
  have k: "key_ok ''1''" by code_simp
  have "repo ''/r/'' ''root'' ''CIM_A'' (\<lambda>_. None) []" by (simp add: repo_def)
  from addBlob_correct [OF this c k, of "''xy''"] obtain fs' where
    f: "addBlob ''/r/'' ''root'' ''CIM_A'' ''1'' ''xy'' (\<lambda>_. None) = Some (fs', 0)" "repo ''/r/'' ''root'' ''CIM_A'' fs' [(''1'', ''xy'')]"
    by (auto simp: without_def)
  from addBlob_correct [OF f(2) c k, of "''z''"] show ?thesis using f(1) by (auto simp: without_def)
qed

lemma deleteBlob_correct_clauses:
  assumes r: "repo dir ns cls fs xs" and c: "class_ok cls" and k: "k \<noteq> []"
  shows "k \<in> fst ` set xs \<Longrightarrow> \<exists>fs'. deleteBlob dir ns cls k fs = Some (fs', 0) \<and> repo dir ns cls fs' (without k xs) \<and>
      frame dir ns cls fs fs'"
    "k \<notin> fst ` set xs \<Longrightarrow> deleteBlob dir ns cls k fs = Some (fs, 1)"
proof -
  show "\<exists>fs'. deleteBlob dir ns cls k fs = Some (fs', 0) \<and> repo dir ns cls fs' (without k xs) \<and> frame dir ns cls fs fs'"
    if kin: "k \<in> fst ` set xs"
  proof -
    obtain ys b0 zs where xs: "xs = ys @ (k, b0) # zs" using kin split_list by (metis imageE prod.collapse)
    show ?thesis
      using deleteBlob_present [OF r [unfolded xs] c] without_present [of ys k b0 zs]
        repo_distinct [OF r [unfolded xs]] unfolding xs by metis
  qed
  show "deleteBlob dir ns cls k fs = Some (fs, 1)" if "k \<notin> fst ` set xs"
    using deleteBlob_absent [OF r that k] .
qed

text \<open> C16. \<open>deleteBlob\<close> removes the object of a key and nothing else and returns 0; when there is none it changes nothing and returns 1.
  The offsets of the objects behind it are lowered accordingly, and other files are not touched.\<close>

theorem deleteBlob_correct:
  assumes r: "repo dir ns cls fs xs" and c: "class_ok cls" and k: "k \<noteq> []"
  shows "(k \<in> fst ` set xs \<longrightarrow>
      (\<exists>fs'. deleteBlob dir ns cls k fs = Some (fs', 0) \<and> repo dir ns cls fs' (without k xs) \<and>
      frame dir ns cls fs fs')) \<and>
   (k \<notin> fst ` set xs \<longrightarrow> deleteBlob dir ns cls k fs = Some (fs, 1))"
  by ((rule deleteBlob_correct_clauses [OF assms]; assumption) | rule conjI | rule impI)+

theorem deleteBlob_correct_witness:
  "\<exists>fs' fs''. addBlob ''/r/'' ''root'' ''CIM_A'' ''1'' ''xy'' (\<lambda>_. None) = Some (fs', 0) \<and>
     deleteBlob ''/r/'' ''root'' ''CIM_A'' ''1'' fs' = Some (fs'', 0) \<and> repo ''/r/'' ''root'' ''CIM_A'' fs'' []"
proof -
  have c: "class_ok ''CIM_A''" by code_simp
  have k: "key_ok ''1''" by code_simp
  have "repo ''/r/'' ''root'' ''CIM_A'' (\<lambda>_. None) []" by (simp add: repo_def)
  from addBlob_empty [OF this k _ _ _ c, of "''xy''"] obtain fs' where
    f: "addBlob ''/r/'' ''root'' ''CIM_A'' ''1'' ''xy'' (\<lambda>_. None) = Some (fs', 0)" "repo ''/r/'' ''root'' ''CIM_A'' fs' [(''1'', ''xy'')]"
    by auto
  from deleteBlob_correct [THEN conjunct1, rule_format, OF f(2) c, of "''1''"] show ?thesis using f(1) by (auto simp: without_def)
qed

lemma getBlob_correct_clauses:
  assumes r: "repo dir ns cls fs xs" and k: "k \<noteq> []"
  shows "cls \<noteq> ''qualifiers'' \<Longrightarrow> getBlob dir ns cls k fs = Some (map_of xs k)"
    "getBlob dir ns cls k fs = Some (map_option snd (find (\<lambda>x. same_key (cls = ''qualifiers'') (fst x) k) xs))"
    "existingBlob dir ns cls k fs = Some (k \<in> fst ` set xs)"
proof -
  have q: "strcmp ''qualifiers'' cls = 0 \<longleftrightarrow> cls = ''qualifiers''" by (auto simp: strcmp_eq_0)
  show g: "getBlob dir ns cls k fs = Some (map_option snd (find (\<lambda>x. same_key (cls = ''qualifiers'') (fst x) k) xs))"
    using repo_locate [OF r k, of "cls = ''qualifiers''"] q
    by (cases "find (\<lambda>x. same_key (cls = ''qualifiers'') (fst x) k) xs") (auto simp: getBlob_def Let_def)
  have m: "map_option snd (find (\<lambda>x. fst x = k) xs) = map_of xs k" for xs :: "(string \<times> string) list"
    by (induction xs) auto
  show "getBlob dir ns cls k fs = Some (map_of xs k)" if "cls \<noteq> ''qualifiers''"
    using g that m by simp
  have "(find (\<lambda>x. fst x = k) xs \<noteq> None) = (k \<in> fst ` set xs)" by (force simp: find_None_iff)
  then show "existingBlob dir ns cls k fs = Some (k \<in> fst ` set xs)"
    using repo_locate [OF r k, of False]
    by (cases "find (\<lambda>x. fst x = k) xs") (auto simp: existingBlob_def indxLocate_def)
qed

text \<open> C17. Reading back: \<open>getBlob\<close> returns the object stored under the key, or NULL when there is none, and
  \<open>existingBlob\<close> tells whether there is one. For the class \<open>qualifiers\<close>, and only there, \<open>getBlob\<close> ignores the case of the key;
  \<open>existingBlob\<close> never does.\<close>

theorem getBlob_correct:
  assumes r: "repo dir ns cls fs xs" and k: "k \<noteq> []"
  shows "(cls \<noteq> ''qualifiers'' \<longrightarrow> getBlob dir ns cls k fs = Some (map_of xs k)) \<and>
   getBlob dir ns cls k fs = Some (map_option snd (find (\<lambda>x. same_key (cls = ''qualifiers'') (fst x) k) xs)) \<and>
   existingBlob dir ns cls k fs = Some (k \<in> fst ` set xs)"
  by ((rule getBlob_correct_clauses [OF assms]; assumption) | rule conjI | rule impI)+

theorem getBlob_correct_witness:
  "\<exists>fs'. addBlob ''/r/'' ''root'' ''CIM_A'' ''1'' ''xy'' (\<lambda>_. None) = Some (fs', 0) \<and>
     getBlob ''/r/'' ''root'' ''CIM_A'' ''1'' fs' = Some (Some ''xy'')"
proof -
  have c: "class_ok ''CIM_A''" by code_simp
  have k: "key_ok ''1''" by code_simp
  have "repo ''/r/'' ''root'' ''CIM_A'' (\<lambda>_. None) []" by (simp add: repo_def)
  from addBlob_empty [OF this k _ _ _ c, of "''xy''"] obtain fs' where
    f: "addBlob ''/r/'' ''root'' ''CIM_A'' ''1'' ''xy'' (\<lambda>_. None) = Some (fs', 0)" "repo ''/r/'' ''root'' ''CIM_A'' fs' [(''1'', ''xy'')]"
    by auto
  from getBlob_correct [THEN conjunct1, rule_format, OF f(2), of "''1''"] show ?thesis using f(1) by auto
qed

text \<open> C18. The loop over \<open>getFirst\<close> and \<open>getNext\<close> ends and returns all keys with their objects, in the order of the index.\<close>

theorem repository_listing:
  assumes "repo dir ns cls fs xs"
  shows "list_blobs dir ns cls fs = Some xs"
proof (cases "xs = []")
  case True
  then have "fs (fnx dir ns cls) \<in> {None, Some []}" using assms by (auto simp: repo_def split: if_splits)
  then show ?thesis
    using True by (auto simp: list_blobs_def getIndex_def getFirst_def getIndexRecord_def getIndexRecordCase_def list_from.simps Let_def)
next
  case False
  obtain es where es: "strip_pad es = xs" "entries_ok 0 es" "es \<noteq> []" "fs (fnx dir ns cls) = Some (render 0 es)"
    "fs (fnd dir ns cls) = Some (blobs es)" using repo_nonempty [OF assms False] by metis
  obtain k b p es' where e: "es = (k, b, p) # es'" using es(3) by (cases es) auto
  let ?bi = "at_record (index_of (render 0 es)) 0 (length (entry_text k (length b) p 0)) (length b) 0"
  have "getFirst (index_of (render 0 es)) (blobs es) = Some (?bi, Some (k, b))"
    using getNext_at [of "index_of (render 0 es)" "[]" 0 k b p es' "blobs es" "[]" "blobs es'"] es(2) e
    by (simp add: getFirst_getNext)
  moreover have "list_from ?bi (blobs es) (Some (k, b)) = Some ((k, b) # strip_pad es')"
    by (rule list_from_ok [of ?bi "entry_text k (length b) p 0" "length b" es' "blobs es" b]) (use es(2) e in auto)
  ultimately show ?thesis using es e by (auto simp: list_blobs_def getIndex_Some Let_def)
qed

theorem repository_listing_witness:
  "\<exists>fs'. addBlob ''/r/'' ''root'' ''CIM_A'' ''1'' ''xy'' (\<lambda>_. None) = Some (fs', 0) \<and>
     list_blobs ''/r/'' ''root'' ''CIM_A'' fs' = Some [(''1'', ''xy'')]"
proof -
  have c: "class_ok ''CIM_A''" by code_simp
  have k: "key_ok ''1''" by code_simp
  have "repo ''/r/'' ''root'' ''CIM_A'' (\<lambda>_. None) []" by (simp add: repo_def)
  from addBlob_empty [OF this k _ _ _ c, of "''xy''"] obtain fs' where
    f: "addBlob ''/r/'' ''root'' ''CIM_A'' ''1'' ''xy'' (\<lambda>_. None) = Some (fs', 0)" "repo ''/r/'' ''root'' ''CIM_A'' fs' [(''1'', ''xy'')]"
    by auto
  from repository_listing [OF f(2)] show ?thesis using f(1) by auto
qed

lemma scan_num_digits:
  assumes "\<forall>c\<in>set ws. is_delim c" "\<forall>c\<in>set ds. is_digit c" "ds \<noteq> []" "\<not> is_digit c"
  shows "scan_num (ws @ ds @ c # t) = Some (digits_value ds, c # t)"
proof -
  have "dropWhile is_delim (ws @ ds @ c # t) = ds @ c # t"
    using assms digit_not_delim by (intro dropWhile_delims) auto
  moreover have "takeWhile is_digit (ds @ c # t) = ds" "dropWhile is_digit (ds @ c # t) = c # t"
    using assms by (simp_all add: takeWhile_append2 dropWhile_append2)
  ultimately show ?thesis using assms(3) by (simp add: scan_num_def Let_def)
qed

lemma digits_value_less: "\<forall>c\<in>set s. is_digit c \<Longrightarrow> digits_value s < 10 ^ length s"
proof (induction s rule: rev_induct)
  case (snoc c s)
  then have "of_char c \<le> (57 :: nat)" by (simp add: is_digit_def)
  then have "of_char c - 48 < (10 :: nat)" by linarith
  moreover have "digits_value s < 10 ^ length s" using snoc by simp
  ultimately show ?case by (simp add: digits_value_snoc)
qed (simp add: digits_value_def)

lemma four_digits: "1000 \<le> n \<Longrightarrow> n < 10000 \<Longrightarrow> length (dec_digits n) = 4"
proof -
  assume n: "1000 \<le> n" "n < 10000"
  have "length (dec_digits 1000) = 4" by code_simp
  then show ?thesis using dec_digits_mono [OF n(1)] dec_digits_length [of n 4] n(2) by simp
qed

text \<open> C19. The limit on the length of a key is real. For a key of 1000 to 9900 characters the length of the record has four digits, the blank
  written after it overwrites the first digit of the length of the key, and the record is never found under
  its key: \<open>addBlob\<close> reports success and the object can be neither read, replaced nor deleted.\<close>

theorem long_key_is_lost:
  assumes k: "1000 \<le> length k" "length k \<le> 9900" "\<not> is_delim (hd k)" and b: "bl < 10 ^ 10" "ofs < 10 ^ 10"
    and bi: "bi_index bi = pre @ index_entry k bl ofs @ post" "bi_next bi = length pre"
  shows "getIndexRecordCase bi k ic \<noteq> Some (bi', Found k')"
proof -
  let ?d = "dec_digits (length k)" and ?n = "4 + length (entry_body k bl 0 ofs)"
  define t where "t = '' '' @ k @ '' '' @ dec_digits bl @ '' '' @ dec_digits ofs @ CRLF @ post"
  have d: "length ?d = 4" "length (dec_digits bl) \<le> 10" "length (dec_digits ofs) \<le> 10"
    using four_digits [of "length k"] k dec_digits_length [of bl 10] dec_digits_length [of ofs 10] b by simp_all
  have n: "length (dec_digits ?n) = 4" by (rule four_digits) (use d k in \<open>simp_all add: entry_body_length\<close>)
  have e: "''    '' @ ?d @ '' '' @ k @ '' '' @ dec_digits bl @ '' '' @ dec_digits ofs @ CRLF =
      ''    '' @ entry_body k bl 0 ofs" by (simp add: entry_body_def)
  have "length (tl ?d) = 3" using d(1) by (simp only: length_tl)
  then have tl: "tl ?d \<noteq> []" "length (tl ?d) = 3" by (metis list.size(3) zero_neq_numeral, assumption)
  have dig: "\<forall>c\<in>set (tl ?d). is_digit c" using dec_digits_digit [of "length k"] by (auto dest: list.set_sel(2) [rotated])
  have "index_entry k bl ofs @ post = dec_digits ?n @ CHR '' '' # tl ?d @ t"
  proof -
    have "drop (4 + 1) (''    '' @ entry_body k bl 0 ofs) = tl (entry_body k bl 0 ofs)"
      by (simp add: drop_Suc)
    also have "\<dots> @ post = tl ?d @ t" by (simp add: entry_body_def t_def tl_append2)
    finally have dr: "drop (4 + 1) (''    '' @ entry_body k bl 0 ofs) @ post = tl ?d @ t" .
    have ln: "length (''    '' @ entry_body k bl 0 ofs) = ?n" by simp
    show ?thesis unfolding index_entry_def e Let_def ln n append_assoc dr by simp
  qed
  then have drop: "drop (length pre) (bi_index bi) = dec_digits ?n @ CHR '' '' # tl ?d @ t" using bi(1) by simp
  have sp: "\<not> is_digit (CHR '' '')" "is_delim (CHR '' '')" by (simp_all add: is_digit_def is_delim_def)
  have 1: "scan_num (drop (length pre) (bi_index bi)) = Some (?n, CHR '' '' # tl ?d @ t)"
    unfolding drop using scan_num_dec [of "[]" "CHR '' ''" ?n] sp(1) by simp
  have 2: "scan_num (CHR '' '' # tl ?d @ t) = Some (digits_value (tl ?d), t)"
    using scan_num_digits [of "'' ''" "tl ?d" "CHR '' ''"] dig tl(1) sp by (simp add: t_def)
  have "digits_value (tl ?d) < 1000" using digits_value_less [OF dig] tl(2) by simp
  then have "length k \<noteq> digits_value (tl ?d)" "k \<noteq> []" using k(1) by auto
  then show ?thesis
    by (auto simp: getIndexRecordCase_def bi(2) 1 2 Let_def split: option.splits if_splits)
qed

theorem long_key_is_lost_witness:
  "getIndexRecordCase (index_of (index_entry (replicate 1000 (CHR ''a'')) 2 0)) (replicate 1000 (CHR ''a'')) False \<noteq>
     Some (index_of [], Found (replicate 1000 (CHR ''a'')))"
  by (rule long_key_is_lost [where pre = "[]" and post = "[]" and bl = 2 and ofs = 0]) (simp_all add: is_delim_def)

end
