(* ===== verification/MRWLock.thy ===== *)
theory MRWLock
  imports Prelude
begin

text \<open>
  The multiple reader, single writer lock of \<open>src/mrwlock.c\<close>, which guards the class registers.
  Any number of threads below a bound \<open>n\<close> calls the four functions in any order; every statement of
  the functions that touches the shared structure is one step of its thread, and the scheduler
  chooses which thread goes on. The mutex and the condition variable are those of POSIX threads: a
  mutex is owned by the thread that locked it, waiting on the condition gives the mutex up, and the
  waiting threads go on by a broadcast or spuriously, after they have locked the mutex again.
  Read locks nest, as \<open>traverseChildren\<close> of \<open>src/classProvider.c\<close> nests them; the number
  of read locks a thread holds is kept beside its program counter.

  Shown: what every reachable state satisfies (the reader count is the number of read locks modulo
  \<open>2^32\<close>, a writer excludes every reader and writer as long as that number fits the counter, and only
  then), and that no operation is stuck: with no new calls to lock, every maximal run ends with all
  locks released, unless a thread asks for the write lock while it holds a read lock, which blocks forever.
\<close>

section \<open>State\<close>

type_synonym tid = nat

text \<open>
  Where a thread is. \<open>Running\<close>: outside the functions of the lock. \<open>Reader k\<close>: in \<open>MReadLock\<close>,
  \<open>ReaderOut k\<close>: in \<open>MReadUnlock\<close>, \<open>Writer k\<close>: in \<open>MWriteLock\<close>, before its statement number \<open>k\<close>.
  \<open>Waiting\<close>: in \<open>pthread_cond_wait\<close>. \<open>Writing\<close>: between \<open>MWriteLock\<close> and \<open>MWriteUnlock\<close>,
  \<open>WriterOut\<close>: in \<open>MWriteUnlock\<close>.
\<close>

datatype pc =
    Running
  | Reader_lock | Reader_add | Reader_unlock
  | ReaderOut_lock | ReaderOut_sub | ReaderOut_broadcast | ReaderOut_unlock
  | Writer_lock | Writer_test | Waiting
  | Writing
  | WriterOut_unlock

record mrwlock =
  mrw_mutex :: "tid option"
  mrw_rnum :: "32 word"
  pcs :: "tid \<Rightarrow> pc"
  held :: "tid \<Rightarrow> nat"
  ret :: "tid \<Rightarrow> int"

definition MRWInit :: mrwlock where
  "MRWInit = \<lparr>mrw_mutex = None, mrw_rnum = 0, pcs = (\<lambda>_. Running), held = (\<lambda>_. 0), ret = (\<lambda>_. 0)\<rparr>"

definition goto :: "tid \<Rightarrow> pc \<Rightarrow> mrwlock \<Rightarrow> mrwlock" where
  "goto t p s = s\<lparr>pcs := (pcs s)(t := p)\<rparr>"

definition return_to :: "tid \<Rightarrow> int \<Rightarrow> pc \<Rightarrow> mrwlock \<Rightarrow> mrwlock" where
  "return_to t r p s = s\<lparr>pcs := (pcs s)(t := p), ret := (ret s)(t := r)\<rparr>"

definition pthread_mutex_lock :: "tid \<Rightarrow> pc \<Rightarrow> mrwlock \<Rightarrow> mrwlock option" where
  "pthread_mutex_lock t p s = (if mrw_mutex s = None then Some (goto t p (s\<lparr>mrw_mutex := Some t\<rparr>)) else None)"

definition pthread_mutex_unlock :: "tid \<Rightarrow> pc \<Rightarrow> mrwlock \<Rightarrow> mrwlock" where
  "pthread_mutex_unlock t p s = return_to t 0 p (s\<lparr>mrw_mutex := None\<rparr>)"

definition pthread_cond_broadcast :: "mrwlock \<Rightarrow> mrwlock" where
  "pthread_cond_broadcast s = s\<lparr>pcs := (\<lambda>t. if pcs s t = Waiting then Writer_lock else pcs s t)\<rparr>"

section \<open>The functions, one statement at a time\<close>

text \<open>
  \<open>f t s\<close> is the state after thread \<open>t\<close> has executed its next statement of the function \<open>f\<close>; \<open>None\<close>
  when it is not in \<open>f\<close> or has to wait.
\<close>

definition MReadLock :: "tid \<Rightarrow> mrwlock \<Rightarrow> mrwlock option" where
  "MReadLock t s =
     (case pcs s t of
        Reader_lock \<Rightarrow> pthread_mutex_lock t Reader_add s
      | Reader_add \<Rightarrow> Some (goto t Reader_unlock (s\<lparr>mrw_rnum := mrw_rnum s + 1\<rparr>))
      | Reader_unlock \<Rightarrow> Some (pthread_mutex_unlock t Running (s\<lparr>held := (held s)(t := held s t + 1)\<rparr>))
      | _ \<Rightarrow> None)"

definition MReadUnlock :: "tid \<Rightarrow> mrwlock \<Rightarrow> mrwlock option" where
  "MReadUnlock t s =
     (case pcs s t of
        ReaderOut_lock \<Rightarrow> pthread_mutex_lock t ReaderOut_sub s
      | ReaderOut_sub \<Rightarrow>
          Some (goto t (if mrw_rnum s - 1 = 0 then ReaderOut_broadcast else ReaderOut_unlock)
                  (s\<lparr>mrw_rnum := mrw_rnum s - 1\<rparr>))
      | ReaderOut_broadcast \<Rightarrow> Some (goto t ReaderOut_unlock (pthread_cond_broadcast s))
      | ReaderOut_unlock \<Rightarrow> Some (pthread_mutex_unlock t Running s)
      | _ \<Rightarrow> None)"

definition MWriteLock :: "tid \<Rightarrow> mrwlock \<Rightarrow> mrwlock option" where
  "MWriteLock t s =
     (case pcs s t of
        Writer_lock \<Rightarrow> pthread_mutex_lock t Writer_test s
      | Writer_test \<Rightarrow>
          Some (if mrw_rnum s \<noteq> 0 then goto t Waiting (s\<lparr>mrw_mutex := None\<rparr>) else return_to t 0 Writing s)
      | _ \<Rightarrow> None)"

definition MWriteUnlock :: "tid \<Rightarrow> mrwlock \<Rightarrow> mrwlock option" where
  "MWriteUnlock t s =
     (case pcs s t of
        WriterOut_unlock \<Rightarrow> Some (pthread_mutex_unlock t Running s)
      | _ \<Rightarrow> None)"

text \<open>
  The steps of \<open>n\<close> threads. \<open>Acquire\<close> steps are the calls that ask for a lock, \<open>Wakeup\<close> the spurious
  ones, \<open>Proceed\<close> all others: the calls that give a lock back and the statements of the functions.
  A call with a null pointer returns -1 at once.
\<close>

datatype kind = Acquire | Wakeup | Proceed

inductive mrw_step :: "nat \<Rightarrow> kind \<Rightarrow> mrwlock \<Rightarrow> mrwlock \<Rightarrow> bool" for n where
  call_null: "t < n \<Longrightarrow> pcs s t = Running \<Longrightarrow> mrw_step n Acquire s (return_to t (-1) Running s)"
| call_MReadLock: "t < n \<Longrightarrow> pcs s t = Running \<Longrightarrow> mrw_step n Acquire s (goto t Reader_lock s)"
| call_MWriteLock: "t < n \<Longrightarrow> pcs s t = Running \<Longrightarrow> mrw_step n Acquire s (goto t Writer_lock s)"
| call_MReadUnlock: "t < n \<Longrightarrow> pcs s t = Running \<Longrightarrow> 0 < held s t \<Longrightarrow>
    mrw_step n Proceed s (goto t ReaderOut_lock (s\<lparr>held := (held s)(t := held s t - 1)\<rparr>))"
| call_MWriteUnlock: "t < n \<Longrightarrow> pcs s t = Writing \<Longrightarrow> mrw_step n Proceed s (goto t WriterOut_unlock s)"
| in_MReadLock: "t < n \<Longrightarrow> MReadLock t s = Some s' \<Longrightarrow> mrw_step n Proceed s s'"
| in_MReadUnlock: "t < n \<Longrightarrow> MReadUnlock t s = Some s' \<Longrightarrow> mrw_step n Proceed s s'"
| in_MWriteLock: "t < n \<Longrightarrow> MWriteLock t s = Some s' \<Longrightarrow> mrw_step n Proceed s s'"
| in_MWriteUnlock: "t < n \<Longrightarrow> MWriteUnlock t s = Some s' \<Longrightarrow> mrw_step n Proceed s s'"
| spurious: "t < n \<Longrightarrow> pcs s t = Waiting \<Longrightarrow> mrw_step n Wakeup s (goto t Writer_lock s)"

inductive mrw_reachable :: "nat \<Rightarrow> mrwlock \<Rightarrow> bool" for n where
  init: "mrw_reachable n MRWInit"
| step: "mrw_reachable n s \<Longrightarrow> mrw_step n k s s' \<Longrightarrow> mrw_reachable n s'"

section \<open>What every reachable state satisfies\<close>

text \<open>The program counters at which a thread owns the mutex, and the read locks a thread is counted for.\<close>

definition owns :: "pc \<Rightarrow> bool" where
  "owns p \<longleftrightarrow> p \<in> {Reader_add, Reader_unlock, ReaderOut_sub, ReaderOut_broadcast, ReaderOut_unlock,
     Writer_test, Writing, WriterOut_unlock}"

definition counted :: "pc \<Rightarrow> nat" where
  "counted p = (if p \<in> {Reader_unlock, ReaderOut_lock, ReaderOut_sub} then 1 else 0)"

text \<open>The read locks of all threads, those in the middle of a lock or an unlock included.\<close>

definition readers :: "nat \<Rightarrow> mrwlock \<Rightarrow> nat" where
  "readers n s = (\<Sum>t<n. held s t + counted (pcs s t))"

definition mrw_ok :: "nat \<Rightarrow> mrwlock \<Rightarrow> bool" where
  "mrw_ok n s \<longleftrightarrow>
     (\<forall>t. owns (pcs s t) \<longleftrightarrow> mrw_mutex s = Some t) \<and>
     (\<forall>t. mrw_mutex s = Some t \<longrightarrow> t < n) \<and>
     mrw_rnum s = of_nat (readers n s) \<and>
     (\<forall>t. pcs s t \<in> {Writing, WriterOut_unlock, ReaderOut_broadcast} \<longrightarrow> mrw_rnum s = 0) \<and>
     (\<forall>t. n \<le> t \<longrightarrow> pcs s t = Running \<and> held s t = 0) \<and>
     ((\<exists>t. pcs s t = Waiting) \<longrightarrow> 0 < readers n s \<or> (\<exists>t. pcs s t = ReaderOut_broadcast))"

lemmas mrw_stmt_defs = goto_def return_to_def pthread_mutex_lock_def pthread_mutex_unlock_def

lemma readers_change:
  assumes "t < n" and "\<And>u. u \<noteq> t \<Longrightarrow> held s' u + counted (pcs s' u) = held s u + counted (pcs s u)"
  shows "readers n s' + (held s t + counted (pcs s t)) = readers n s + (held s' t + counted (pcs s' t))"
proof -
  have "readers n s' = (held s' t + counted (pcs s' t)) + (\<Sum>u \<in> {..<n} - {t}. held s u + counted (pcs s u))"
    unfolding readers_def using assms by (simp add: sum.remove [of "{..<n}" t])
  moreover have "readers n s = (held s t + counted (pcs s t)) + (\<Sum>u \<in> {..<n} - {t}. held s u + counted (pcs s u))"
    unfolding readers_def using assms(1) by (simp add: sum.remove [of "{..<n}" t])
  ultimately show ?thesis by simp
qed

lemma mrw_ok_waiting:
  "mrw_ok n s \<Longrightarrow> pcs s u = Waiting \<Longrightarrow> 0 < readers n s \<or> (\<exists>v. pcs s v = ReaderOut_broadcast)"
  unfolding mrw_ok_def by (elim conjE impE) (rule exI)

text \<open>A step that moves only thread \<open>t\<close> keeps the invariant under these conditions.\<close>

lemma mrw_ok_move:
  assumes ok: "mrw_ok n s" and t: "t < n"
    and pcs: "pcs s' = (pcs s)(t := p)"
    and mutex: "owns p \<longleftrightarrow> mrw_mutex s' = Some t"
      "\<And>u. u \<noteq> t \<Longrightarrow> mrw_mutex s' = Some u \<longleftrightarrow> mrw_mutex s = Some u"
    and held: "\<And>u. u \<noteq> t \<Longrightarrow> held s' u = held s u"
    and rnum: "mrw_rnum s' + of_nat (held s t + counted (pcs s t)) = mrw_rnum s + of_nat (held s' t + counted p)"
    and own: "mrw_rnum s' = mrw_rnum s \<or> owns (pcs s t)"
    and zero: "p \<in> {Writing, WriterOut_unlock, ReaderOut_broadcast} \<Longrightarrow> mrw_rnum s' = 0"
    and wait: "p = Waiting \<Longrightarrow> mrw_rnum s' \<noteq> 0"
      "held s' t + counted p < held s t + counted (pcs s t) \<Longrightarrow> mrw_rnum s' = 0 \<Longrightarrow> p = ReaderOut_broadcast"
      "\<And>u. pcs s t = ReaderOut_broadcast \<Longrightarrow> pcs s u \<noteq> Waiting"
  shows "mrw_ok n s'"
proof -
  have count: "readers n s' + (held s t + counted (pcs s t)) = readers n s + (held s' t + counted p)"
    using readers_change [of t n s' s] t held pcs by simp
  have r: "mrw_rnum s = of_nat (readers n s)" using ok by (simp add: mrw_ok_def)
  have "(of_nat (readers n s') :: 32 word) + of_nat (held s t + counted (pcs s t)) = mrw_rnum s' + of_nat (held s t + counted (pcs s t))"
    using arg_cong [OF count, of "of_nat :: nat \<Rightarrow> 32 word"] rnum r by simp
  then have rn: "mrw_rnum s' = of_nat (readers n s')" by simp
  have m: "\<And>u. owns (pcs s u) \<longleftrightarrow> mrw_mutex s = Some u" using ok by (simp add: mrw_ok_def)
  have mine: "\<not> owns (pcs s t)" if "pcs s u \<in> {Writing, WriterOut_unlock, ReaderOut_broadcast}" "u \<noteq> t" for u
  proof -
    have "owns (pcs s u)" using that(1) by (auto simp: owns_def)
    with m [of u] m [of t] that(2) show ?thesis by simp
  qed
  have z: "mrw_rnum s' = 0" if "pcs s' u \<in> {Writing, WriterOut_unlock, ReaderOut_broadcast}" for u
    using that mine [of u] zero own ok pcs unfolding mrw_ok_def by (metis fun_upd_apply)
  have w: "0 < readers n s' \<or> (\<exists>t. pcs s' t = ReaderOut_broadcast)" if h: "pcs s' u = Waiting" for u
  proof (cases "u = t")
    case True
    with h wait(1) pcs have "mrw_rnum s' \<noteq> 0" by simp
    with rn have "readers n s' \<noteq> 0" by (intro notI) simp
    then show ?thesis by simp
  next
    case False
    with h pcs have u: "pcs s u = Waiting" by simp
    then have "0 < readers n s \<or> (\<exists>v. pcs s v = ReaderOut_broadcast)"
      using mrw_ok_waiting [OF ok] by simp
    then show ?thesis
    proof (elim disjE exE)
      assume 1: "0 < readers n s"
      show ?thesis
      proof (cases "readers n s' = 0")
        case True
        with 1 count rn wait(2) have "p = ReaderOut_broadcast" by simp
        with pcs have "pcs s' t = ReaderOut_broadcast" by simp
        then show ?thesis by blast
      qed simp
    next
      fix v
      assume 2: "pcs s v = ReaderOut_broadcast"
      with wait(3) [of u] u have "v \<noteq> t" by auto
      with 2 pcs have "pcs s' v = ReaderOut_broadcast" by simp
      then show ?thesis by blast
    qed
  qed
  have "\<forall>u. owns (pcs s' u) \<longleftrightarrow> mrw_mutex s' = Some u"
    using ok mutex pcs unfolding mrw_ok_def by (metis fun_upd_apply)
  moreover have "\<forall>u. mrw_mutex s' = Some u \<longrightarrow> u < n"
    using ok mutex t unfolding mrw_ok_def by metis
  moreover have "\<forall>u. n \<le> u \<longrightarrow> pcs s' u = Running \<and> held s' u = 0"
    using ok t pcs held unfolding mrw_ok_def by (metis fun_upd_other leD)
  ultimately show ?thesis using rn z w unfolding mrw_ok_def by blast
qed

lemma mrw_ok_mutex:
  assumes "mrw_ok n s"
  shows "mrw_mutex s = Some t \<longleftrightarrow> owns (pcs s t)"
  using assms unfolding mrw_ok_def by metis

lemma mrw_ok_init: "mrw_ok n MRWInit"
  by (simp add: mrw_ok_def MRWInit_def owns_def readers_def counted_def)

lemma mrw_ok_broadcast:
  assumes "mrw_ok n s" "pcs s t = ReaderOut_broadcast"
  shows "mrw_ok n (pthread_cond_broadcast s)"
proof -
  let ?s = "pthread_cond_broadcast s"
  have "readers n ?s = readers n s"
    unfolding readers_def pthread_cond_broadcast_def by (rule sum.cong) (auto simp: counted_def)
  moreover have "owns (pcs ?s u) = owns (pcs s u)" "pcs ?s u \<noteq> Waiting"
    "pcs ?s u \<in> {Writing, WriterOut_unlock, ReaderOut_broadcast} \<longleftrightarrow> pcs s u \<in> {Writing, WriterOut_unlock, ReaderOut_broadcast}"
    "pcs s u = Running \<Longrightarrow> pcs ?s u = Running" for u
    by (auto simp: pthread_cond_broadcast_def owns_def)
  moreover have "mrw_rnum ?s = mrw_rnum s" "mrw_mutex ?s = mrw_mutex s" "held ?s = held s"
    by (simp_all add: pthread_cond_broadcast_def)
  ultimately show ?thesis using assms unfolding mrw_ok_def by auto
qed

lemma mrw_ok_zero:
  "mrw_ok n s \<Longrightarrow> pcs s t \<in> {Writing, WriterOut_unlock, ReaderOut_broadcast} \<Longrightarrow> mrw_rnum s = 0"
  unfolding mrw_ok_def by blast

text \<open>The statements by the place they start from.\<close>

lemma MReadLock_cases:
  assumes "MReadLock t s = Some s'"
  obtains "pcs s t = Reader_lock" "mrw_mutex s = None" "s' = goto t Reader_add (s\<lparr>mrw_mutex := Some t\<rparr>)"
  | "pcs s t = Reader_add" "s' = goto t Reader_unlock (s\<lparr>mrw_rnum := mrw_rnum s + 1\<rparr>)"
  | "pcs s t = Reader_unlock"
      "s' = return_to t 0 Running (s\<lparr>held := (held s)(t := held s t + 1), mrw_mutex := None\<rparr>)"
  using assms by (auto simp: MReadLock_def pthread_mutex_lock_def pthread_mutex_unlock_def split: pc.splits if_splits)

lemma MReadUnlock_cases:
  assumes "MReadUnlock t s = Some s'"
  obtains "pcs s t = ReaderOut_lock" "mrw_mutex s = None" "s' = goto t ReaderOut_sub (s\<lparr>mrw_mutex := Some t\<rparr>)"
  | "pcs s t = ReaderOut_sub" "s' = goto t (if mrw_rnum s - 1 = 0 then ReaderOut_broadcast else ReaderOut_unlock)
       (s\<lparr>mrw_rnum := mrw_rnum s - 1\<rparr>)"
  | "pcs s t = ReaderOut_broadcast" "s' = goto t ReaderOut_unlock (pthread_cond_broadcast s)"
  | "pcs s t = ReaderOut_unlock" "s' = return_to t 0 Running (s\<lparr>mrw_mutex := None\<rparr>)"
  using assms by (auto simp: MReadUnlock_def pthread_mutex_lock_def pthread_mutex_unlock_def split: pc.splits if_splits)

lemma MWriteLock_cases:
  assumes "MWriteLock t s = Some s'"
  obtains "pcs s t = Writer_lock" "mrw_mutex s = None" "s' = goto t Writer_test (s\<lparr>mrw_mutex := Some t\<rparr>)"
  | "pcs s t = Writer_test" "mrw_rnum s \<noteq> 0" "s' = goto t Waiting (s\<lparr>mrw_mutex := None\<rparr>)"
  | "pcs s t = Writer_test" "mrw_rnum s = 0" "s' = return_to t 0 Writing s"
  using assms by (auto simp: MWriteLock_def pthread_mutex_lock_def split: pc.splits if_splits)

lemma MWriteUnlock_cases:
  assumes "MWriteUnlock t s = Some s'"
  obtains "pcs s t = WriterOut_unlock" "s' = return_to t 0 Running (s\<lparr>mrw_mutex := None\<rparr>)"
  using assms by (auto simp: MWriteUnlock_def pthread_mutex_unlock_def split: pc.splits)

lemmas mrw_move_simps = mrw_stmt_defs owns_def counted_def

lemma MReadLock_ok:
  assumes ok: "mrw_ok n s" and t: "t < n" and step: "MReadLock t s = Some s'"
  shows "mrw_ok n s'"
  using step mrw_ok_mutex [OF ok, of t]
  by (cases rule: MReadLock_cases)
    (rule mrw_ok_move [OF ok t, where p = Reader_add] mrw_ok_move [OF ok t, where p = Reader_unlock]
       mrw_ok_move [OF ok t, where p = Running], auto simp: mrw_move_simps; fail)+

lemma MReadUnlock_ok:
  assumes ok: "mrw_ok n s" and t: "t < n" and step: "MReadUnlock t s = Some s'"
  shows "mrw_ok n s'"
  using step
proof (cases rule: MReadUnlock_cases)
  case 1
  with mrw_ok_mutex [OF ok, of t] show ?thesis
    by (intro mrw_ok_move [OF ok t, where p = ReaderOut_sub]) (auto simp: mrw_move_simps)
next
  case 2
  with mrw_ok_mutex [OF ok, of t] show ?thesis
    by (intro mrw_ok_move [OF ok t, where p = "if mrw_rnum s - 1 = 0 then ReaderOut_broadcast else ReaderOut_unlock"])
      (auto simp: mrw_move_simps split: if_splits)
next
  case 3
  let ?s = "pthread_cond_broadcast s"
  have pc: "pcs ?s t = ReaderOut_broadcast" "\<And>u. pcs ?s u \<noteq> Waiting"
    using 3 by (auto simp: pthread_cond_broadcast_def)
  note ok' = mrw_ok_broadcast [OF ok 3(1)]
  have "mrw_ok n (goto t ReaderOut_unlock ?s)"
    using mrw_ok_mutex [OF ok', of t] pc
    by (intro mrw_ok_move [OF ok' t, where p = ReaderOut_unlock]) (auto simp: mrw_move_simps)
  with 3 show ?thesis by simp
next
  case 4
  with mrw_ok_mutex [OF ok, of t] show ?thesis
    by (intro mrw_ok_move [OF ok t, where p = Running]) (auto simp: mrw_move_simps)
qed

lemma MWriteLock_ok:
  assumes ok: "mrw_ok n s" and t: "t < n" and step: "MWriteLock t s = Some s'"
  shows "mrw_ok n s'"
  using step
proof (cases rule: MWriteLock_cases)
  case 1
  with mrw_ok_mutex [OF ok, of t] show ?thesis
    by (intro mrw_ok_move [OF ok t, where p = Writer_test]) (auto simp: mrw_move_simps)
next
  case 2
  with mrw_ok_mutex [OF ok, of t] show ?thesis
    by (intro mrw_ok_move [OF ok t, where p = Waiting]) (auto simp: mrw_move_simps)
next
  case 3
  with mrw_ok_mutex [OF ok, of t] show ?thesis
    by (intro mrw_ok_move [OF ok t, where p = Writing]) (auto simp: mrw_move_simps)
qed

lemma MWriteUnlock_ok:
  assumes ok: "mrw_ok n s" and t: "t < n" and step: "MWriteUnlock t s = Some s'"
  shows "mrw_ok n s'"
  using step
proof (cases rule: MWriteUnlock_cases)
  case 1
  with mrw_ok_mutex [OF ok, of t] show ?thesis
    by (intro mrw_ok_move [OF ok t, where p = Running]) (auto simp: mrw_move_simps)
qed

lemma call_ok:
  assumes ok: "mrw_ok n s" and t: "t < n" and "pcs s t = Running \<or> pcs s t = Waiting"
    and "p \<in> {Running, Reader_lock, Writer_lock}"
  shows "mrw_ok n (goto t p s)" "mrw_ok n (return_to t r p s)"
  using assms(3,4) mrw_ok_mutex [OF ok, of t]
  by (intro mrw_ok_move [OF ok t, where p = p]; auto simp: mrw_move_simps)+

lemma mrw_step_ok: "mrw_step n k s s' \<Longrightarrow> mrw_ok n s \<Longrightarrow> mrw_ok n s'"
proof (induction rule: mrw_step.induct)
  case (call_MReadUnlock t s)
  then show ?case using mrw_ok_mutex [OF call_MReadUnlock.prems, of t]
    by (intro mrw_ok_move [OF call_MReadUnlock.prems, where p = ReaderOut_lock and t = t]) (auto simp: mrw_move_simps)
next
  case (call_MWriteUnlock t s)
  then show ?case using mrw_ok_mutex [OF call_MWriteUnlock.prems, of t] mrw_ok_zero [OF call_MWriteUnlock.prems, of t]
    by (intro mrw_ok_move [OF call_MWriteUnlock.prems, where p = WriterOut_unlock and t = t]) (auto simp: mrw_move_simps)
qed (auto intro: call_ok MReadLock_ok MReadUnlock_ok MWriteLock_ok MWriteUnlock_ok)

lemma mrw_reachable_ok: "mrw_reachable n s \<Longrightarrow> mrw_ok n s"
  by (induction rule: mrw_reachable.induct) (simp_all add: mrw_ok_init mrw_step_ok)

section \<open>Every operation ends\<close>

text \<open>What is left to do for the readers, and for the writers, when no new lock is asked for.\<close>

fun reader_rank :: "pc \<Rightarrow> nat" where
  "reader_rank Reader_lock = 8"
| "reader_rank Reader_add = 7"
| "reader_rank Reader_unlock = 6"
| "reader_rank ReaderOut_lock = 4"
| "reader_rank ReaderOut_sub = 3"
| "reader_rank ReaderOut_broadcast = 2"
| "reader_rank ReaderOut_unlock = 1"
| "reader_rank _ = 0"

fun writer_rank :: "pc \<Rightarrow> nat" where
  "writer_rank Writer_lock = 4"
| "writer_rank Writer_test = 3"
| "writer_rank Writing = 2"
| "writer_rank WriterOut_unlock = 1"
| "writer_rank _ = 0"

definition reader_work :: "nat \<Rightarrow> mrwlock \<Rightarrow> nat" where
  "reader_work n s = (\<Sum>t<n. 5 * held s t + reader_rank (pcs s t))"

definition writer_work :: "nat \<Rightarrow> mrwlock \<Rightarrow> nat" where
  "writer_work n s = (\<Sum>t<n. writer_rank (pcs s t))"

lemma sum_less_one:
  fixes g :: "nat \<Rightarrow> nat"
  assumes "t < n" "\<And>u. u \<noteq> t \<Longrightarrow> g u = f u" "g t < f t"
  shows "(\<Sum>u<n. g u) < (\<Sum>u<n. f u)"
proof (rule sum_strict_mono_ex1)
  show "\<forall>u \<in> {..<n}. g u \<le> f u"
  proof
    fix u
    show "g u \<le> f u" by (cases "u = t") (use assms in simp_all)
  qed
qed (use assms in auto)

lemma reader_work_less:
  assumes "t < n" "\<And>u. u \<noteq> t \<Longrightarrow> held s' u = held s u \<and> reader_rank (pcs s' u) = reader_rank (pcs s u)"
    "5 * held s' t + reader_rank (pcs s' t) < 5 * held s t + reader_rank (pcs s t)"
  shows "reader_work n s' < reader_work n s"
  unfolding reader_work_def by (rule sum_less_one [OF assms(1)]) (use assms in simp_all)

lemma reader_work_same:
  assumes "held s' = held s" "\<And>u. reader_rank (pcs s' u) = reader_rank (pcs s u)"
  shows "reader_work n s' = reader_work n s"
  using assms by (simp add: reader_work_def)

lemma writer_work_less:
  assumes "t < n" "\<And>u. u \<noteq> t \<Longrightarrow> pcs s' u = pcs s u" "writer_rank (pcs s' t) < writer_rank (pcs s t)"
  shows "writer_work n s' < writer_work n s"
  unfolding writer_work_def by (rule sum_less_one [OF assms(1)]) (use assms in simp_all)

definition mrw_less :: "nat \<Rightarrow> (mrwlock \<times> mrwlock) set" where
  "mrw_less n = measures [reader_work n, writer_work n]"

lemma reader_step_less:
  assumes "t < n" "MReadLock t s = Some s' \<or> MReadUnlock t s = Some s'"
  shows "reader_work n s' < reader_work n s"
proof (rule reader_work_less [OF assms(1)])
  show "held s' u = held s u \<and> reader_rank (pcs s' u) = reader_rank (pcs s u)" if "u \<noteq> t" for u
    using assms(2) that
    by (auto elim!: MReadLock_cases MReadUnlock_cases simp: mrw_stmt_defs pthread_cond_broadcast_def)
  show "5 * held s' t + reader_rank (pcs s' t) < 5 * held s t + reader_rank (pcs s t)"
    using assms(2)
    by (auto elim!: MReadLock_cases MReadUnlock_cases simp: mrw_stmt_defs pthread_cond_broadcast_def)
qed

lemma writer_step_less:
  assumes "t < n" "MWriteLock t s = Some s' \<or> MWriteUnlock t s = Some s'"
  shows "reader_work n s' = reader_work n s" "writer_work n s' < writer_work n s"
proof -
  show "reader_work n s' = reader_work n s"
    using assms(2) by (intro reader_work_same)
      (auto elim!: MWriteLock_cases MWriteUnlock_cases simp: mrw_stmt_defs)
  show "writer_work n s' < writer_work n s"
    using assms(2) by (intro writer_work_less [OF assms(1)])
      (auto elim!: MWriteLock_cases MWriteUnlock_cases simp: mrw_stmt_defs)
qed

lemma proceed_less: "mrw_step n k s s' \<Longrightarrow> k = Proceed \<Longrightarrow> (s', s) \<in> mrw_less n"
proof (induction rule: mrw_step.induct)
  case (call_MReadUnlock t s)
  then have "reader_work n (goto t ReaderOut_lock (s\<lparr>held := (held s)(t := held s t - 1)\<rparr>)) < reader_work n s"
    by (intro reader_work_less [of t]) (auto simp: goto_def)
  then show ?case by (simp add: mrw_less_def)
next
  case (call_MWriteUnlock t s)
  then have "writer_work n (goto t WriterOut_unlock s) < writer_work n s"
    by (intro writer_work_less [of t]) (auto simp: goto_def)
  moreover have "reader_work n (goto t WriterOut_unlock s) = reader_work n s"
    using call_MWriteUnlock by (intro reader_work_same) (auto simp: goto_def)
  ultimately show ?case by (simp add: mrw_less_def)
qed (simp_all add: mrw_less_def reader_step_less writer_step_less)

lemma wf_mrw_less: "wf (mrw_less n)"
  by (simp add: mrw_less_def)

text \<open>A thread that waits for the write lock while it holds a read lock waits for itself.\<close>

definition upgrading :: "mrwlock \<Rightarrow> bool" where
  "upgrading s \<longleftrightarrow> (\<exists>t. 0 < held s t \<and> pcs s t \<in> {Writer_lock, Writer_test, Waiting})"

definition at_rest :: "mrwlock \<Rightarrow> bool" where
  "at_rest s \<longleftrightarrow> mrw_mutex s = None \<and> mrw_rnum s = 0 \<and> (\<forall>t. pcs s t = Running \<and> held s t = 0)"

lemma stmt_enabled:
  assumes "owns (pcs s t)" "t < n"
  shows "\<exists>s'. mrw_step n Proceed s s'"
proof -
  consider "\<exists>s'. MReadLock t s = Some s'" | "\<exists>s'. MReadUnlock t s = Some s'" | "\<exists>s'. MWriteLock t s = Some s'"
    | "pcs s t = Writing" | "\<exists>s'. MWriteUnlock t s = Some s'"
    using assms(1) by (cases "pcs s t")
      (auto simp: owns_def MReadLock_def MReadUnlock_def MWriteLock_def MWriteUnlock_def)
  then show ?thesis using assms(2) mrw_step.intros by cases meson+
qed

lemma lock_enabled:
  assumes "mrw_mutex s = None" "pcs s t \<in> {Reader_lock, ReaderOut_lock, Writer_lock}" "t < n"
  shows "\<exists>s'. mrw_step n Proceed s s'"
proof -
  consider "\<exists>s'. MReadLock t s = Some s'" | "\<exists>s'. MReadUnlock t s = Some s'" | "\<exists>s'. MWriteLock t s = Some s'"
    using assms(1,2) by (auto simp: MReadLock_def MReadUnlock_def MWriteLock_def pthread_mutex_lock_def)
  then show ?thesis using assms(3) mrw_step.intros by cases meson+
qed

lemma stuck_at_rest:
  assumes ok: "mrw_ok n s" and up: "\<not> upgrading s" and stuck: "\<And>s'. \<not> mrw_step n Proceed s s'"
  shows "at_rest s"
proof -
  have out: "pcs s t = Running \<and> held s t = 0" if "n \<le> t" for t
    using ok that by (simp add: mrw_ok_def)
  have free: "mrw_mutex s = None"
  proof (rule ccontr)
    assume "mrw_mutex s \<noteq> None"
    then obtain t where t: "mrw_mutex s = Some t" by blast
    with ok have "t < n" by (simp add: mrw_ok_def)
    with stmt_enabled mrw_ok_mutex [OF ok] t stuck show False by blast
  qed
  have wr: "pcs s t \<in> {Running, Waiting} \<and> held s t = 0" for t
  proof (cases "t < n")
    case t: True
    have "\<not> owns (pcs s t)" "pcs s t \<notin> {Reader_lock, ReaderOut_lock, Writer_lock}"
      using mrw_ok_mutex [OF ok, of t] free lock_enabled [OF free _ t] stuck by auto
    then have "pcs s t \<in> {Running, Waiting}" by (cases "pcs s t") (auto simp: owns_def)
    moreover have "held s t = 0" if "pcs s t = Running"
      using call_MReadUnlock [OF t that] stuck by auto
    moreover have "held s t = 0" if "pcs s t = Waiting"
      using up that by (auto simp: upgrading_def)
    ultimately show ?thesis by blast
  qed (use out in simp)
  have "held s t + counted (pcs s t) = 0" for t
    using wr [of t] by (auto simp: counted_def)
  then have none: "readers n s = 0"
    by (simp add: readers_def)
  have "pcs s t \<noteq> Waiting" for t
    using mrw_ok_waiting [OF ok, of t] none wr by (metis insertE pc.distinct empty_iff less_irrefl)
  then show ?thesis using wr free none ok by (auto simp: at_rest_def mrw_ok_def)
qed

text \<open>A step of kind \<open>Proceed\<close> starts no upgrade.\<close>

lemma proceed_upgrading:
  assumes "mrw_step n Proceed s s'" "\<not> upgrading s"
  shows "\<not> upgrading s'"
proof -
  have "0 < held s t \<and> pcs s t \<in> {Writer_lock, Writer_test, Waiting}"
    if "0 < held s' t" "pcs s' t \<in> {Writer_lock, Writer_test, Waiting}" for t
    using assms(1) that
    by (cases rule: mrw_step.cases)
      (auto elim!: MReadLock_cases MReadUnlock_cases MWriteLock_cases MWriteUnlock_cases
        simp: mrw_stmt_defs pthread_cond_broadcast_def split: if_splits)
  with assms(2) show ?thesis unfolding upgrading_def by blast
qed

lemma proceed_run:
  assumes "(mrw_step n Proceed)\<^sup>*\<^sup>* s s'" "mrw_ok n s" "\<not> upgrading s"
  shows "mrw_ok n s' \<and> \<not> upgrading s'"
  using assms by (induction rule: rtranclp_induct) (auto dest: mrw_step_ok proceed_upgrading)

text \<open>The upgrade never succeeds while the counter is exact.\<close>

lemma held_le_readers: "t < n \<Longrightarrow> held s t \<le> readers n s"
  unfolding readers_def
  by (rule order.trans [OF le_add1 member_le_sum [of t "{..<n}" "\<lambda>t. held s t + counted (pcs s t)"]]) auto

lemma readers_exact:
  assumes "mrw_ok n s" "readers n s < 2 ^ 32" "mrw_rnum s = 0"
  shows "held s t = 0"
proof -
  have "unat (of_nat (readers n s) :: 32 word) = readers n s"
    using assms(2) by (simp add: unat_of_nat)
  with assms have "readers n s = 0" by (simp add: mrw_ok_def)
  then show ?thesis
    using held_le_readers [of t n s] assms(1) by (cases "t < n") (simp_all add: mrw_ok_def)
qed

lemma upgrade_step:
  assumes "mrw_step n k s s'" "mrw_ok n s" "readers n s < 2 ^ 32"
    "0 < held s t" "pcs s t \<in> {Writer_lock, Writer_test, Waiting}"
  shows "0 < held s' t \<and> pcs s' t \<in> {Writer_lock, Writer_test, Waiting}"
proof -
  have "mrw_rnum s \<noteq> 0" using readers_exact [OF assms(2,3), of t] assms(4) by auto
  with assms(1) show ?thesis using assms(4,5)
    by (auto elim!: mrw_step.cases MReadLock_cases MReadUnlock_cases MWriteLock_cases MWriteUnlock_cases
        simp: mrw_stmt_defs pthread_cond_broadcast_def split: if_splits)
qed

definition exact_step :: "nat \<Rightarrow> mrwlock \<Rightarrow> mrwlock \<Rightarrow> bool" where
  "exact_step n s s' \<longleftrightarrow> readers n s < 2 ^ 32 \<and> (\<exists>k. mrw_step n k s s')"

lemma upgrade_run:
  assumes "(exact_step n)\<^sup>*\<^sup>* s s'" "mrw_ok n s" "0 < held s t" "pcs s t \<in> {Writer_lock, Writer_test, Waiting}"
  shows "mrw_ok n s' \<and> 0 < held s' t \<and> pcs s' t \<in> {Writer_lock, Writer_test, Waiting}"
  using assms(1)
proof (induction rule: rtranclp_induct)
  case (step y z)
  then obtain k where "mrw_step n k y z" "readers n y < 2 ^ 32" by (auto simp: exact_step_def)
  with step.IH upgrade_step [of n k y z t] mrw_step_ok [of n k y z] show ?case by blast
qed (use assms in simp)

text \<open>The counter wraps around: a thread can take a read lock any number of times.\<close>

definition nested :: "nat \<Rightarrow> mrwlock" where
  "nested k = \<lparr>mrw_mutex = None, mrw_rnum = of_nat k, pcs = (\<lambda>_. Running), held = (\<lambda>_. 0)(0 := k), ret = (\<lambda>_. 0)\<rparr>"

lemma MReadLock_run:
  assumes "mrw_reachable n s" "t < n" "pcs s t = Running" "mrw_mutex s = None"
  shows "mrw_reachable n (s\<lparr>mrw_rnum := mrw_rnum s + 1, held := (held s)(t := held s t + 1), ret := (ret s)(t := 0)\<rparr>)"
    (is "mrw_reachable n ?s4")
proof -
  let ?s1 = "goto t Reader_lock s"
  let ?s2 = "goto t Reader_add (?s1\<lparr>mrw_mutex := Some t\<rparr>)"
  let ?s3 = "goto t Reader_unlock (?s2\<lparr>mrw_rnum := mrw_rnum ?s2 + 1\<rparr>)"
  have "MReadLock t ?s1 = Some ?s2" "MReadLock t ?s2 = Some ?s3" "MReadLock t ?s3 = Some ?s4"
    using assms by (simp_all add: MReadLock_def mrw_stmt_defs fun_upd_idem)
  then show ?thesis
    using assms call_MReadLock in_MReadLock mrw_reachable.step by meson
qed

lemma MWriteLock_run:
  assumes "mrw_reachable n s" "t < n" "pcs s t = Running" "mrw_mutex s = None" "mrw_rnum s = 0"
  shows "mrw_reachable n (s\<lparr>mrw_mutex := Some t, pcs := (pcs s)(t := Writing), ret := (ret s)(t := 0)\<rparr>)"
    (is "mrw_reachable n ?s3")
proof -
  let ?s1 = "goto t Writer_lock s"
  let ?s2 = "goto t Writer_test (?s1\<lparr>mrw_mutex := Some t\<rparr>)"
  have "MWriteLock t ?s1 = Some ?s2" "MWriteLock t ?s2 = Some ?s3"
    using assms by (simp_all add: MWriteLock_def mrw_stmt_defs)
  then show ?thesis
    using assms call_MWriteLock in_MWriteLock mrw_reachable.step by meson
qed

lemma nested_reachable: "0 < n \<Longrightarrow> mrw_reachable n (nested k)"
proof (induction k)
  case 0
  have "nested 0 = MRWInit" by (auto simp: nested_def MRWInit_def)
  with 0 mrw_reachable.init show ?case by metis
next
  case (Suc k)
  let ?s = "nested k"
  have "?s\<lparr>mrw_rnum := mrw_rnum ?s + 1, held := (held ?s)(0 := held ?s 0 + 1), ret := (ret ?s)(0 := 0)\<rparr> = nested (Suc k)"
    by (auto simp: nested_def)
  moreover have "pcs ?s 0 = Running" "mrw_mutex ?s = None" by (simp_all add: nested_def)
  ultimately show ?case using Suc MReadLock_run [of n ?s 0] by metis
qed

lemma wrap_reachable: "\<exists>s. mrw_reachable 2 s \<and> pcs s 1 = Writing \<and> held s 0 = 2 ^ 32"
proof -
  let ?s = "nested (2 ^ 32)"
  have "mrw_reachable 2 (?s\<lparr>mrw_mutex := Some 1, pcs := (pcs ?s)(1 := Writing), ret := (ret ?s)(1 := 0)\<rparr>)"
    by (rule MWriteLock_run [OF nested_reachable]) (simp_all add: nested_def)
  then show ?thesis by (intro exI conjI) (assumption, simp_all add: nested_def)
qed

section \<open>Properties\<close>

text \<open>
  C20. In every reachable state of any number of threads the reader count is the number of read locks
  modulo \<open>2^32\<close>; at most one thread writes; while the number of read locks fits the counter, no thread
  holds a read lock while another one writes. The bound is needed: with \<open>2^32\<close> read locks a writer gets in.
\<close>

theorem mrw_exclusion:
  assumes "mrw_reachable n s"
  shows "mrw_rnum s = of_nat (readers n s) \<and>
    (\<forall>t u. pcs s t = Writing \<longrightarrow> pcs s u = Writing \<longrightarrow> t = u) \<and>
    (\<forall>t u. pcs s t = Writing \<longrightarrow> readers n s < 2 ^ 32 \<longrightarrow> held s u = 0) \<and>
    (\<exists>s'. mrw_reachable 2 s' \<and> pcs s' 1 = Writing \<and> held s' 0 = 2 ^ 32)"
proof (intro conjI allI impI)
  note ok = mrw_reachable_ok [OF assms]
  show "mrw_rnum s = of_nat (readers n s)" using ok by (simp add: mrw_ok_def)
  show "t = u" if "pcs s t = Writing" "pcs s u = Writing" for t u
    using mrw_ok_mutex [OF ok, of t] mrw_ok_mutex [OF ok, of u] that by (simp add: owns_def)
  show "held s u = 0" if "pcs s t = Writing" "readers n s < 2 ^ 32" for t u
    using readers_exact [OF ok that(2)] mrw_ok_zero [OF ok, of t] that(1) by simp
qed (rule wrap_reachable)

definition one_writer :: mrwlock where
  "one_writer = MRWInit\<lparr>mrw_mutex := Some 1, pcs := (pcs MRWInit)(1 := Writing), ret := (ret MRWInit)(1 := 0)\<rparr>"

lemma one_writer_reachable: "mrw_reachable 2 one_writer"
  unfolding one_writer_def by (rule MWriteLock_run [OF mrw_reachable.init]) (simp_all add: MRWInit_def)

lemma mrw_exclusion_witness: "mrw_rnum one_writer = of_nat (readers 2 one_writer) \<and> held one_writer 0 = 0"
proof -
  have "pcs one_writer 1 = Writing" "readers 2 one_writer < 2 ^ 32"
    by (simp_all add: one_writer_def readers_def MRWInit_def counted_def lessThan_Suc numeral_2_eq_2)
  then show ?thesis
    using mrw_exclusion [OF one_writer_reachable] by blast
qed

lemma maximal_run:
  "\<exists>s'. (mrw_step n Proceed)\<^sup>*\<^sup>* s s' \<and> (\<forall>s''. \<not> mrw_step n Proceed s' s'')"
  using wf_mrw_less [of n]
proof (induction s rule: wf_induct_rule)
  case (less s)
  show ?case
  proof (cases "\<exists>s'. mrw_step n Proceed s s'")
    case True
    then obtain y where y: "mrw_step n Proceed s y" by blast
    from less [OF proceed_less [OF y refl]] y show ?thesis
      by (meson converse_rtranclp_into_rtranclp)
  qed blast
qed

text \<open>
  C21. No operation of the lock is stuck. From a reachable state in which no thread asks for the write
  lock while it holds a read lock, the threads that stop asking for locks end: every run of their steps
  is finite, there is a maximal one, and each maximal one ends with the mutex free, no reader counted and
  no thread inside the lock, so that every waiting writer got its turn. A thread that asks for the write
  lock while it holds a read lock never leaves \<open>MWriteLock\<close> as long as the reader count is exact.
\<close>

theorem mrw_progress:
  assumes "mrw_reachable n s"
  shows "(\<nexists>run. run 0 = s \<and> (\<forall>i::nat. mrw_step n Proceed (run i) (run (Suc i)))) \<and>
    (\<not> upgrading s \<longrightarrow>
       (\<exists>s'. (mrw_step n Proceed)\<^sup>*\<^sup>* s s' \<and> at_rest s') \<and>
       (\<forall>s'. (mrw_step n Proceed)\<^sup>*\<^sup>* s s' \<longrightarrow> (\<forall>s''. \<not> mrw_step n Proceed s' s'') \<longrightarrow> at_rest s')) \<and>
    (\<forall>t s'. 0 < held s t \<longrightarrow> pcs s t \<in> {Writer_lock, Writer_test, Waiting} \<longrightarrow> (exact_step n)\<^sup>*\<^sup>* s s' \<longrightarrow>
       pcs s' t \<in> {Writer_lock, Writer_test, Waiting})"
proof -
  note ok = mrw_reachable_ok [OF assms]
  have fin: "\<nexists>run. run 0 = s \<and> (\<forall>i::nat. mrw_step n Proceed (run i) (run (Suc i)))"
    using wf_mrw_less [of n] proceed_less unfolding wf_iff_no_infinite_down_chain by blast
  have rest: "at_rest s'" if "\<not> upgrading s" "(mrw_step n Proceed)\<^sup>*\<^sup>* s s'" "\<forall>s''. \<not> mrw_step n Proceed s' s''" for s'
    using proceed_run [OF that(2) ok that(1)] that(3) stuck_at_rest by blast
  have "pcs s' t \<in> {Writer_lock, Writer_test, Waiting}"
    if "0 < held s t" "pcs s t \<in> {Writer_lock, Writer_test, Waiting}" "(exact_step n)\<^sup>*\<^sup>* s s'" for t s'
    using upgrade_run [OF that(3) ok that(1,2)] by blast
  then show ?thesis using fin rest maximal_run [of n s] by (intro conjI impI allI) blast+
qed

lemma mrw_progress_witness:
  "\<exists>s'. (mrw_step 2 Proceed)\<^sup>*\<^sup>* (nested 3) s' \<and> at_rest s'"
proof -
  have "\<not> upgrading (nested 3)" by (simp add: upgrading_def nested_def)
  then show ?thesis
    using mrw_progress [OF nested_reachable [of 2 3], THEN conjunct2, THEN conjunct1] by simp
qed

end
