(* ===== verification/Control.thy ===== *)
theory Control
  imports HashTable
begin

text \<open>
  The configuration of the broker: the scanner of control statements in \<open>src/support.c\<close>
  (\<open>cntlSkipws\<close>, \<open>cntlParseStmt\<close>, \<open>cntlGetVal\<close>, \<open>cntlGetStr\<close>) and \<open>src/control.c\<close>, which reads
  \<open>sfcb.cfg\<close> into its table of controls and answers the queries of the other components. The table
  \<open>init\<close> is an array, and the hash table \<open>ct\<close> holds the index of an entry for the pointer to it, so
  that a value read from the file is seen through the hash table. The build options and directories are
  parameters. The log messages are left out. A line of the file is a C string, it ends before its first NUL.

  Shown: what each query answers for known, unknown and mistyped names, and that a file of statements
  is read as intended: the values in the file, the last one for each name, override the defaults, and a
  statement for an unknown name ends the broker.
\<close>

section \<open>Scanner of control statements\<close>

definition newline :: char where "newline = CHR 0x0A"
definition tab :: char where "tab = CHR 0x09"

text \<open>\<open>char\<close> is signed: a byte above 127 is negative and compares as a blank.\<close>

definition blank :: "char \<Rightarrow> bool" where
  "blank c \<longleftrightarrow> (of_char c :: nat) \<le> 32 \<or> 128 \<le> (of_char c :: nat)"

definition cntlSkipws :: "string \<Rightarrow> string" where
  "cntlSkipws p = dropWhile (\<lambda>c. blank c \<and> c \<noteq> newline) p"

text \<open>\<open>strpbrk\<close>: the text before the first character of the set, and the text from it on, empty for NULL.\<close>

definition strpbrk :: "string \<Rightarrow> string \<Rightarrow> string \<times> string" where
  "strpbrk s accept = (takeWhile (\<lambda>c. c \<notin> set accept) s, dropWhile (\<lambda>c. c \<notin> set accept) s)"

record cntl_vals =
  cv_type :: int
  cv_id :: "string option"
  cv_val :: "string option"

text \<open>\<open>None\<close>: the null pointer returned by \<open>strpbrk\<close> is dereferenced.\<close>

definition cntlParseStmt :: "string \<Rightarrow> cntl_vals \<Rightarrow> cntl_vals option" where
  "cntlParseStmt txt rv =
     (let i = cntlSkipws txt; rv = rv\<lparr>cv_type := 0\<rparr> in
      if i = [] \<or> hd i = CHR ''#'' \<or> hd i = newline then Some (rv\<lparr>cv_type := 3\<rparr>)
      else if hd i = CHR ''['' then
        (case strpbrk (tl i) [CHR '']'', CHR '' '', tab, newline] of
           (a, []) \<Rightarrow> None
         | (a, c # p) \<Rightarrow> Some (if c = CHR '']'' then rv\<lparr>cv_type := 1, cv_id := Some a\<rparr> else rv))
      else
        (case strpbrk i [CHR '':'', CHR '' '', tab, newline] of
           (a, []) \<Rightarrow> None
         | (a, c # p) \<Rightarrow>
             Some (if c = CHR '':'' then rv\<lparr>cv_type := 2, cv_id := Some a, cv_val := Some (cntlSkipws p)\<rparr> else rv)))"

definition cntlGetVal :: "cntl_vals \<Rightarrow> cntl_vals \<times> string option" where
  "cntlGetVal rv =
     (case cv_val rv of None \<Rightarrow> (rv, None)
      | Some val \<Rightarrow>
          (case strpbrk (cntlSkipws val) [CHR '' '', tab, newline] of
             (v, []) \<Rightarrow> (rv\<lparr>cv_val := None\<rparr>, Some v)
           | (v, c # p) \<Rightarrow> (rv\<lparr>cv_val := (if c \<noteq> newline then Some p else None)\<rparr>, Some v)))"

definition cntlGetStr :: "cntl_vals \<Rightarrow> cntl_vals \<times> string option" where
  "cntlGetStr rv =
     (case cv_val rv of None \<Rightarrow> (rv, None)
      | Some val \<Rightarrow> (rv\<lparr>cv_val := Some (cntlSkipws val)\<rparr>, Some (cntlSkipws val)))"

text \<open>\<open>fgets\<close> with room for \<open>n\<close> bytes: the line read and the rest of the file.\<close>

definition fgets :: "nat \<Rightarrow> string \<Rightarrow> (string \<times> string) option" where
  "fgets n file =
     (if file = [] then None
      else let l = length (takeWhile (\<lambda>c. c \<noteq> newline) file); k = min (n - 1) (l + 1)
           in Some (take k file, drop k file))"

definition c_string :: "string \<Rightarrow> string" where
  "c_string s = takeWhile (\<lambda>c. c \<noteq> CHR 0x00) s"

section \<open>The table of controls\<close>

record control =
  ctl_id :: string
  ctl_type :: int
  ctl_strValue :: "string option"
  ctl_dupped :: bool

record build =
  have_jdbc :: bool
  have_slp :: bool
  SFCB_CONFDIR :: string
  SFCB_STATEDIR :: string
  SFCB_LIBDIR :: string
  CMPI_LIBDIR :: string
  LIBDIR :: string

definition control :: "string \<Rightarrow> int \<Rightarrow> string \<Rightarrow> control" where
  "control n t v = \<lparr>ctl_id = n, ctl_type = t, ctl_strValue = Some v, ctl_dupped = False\<rparr>"

definition init :: "build \<Rightarrow> control list" where
  "init b =
     [control ''httpPort'' 1 ''5988'',
      control ''enableHttp'' 2 ''true'',
      control ''enableUds'' 2 ''true'',
      control ''httpProcs'' 1 ''8'',
      control ''httpsPort'' 1 ''5989'',
      control ''enableHttps'' 2 ''false'',
      control ''httpsProcs'' 1 ''8'',
      control ''httpLocalOnly'' 2 ''false'',
      control ''httpUserSFCB'' 2 ''true'',
      control ''httpUser'' 0 ''''] @
     (if have_jdbc b then
       [control ''dbpPort'' 1 ''5980'',
        control ''enableDbp'' 2 ''true'',
        control ''dbpProcs'' 1 ''8'',
        control ''dbpsPort'' 1 ''5981'',
        control ''enableDbps'' 2 ''true'',
        control ''dbpsProcs'' 1 ''8''] else []) @
     (if have_slp b then
       [control ''enableSlp'' 2 ''true'',
        control ''slpRefreshInterval'' 1 ''600'',
        control ''slpHostnameLib'' 0 ''sfcSlpHostname''] else []) @
     [control ''provProcs'' 1 ''32'',
      control ''basicAuthLib'' 0 ''sfcBasicAuthentication'',
      control ''doBasicAuth'' 2 ''false'',
      control ''doUdsAuth'' 2 ''false'',
      control ''useChunking'' 2 ''false'',
      control ''chunkSize'' 1 ''50000'',
      control ''keepaliveTimeout'' 1 ''15'',
      control ''keepaliveMaxRequest'' 1 ''10'',
      control ''providerSampleInterval'' 1 ''30'',
      control ''providerTimeoutInterval'' 1 ''60'',
      control ''providerAutoGroup'' 2 ''true'',
      control ''providerDefaultUserSFCB'' 2 ''true'',
      control ''providerDefaultUser'' 0 '''',
      control ''sslKeyFilePath'' 0 (SFCB_CONFDIR b @ ''/file.pem''),
      control ''sslCertificateFilePath'' 0 (SFCB_CONFDIR b @ ''/server.pem''),
      control ''registrationDir'' 0 (SFCB_STATEDIR b @ ''/registration''),
      control ''providerDirs'' 3 (SFCB_LIBDIR b @ '' '' @ CMPI_LIBDIR b @ '' '' @ LIBDIR b),
      control ''enableInterOp'' 2 ''true'',
      control ''sslClientTrustStore'' 0 (SFCB_CONFDIR b @ ''/client.pem''),
      control ''sslClientCertificate'' 0 ''ignore'',
      control ''certificateAuthLib'' 0 ''sfcCertificateAuthentication'',
      control ''localSocketPath'' 0 ''/tmp/sfcbLocalSocket'',
      control ''httpSocketPath'' 0 ''/tmp/sfcbHttpSocket'',
      \<lparr>ctl_id = ''socketPathGroupPerm'', ctl_type = 0, ctl_strValue = None, ctl_dupped = False\<rparr>,
      control ''traceFile'' 0 ''stderr'',
      control ''traceLevel'' 1 ''0'',
      control ''traceMask'' 1 ''0'',
      control ''httpMaxContentLength'' 1 ''100000000'',
      control ''validateMethodParamTypes'' 2 ''false'',
      control ''maxMsgLen'' 1 ''10000000'']"

text \<open>
  \<open>ct\<close> is null until the table is set up; \<open>ctls\<close> is the array \<open>init\<close>. A function returns, or it ends
  the process: by \<open>abort()\<close>, or by going through a null pointer or past the end of a buffer.
\<close>

record control_state =
  ct :: "(char_key, nat) hash_table option"
  ctls :: "control list"

datatype 'a outcome = Return 'a | Abort | Crash

definition init_state :: "build \<Rightarrow> control_state" where
  "init_state b = \<lparr>ct = None, ctls = init b\<rparr>"

text \<open>The values \<open>sunsetControl\<close> frees are those read from the file; the table keeps pointing to them.\<close>

definition sunsetControl :: "control_state \<Rightarrow> (control_state \<times> string list) outcome" where
  "sunsetControl st =
     (case ct st of None \<Rightarrow> Crash
      | Some _ \<Rightarrow> Return (st\<lparr>ct := None\<rparr>,
          concat (map (\<lambda>c. if ctl_dupped c then (case ctl_strValue c of None \<Rightarrow> [] | Some v \<Rightarrow> [v]) else []) (ctls st))))"

definition set_value :: "string \<Rightarrow> control \<Rightarrow> control" where
  "set_value v c = c\<lparr>ctl_strValue := Some v, ctl_dupped := True\<rparr>"

text \<open>The loop over \<open>init\<close> for a statement \<open>id : val\<close>; \<open>None\<close> when no entry has that name.\<close>

fun set_control :: "cntl_vals \<Rightarrow> control list \<Rightarrow> (control list \<times> cntl_vals) option" where
  "set_control rv [] = None"
| "set_control rv (c # cs) =
     (if cv_id rv = Some (ctl_id c) then
        (if ctl_type c = 3
         then Some (set_value (takeWhile (\<lambda>x. x \<noteq> newline) (the (cv_val rv))) c # cs, rv)
         else case cntlGetVal rv of (rv', v) \<Rightarrow> Some (set_value (the v) c # cs, rv'))
      else map_option (\<lambda>(cs', rv'). (c # cs', rv')) (set_control rv cs))"

text \<open>One line of the file, with the error flag.\<close>

definition setup_line :: "string \<Rightarrow> control list \<Rightarrow> cntl_vals \<Rightarrow> bool \<Rightarrow> (control list \<times> cntl_vals \<times> bool) option" where
  "setup_line fin cs rv err =
     (case cntlParseStmt fin rv of None \<Rightarrow> None
      | Some rv \<Rightarrow>
          Some (if cv_type rv = 0 \<or> cv_type rv = 1 then (cs, rv, True)
                else if cv_type rv = 2 then
                  (case set_control rv cs of None \<Rightarrow> (cs, rv, True) | Some (cs', rv') \<Rightarrow> (cs', rv', err))
                else (cs, rv, err)))"

lemma fgets_shorter: "fgets 1024 file = Some (l, r) \<Longrightarrow> length r < length file"
  by (auto simp: fgets_def Let_def split: if_splits)

function setup_lines :: "string \<Rightarrow> control list \<Rightarrow> cntl_vals \<Rightarrow> bool \<Rightarrow> (control list \<times> bool) option" where
  "setup_lines file cs rv err =
     (case fgets 1024 file of None \<Rightarrow> Some (cs, err)
      | Some (fin, rest) \<Rightarrow>
          (case setup_line (c_string fin) cs rv err of None \<Rightarrow> None
           | Some (cs', rv', err') \<Rightarrow> setup_lines rest cs' rv' err'))"
  by pat_completeness auto
termination
  by (relation "measure (\<lambda>(file, cs, rv, err). length file)") (auto simp: fgets_shorter)

declare setup_lines.simps [simp del]

definition put_controls :: "control list \<Rightarrow> (char_key, nat) hash_table" where
  "put_controls cs = fold (\<lambda>(k, v) t. name_put t k v) (zip (map ctl_id cs) [0..<length cs]) (new_name_table 61)"

text \<open>\<open>files\<close> gives the content of a file, \<open>None\<close> when it cannot be opened.\<close>

definition setupControl :: "build \<Rightarrow> (string \<Rightarrow> string option) \<Rightarrow> string option \<Rightarrow> control_state \<Rightarrow> (control_state \<times> int) outcome" where
  "setupControl b files fn st =
     (if ct st \<noteq> None then Return (st, 0)
      else let st = st\<lparr>ct := Some (put_controls (ctls st))\<rparr>;
               fin = (case fn of Some f \<Rightarrow> f | None \<Rightarrow> SFCB_CONFDIR b @ ''/sfcb.cfg'')
        in if 1024 \<le> length fin then Crash
           else case files fin of
             None \<Rightarrow> Return (st, -2)
           | Some txt \<Rightarrow>
               (case setup_lines txt (ctls st) \<lparr>cv_type = 0, cv_id = None, cv_val = None\<rparr> False of
                  None \<Rightarrow> Crash
                | Some (cs, err) \<Rightarrow> if err then Abort else Return (st\<lparr>ctls := cs\<rparr>, 0)))"

section \<open>Queries\<close>

text \<open>\<open>strtol\<close> and \<open>strtoul\<close> with base 0: the prefix of the text chooses the base; the result is cut at the limits.\<close>

definition isspace :: "char \<Rightarrow> bool" where
  "isspace c \<longleftrightarrow> c = CHR '' '' \<or> (9 \<le> (of_char c :: nat) \<and> (of_char c :: nat) \<le> 13)"

definition digit_value :: "char \<Rightarrow> nat" where
  "digit_value c =
     (let n = of_char c :: nat in
      if 48 \<le> n \<and> n \<le> 57 then n - 48
      else if 97 \<le> n \<and> n \<le> 122 then n - 87
      else if 65 \<le> n \<and> n \<le> 90 then n - 55
      else 255)"

definition base_value :: "nat \<Rightarrow> string \<Rightarrow> nat" where
  "base_value b s = fold (\<lambda>c n. n * b + digit_value c) (takeWhile (\<lambda>c. digit_value c < b) s) 0"

definition unsigned_value :: "string \<Rightarrow> nat" where
  "unsigned_value s =
     (case s of
        c # d # e # t \<Rightarrow>
          if c = CHR ''0'' \<and> (d = CHR ''x'' \<or> d = CHR ''X'') \<and> digit_value e < 16 then base_value 16 (e # t)
          else if c = CHR ''0'' then base_value 8 s else base_value 10 s
      | _ \<Rightarrow> if s \<noteq> [] \<and> hd s = CHR ''0'' then base_value 8 s else base_value 10 s)"

definition signed_text :: "string \<Rightarrow> bool \<times> nat" where
  "signed_text s =
     (case dropWhile isspace s of
        c # t \<Rightarrow> if c = CHR ''-'' then (True, unsigned_value t)
                 else if c = CHR ''+'' then (False, unsigned_value t) else (False, unsigned_value (c # t))
      | [] \<Rightarrow> (False, 0))"

definition strtol :: "string \<Rightarrow> int" where
  "strtol s = (case signed_text s of (neg, n) \<Rightarrow>
     if neg then max (- (2 ^ 63)) (- int n) else min (2 ^ 63 - 1) (int n))"

definition strtoul :: "string \<Rightarrow> 64 word" where
  "strtoul s = (case signed_text s of (neg, n) \<Rightarrow>
     if 2 ^ 64 \<le> n then -1 else if neg then - of_nat n else of_nat n)"

definition find_control :: "control_state \<Rightarrow> string \<Rightarrow> control option outcome" where
  "find_control st nm =
     (case ct st of None \<Rightarrow> Crash
      | Some t \<Rightarrow> Return (map_option (\<lambda>i. ctls st ! i) (name_get t nm)))"

definition getControlChars :: "build \<Rightarrow> (string \<Rightarrow> string option) \<Rightarrow> string option \<Rightarrow> control_state \<Rightarrow> string
    \<Rightarrow> (control_state \<times> int \<times> string option) outcome" where
  "getControlChars b files configfile st nm =
     (case (if ct st = None then setupControl b files configfile st else Return (st, 0)) of
        Abort \<Rightarrow> Abort | Crash \<Rightarrow> Crash
      | Return (st, _) \<Rightarrow>
          (case find_control st nm of Abort \<Rightarrow> Abort | Crash \<Rightarrow> Crash
           | Return None \<Rightarrow> Return (st, -1, None)
           | Return (Some ctl) \<Rightarrow>
               if ctl_type ctl = 0 \<or> ctl_type ctl = 3 then Return (st, 0, ctl_strValue ctl)
               else Return (st, -2, None)))"

definition getControlNum :: "build \<Rightarrow> (string \<Rightarrow> string option) \<Rightarrow> string option \<Rightarrow> control_state \<Rightarrow> string
    \<Rightarrow> (control_state \<times> int \<times> int) outcome" where
  "getControlNum b files configfile st nm =
     (case (if ct st = None then setupControl b files configfile st else Return (st, 0)) of
        Abort \<Rightarrow> Abort | Crash \<Rightarrow> Crash
      | Return (st, _) \<Rightarrow>
          (case find_control st nm of Abort \<Rightarrow> Abort | Crash \<Rightarrow> Crash
           | Return None \<Rightarrow> Return (st, -1, 0)
           | Return (Some ctl) \<Rightarrow>
               if ctl_type ctl = 1 then
                 (case ctl_strValue ctl of None \<Rightarrow> Crash | Some v \<Rightarrow> Return (st, 0, strtol v))
               else Return (st, -2, 0)))"

definition isdigit :: "char \<Rightarrow> bool" where
  "isdigit c \<longleftrightarrow> 48 \<le> (of_char c :: nat) \<and> (of_char c :: nat) \<le> 57"

definition getControlUNum :: "control_state \<Rightarrow> string \<Rightarrow> (int \<times> 32 word) outcome" where
  "getControlUNum st nm =
     (case find_control st nm of Abort \<Rightarrow> Abort | Crash \<Rightarrow> Crash
      | Return None \<Rightarrow> Return (-1, 0)
      | Return (Some ctl) \<Rightarrow>
          if ctl_type ctl = 1 then
            (case ctl_strValue ctl of None \<Rightarrow> Crash
             | Some v \<Rightarrow>
                 if v \<noteq> [] \<and> isdigit (hd v) \<and> strtoul v < 4294967295 then Return (0, ucast (strtoul v))
                 else Return (-2, 0))
          else Return (-2, 0))"

definition getControlBool :: "control_state \<Rightarrow> string \<Rightarrow> (int \<times> bool) outcome" where
  "getControlBool st nm =
     (case find_control st nm of Abort \<Rightarrow> Abort | Crash \<Rightarrow> Crash
      | Return None \<Rightarrow> Return (-1, False)
      | Return (Some ctl) \<Rightarrow>
          if ctl_type ctl = 2 then
            (case ctl_strValue ctl of None \<Rightarrow> Crash | Some v \<Rightarrow> Return (0, strcasecmp v ''true'' = 0))
          else Return (-2, False))"

section \<open>The table after set-up\<close>

text \<open>The entry a query means: the one whose name is equal up to case.\<close>

definition entry :: "control list \<Rightarrow> string \<Rightarrow> control option" where
  "entry cs nm = List.find (\<lambda>c. map tolower nm = map tolower (ctl_id c)) cs"

definition names_distinct :: "control list \<Rightarrow> bool" where
  "names_distinct cs \<longleftrightarrow> distinct (map (\<lambda>c. map tolower (ctl_id c)) cs)"

definition controls_ok :: "control list \<Rightarrow> bool" where
  "controls_ok cs \<longleftrightarrow> names_distinct cs \<and> (\<forall>c \<in> set cs. ctl_type c = 1 \<or> ctl_type c = 2 \<longrightarrow> ctl_strValue c \<noteq> None)"

text \<open>Two tables with the same names and types; reading a file changes values only.\<close>

definition same_shape :: "control list \<Rightarrow> control list \<Rightarrow> bool" where
  "same_shape cs cs' \<longleftrightarrow> map ctl_id cs' = map ctl_id cs \<and> map ctl_type cs' = map ctl_type cs"

definition control_ok :: "control_state \<Rightarrow> bool" where
  "control_ok st \<longleftrightarrow> controls_ok (ctls st) \<and>
     (\<exists>t cs. ct st = Some t \<and> t = put_controls cs \<and> same_shape cs (ctls st))"

lemma entry_unique:
  assumes "names_distinct cs" "i < length cs" "map tolower nm = map tolower (ctl_id (cs ! i))"
  shows "entry cs nm = Some (cs ! i)"
proof -
  have "i' = i" if "i' < length cs" "map tolower nm = map tolower (ctl_id (cs ! i'))" for i'
    using assms that nth_eq_iff_index_eq [of "map (\<lambda>c. map tolower (ctl_id c)) cs" i' i]
    by (simp add: names_distinct_def)
  with assms(2,3) show ?thesis
    unfolding entry_def find_Some_iff by (metis less_trans less_not_refl)
qed

lemma entry_None: "entry cs nm = None \<longleftrightarrow> (\<forall>c \<in> set cs. map tolower nm \<noteq> map tolower (ctl_id c))"
  by (auto simp: entry_def find_None_iff)

lemma names_distinct_shape: "same_shape cs cs' \<Longrightarrow> names_distinct cs' = names_distinct cs"
proof -
  assume "same_shape cs cs'"
  then have "map (map tolower) (map ctl_id cs') = map (map tolower) (map ctl_id cs)"
    by (simp add: same_shape_def)
  then show ?thesis by (simp add: names_distinct_def comp_def)
qed

lemma put_controls_get:
  assumes d: "names_distinct cs'" and sh: "same_shape cs cs'"
  shows "map_option (\<lambda>i. cs' ! i) (name_get (put_controls cs) nm) = entry cs' nm"
proof -
  let ?kvs = "zip (map ctl_id cs) [0..<length cs]"
  have ids: "map ctl_id cs = map ctl_id cs'" and len: "length cs = length cs'"
    using sh by (auto simp: same_shape_def dest: arg_cong [where f = length])
  have get: "name_get (put_controls cs) nm =
      (case List.find (\<lambda>(k', v). map tolower nm = map tolower k') (rev ?kvs) of Some (k', v) \<Rightarrow> Some v | None \<Rightarrow> None)"
    unfolding put_controls_def using names.get_fold_put [of "new_name_table 61" ?kvs nm] by (simp split: option.split)
  show ?thesis
  proof (cases "List.find (\<lambda>(k', v). map tolower nm = map tolower k') (rev ?kvs)")
    case None
    then have no: "\<And>k i. (k, i) \<in> set ?kvs \<Longrightarrow> map tolower nm \<noteq> map tolower k"
      by (auto simp: find_None_iff)
    have "map tolower nm \<noteq> map tolower (ctl_id c)" if c: "c \<in> set cs'" for c
    proof -
      from c obtain i where i: "i < length cs'" "c = cs' ! i" by (metis in_set_conv_nth)
      then have "(ctl_id c, i) \<in> set ?kvs"
        unfolding ids len by (auto simp: in_set_zip intro!: exI [of _ i])
      with no show ?thesis by blast
    qed
    then have "entry cs' nm = None" by (simp add: entry_None)
    with get None show ?thesis by simp
  next
    case (Some kv)
    obtain k i where kv: "kv = (k, i)" by (cases kv)
    with Some have "(k, i) \<in> set ?kvs" "map tolower nm = map tolower k"
      by (auto dest!: find_SomeD)
    then have "i < length cs'" "map tolower nm = map tolower (ctl_id (cs' ! i))"
      unfolding ids len by (auto simp: in_set_zip)
    with get Some kv d show ?thesis by (simp add: entry_unique)
  qed
qed

lemma find_control_entry: "control_ok st \<Longrightarrow> find_control st nm = Return (entry (ctls st) nm)"
  unfolding control_ok_def find_control_def controls_ok_def by (auto simp: put_controls_get)

lemma entry_value:
  assumes "controls_ok cs" "entry cs nm = Some c" "ctl_type c = 1 \<or> ctl_type c = 2"
  obtains v where "ctl_strValue c = Some v"
proof -
  from assms(2) have "c \<in> set cs" by (auto simp: entry_def dest: find_SomeD)
  with assms that show thesis by (auto simp: controls_ok_def)
qed

lemma same_shape_refl [simp]: "same_shape cs cs"
  by (simp add: same_shape_def)

lemma same_shape_Cons [simp]: "same_shape (c # cs) (c' # cs') \<longleftrightarrow> ctl_id c' = ctl_id c \<and> ctl_type c' = ctl_type c \<and> same_shape cs cs'"
  by (auto simp: same_shape_def)

lemma same_shape_trans: "same_shape a b \<Longrightarrow> same_shape b c \<Longrightarrow> same_shape a c"
  by (simp add: same_shape_def)

lemma set_control_split:
  "set_control rv cs = Some (cs', rv') \<Longrightarrow> \<exists>ys c zs v. cs = ys @ c # zs \<and> cs' = ys @ set_value v c # zs"
proof (induction cs arbitrary: cs')
  case (Cons c cs)
  show ?case
  proof (cases "cv_id rv = Some (ctl_id c)")
    case True
    then obtain v where "cs' = set_value v c # cs"
      using Cons.prems by (auto split: if_splits prod.splits)
    then show ?thesis by (metis append_Nil)
  next
    case False
    with Cons.prems obtain cs'' where r: "set_control rv cs = Some (cs'', rv')" "cs' = c # cs''" by auto
    from Cons.IH [OF r(1)] r(2) show ?thesis by (metis append_Cons)
  qed
qed simp

lemma set_control_ok:
  "set_control rv cs = Some (cs', rv') \<Longrightarrow> controls_ok cs \<Longrightarrow> controls_ok cs' \<and> same_shape cs cs'"
proof -
  assume s: "set_control rv cs = Some (cs', rv')" and ok: "controls_ok cs"
  obtain ys c zs v where "cs = ys @ c # zs" "cs' = ys @ set_value v c # zs"
    using set_control_split [OF s] by blast
  moreover from this have "same_shape cs cs'" by (simp add: same_shape_def set_value_def)
  moreover from this have "names_distinct cs'" using ok names_distinct_shape [of cs cs'] by (simp add: controls_ok_def)
  ultimately show ?thesis using ok by (auto simp: controls_ok_def set_value_def)
qed

lemma setup_line_ok:
  "setup_line fin cs rv err = Some (cs', rv', err') \<Longrightarrow> controls_ok cs \<Longrightarrow> controls_ok cs' \<and> same_shape cs cs'"
  by (auto simp: setup_line_def dest!: set_control_ok split: option.splits if_splits)

lemma setup_lines_ok:
  "setup_lines fs cs rv err = Some (cs', err') \<Longrightarrow> controls_ok cs \<Longrightarrow> controls_ok cs' \<and> same_shape cs cs'"
proof (induction fs cs rv err rule: setup_lines.induct)
  case (1 fs cs rv err)
  show ?case
  proof (cases "fgets 1024 fs")
    case None
    with "1.prems" show ?thesis by (subst (asm) setup_lines.simps) simp
  next
    case (Some lr)
    obtain l r where lr: "lr = (l, r)" by (cases lr)
    from "1.prems"(1) Some lr obtain cs1 rv1 err1 where s: "setup_line (c_string l) cs rv err = Some (cs1, rv1, err1)"
      "setup_lines r cs1 rv1 err1 = Some (cs', err')"
      by (subst (asm) setup_lines.simps) (auto split: option.splits)
    from setup_line_ok [OF s(1) "1.prems"(2)] "1.IH" [OF Some lr [symmetric] s(1) refl refl s(2)]
    show ?thesis using same_shape_trans by blast
  qed
qed

lemma names_distinct_ids: "names_distinct cs \<longleftrightarrow> distinct (map (map tolower) (map ctl_id cs))"
  by (simp add: names_distinct_def comp_def)

definition options_only :: "bool \<Rightarrow> bool \<Rightarrow> build" where
  "options_only j l = \<lparr>have_jdbc = j, have_slp = l, SFCB_CONFDIR = [], SFCB_STATEDIR = [], SFCB_LIBDIR = [],
     CMPI_LIBDIR = [], LIBDIR = []\<rparr>"

lemma init_ids: "map ctl_id (init b) = map ctl_id (init (options_only (have_jdbc b) (have_slp b)))"
  by (simp add: init_def control_def options_only_def)

lemma init_ids_distinct: "distinct (map (map tolower) (map ctl_id (init (options_only j l))))"
  by (cases j; cases l; simp add: init_def control_def options_only_def tolower_chars)

lemma init_ok: "controls_ok (init b)"
proof -
  have "names_distinct (init b)"
    unfolding names_distinct_ids init_ids [of b] using init_ids_distinct by blast
  moreover have "\<forall>c \<in> set (init b). ctl_type c = 1 \<or> ctl_type c = 2 \<longrightarrow> ctl_strValue c \<noteq> None"
    by (cases "have_jdbc b"; cases "have_slp b"; simp add: init_def control_def)
  ultimately show ?thesis by (simp add: controls_ok_def)
qed

lemma setupControl_ok:
  assumes "setupControl b files fn (init_state b) = Return (st, rc)"
  shows "control_ok st \<and> same_shape (init b) (ctls st)"
proof -
  let ?ct = "Some (put_controls (init b))"
  from assms consider "st = \<lparr>ct = ?ct, ctls = init b\<rparr>"
    | fs cs where "setup_lines fs (init b) \<lparr>cv_type = 0, cv_id = None, cv_val = None\<rparr> False = Some (cs, False)"
      "st = \<lparr>ct = ?ct, ctls = cs\<rparr>"
    by (auto simp: setupControl_def init_state_def Let_def split: if_splits option.splits)
  then show ?thesis
  proof cases
    case 1
    then show ?thesis by (auto simp: control_ok_def init_ok)
  next
    case 2
    with setup_lines_ok [OF 2(1) init_ok] show ?thesis by (auto simp: control_ok_def)
  qed
qed

section \<open>Reading a file of statements\<close>

text \<open>A statement as it is written into the file, and what a file that is well formed assigns.\<close>

definition setting_line :: "string \<times> string \<Rightarrow> string" where
  "setting_line s = fst s @ CHR '':'' # CHR '' '' # snd s @ [newline]"

definition setting_ok :: "string \<times> string \<Rightarrow> bool" where
  "setting_ok s \<longleftrightarrow>
     fst s \<noteq> [] \<and> \<not> blank (hd (fst s)) \<and> hd (fst s) \<noteq> CHR ''#'' \<and> hd (fst s) \<noteq> CHR ''['' \<and>
     (\<forall>c \<in> set (fst s). c \<notin> {CHR '':'', CHR '' '', tab, newline, CHR 0x00}) \<and>
     snd s \<noteq> [] \<and> \<not> blank (hd (snd s)) \<and> (\<forall>c \<in> set (snd s). c \<notin> {newline, CHR 0x00}) \<and>
     length (fst s) + length (snd s) \<le> 1020"

definition value_for :: "control \<Rightarrow> string \<Rightarrow> string" where
  "value_for c v = (if ctl_type c = 3 then v else takeWhile (\<lambda>x. x \<noteq> CHR '' '' \<and> x \<noteq> tab) v)"

definition assigned :: "(string \<times> string) list \<Rightarrow> control \<Rightarrow> control" where
  "assigned ss c =
     (case List.find (\<lambda>s. fst s = ctl_id c) (rev ss) of None \<Rightarrow> c | Some s \<Rightarrow> set_value (value_for c (snd s)) c)"

lemma dropWhile_hd: "xs \<noteq> [] \<Longrightarrow> \<not> P (hd xs) \<Longrightarrow> dropWhile P (xs @ ys) = xs @ ys"
  by (cases xs) auto

lemma span_append:
  "(\<And>c. c \<in> set a \<Longrightarrow> P c) \<Longrightarrow> \<not> P x \<Longrightarrow> takeWhile P (a @ x # r) = a \<and> dropWhile P (a @ x # r) = x # r"
  by (induction a) auto

lemma not_blank_newline: "\<not> blank c \<Longrightarrow> c \<noteq> newline"
  by (auto simp: blank_def newline_def)

lemma parse_setting:
  assumes ok: "setting_ok (i, v)"
  shows "cntlParseStmt (setting_line (i, v)) rv = Some (rv\<lparr>cv_type := 2, cv_id := Some i, cv_val := Some (v @ [newline])\<rparr>)"
proof -
  let ?l = "setting_line (i, v)"
  have i: "i \<noteq> []" "\<not> blank (hd i)" "hd i \<noteq> CHR ''#''" "hd i \<noteq> CHR ''[''"
    "\<And>c. c \<in> set i \<Longrightarrow> c \<notin> {CHR '':'', CHR '' '', tab, newline}"
    and v: "v \<noteq> []" "\<not> blank (hd v)"
    using ok by (auto simp: setting_ok_def)
  have skip: "cntlSkipws ?l = ?l"
    using dropWhile_hd [of i "\<lambda>c. blank c \<and> c \<noteq> newline"] i by (simp add: cntlSkipws_def setting_line_def)
  have val: "cntlSkipws (CHR '' '' # v @ [newline]) = v @ [newline]"
    using dropWhile_hd [of v "\<lambda>c. blank c \<and> c \<noteq> newline"] v
    by (simp add: cntlSkipws_def blank_def newline_def)
  have "strpbrk ?l [CHR '':'', CHR '' '', tab, newline] = (i, CHR '':'' # CHR '' '' # v @ [newline])"
    using span_append [of i "\<lambda>c. c \<notin> set [CHR '':'', CHR '' '', tab, newline]" "CHR '':''"] i(5)
    by (simp add: strpbrk_def setting_line_def)
  moreover have "?l \<noteq> []" "hd ?l = hd i" using i by (simp_all add: setting_line_def)
  ultimately show ?thesis
    using i not_blank_newline [OF i(2)] val by (simp add: cntlParseStmt_def skip Let_def)
qed

lemma value_read:
  assumes ok: "setting_ok (i, v)"
  shows "takeWhile (\<lambda>x. x \<noteq> newline) (v @ [newline]) = v"
    "snd (cntlGetVal (rv\<lparr>cv_val := Some (v @ [newline])\<rparr>)) = Some (takeWhile (\<lambda>x. x \<noteq> CHR '' '' \<and> x \<noteq> tab) v)"
proof -
  have v: "v \<noteq> []" "\<not> blank (hd v)" "\<And>c. c \<in> set v \<Longrightarrow> c \<noteq> newline"
    using ok by (auto simp: setting_ok_def)
  show "takeWhile (\<lambda>x. x \<noteq> newline) (v @ [newline]) = v"
    using span_append [of v "\<lambda>x. x \<noteq> newline" newline "[]"] v(3) by simp
  have skip: "cntlSkipws (v @ [newline]) = v @ [newline]"
    using dropWhile_hd [of v "\<lambda>c. blank c \<and> c \<noteq> newline"] v by (simp add: cntlSkipws_def)
  have "takeWhile (\<lambda>c. c \<notin> set [CHR '' '', tab, newline]) (v @ [newline]) = takeWhile (\<lambda>x. x \<noteq> CHR '' '' \<and> x \<noteq> tab) v"
    using v(3) by (induction v) auto
  then show "snd (cntlGetVal (rv\<lparr>cv_val := Some (v @ [newline])\<rparr>)) = Some (takeWhile (\<lambda>x. x \<noteq> CHR '' '' \<and> x \<noteq> tab) v)"
    by (simp add: cntlGetVal_def skip strpbrk_def split: list.split)
qed

lemma set_control_setting:
  assumes ok: "setting_ok (i, v)" and rv: "cv_id rv = Some i" "cv_val rv = Some (v @ [newline])"
    and d: "distinct (map ctl_id cs)"
  shows "case set_control rv cs of None \<Rightarrow> i \<notin> ctl_id ` set cs
    | Some (cs', rv') \<Rightarrow> i \<in> ctl_id ` set cs \<and> cs' = map (\<lambda>c. if ctl_id c = i then set_value (value_for c v) c else c) cs"
  using d
proof (induction cs)
  case (Cons c cs)
  have val: "rv\<lparr>cv_val := Some (v @ [newline])\<rparr> = rv" using rv(2) by simp
  show ?case
  proof (cases "ctl_id c = i")
    case True
    then have "map (\<lambda>c. if ctl_id c = i then set_value (value_for c v) c else c) cs = cs"
      using Cons.prems True by (intro map_idI) (metis distinct.simps(2) image_eqI list.set_map list.simps(9))
    then show ?thesis
      using True rv value_read(1) [OF ok] value_read(2) [OF ok, of rv] by (auto simp: val value_for_def split: prod.splits)
  next
    case False
    then show ?thesis using Cons rv by (auto split: option.splits)
  qed
qed simp

lemma fgets_setting:
  assumes "setting_ok (i, v)"
  shows "fgets 1024 (setting_line (i, v) @ rest) = Some (setting_line (i, v), rest)"
    "c_string (setting_line (i, v)) = setting_line (i, v)"
proof -
  have c: "\<And>c. c \<in> set i \<union> set v \<Longrightarrow> c \<noteq> newline \<and> c \<noteq> CHR 0x00" and l: "length i + length v \<le> 1020"
    using assms by (auto simp: setting_ok_def)
  have "takeWhile (\<lambda>c. c \<noteq> newline) ((i @ CHR '':'' # CHR '' '' # v) @ newline # rest) = i @ CHR '':'' # CHR '' '' # v"
    using c by (intro span_append [THEN conjunct1]) (auto simp: newline_def)
  then have "length (takeWhile (\<lambda>c. c \<noteq> newline) (setting_line (i, v) @ rest)) = length i + length v + 2"
    by (simp add: setting_line_def)
  with l have "min 1023 (length (takeWhile (\<lambda>c. c \<noteq> newline) (setting_line (i, v) @ rest)) + 1) = length (setting_line (i, v))"
    by (simp add: setting_line_def)
  moreover have "setting_line (i, v) @ rest \<noteq> []" by (simp add: setting_line_def)
  ultimately show "fgets 1024 (setting_line (i, v) @ rest) = Some (setting_line (i, v), rest)"
    by (simp add: fgets_def Let_def del: append_is_Nil_conv)
  show "c_string (setting_line (i, v)) = setting_line (i, v)"
    unfolding c_string_def takeWhile_eq_all_conv using c by (auto simp: setting_line_def newline_def)
qed

lemma assigned_id: "ctl_id (assigned ss c) = ctl_id c" "ctl_type (assigned ss c) = ctl_type c"
  by (auto simp: assigned_def set_value_def split: option.split)

lemma entry_assigned: "entry (map (assigned ss) cs) nm = map_option (assigned ss) (entry cs nm)"
  by (induction cs) (auto simp: entry_def assigned_id)

lemma control_sel [simp]:
  "ctl_id (control n t v) = n" "ctl_type (control n t v) = t" "ctl_strValue (control n t v) = Some v"
  by (simp_all add: control_def)

lemma assigned_snoc:
  "assigned (ss @ [(i, v)]) c = (if ctl_id c = i then set_value (value_for c v) c else assigned ss c)"
  by (simp add: assigned_def)

lemma set_value_assigned:
  "ctl_id c = i \<Longrightarrow> set_value (value_for (assigned ss c) v) (assigned ss c) = set_value (value_for c v) c"
  by (auto simp: assigned_def set_value_def value_for_def split: option.split)

text \<open>One statement after the statements \<open>ss\<close>.\<close>

lemma setup_line_setting:
  assumes ok: "setting_ok (i, v)" and d: "distinct (map ctl_id cs)"
  shows "\<exists>rv'. setup_line (setting_line (i, v)) (map (assigned ss) cs) rv err =
    Some (if i \<in> ctl_id ` set cs then map (assigned (ss @ [(i, v)])) cs else map (assigned ss) cs, rv',
      err \<or> i \<notin> ctl_id ` set cs)"
proof -
  let ?rv = "rv\<lparr>cv_type := 2, cv_id := Some i, cv_val := Some (v @ [newline])\<rparr>" and ?cs = "map (assigned ss) cs"
  have ids: "map ctl_id ?cs = map ctl_id cs" "ctl_id ` set ?cs = ctl_id ` set cs"
    by (auto simp: assigned_id image_iff)
  have "map (\<lambda>c. if ctl_id c = i then set_value (value_for c v) c else c) ?cs = map (assigned (ss @ [(i, v)])) cs"
    by (auto simp: assigned_snoc assigned_id set_value_assigned)
  with set_control_setting [OF ok, of ?rv ?cs] d show ?thesis
    unfolding ids by (auto simp: setup_line_def parse_setting [OF ok] split: option.splits)
qed

lemma setup_lines_settings:
  assumes "\<forall>s \<in> set ss. setting_ok s" "distinct (map ctl_id cs)"
  shows "\<exists>cs'. setup_lines (concat (map setting_line ss)) (map (assigned done) cs) rv err =
      Some (cs', err \<or> \<not> fst ` set ss \<subseteq> ctl_id ` set cs) \<and>
    (fst ` set ss \<subseteq> ctl_id ` set cs \<longrightarrow> cs' = map (assigned (done @ ss)) cs)"
  using assms(1)
proof (induction ss arbitrary: "done" rv err)
  case Nil
  show ?case by (subst setup_lines.simps) (simp add: fgets_def)
next
  case (Cons s ss)
  obtain i v where s: "s = (i, v)" by (cases s)
  let ?done = "if i \<in> ctl_id ` set cs then done @ [(i, v)] else done"
  from Cons.prems s have ok: "setting_ok (i, v)" by simp
  obtain rv' where line: "setup_line (setting_line (i, v)) (map (assigned done) cs) rv err =
      Some (map (assigned ?done) cs, rv', err \<or> i \<notin> ctl_id ` set cs)"
    using setup_line_setting [OF ok assms(2), of "done" rv err] by (auto split: if_splits)
  have "setup_lines (concat (map setting_line (s # ss))) (map (assigned done) cs) rv err =
    setup_lines (concat (map setting_line ss)) (map (assigned ?done) cs) rv' (err \<or> i \<notin> ctl_id ` set cs)"
    by (subst setup_lines.simps) (simp add: s fgets_setting [OF ok] line)
  then show ?case
    using Cons.IH [of ?done rv' "err \<or> i \<notin> ctl_id ` set cs"] Cons.prems by (auto simp: s split: if_splits)
qed

lemma init_ids_distinct': "distinct (map ctl_id (init b))"
  using init_ok [of b] distinct_map [of "map tolower" "map ctl_id (init b)"]
  by (simp add: controls_ok_def names_distinct_ids)

lemma assigned_Nil: "map (assigned []) cs = cs"
  by (simp add: assigned_def map_idI)

lemma setupControl_settings:
  assumes "\<forall>s \<in> set ss. setting_ok s" "length fn < 1024" "files fn = Some (concat (map setting_line ss))"
  shows "setupControl b files (Some fn) (init_state b) =
    (if fst ` set ss \<subseteq> ctl_id ` set (init b)
     then Return (\<lparr>ct = Some (put_controls (init b)), ctls = map (assigned ss) (init b)\<rparr>, 0) else Abort)"
proof -
  define known where "known \<longleftrightarrow> fst ` set ss \<subseteq> ctl_id ` set (init b)"
  obtain cs' where "setup_lines (concat (map setting_line ss)) (init b) \<lparr>cv_type = 0, cv_id = None, cv_val = None\<rparr> False =
      Some (cs', \<not> known)" "known \<longrightarrow> cs' = map (assigned ss) (init b)"
    using setup_lines_settings [OF assms(1) init_ids_distinct' [of b], of "[]"
        "\<lparr>cv_type = 0, cv_id = None, cv_val = None\<rparr>" False]
    unfolding known_def [symmetric] by (auto simp: assigned_Nil)
  then show ?thesis
    unfolding known_def [symmetric] using assms(2,3)
    by (auto simp: setupControl_def init_state_def Let_def)
qed

section \<open>Properties\<close>


definition sample_build :: build where
  "sample_build = options_only False False"

definition sample_files :: "string \<Rightarrow> string option" where
  "sample_files = [''cfg'' \<mapsto> concat (map setting_line [(''httpPort'', ''6000''), (''providerDirs'', ''/lib /lib64'')])]"

definition sample_state :: control_state where
  "sample_state = \<lparr>ct = Some (put_controls (init sample_build)),
     ctls = map (assigned [(''httpPort'', ''6000''), (''providerDirs'', ''/lib /lib64'')]) (init sample_build)\<rparr>"

lemma sample_setting_ok: "setting_ok (''httpPort'', ''6000'')" "setting_ok (''providerDirs'', ''/lib /lib64'')"
  by code_simp+

lemma sample_known: "{''httpPort'', ''providerDirs''} \<subseteq> ctl_id ` set (init sample_build)"
  by (simp add: sample_build_def options_only_def init_def control_def)

lemma sample_setup: "setupControl sample_build sample_files (Some ''cfg'') (init_state sample_build) = Return (sample_state, 0)"
  using setupControl_settings [of "[(''httpPort'', ''6000''), (''providerDirs'', ''/lib /lib64'')]" "''cfg''" sample_files sample_build]
    sample_setting_ok sample_known by (simp add: sample_files_def sample_state_def)


text \<open>
  C23. A file that holds one statement \<open>name: value\<close> per line, each of at most 1023 characters, is read as
  it is meant: if every name is one of the table, spelled exactly, then \<open>setupControl\<close> returns 0 and every
  control has the value of the last statement with its name, or its default; only the first word of the
  value counts, except for a control of type 3. If some name is not in the table the broker aborts. A
  second call changes nothing, and a file that cannot be opened leaves the defaults and gives -2.
\<close>

theorem control_setup_correct:
  assumes "length fn < 1024"
  shows "(\<forall>ss. (\<forall>s \<in> set ss. setting_ok s) \<longrightarrow> files fn = Some (concat (map setting_line ss)) \<longrightarrow>
      setupControl b files (Some fn) (init_state b) =
        (if fst ` set ss \<subseteq> ctl_id ` set (init b)
         then Return (\<lparr>ct = Some (put_controls (init b)), ctls = map (assigned ss) (init b)\<rparr>, 0) else Abort)) \<and>
    (files fn = None \<longrightarrow>
      setupControl b files (Some fn) (init_state b) = Return (\<lparr>ct = Some (put_controls (init b)), ctls = init b\<rparr>, -2)) \<and>
    (\<forall>st rc files' fn'. setupControl b files (Some fn) (init_state b) = Return (st, rc) \<longrightarrow>
      setupControl b files' fn' st = Return (st, 0))"
proof (intro conjI allI impI)
  show "setupControl b files (Some fn) (init_state b) =
      (if fst ` set ss \<subseteq> ctl_id ` set (init b)
       then Return (\<lparr>ct = Some (put_controls (init b)), ctls = map (assigned ss) (init b)\<rparr>, 0) else Abort)"
    if "\<forall>s \<in> set ss. setting_ok s" "files fn = Some (concat (map setting_line ss))" for ss
    using setupControl_settings [where files = files, OF that(1) assms that(2)] .
  show "setupControl b files (Some fn) (init_state b) = Return (\<lparr>ct = Some (put_controls (init b)), ctls = init b\<rparr>, -2)"
    if "files fn = None"
    using that assms by (simp add: setupControl_def init_state_def Let_def)
  show "setupControl b files' fn' st = Return (st, 0)"
    if "setupControl b files (Some fn) (init_state b) = Return (st, rc)" for st rc files' fn'
    using setupControl_ok [OF that] by (auto simp: control_ok_def setupControl_def)
qed

lemma control_setup_correct_witness:
  "setupControl sample_build sample_files (Some ''cfg'') (init_state sample_build) = Return (sample_state, 0) \<and>
   setupControl sample_build (\<lambda>_. Some (setting_line (''httpport'', ''1''))) (Some ''cfg'') (init_state sample_build) = Abort"
proof -
  have ok: "setting_ok (''httpport'', ''1'')" by code_simp
  have no: "''httpport'' \<notin> ctl_id ` set (init sample_build)"
    by (simp add: sample_build_def options_only_def init_def control_def)
  have "setupControl sample_build sample_files (Some ''cfg'') (init_state sample_build) = Return (sample_state, 0)"
    using control_setup_correct [of "''cfg''" sample_files sample_build, THEN conjunct1, rule_format,
        of "[(''httpPort'', ''6000''), (''providerDirs'', ''/lib /lib64'')]"]
      sample_setting_ok sample_known by (auto simp: sample_files_def sample_state_def)
  moreover have "setupControl sample_build (\<lambda>_. Some (setting_line (''httpport'', ''1''))) (Some ''cfg'') (init_state sample_build) = Abort"
    using control_setup_correct [of "''cfg''" "\<lambda>_. Some (setting_line (''httpport'', ''1''))" sample_build, THEN conjunct1, rule_format,
        of "[(''httpport'', ''1'')]"] ok no by simp
  ultimately show ?thesis ..
qed

end
