(* ===== verification/ObjectBuffer.thy ===== *)
theory ObjectBuffer
  imports Prelude
begin

unbundle bit_operations_syntax

text \<open>
  The buffers of an object, \<open>src/objectImpl.c\<close>: an object has a buffer for its strings (and serialised
  embedded instances) and one for its arrays, each with an index of offsets; what refers to a string or an
  array is its number in the index, from 1, and 0 is none. The sections of an object (its properties,
  qualifiers, methods) are arrays that grow. Blocks are in the heap or part of the object.

  A buffer is modelled by the part of its block that is used, and by how much the block has room for; a
  write behind the block, a read behind the used part and a loop that does not end are \<open>None\<close>. Capacities
  of indices and sections are kept at their 16 bits, of which the highest says that the block is in
  the heap. Byte counts are natural numbers: the buffer of one object stays below 2 GB.

  Shown: adding a string or an array gives it the next number and changes no other; replacing one changes no
  other; all for up to 16384 entries, after which the capacity wraps to 0 and the next entry is written
  behind the block. Two cases lose data: replacing a string of an object that holds an embedded instance,
  and adding an array to an object that was rebuilt with arrays in it.
\<close>

section \<open>Values\<close>

text \<open>
  A value of a caller with its type. \<open>V_null\<close> is a null pointer (or zero) of a type. Dates and references are the
  text that \<open>dateTime2chars\<close> and \<open>sfcb_pathToChars\<close> make of them, instances their serialised bytes. An array is
  its element type and its elements, each with its state.
\<close>

datatype ctype = CT_chars | CT_string | CT_dateTime | CT_ref | CT_instance | CT_array ctype | CT_plain "16 word"

datatype cvalue =
    V_null ctype
  | V_chars string
  | V_string string
  | V_dateTime string
  | V_ref string
  | V_instance string
  | V_array ctype "(16 word \<times> cvalue) list"
  | V_plain "16 word" "64 word"

fun type_of :: "cvalue \<Rightarrow> ctype" where
  "type_of (V_null t) = t"
| "type_of (V_chars _) = CT_chars"
| "type_of (V_string _) = CT_string"
| "type_of (V_dateTime _) = CT_dateTime"
| "type_of (V_ref _) = CT_ref"
| "type_of (V_instance _) = CT_instance"
| "type_of (V_array t _) = CT_array t"
| "type_of (V_plain t _) = CT_plain t"

definition CMPI_nullValue :: "16 word" where "CMPI_nullValue = 0x100"

definition null_state :: "16 word \<Rightarrow> bool" where
  "null_state st \<longleftrightarrow> st AND CMPI_nullValue \<noteq> 0"

text \<open>A stored value: the number of a string or array of the object, or the value of the caller as it came.\<close>

datatype sval = Id nat | Raw cvalue

record cl_data =
  sd_type :: ctype
  sd_state :: "16 word"
  sd_val :: sval

datatype arr_cell = ArrHdr ctype nat | ArrElem cl_data | Garbage

section \<open>State\<close>

record 'e cl_buf =
  iUsed :: "16 word"
  iMax :: "16 word"
  iRoom :: nat
  indexPtr :: "nat list"
  bMax :: nat
  buf :: "'e list"

record obj_hdr =
  h_flags :: "16 word"
  h_type :: "16 word"
  strBuffer :: "char cl_buf option"
  arrayBuffer :: "arr_cell cl_buf option"

definition HDR_Rebuild :: "16 word" where "HDR_Rebuild = 1"
definition HDR_ContainsEmbeddedObject :: "16 word" where "HDR_ContainsEmbeddedObject = 4"
definition HDR_StrBufferMalloced :: "16 word" where "HDR_StrBufferMalloced = 16"
definition HDR_ArrayBufferMalloced :: "16 word" where "HDR_ArrayBufferMalloced = 32"
definition HDR_Class :: "16 word" where "HDR_Class = 1"
definition HDR_Instance :: "16 word" where "HDR_Instance = 2"
definition HDR_ObjectPath :: "16 word" where "HDR_ObjectPath = 3"
definition HDR_Args :: "16 word" where "HDR_Args = 4"

definition GetMax :: "16 word \<Rightarrow> 16 word" where
  "GetMax x = x AND 0x7fff"

definition Malloced :: "16 word" where "Malloced = 0x8000"

definition IsMallocedMax :: "16 word \<Rightarrow> bool" where
  "IsMallocedMax x \<longleftrightarrow> x AND Malloced \<noteq> 0"

definition set_flag :: "16 word \<Rightarrow> obj_hdr \<Rightarrow> obj_hdr" where
  "set_flag f hdr = hdr\<lparr>h_flags := h_flags hdr OR f\<rparr>"

definition isMallocedArrayBuf :: "obj_hdr \<Rightarrow> bool" where
  "isMallocedArrayBuf hdr \<longleftrightarrow> h_flags hdr AND HDR_ArrayBufferMalloced \<noteq> 0"

section \<open>Growing\<close>

text \<open>\<open>for (; nmax <= l; nmax *= 2);\<close>\<close>

partial_function (option) grow_to :: "nat \<Rightarrow> nat \<Rightarrow> nat option" where
  "grow_to nmax l = (if nmax \<le> l then grow_to (2 * nmax) l else Some nmax)"

declare grow_to.simps [code]

definition new_buf :: "nat \<Rightarrow> 'e cl_buf" where
  "new_buf nmax = \<lparr>iUsed = 0, iMax = 16 OR Malloced, iRoom = 16, indexPtr = [], bMax = nmax, buf = []\<rparr>"

definition grow_index :: "'e cl_buf \<Rightarrow> 'e cl_buf" where
  "grow_index b =
     (if GetMax (iMax b) \<le> iUsed b then
        (let m = (if 0 < iMax b then GetMax (iMax b) * 2 else 16) in b\<lparr>iMax := m OR Malloced, iRoom := unat m\<rparr>)
      else b)"

definition index_full :: "'e cl_buf \<Rightarrow> bool" where
  "index_full b \<longleftrightarrow> GetMax (iMax b) \<le> iUsed b"

definition bytes_full :: "'e cl_buf \<Rightarrow> nat \<Rightarrow> bool" where
  "bytes_full b l \<longleftrightarrow> bMax b \<le> length (buf b) + l"

text \<open>The new entry is written behind the used part, and its offset to the index.\<close>

definition put_entry :: "'e cl_buf \<Rightarrow> 'e list \<Rightarrow> ('e cl_buf \<times> nat) option" where
  "put_entry b e =
     (if unat (iUsed b) < iRoom b \<and> length (buf b) + length e \<le> bMax b then
        Some (b\<lparr>buf := buf b @ e, indexPtr := take (unat (iUsed b)) (indexPtr b) @ [length (buf b)], iUsed := iUsed b + 1\<rparr>,
              unat (iUsed b + 1))
      else None)"

section \<open>Strings\<close>

text \<open>\<open>length = 0\<close> stands for a text, which is stored with its terminator.\<close>

definition entry_bytes :: "string \<Rightarrow> nat \<Rightarrow> string" where
  "entry_bytes str l = (if l \<noteq> 0 then take l str else str @ [CHR 0x00])"

definition addClStringN :: "obj_hdr \<Rightarrow> string \<Rightarrow> nat \<Rightarrow> (obj_hdr \<times> nat) option" where
  "addClStringN hdr str len =
     (let e = entry_bytes str len; l = length e in
      Option.bind
        (case strBuffer hdr of
           None \<Rightarrow> map_option (\<lambda>nmax. (set_flag (HDR_StrBufferMalloced OR HDR_Rebuild) hdr, new_buf nmax)) (grow_to 256 l)
         | Some b \<Rightarrow>
             (let b1 = grow_index b;
                  hdr1 = (if index_full b then set_flag HDR_Rebuild hdr else hdr)
              in if bytes_full b1 l
                 then map_option (\<lambda>nmax. (set_flag (HDR_StrBufferMalloced OR HDR_Rebuild) hdr1, b1\<lparr>bMax := nmax\<rparr>))
                        (grow_to (bMax b1) (length (buf b1) + l))
                 else Some (hdr1, b1)))
        (\<lambda>(hdr', b'). map_option (\<lambda>(b'', i). (hdr'\<lparr>strBuffer := Some b''\<rparr>, i)) (put_entry b' e)))"

definition addClString :: "obj_hdr \<Rightarrow> string \<Rightarrow> (obj_hdr \<times> nat) option" where
  "addClString hdr str = addClStringN hdr str 0"

definition addClObject :: "obj_hdr \<Rightarrow> string \<Rightarrow> (obj_hdr \<times> nat) option" where
  "addClObject hdr obj = addClStringN hdr obj (length obj)"

text \<open>The C string at an offset, with its terminator.\<close>

definition cstr_at :: "string \<Rightarrow> nat \<Rightarrow> string option" where
  "cstr_at fs i = (if CHR 0x00 \<in> set (drop i fs) then Some (takeWhile (\<lambda>c. c \<noteq> CHR 0x00) (drop i fs) @ [CHR 0x00]) else None)"

text \<open>\<open>Some None\<close>: the null pointer for number 0; \<open>None\<close>: a read outside the buffer.\<close>

definition ClObjectGetClString :: "obj_hdr \<Rightarrow> nat \<Rightarrow> string option option" where
  "ClObjectGetClString hdr i =
     (if i = 0 then Some None
      else case strBuffer hdr of None \<Rightarrow> None
        | Some b \<Rightarrow> if i \<le> unat (iUsed b) then map_option (\<lambda>s. Some (butlast s)) (cstr_at (buf b) (indexPtr b ! (i - 1))) else None)"

text \<open>The serialised object with a number: what begins at its offset.\<close>

definition ClObjectGetClObject :: "obj_hdr \<Rightarrow> nat \<Rightarrow> string option option" where
  "ClObjectGetClObject hdr i =
     (if i = 0 then Some None
      else case strBuffer hdr of None \<Rightarrow> None
        | Some b \<Rightarrow> if i \<le> unat (iUsed b) then Some (Some (drop (indexPtr b ! (i - 1)) (buf b))) else None)"

text \<open>
  The loop of \<open>replaceClStringN\<close> and \<open>replaceClArray\<close>: every entry but number \<open>k + 1\<close> is copied to a block \<open>ts\<close> of the size of
  the used part, and its offset changed. \<open>rd\<close> reads the entry at an offset.
\<close>

fun compact :: "('e list \<Rightarrow> nat \<Rightarrow> 'e list option) \<Rightarrow> 'e list \<Rightarrow> nat \<Rightarrow> nat \<Rightarrow> nat list \<Rightarrow> 'e list \<Rightarrow> (nat list \<times> 'e list) option" where
  "compact rd fs k i [] ts = Some ([], ts)"
| "compact rd fs k i (x # xs) ts =
     (if i = k then map_option (\<lambda>(ix, t). (x # ix, t)) (compact rd fs k (Suc i) xs ts)
      else case rd fs x of None \<Rightarrow> None
        | Some e \<Rightarrow>
            if length ts + length e \<le> length fs
            then map_option (\<lambda>(ix, t). (length ts # ix, t)) (compact rd fs k (Suc i) xs (ts @ e))
            else None)"

definition compact_buf :: "('e list \<Rightarrow> nat \<Rightarrow> 'e list option) \<Rightarrow> nat \<Rightarrow> 'e cl_buf \<Rightarrow> 'e cl_buf option" where
  "compact_buf rd i b =
     (if i = 0 \<or> unat (iUsed b) < i then None
      else map_option (\<lambda>(ix, ts). b\<lparr>indexPtr := ix, buf := ts\<rparr>)
             (compact rd (buf b) (i - 1) 0 (take (unat (iUsed b)) (indexPtr b)) []))"

text \<open>The last entry takes the place of entry \<open>i\<close> in the index.\<close>

definition rename_last :: "nat \<Rightarrow> nat \<Rightarrow> 'e cl_buf \<Rightarrow> 'e cl_buf" where
  "rename_last i n b = b\<lparr>iUsed := iUsed b - 1, indexPtr := (indexPtr b)[i - 1 := indexPtr b ! (n - 1)]\<rparr>"

definition replaceClStringN :: "obj_hdr \<Rightarrow> nat \<Rightarrow> string \<Rightarrow> nat \<Rightarrow> obj_hdr option" where
  "replaceClStringN hdr i str len =
     Option.bind (strBuffer hdr) (\<lambda>fb.
     Option.bind (compact_buf cstr_at i fb) (\<lambda>fb'.
     map_option (\<lambda>(hdr', n). hdr'\<lparr>strBuffer := map_option (rename_last i n) (strBuffer hdr')\<rparr>)
       (addClStringN (hdr\<lparr>strBuffer := Some fb'\<rparr>) str len)))"

definition replaceClString :: "obj_hdr \<Rightarrow> nat \<Rightarrow> string \<Rightarrow> obj_hdr option" where
  "replaceClString hdr i str = replaceClStringN hdr i str 0"

definition replaceClObject :: "obj_hdr \<Rightarrow> nat \<Rightarrow> string \<Rightarrow> obj_hdr option" where
  "replaceClObject hdr i obj = replaceClStringN hdr i obj (length obj)"

section \<open>Arrays\<close>

text \<open>
  The elements of an array, all of its element type: strings, dates, references and instances are added to the
  strings. A null pointer among these whose state is not null is dereferenced.
\<close>

fun elem_string :: "cvalue \<Rightarrow> (string \<times> ctype) option" where
  "elem_string (V_chars s) = Some (s, CT_string)"
| "elem_string (V_string s) = Some (s, CT_string)"
| "elem_string (V_dateTime s) = Some (s, CT_dateTime)"
| "elem_string (V_ref s) = Some (s, CT_ref)"
| "elem_string _ = None"

definition addElem :: "obj_hdr \<Rightarrow> ctype \<Rightarrow> 16 word \<times> cvalue \<Rightarrow> (obj_hdr \<times> arr_cell) option" where
  "addElem hdr t ev =
     (case ev of (st, v) \<Rightarrow>
      if null_state st then Some (hdr, ArrElem \<lparr>sd_type = t, sd_state = st, sd_val = Raw v\<rparr>)
      else case elem_string v of
        Some (s, t') \<Rightarrow> map_option (\<lambda>(hdr', i). (hdr', ArrElem \<lparr>sd_type = t', sd_state = st, sd_val = Id i\<rparr>)) (addClString hdr s)
      | None \<Rightarrow>
          (case v of
             V_instance blob \<Rightarrow>
               map_option (\<lambda>(hdr', i). (hdr', ArrElem \<lparr>sd_type = CT_instance, sd_state = st, sd_val = Id i\<rparr>)) (addClObject hdr blob)
           | V_plain _ _ \<Rightarrow> Some (hdr, ArrElem \<lparr>sd_type = t, sd_state = st, sd_val = Raw v\<rparr>)
           | V_null (CT_plain _) \<Rightarrow> Some (hdr, ArrElem \<lparr>sd_type = t, sd_state = st, sd_val = Raw v\<rparr>)
           | _ \<Rightarrow> None))"

fun addElems :: "obj_hdr \<Rightarrow> ctype \<Rightarrow> (16 word \<times> cvalue) list \<Rightarrow> (obj_hdr \<times> arr_cell list) option" where
  "addElems hdr t [] = Some (hdr, [])"
| "addElems hdr t (e # es) =
     Option.bind (addElem hdr t e) (\<lambda>(hdr', c). map_option (\<lambda>(hdr'', cs). (hdr'', c # cs)) (addElems hdr' t es))"

text \<open>
  A buffer that is part of the object is copied to the heap before it grows: \<open>bMax + sizeof(ClArrayBuf)\<close> bytes of it,
  where a cell has \<open>SIZEOF_CMPIData\<close> bytes and the first begins at \<open>SIZEOF_ClArrayBuf - SIZEOF_CMPIData\<close>.
\<close>

definition SIZEOF_CMPIData :: nat where "SIZEOF_CMPIData = 24"
definition SIZEOF_ClArrayBuf :: nat where "SIZEOF_ClArrayBuf = 48"

definition move_array_buf :: "arr_cell cl_buf \<Rightarrow> arr_cell cl_buf" where
  "move_array_buf b =
     (let k = (bMax b + SIZEOF_CMPIData) div SIZEOF_CMPIData
      in b\<lparr>buf := take k (buf b) @ replicate (length (buf b) - k) Garbage\<rparr>)"

definition addClArray :: "obj_hdr \<Rightarrow> ctype \<Rightarrow> (16 word \<times> cvalue) list \<Rightarrow> (obj_hdr \<times> nat) option" where
  "addClArray hdr t es =
     (let l = length es + 1 in
      Option.bind
        (case arrayBuffer hdr of
           None \<Rightarrow> map_option (\<lambda>nmax. (set_flag (HDR_ArrayBufferMalloced OR HDR_Rebuild) hdr, new_buf nmax)) (grow_to 16 l)
         | Some b \<Rightarrow>
             (let b1 = grow_index b;
                  hdr1 = (if index_full b then set_flag HDR_Rebuild hdr else hdr)
              in if bytes_full b1 l
                 then map_option (\<lambda>nmax. (set_flag (HDR_ArrayBufferMalloced OR HDR_Rebuild) hdr1,
                          (if isMallocedArrayBuf hdr then b1 else move_array_buf b1)\<lparr>bMax := nmax\<rparr>))
                        (grow_to (bMax b1) (length (buf b1) + l))
                 else Some (hdr1, b1)))
        (\<lambda>(hdr1, b1).
      Option.bind (addElems hdr1 t es) (\<lambda>(hdr2, cs).
      map_option (\<lambda>(b2, i). (hdr2\<lparr>arrayBuffer := Some b2\<rparr>, i))
        (put_entry b1 (ArrHdr (if t = CT_string then CT_chars else t) (length es) # cs)))))"

text \<open>The array at an offset: its header and as many cells as the header says.\<close>

definition array_at :: "arr_cell list \<Rightarrow> nat \<Rightarrow> arr_cell list option" where
  "array_at fs i =
     (case drop i fs of
        ArrHdr t n # cs \<Rightarrow> if n \<le> length cs then Some (ArrHdr t n # take n cs) else None
      | _ \<Rightarrow> None)"

definition ClObjectGetClArray :: "obj_hdr \<Rightarrow> nat \<Rightarrow> arr_cell list option option" where
  "ClObjectGetClArray hdr i =
     (if i = 0 then Some None
      else case arrayBuffer hdr of None \<Rightarrow> None
        | Some b \<Rightarrow> if i \<le> unat (iUsed b) then map_option Some (array_at (buf b) (indexPtr b ! (i - 1))) else None)"

definition replaceClArray :: "obj_hdr \<Rightarrow> nat \<Rightarrow> ctype \<Rightarrow> (16 word \<times> cvalue) list \<Rightarrow> obj_hdr option" where
  "replaceClArray hdr i t es =
     Option.bind (arrayBuffer hdr) (\<lambda>fb.
     Option.bind (compact_buf array_at i fb) (\<lambda>fb'.
     map_option (\<lambda>(hdr', n). hdr'\<lparr>arrayBuffer := map_option (rename_last i n) (arrayBuffer hdr')\<rparr>)
       (addClArray (hdr\<lparr>arrayBuffer := Some fb'\<rparr>) t es)))"

section \<open>Sections\<close>

record 'a cl_section =
  s_items :: "'a list"
  s_max :: "16 word"
  s_room :: nat
  s_offset :: nat

text \<open>\<open>s_offset\<close> is \<open>sectionOffset\<close>: 0 is no block; any other value an offset in the object or a pointer.\<close>

definition clearClSection :: "'a cl_section" where
  "clearClSection = \<lparr>s_items = [], s_max = 0, s_room = 0, s_offset = 0\<rparr>"

definition ensureClSpace :: "obj_hdr \<Rightarrow> 'a cl_section \<Rightarrow> 16 word \<Rightarrow> obj_hdr \<times> 'a cl_section" where
  "ensureClSpace hdr sct iSize =
     (let max = GetMax (s_max sct) in
      if s_offset sct = 0 then
        (set_flag HDR_Rebuild hdr, sct\<lparr>s_max := iSize OR Malloced, s_room := unat iSize, s_offset := 1\<rparr>)
      else if unat max \<le> length (s_items sct) then
        (set_flag HDR_Rebuild hdr, sct\<lparr>s_max := (max * 2) OR Malloced, s_room := unat (max * 2), s_offset := 1\<rparr>)
      else (hdr, sct))"

definition section_append :: "'a cl_section \<Rightarrow> 'a \<Rightarrow> 'a cl_section option" where
  "section_append sct x =
     (if length (s_items sct) < s_room sct then Some (sct\<lparr>s_items := s_items sct @ [x]\<rparr>) else None)"

section \<open>Rebuilding\<close>

text \<open>
  An object is rebuilt into one block: its buffers become part of it, with room for what they hold. The sizes are
  those of an LP64 platform; \<open>copyStringBuf\<close> and \<open>copyArrayBuf\<close> return the new buffer and the bytes it takes.
\<close>

definition CLALIGN :: nat where "CLALIGN = 8"

definition ALIGN :: "nat \<Rightarrow> nat \<Rightarrow> nat" where
  "ALIGN x y = (if x = 0 then 0 else ((x - 1) div y + 1) * y)"

definition SIZEOF_ClStrBuf :: nat where "SIZEOF_ClStrBuf = 32"

definition sizeStringBuf :: "obj_hdr \<Rightarrow> nat" where
  "sizeStringBuf hdr = (case strBuffer hdr of None \<Rightarrow> 0
     | Some b \<Rightarrow> ALIGN (SIZEOF_ClStrBuf + ALIGN (length (buf b)) 4 + unat (iUsed b) * 4) CLALIGN)"

definition sizeArrayBuf :: "obj_hdr \<Rightarrow> nat" where
  "sizeArrayBuf hdr = (case arrayBuffer hdr of None \<Rightarrow> 0
     | Some b \<Rightarrow> ALIGN (SIZEOF_ClArrayBuf + length (buf b) * SIZEOF_CMPIData + unat (iUsed b) * 4) CLALIGN)"

definition pack_buf :: "'e cl_buf \<Rightarrow> 'e cl_buf" where
  "pack_buf b = b\<lparr>iMax := iUsed b AND 0x7fff, iRoom := unat (iUsed b), indexPtr := take (unat (iUsed b)) (indexPtr b),
     bMax := length (buf b)\<rparr>"

definition copyStringBuf :: "obj_hdr \<Rightarrow> obj_hdr \<Rightarrow> obj_hdr \<times> nat" where
  "copyStringBuf th fh = (case strBuffer fh of None \<Rightarrow> (th, 0)
     | Some fb \<Rightarrow> (th\<lparr>strBuffer := Some (pack_buf fb), h_flags := h_flags th AND NOT HDR_StrBufferMalloced\<rparr>,
         ALIGN (ALIGN (SIZEOF_ClStrBuf + length (buf fb)) 4 + unat (iUsed fb) * 4) CLALIGN))"

definition copyArrayBuf :: "obj_hdr \<Rightarrow> obj_hdr \<Rightarrow> obj_hdr \<times> nat" where
  "copyArrayBuf th fh = (case arrayBuffer fh of None \<Rightarrow> (th, 0)
     | Some fb \<Rightarrow> (th\<lparr>arrayBuffer := Some (pack_buf fb), h_flags := h_flags th AND NOT HDR_ArrayBufferMalloced\<rparr>,
         ALIGN (SIZEOF_ClArrayBuf + length (buf fb) * SIZEOF_CMPIData + unat (iUsed fb) * 4) CLALIGN))"

section \<open>Capacity\<close>

lemma grow_to_ok: "0 < n \<Longrightarrow> \<exists>m. grow_to n l = Some m \<and> l < m \<and> n \<le> m"
proof (induction "Suc l - n" arbitrary: n rule: less_induct)
  case less
  show ?case
  proof (cases "n \<le> l")
    case True
    with less.prems have "Suc l - 2 * n < Suc l - n" by simp
    then obtain m where "grow_to (2 * n) l = Some m" "l < m" "2 * n \<le> m"
      using less.hyps [of "2 * n"] less.prems by auto
    with True show ?thesis by (subst grow_to.simps) auto
  qed (subst grow_to.simps, simp)
qed

lemma GetMax_take_bit: "GetMax x = take_bit 15 x"
proof -
  have "(0x7fff :: 16 word) = mask 15" by (simp add: mask_eq_exp_minus_1)
  then show ?thesis by (simp add: GetMax_def take_bit_eq_mask)
qed

lemma unat_GetMax: "unat (GetMax x) = unat x mod 2 ^ 15"
  unfolding GetMax_take_bit unsigned_take_bit_eq by (simp add: take_bit_eq_mod)

lemma GetMax_Malloced: "unat (GetMax (m OR Malloced)) = unat m mod 2 ^ 15"
proof -
  have "take_bit 15 (Malloced) = 0" by (simp add: Malloced_def take_bit_eq_mask mask_eq_exp_minus_1)
  then have "GetMax (m OR Malloced) = GetMax m" by (simp add: GetMax_take_bit take_bit_or)
  then show ?thesis by (simp add: unat_GetMax)
qed

text \<open>
  The capacities of a buffer: the index has room for what its capacity says, and both blocks hold what is used. A
  capacity of 0 is that of a buffer rebuilt without entries.
\<close>

definition cap_ok :: "'e cl_buf \<Rightarrow> bool" where
  "cap_ok b \<longleftrightarrow> unat (iUsed b) \<le> unat (GetMax (iMax b)) \<and> unat (GetMax (iMax b)) \<le> iRoom b \<and>
     (unat (GetMax (iMax b)) = 0 \<longrightarrow> iMax b = 0) \<and> 0 < bMax b \<and> length (buf b) \<le> bMax b"

lemma grow_index_ok:
  assumes ok: "cap_ok b" and few: "unat (iUsed b) < 2 ^ 14"
  shows "cap_ok (grow_index b)" "unat (iUsed b) < unat (GetMax (iMax (grow_index b)))"
    "iUsed (grow_index b) = iUsed b" "indexPtr (grow_index b) = indexPtr b" "buf (grow_index b) = buf b" "bMax (grow_index b) = bMax b"
proof -
  let ?m = "unat (GetMax (iMax b))"
  show "iUsed (grow_index b) = iUsed b" "indexPtr (grow_index b) = indexPtr b" "buf (grow_index b) = buf b" "bMax (grow_index b) = bMax b"
    by (simp_all add: grow_index_def Let_def)
  consider (room) "unat (iUsed b) < ?m" | (zero) "iMax b = 0" "?m = 0" | (double) "unat (iUsed b) = ?m" "0 < ?m" "0 < iMax b"
    using ok unfolding cap_ok_def word_gt_0 by (metis gr0I le_neq_implies_less less_numeral_extra(3) unat_GetMax unat_0 mod_0)
  then have "cap_ok (grow_index b) \<and> unat (iUsed b) < unat (GetMax (iMax (grow_index b)))"
  proof cases
    case room
    then have "\<not> GetMax (iMax b) \<le> iUsed b" by (simp add: word_le_nat_alt)
    then have "grow_index b = b" by (simp add: grow_index_def)
    with ok room show ?thesis by simp
  next
    case zero
    then have "iUsed b = 0" using ok by (simp add: cap_ok_def unat_eq_zero)
    moreover have "GetMax 0 = 0" by (simp add: GetMax_def)
    ultimately show ?thesis using zero ok by (simp add: grow_index_def cap_ok_def GetMax_Malloced)
  next
    case double
    have m: "unat (GetMax (iMax b) * 2) = 2 * ?m" using double few by (simp add: unat_word_ariths)
    have "grow_index b = b\<lparr>iMax := GetMax (iMax b) * 2 OR Malloced, iRoom := 2 * ?m\<rparr>"
      using double m by (simp add: grow_index_def word_le_nat_alt)
    moreover have "unat (GetMax (GetMax (iMax b) * 2 OR Malloced)) = 2 * ?m"
      using double few m by (simp add: GetMax_Malloced)
    ultimately show ?thesis using ok double few by (simp add: cap_ok_def)
  qed
  then show "cap_ok (grow_index b)" "unat (iUsed b) < unat (GetMax (iMax (grow_index b)))" by blast+
qed

section \<open>Entries\<close>

text \<open>Entry \<open>i\<close> of the index, from 0, has the bytes \<open>e\<close>.\<close>

definition located :: "'e cl_buf \<Rightarrow> nat \<Rightarrow> 'e list \<Rightarrow> bool" where
  "located b i e \<longleftrightarrow> i < length (indexPtr b) \<and> (\<exists>post. drop (indexPtr b ! i) (buf b) = e @ post) \<and> indexPtr b ! i + length e \<le> length (buf b)"

definition entries_ok :: "'e cl_buf \<Rightarrow> 'e list list \<Rightarrow> bool" where
  "entries_ok b es \<longleftrightarrow> cap_ok b \<and> length es = unat (iUsed b) \<and> (\<forall>i < length es. located b i (es ! i)) \<and>
     sum_list (map length es) \<le> length (buf b)"

lemma new_buf_ok: "0 < n \<Longrightarrow> entries_ok (new_buf n) []"
  by (simp add: entries_ok_def cap_ok_def new_buf_def GetMax_Malloced)

lemma new_buf_room: "unat (iUsed (new_buf n)) < unat (GetMax (iMax (new_buf n)))"
  by (simp add: new_buf_def GetMax_Malloced)

text \<open>What \<open>put_entry\<close> does to a buffer with room.\<close>

lemma put_entry_some:
  assumes ok: "cap_ok b" and i: "unat (iUsed b) < unat (GetMax (iMax b))" and r: "length (buf b) + length e < bMax b"
  shows "\<exists>b'. put_entry b e = Some (b', Suc (unat (iUsed b))) \<and> cap_ok b' \<and> unat (iUsed b') = Suc (unat (iUsed b)) \<and>
    buf b' = buf b @ e \<and> iMax b' = iMax b \<and> bMax b' = bMax b \<and> iRoom b' = iRoom b \<and>
    indexPtr b' = take (unat (iUsed b)) (indexPtr b) @ [length (buf b)]"
proof -
  have "unat (GetMax (iMax b)) < 2 ^ 15" by (simp add: unat_GetMax)
  then have "unat (iUsed b + 1) = Suc (unat (iUsed b))" using i by (simp add: unat_word_ariths)
  with ok i r show ?thesis by (simp add: put_entry_def cap_ok_def)
qed

lemma put_entry_located:
  assumes b': "buf b' = buf b @ e" "indexPtr b' = take n (indexPtr b) @ [length (buf b)]"
  shows "i < n \<Longrightarrow> located b i x \<Longrightarrow> located b' i x" "n \<le> length (indexPtr b) \<Longrightarrow> located b' n e"
  using b' by (auto simp: located_def nth_append)

lemma put_entry_ok:
  assumes ok: "entries_ok b es" and i: "unat (iUsed b) < unat (GetMax (iMax b))" and r: "length (buf b) + length e < bMax b"
  shows "\<exists>b'. put_entry b e = Some (b', Suc (length es)) \<and> entries_ok b' (es @ [e]) \<and> bMax b' = bMax b"
proof -
  have e: "cap_ok b" "length es = unat (iUsed b)" "\<And>i. i < length es \<Longrightarrow> located b i (es ! i)" "sum_list (map length es) \<le> length (buf b)"
    using ok by (auto simp: entries_ok_def)
  obtain b' where b': "put_entry b e = Some (b', Suc (unat (iUsed b)))" "cap_ok b'" "unat (iUsed b') = Suc (unat (iUsed b))"
    "buf b' = buf b @ e" "bMax b' = bMax b" "indexPtr b' = take (unat (iUsed b)) (indexPtr b) @ [length (buf b)]"
    using put_entry_some [OF e(1) i r] by blast
  have "unat (iUsed b) \<le> length (indexPtr b)"
    using e(2) e(3) [of "length es - 1"] by (cases "length es") (auto simp: located_def)
  then have "located b' i ((es @ [e]) ! i)" if "i < length (es @ [e])" for i
    using put_entry_located [OF b'(4,6)] e(2,3) that by (cases "i < length es") (auto simp: nth_append not_less less_Suc_eq)
  with b' e show ?thesis by (simp add: entries_ok_def)
qed

lemma located_cong: "buf b' = buf b \<Longrightarrow> indexPtr b' = indexPtr b \<Longrightarrow> located b' i e = located b i e"
  by (simp add: located_def)

lemma entries_ok_cong:
  assumes "entries_ok b es" "cap_ok b'" "buf b' = buf b" "indexPtr b' = indexPtr b" "iUsed b' = iUsed b"
  shows "entries_ok b' es"
  using assms located_cong [OF assms(3,4)] by (simp add: entries_ok_def)

lemma cap_ok_bMax: "cap_ok b \<Longrightarrow> bMax b \<le> n \<Longrightarrow> cap_ok (b\<lparr>bMax := n\<rparr>)"
  by (simp add: cap_ok_def)

section \<open>Compaction\<close>

lemma sum_list_drop_le: "sum_list (map length (drop i es)) \<le> sum_list (map length es)"
proof -
  have "sum_list (map length es) = sum_list (map length (take i es)) + sum_list (map length (drop i es))"
    by (metis append_take_drop_id map_append sum_list_append)
  then show ?thesis by simp
qed

text \<open>
  The loop puts the entries other than \<open>k\<close> one after the other: with the entries \<open>es\<close> at the offsets \<open>xs\<close>,
  those before \<open>i\<close> already copied.
\<close>

lemma compact_ok:
  assumes "\<And>j. j < length es \<Longrightarrow> i + j \<noteq> k \<Longrightarrow> rd fs (xs ! j) = Some (es ! j)"
    and "length xs = length es" "length ts + sum_list (map length es) \<le> length fs"
  shows "\<exists>ix ts'. compact rd fs k i xs ts = Some (ix, ts @ ts') \<and> length ix = length es \<and>
    (\<forall>j < length es. i + j \<noteq> k \<longrightarrow> ix ! j + length (es ! j) \<le> length (ts @ ts') \<and> (\<exists>post. drop (ix ! j) (ts @ ts') = es ! j @ post)) \<and>
    length ts' = sum_list (map length es) - (if i \<le> k \<and> k < i + length es then length (es ! (k - i)) else 0)"
  using assms
proof (induction es arbitrary: i xs ts)
  case Nil
  then show ?case by simp
next
  case (Cons e es)
  obtain x xs' where xs: "xs = x # xs'" using Cons.prems(2) by (cases xs) auto
  have rd: "rd fs (xs' ! j) = Some (es ! j)" if "j < length es" "Suc i + j \<noteq> k" for j
    using Cons.prems(1) [of "Suc j"] that xs by simp
  have len: "length xs' = length es" using Cons.prems(2) xs by simp
  show ?case
  proof (cases "i = k")
    case True
    have "length ts + sum_list (map length es) \<le> length fs" using Cons.prems(3) by simp
    from Cons.IH [OF rd len this] obtain ix ts' where IH: "compact rd fs k (Suc i) xs' ts = Some (ix, ts @ ts')" "length ix = length es"
      "\<forall>j < length es. Suc i + j \<noteq> k \<longrightarrow> ix ! j + length (es ! j) \<le> length (ts @ ts') \<and> (\<exists>post. drop (ix ! j) (ts @ ts') = es ! j @ post)"
      "length ts' = sum_list (map length es) - (if Suc i \<le> k \<and> k < Suc i + length es then length (es ! (k - Suc i)) else 0)"
      by blast
    have "(x # ix) ! j + length ((e # es) ! j) \<le> length (ts @ ts') \<and> (\<exists>post. drop ((x # ix) ! j) (ts @ ts') = (e # es) ! j @ post)"
      if "j < length (e # es)" "i + j \<noteq> k" for j
      using IH(3) that True by (cases j) auto
    moreover have "length ts' = sum_list (map length (e # es)) - length e" using IH(4) True by simp
    ultimately show ?thesis using IH(1,2) xs True by auto
  next
    case False
    have rx: "rd fs x = Some e" using Cons.prems(1) [of 0] False xs by simp
    have "length (ts @ e) + sum_list (map length es) \<le> length fs" using Cons.prems(3) by simp
    from Cons.IH [OF rd len this] obtain ix ts' where IH: "compact rd fs k (Suc i) xs' (ts @ e) = Some (ix, (ts @ e) @ ts')" "length ix = length es"
      "\<forall>j < length es. Suc i + j \<noteq> k \<longrightarrow> ix ! j + length (es ! j) \<le> length ((ts @ e) @ ts') \<and> (\<exists>post. drop (ix ! j) ((ts @ e) @ ts') = es ! j @ post)"
      "length ts' = sum_list (map length es) - (if Suc i \<le> k \<and> k < Suc i + length es then length (es ! (k - Suc i)) else 0)"
      by blast
    have room: "length ts + length e \<le> length fs" using Cons.prems(3) by simp
    have "(length ts # ix) ! j + length ((e # es) ! j) \<le> length (ts @ e @ ts') \<and>
        (\<exists>post. drop ((length ts # ix) ! j) (ts @ e @ ts') = (e # es) ! j @ post)"
      if "j < length (e # es)" "i + j \<noteq> k" for j
      using IH(3) that by (cases j) auto
    moreover have "length (e @ ts') = sum_list (map length (e # es)) -
        (if i \<le> k \<and> k < i + length (e # es) then length ((e # es) ! (k - i)) else 0)"
    proof (cases "i \<le> k \<and> k < i + length (e # es)")
      case True
      then have "k - i = Suc (k - Suc i)" using False by auto
      with True False have k: "Suc i \<le> k" "k < Suc i + length es" "(e # es) ! (k - i) = es ! (k - Suc i)" by auto
      moreover have "length (es ! (k - Suc i)) \<le> sum_list (map length es)"
        using k by (intro member_le_sum_list) auto
      ultimately show ?thesis using IH(4) True by simp
    qed (use IH(4) False in auto)
    ultimately show ?thesis using IH(1,2) xs False rx room by auto
  qed
qed

text \<open>A buffer in which entry \<open>k\<close> is to be replaced: the others are located, and fit.\<close>

definition hole_ok :: "'e cl_buf \<Rightarrow> nat \<Rightarrow> 'e list list \<Rightarrow> bool" where
  "hole_ok b k es \<longleftrightarrow> cap_ok b \<and> length es = unat (iUsed b) \<and> length (indexPtr b) = length es \<and> k < length es \<and>
     (\<forall>i < length es. i \<noteq> k \<longrightarrow> located b i (es ! i)) \<and> sum_list (map length es) \<le> length (buf b) + length (es ! k)"

lemma sum_list_update_le:
  "k < length es \<Longrightarrow> sum_list (map length (es[k := e])) + length (es ! k) = sum_list (map length es) + length e"
  by (induction es arbitrary: k) (auto split: nat.splits simp: nth_Cons)

lemma compact_buf_ok:
  assumes ok: "entries_ok b es" and k: "k < length es" and rd: "\<And>j. j < length es \<Longrightarrow> j \<noteq> k \<Longrightarrow> rd (buf b) (indexPtr b ! j) = Some (es ! j)"
  shows "\<exists>b'. compact_buf rd (Suc k) b = Some b' \<and> hole_ok b' k es \<and> iMax b' = iMax b \<and> bMax b' = bMax b \<and> iUsed b' = iUsed b \<and>
    length (buf b') \<le> length (buf b)"
proof -
  have e: "cap_ok b" "length es = unat (iUsed b)" "\<And>i. i < length es \<Longrightarrow> located b i (es ! i)" "sum_list (map length es) \<le> length (buf b)"
    using ok by (auto simp: entries_ok_def)
  have il: "length es \<le> length (indexPtr b)" using e(2) e(3) [of "length es - 1"] k by (auto simp: located_def)
  let ?xs = "take (length es) (indexPtr b)"
  have "\<exists>ix ts'. compact rd (buf b) k 0 ?xs [] = Some (ix, [] @ ts') \<and> length ix = length es \<and>
    (\<forall>j < length es. 0 + j \<noteq> k \<longrightarrow> ix ! j + length (es ! j) \<le> length ([] @ ts') \<and> (\<exists>post. drop (ix ! j) ([] @ ts') = es ! j @ post)) \<and>
    length ts' = sum_list (map length es) - (if 0 \<le> k \<and> k < 0 + length es then length (es ! (k - 0)) else 0)"
    by (rule compact_ok) (use rd il e(4) in auto)
  then obtain ix ts where c: "compact rd (buf b) k 0 ?xs [] = Some (ix, ts)" "length ix = length es"
    "\<And>j. j < length es \<Longrightarrow> j \<noteq> k \<Longrightarrow> ix ! j + length (es ! j) \<le> length ts \<and> (\<exists>post. drop (ix ! j) ts = es ! j @ post)"
    "length ts = sum_list (map length es) - length (es ! k)"
    using k by auto
  let ?b = "b\<lparr>indexPtr := ix, buf := ts\<rparr>"
  have "compact_buf rd (Suc k) b = Some ?b" using c(1) k e(2) by (simp add: compact_buf_def)
  moreover have "cap_ok ?b" using e(1,4) c(4) by (auto simp: cap_ok_def)
  moreover have "located ?b j (es ! j)" if "j < length es" "j \<noteq> k" for j
    using c(2) c(3) [OF that] that by (auto simp: located_def)
  ultimately show ?thesis using c(2,4) e(2,4) k by (auto simp: hole_ok_def)
qed

lemma hole_ok_cong:
  assumes "hole_ok b k es" "cap_ok b'" "buf b' = buf b" "indexPtr b' = indexPtr b" "iUsed b' = iUsed b"
  shows "hole_ok b' k es"
  using assms located_cong [OF assms(3,4)] by (simp add: hole_ok_def)

text \<open>The new entry, put behind the others, takes the number of the old one.\<close>

lemma fill_hole:
  assumes ok: "hole_ok b k es" and i: "unat (iUsed b) < unat (GetMax (iMax b))" and r: "length (buf b) + length e < bMax b"
  shows "\<exists>b'. put_entry b e = Some (b', Suc (length es)) \<and> entries_ok (rename_last (Suc k) (Suc (length es)) b') (es[k := e])"
proof -
  have h: "cap_ok b" "length es = unat (iUsed b)" "length (indexPtr b) = length es" "k < length es"
    "\<And>i. i < length es \<Longrightarrow> i \<noteq> k \<Longrightarrow> located b i (es ! i)" "sum_list (map length es) \<le> length (buf b) + length (es ! k)"
    using ok by (auto simp: hole_ok_def)
  obtain b' where b': "put_entry b e = Some (b', Suc (unat (iUsed b)))" "cap_ok b'" "unat (iUsed b') = Suc (unat (iUsed b))"
    "buf b' = buf b @ e" "indexPtr b' = take (unat (iUsed b)) (indexPtr b) @ [length (buf b)]"
    using put_entry_some [OF h(1) i r] by blast
  let ?c = "rename_last (Suc k) (Suc (length es)) b'"
  have ix: "indexPtr ?c = (indexPtr b)[k := length (buf b)] @ [length (buf b)]" "buf ?c = buf b @ e"
    using h b' by (simp_all add: rename_last_def list_update_append nth_append)
  have u: "unat (iUsed ?c) = length es" using b'(3) h(2) by (simp add: rename_last_def unat_minus_one unat_gt_0 flip: unat_eq_zero)
  have cap: "cap_ok ?c"
    using b'(2) u h(2) b'(3) by (simp add: cap_ok_def rename_last_def)
  have "located ?c j ((es[k := e]) ! j)" if "j < length es" for j
  proof (cases "j = k")
    case True
    then show ?thesis using that ix h by (simp add: located_def nth_append)
  next
    case False
    then show ?thesis using h(5) [OF that] that ix h(3) by (auto simp: located_def nth_append)
  qed
  moreover have "sum_list (map length (es[k := e])) \<le> length (buf ?c)"
    using sum_list_update_le [OF h(4), of e] h(6) ix(2) by simp
  ultimately show ?thesis using b'(1) cap u h(2) by (simp add: entries_ok_def)
qed

section \<open>Strings of an object\<close>

definition buffer_holds :: "'e cl_buf option \<Rightarrow> 'e list list \<Rightarrow> bool" where
  "buffer_holds bo es \<longleftrightarrow> (case bo of None \<Rightarrow> es = [] | Some b \<Rightarrow> entries_ok b es)"

text \<open>The step that \<open>addClStringN\<close> and \<open>addClArray\<close> make before they write to an existing buffer.\<close>

lemma make_room:
  assumes "cap_ok b" "unat (iUsed b) < 2 ^ 14"
  shows "\<exists>n. grow_to (bMax (grow_index b)) (length (buf (grow_index b)) + l) = Some n \<and> cap_ok ((grow_index b)\<lparr>bMax := n\<rparr>) \<and>
      length (buf b) + l < n"
    and "\<not> bytes_full (grow_index b) l \<Longrightarrow> length (buf b) + l < bMax (grow_index b)"
proof -
  note g = grow_index_ok [OF assms]
  have "0 < bMax (grow_index b)" using g(1) by (simp add: cap_ok_def)
  from grow_to_ok [OF this, of "length (buf (grow_index b)) + l"] cap_ok_bMax [OF g(1)] g(5)
  show "\<exists>n. grow_to (bMax (grow_index b)) (length (buf (grow_index b)) + l) = Some n \<and> cap_ok ((grow_index b)\<lparr>bMax := n\<rparr>) \<and>
      length (buf b) + l < n"
    by auto
  show "\<not> bytes_full (grow_index b) l \<Longrightarrow> length (buf b) + l < bMax (grow_index b)"
    using g(5) by (simp add: bytes_full_def)
qed

lemma set_flag_fields [simp]:
  "strBuffer (set_flag f hdr) = strBuffer hdr" "arrayBuffer (set_flag f hdr) = arrayBuffer hdr" "h_type (set_flag f hdr) = h_type hdr"
  by (simp_all add: set_flag_def)

lemma set_flag_malloced:
  "isMallocedArrayBuf hdr \<Longrightarrow> isMallocedArrayBuf (set_flag f hdr)"
  "isMallocedArrayBuf (set_flag (HDR_ArrayBufferMalloced OR HDR_Rebuild) hdr)"
  "isMallocedArrayBuf (set_flag (HDR_StrBufferMalloced OR HDR_Rebuild) hdr) = isMallocedArrayBuf hdr"
  "isMallocedArrayBuf (set_flag HDR_Rebuild hdr) = isMallocedArrayBuf hdr"
proof -
  have "HDR_ArrayBufferMalloced = 2 ^ 5" by (simp add: HDR_ArrayBufferMalloced_def)
  then have b: "isMallocedArrayBuf hdr \<longleftrightarrow> bit (h_flags hdr) 5" for hdr
    unfolding isMallocedArrayBuf_def by (metis and_exp_eq_0_iff_not_bit)
  show "isMallocedArrayBuf hdr \<Longrightarrow> isMallocedArrayBuf (set_flag f hdr)" by (simp add: b set_flag_def bit_or_iff)
  show "isMallocedArrayBuf (set_flag (HDR_ArrayBufferMalloced OR HDR_Rebuild) hdr)"
    "isMallocedArrayBuf (set_flag (HDR_StrBufferMalloced OR HDR_Rebuild) hdr) = isMallocedArrayBuf hdr"
    "isMallocedArrayBuf (set_flag HDR_Rebuild hdr) = isMallocedArrayBuf hdr"
    by (simp_all add: b set_flag_def bit_or_iff HDR_ArrayBufferMalloced_def HDR_StrBufferMalloced_def HDR_Rebuild_def)
qed

text \<open>What the operations on strings leave as it was.\<close>

definition rest_same :: "obj_hdr \<Rightarrow> obj_hdr \<Rightarrow> bool" where
  "rest_same hdr hdr' \<longleftrightarrow> arrayBuffer hdr' = arrayBuffer hdr \<and> h_type hdr' = h_type hdr \<and> isMallocedArrayBuf hdr' = isMallocedArrayBuf hdr"

lemma rest_same_refl [simp]: "rest_same hdr hdr"
  by (simp add: rest_same_def)

lemma rest_same_trans: "rest_same a b \<Longrightarrow> rest_same b c \<Longrightarrow> rest_same a c"
  by (simp add: rest_same_def)

lemma isMallocedArrayBuf_str [simp]: "isMallocedArrayBuf (hdr\<lparr>strBuffer := x\<rparr>) = isMallocedArrayBuf hdr"
  "isMallocedArrayBuf (hdr\<lparr>arrayBuffer := y\<rparr>) = isMallocedArrayBuf hdr"
  by (simp_all add: isMallocedArrayBuf_def)

text \<open>Adding to an existing buffer is \<open>put_entry\<close> on a buffer with the same entries and with room.\<close>

lemma addClStringN_step:
  assumes b: "strBuffer hdr = Some b" "cap_ok b" "unat (iUsed b) < 2 ^ 14"
  shows "\<exists>hdr1 b1. addClStringN hdr str len = map_option (\<lambda>(b', i). (hdr1\<lparr>strBuffer := Some b'\<rparr>, i)) (put_entry b1 (entry_bytes str len)) \<and>
    rest_same hdr hdr1 \<and> cap_ok b1 \<and> buf b1 = buf b \<and> indexPtr b1 = indexPtr b \<and> iUsed b1 = iUsed b \<and>
    unat (iUsed b1) < unat (GetMax (iMax b1)) \<and> length (buf b1) + length (entry_bytes str len) < bMax b1"
proof -
  let ?l = "length (entry_bytes str len)" and ?g = "grow_index b"
  let ?h = "if index_full b then set_flag HDR_Rebuild hdr else hdr"
  note g = grow_index_ok [OF b(2,3)]
  obtain n where n: "grow_to (bMax ?g) (length (buf ?g) + ?l) = Some n" "cap_ok (?g\<lparr>bMax := n\<rparr>)" "length (buf b) + ?l < n"
    using make_room(1) [OF b(2,3)] by blast
  show ?thesis
  proof (cases "bytes_full ?g ?l")
    case True
    have "addClStringN hdr str len = map_option (\<lambda>(b', i). (set_flag (HDR_StrBufferMalloced OR HDR_Rebuild) ?h\<lparr>strBuffer := Some b'\<rparr>, i))
        (put_entry (?g\<lparr>bMax := n\<rparr>) (entry_bytes str len))"
      using b(1) n(1) True by (simp add: addClStringN_def Let_def)
    moreover have "rest_same hdr (set_flag (HDR_StrBufferMalloced OR HDR_Rebuild) ?h)"
      by (simp add: rest_same_def set_flag_malloced)
    ultimately show ?thesis using n g(2-5) by fastforce
  next
    case False
    have "addClStringN hdr str len = map_option (\<lambda>(b', i). (?h\<lparr>strBuffer := Some b'\<rparr>, i)) (put_entry ?g (entry_bytes str len))"
      using b(1) False by (simp add: addClStringN_def Let_def)
    moreover have "rest_same hdr ?h" by (simp add: rest_same_def set_flag_malloced)
    ultimately show ?thesis using make_room(2) [OF b(2,3) False] g by fastforce
  qed
qed

lemma addClStringN_ok:
  assumes h: "buffer_holds (strBuffer hdr) es" and few: "length es < 2 ^ 14"
  shows "\<exists>hdr'. addClStringN hdr str len = Some (hdr', Suc (length es)) \<and>
    buffer_holds (strBuffer hdr') (es @ [entry_bytes str len]) \<and> rest_same hdr hdr'"
proof (cases "strBuffer hdr")
  case None
  obtain n where n: "grow_to 256 (length (entry_bytes str len)) = Some n" "length (entry_bytes str len) < n" "256 \<le> n"
    using grow_to_ok [of 256 "length (entry_bytes str len)"] by auto
  have es: "es = []" using h None by (simp add: buffer_holds_def)
  have "length (buf (new_buf n)) + length (entry_bytes str len) < bMax (new_buf n)" using n by (simp add: new_buf_def)
  from put_entry_ok [OF new_buf_ok new_buf_room this] n(3) obtain b where
    "put_entry (new_buf n) (entry_bytes str len) = Some (b, 1)" "entries_ok b [entry_bytes str len]" by auto
  with None n(1) es show ?thesis by (simp add: addClStringN_def buffer_holds_def rest_same_def set_flag_malloced)
next
  case (Some b)
  then have ok: "entries_ok b es" using h by (simp add: buffer_holds_def)
  then have "cap_ok b" "unat (iUsed b) < 2 ^ 14" using few by (simp_all add: entries_ok_def)
  from addClStringN_step [OF Some this, of str len] obtain hdr1 b1 where
    1: "addClStringN hdr str len = map_option (\<lambda>(b', i). (hdr1\<lparr>strBuffer := Some b'\<rparr>, i)) (put_entry b1 (entry_bytes str len))"
      "rest_same hdr hdr1" "cap_ok b1" "buf b1 = buf b" "indexPtr b1 = indexPtr b" "iUsed b1 = iUsed b"
      "unat (iUsed b1) < unat (GetMax (iMax b1))" "length (buf b1) + length (entry_bytes str len) < bMax b1"
    by blast
  from put_entry_ok [OF entries_ok_cong [OF ok 1(3-6)] 1(7,8)] 1(1,2) show ?thesis
    by (auto simp: buffer_holds_def rest_same_def)
qed

lemma takeWhile_text: "CHR 0x00 \<notin> set s \<Longrightarrow> takeWhile (\<lambda>c. c \<noteq> CHR 0x00) (s @ CHR 0x00 # post) = s"
  by (induction s) auto

lemma replaceClStringN_ok:
  assumes h: "buffer_holds (strBuffer hdr) es" and few: "length es < 2 ^ 14" and k: "k < length es"
    and rd: "\<And>j. j < length es \<Longrightarrow> j \<noteq> k \<Longrightarrow> \<exists>s. es ! j = s @ [CHR 0x00] \<and> CHR 0x00 \<notin> set s"
  shows "\<exists>hdr'. replaceClStringN hdr (Suc k) str len = Some hdr' \<and>
    buffer_holds (strBuffer hdr') (es[k := entry_bytes str len]) \<and> rest_same hdr hdr'"
proof -
  obtain b where b: "strBuffer hdr = Some b" "entries_ok b es"
    using h k by (cases "strBuffer hdr") (auto simp: buffer_holds_def)
  have "cstr_at (buf b) (indexPtr b ! j) = Some (es ! j)" if j: "j < length es" "j \<noteq> k" for j
  proof -
    obtain s where s: "es ! j = s @ [CHR 0x00]" "CHR 0x00 \<notin> set s" using rd [OF j] by blast
    have "located b j (es ! j)" using b(2) j by (simp add: entries_ok_def)
    then obtain post where "drop (indexPtr b ! j) (buf b) = s @ CHR 0x00 # post" using s by (auto simp: located_def)
    with s show ?thesis by (auto simp: cstr_at_def takeWhile_text)
  qed
  from compact_buf_ok [OF b(2) k, of cstr_at, OF this] obtain b' where
    b': "compact_buf cstr_at (Suc k) b = Some b'" "hole_ok b' k es" "iUsed b' = iUsed b" by blast
  have "cap_ok b'" "unat (iUsed b') < 2 ^ 14" using b'(2) few by (simp_all add: hole_ok_def)
  from addClStringN_step [of "hdr\<lparr>strBuffer := Some b'\<rparr>", OF _ this, of str len] obtain hdr1 b1 where
    1: "addClStringN (hdr\<lparr>strBuffer := Some b'\<rparr>) str len = map_option (\<lambda>(b', i). (hdr1\<lparr>strBuffer := Some b'\<rparr>, i)) (put_entry b1 (entry_bytes str len))"
      "rest_same (hdr\<lparr>strBuffer := Some b'\<rparr>) hdr1" "cap_ok b1" "buf b1 = buf b'" "indexPtr b1 = indexPtr b'" "iUsed b1 = iUsed b'"
      "unat (iUsed b1) < unat (GetMax (iMax b1))" "length (buf b1) + length (entry_bytes str len) < bMax b1"
    by auto
  from fill_hole [OF hole_ok_cong [OF b'(2) 1(3-6)] 1(7,8)] obtain b2 where
    "put_entry b1 (entry_bytes str len) = Some (b2, Suc (length es))"
    "entries_ok (rename_last (Suc k) (Suc (length es)) b2) (es[k := entry_bytes str len])" by blast
  with b(1) b'(1) 1(1,2) show ?thesis by (auto simp: replaceClStringN_def buffer_holds_def rest_same_def)
qed

text \<open>The texts of an object, in the order of their numbers.\<close>

definition texts :: "obj_hdr \<Rightarrow> string list \<Rightarrow> bool" where
  "texts hdr ss \<longleftrightarrow> buffer_holds (strBuffer hdr) (map (\<lambda>s. s @ [CHR 0x00]) ss) \<and> (\<forall>s \<in> set ss. CHR 0x00 \<notin> set s)"

lemma get_located_string:
  assumes h: "buffer_holds (strBuffer hdr) es" and i: "i < length es" and s: "es ! i = s @ [CHR 0x00]" "CHR 0x00 \<notin> set s"
  shows "ClObjectGetClString hdr (Suc i) = Some (Some s)"
proof -
  obtain b where b: "strBuffer hdr = Some b" "entries_ok b es"
    using h i by (cases "strBuffer hdr") (auto simp: buffer_holds_def)
  then have "located b i (s @ [CHR 0x00])" "Suc i \<le> unat (iUsed b)" using i s by (auto simp: entries_ok_def)
  then obtain post where "drop (indexPtr b ! i) (buf b) = s @ CHR 0x00 # post" by (auto simp: located_def)
  with b(1) s \<open>Suc i \<le> unat (iUsed b)\<close> show ?thesis
    by (auto simp: ClObjectGetClString_def cstr_at_def takeWhile_text)
qed

lemma texts_get: "texts hdr ss \<Longrightarrow> i < length ss \<Longrightarrow> ClObjectGetClString hdr (Suc i) = Some (Some (ss ! i))"
  by (rule get_located_string [of hdr "map (\<lambda>s. s @ [CHR 0x00]) ss"]) (auto simp: texts_def)

lemma texts_add:
  assumes "texts hdr ss" "length ss < 2 ^ 14" "CHR 0x00 \<notin> set s"
  shows "\<exists>hdr'. addClString hdr s = Some (hdr', Suc (length ss)) \<and> texts hdr' (ss @ [s]) \<and> rest_same hdr hdr'"
  using addClStringN_ok [of hdr "map (\<lambda>s. s @ [CHR 0x00]) ss" s 0] assms
  by (auto simp: texts_def addClString_def entry_bytes_def)

lemma texts_replace:
  assumes "texts hdr ss" "length ss < 2 ^ 14" "CHR 0x00 \<notin> set s" "k < length ss"
  shows "\<exists>hdr'. replaceClString hdr (Suc k) s = Some hdr' \<and> texts hdr' (ss[k := s]) \<and> rest_same hdr hdr'"
  using replaceClStringN_ok [of hdr "map (\<lambda>s. s @ [CHR 0x00]) ss" k s 0] assms set_update_subset_insert [of ss k s]
  by (auto simp: texts_def replaceClString_def entry_bytes_def map_update)

section \<open>Arrays of an object\<close>

text \<open>
  A cell of a stored array and the element it stands for, with the strings \<open>ss\<close> of the object; the strings of the
  array are among those from \<open>b\<close> on.
\<close>

definition cell_ok :: "nat \<Rightarrow> string list \<Rightarrow> ctype \<Rightarrow> 16 word \<times> cvalue \<Rightarrow> arr_cell \<Rightarrow> bool" where
  "cell_ok b ss t ev c \<longleftrightarrow> (case ev of (st, v) \<Rightarrow>
     if null_state st then c = ArrElem \<lparr>sd_type = t, sd_state = st, sd_val = Raw v\<rparr>
     else case elem_string v of
       Some (s, t') \<Rightarrow> (\<exists>k < length ss. b \<le> k \<and> ss ! k = s @ [CHR 0x00] \<and> c = ArrElem \<lparr>sd_type = t', sd_state = st, sd_val = Id (Suc k)\<rparr>)
     | None \<Rightarrow> (case v of
         V_instance blob \<Rightarrow> \<exists>k < length ss. b \<le> k \<and> ss ! k = entry_bytes blob (length blob) \<and>
           c = ArrElem \<lparr>sd_type = CT_instance, sd_state = st, sd_val = Id (Suc k)\<rparr>
       | _ \<Rightarrow> c = ArrElem \<lparr>sd_type = t, sd_state = st, sd_val = Raw v\<rparr>))"

text \<open>An element that is not a null pointer taken for a value, and not an array.\<close>

definition elem_ok :: "16 word \<times> cvalue \<Rightarrow> bool" where
  "elem_ok ev \<longleftrightarrow> (case ev of (st, v) \<Rightarrow> null_state st \<or> (case v of V_null _ \<Rightarrow> False | V_array _ _ \<Rightarrow> False | _ \<Rightarrow> True))"

text \<open>The entries that the elements of an array add to the strings.\<close>

definition elem_entry :: "16 word \<times> cvalue \<Rightarrow> string \<Rightarrow> bool" where
  "elem_entry ev e \<longleftrightarrow> (\<exists>s t. elem_string (snd ev) = Some (s, t) \<and> e = s @ [CHR 0x00]) \<or>
     (\<exists>blob. snd ev = V_instance blob \<and> e = entry_bytes blob (length blob))"

lemma cell_ok_append: "cell_ok b ss t ev c \<Longrightarrow> cell_ok b (ss @ ss') t ev c"
  by (cases ev; cases "snd ev") (fastforce simp: cell_ok_def nth_append)+

lemma addElem_ok:
  assumes h: "buffer_holds (strBuffer hdr) ss" and few: "length ss < 2 ^ 14" and e: "elem_ok ev" and base: "b \<le> length ss"
  shows "\<exists>hdr' c ss'. addElem hdr t ev = Some (hdr', c) \<and> buffer_holds (strBuffer hdr') (ss @ ss') \<and> length ss' \<le> 1 \<and>
    rest_same hdr hdr' \<and> cell_ok b (ss @ ss') t ev c \<and> (\<forall>x \<in> set ss'. elem_entry ev x)"
proof -
  obtain st v where ev: "ev = (st, v)" by (cases ev)
  show ?thesis
  proof (cases "null_state st")
    case True
    then show ?thesis using h ev by (intro exI [of _ hdr] exI [of _ "ArrElem \<lparr>sd_type = t, sd_state = st, sd_val = Raw v\<rparr>"] exI [of _ "[]"])
        (simp add: addElem_def cell_ok_def)
  next
    case False
    have add: "\<exists>hdr'. addClStringN hdr s n = Some (hdr', Suc (length ss)) \<and> buffer_holds (strBuffer hdr') (ss @ [entry_bytes s n]) \<and>
        rest_same hdr hdr'" for s n
      by (rule addClStringN_ok [OF h few])
    show ?thesis
    proof (cases "elem_string v")
      case (Some st')
      obtain s t' where s: "elem_string v = Some (s, t')" using Some by (cases st') auto
      obtain hdr' where "addClString hdr s = Some (hdr', Suc (length ss))" "buffer_holds (strBuffer hdr') (ss @ [s @ [CHR 0x00]])" "rest_same hdr hdr'"
        using add [of s 0] by (auto simp: addClString_def entry_bytes_def)
      with s False ev show ?thesis
        by (intro exI [of _ hdr'] exI [of _ "ArrElem \<lparr>sd_type = t', sd_state = st, sd_val = Id (Suc (length ss))\<rparr>"] exI [of _ "[s @ [CHR 0x00]]"])
          (use base in \<open>auto simp: addElem_def cell_ok_def elem_entry_def nth_append\<close>)
    next
      case None
      show ?thesis
      proof (cases "\<exists>blob. v = V_instance blob")
        case True
        then obtain blob where v: "v = V_instance blob" by blast
        obtain hdr' where "addClObject hdr blob = Some (hdr', Suc (length ss))"
          "buffer_holds (strBuffer hdr') (ss @ [entry_bytes blob (length blob)])" "rest_same hdr hdr'"
          using add [of blob "length blob"] by (auto simp: addClObject_def)
        with v False ev show ?thesis
          by (intro exI [of _ hdr'] exI [of _ "ArrElem \<lparr>sd_type = CT_instance, sd_state = st, sd_val = Id (Suc (length ss))\<rparr>"]
              exI [of _ "[entry_bytes blob (length blob)]"]) (use base in \<open>auto simp: addElem_def cell_ok_def elem_entry_def nth_append\<close>)
      next
        case no: False
        then obtain w x where v: "v = V_plain w x" using e None False ev by (cases v) (auto simp: elem_ok_def)
        with False ev h show ?thesis
          by (intro exI [of _ hdr] exI [of _ "ArrElem \<lparr>sd_type = t, sd_state = st, sd_val = Raw v\<rparr>"] exI [of _ "[]"])
            (auto simp: addElem_def cell_ok_def)
      qed
    qed
  qed
qed

lemma addElems_ok:
  "buffer_holds (strBuffer hdr) ss \<Longrightarrow> length ss + length es \<le> 2 ^ 14 \<Longrightarrow> \<forall>e \<in> set es. elem_ok e \<Longrightarrow> b \<le> length ss \<Longrightarrow>
   \<exists>hdr' cs ss'. addElems hdr t es = Some (hdr', cs) \<and> buffer_holds (strBuffer hdr') (ss @ ss') \<and> length ss' \<le> length es \<and>
     rest_same hdr hdr' \<and> list_all2 (cell_ok b (ss @ ss') t) es cs \<and> (\<forall>x \<in> set ss'. \<exists>e \<in> set es. elem_entry e x)"
proof (induction es arbitrary: hdr ss)
  case Nil
  then show ?case by (auto intro!: exI [of _ "[]"])
next
  case (Cons e es)
  obtain hdr1 c s1 where 1: "addElem hdr t e = Some (hdr1, c)" "buffer_holds (strBuffer hdr1) (ss @ s1)" "length s1 \<le> 1"
    "rest_same hdr hdr1" "cell_ok b (ss @ s1) t e c" "\<forall>x \<in> set s1. elem_entry e x"
    using addElem_ok [OF Cons.prems(1), of e b t] Cons.prems by auto
  obtain hdr2 cs s2 where 2: "addElems hdr1 t es = Some (hdr2, cs)" "buffer_holds (strBuffer hdr2) ((ss @ s1) @ s2)" "length s2 \<le> length es"
    "rest_same hdr1 hdr2" "list_all2 (cell_ok b ((ss @ s1) @ s2) t) es cs" "\<forall>x \<in> set s2. \<exists>e \<in> set es. elem_entry e x"
    using Cons.IH [OF 1(2)] Cons.prems(2-4) 1(3) by auto
  have "cell_ok b ((ss @ s1) @ s2) t e c" using cell_ok_append [OF 1(5)] .
  with 1 2 rest_same_trans [OF 1(4) 2(4)] show ?case
    by (intro exI [of _ hdr2] exI [of _ "c # cs"] exI [of _ "s1 @ s2"]) auto
qed

text \<open>The buffer after the step before the write, when it does not move or moves within the heap.\<close>

lemma addClArray_step:
  assumes b: "arrayBuffer hdr = Some b" "cap_ok b" "unat (iUsed b) < 2 ^ 14" and m: "isMallocedArrayBuf hdr"
  shows "\<exists>hdr1 b1. addClArray hdr t es = Option.bind (addElems hdr1 t es) (\<lambda>(hdr2, cs).
      map_option (\<lambda>(b2, i). (hdr2\<lparr>arrayBuffer := Some b2\<rparr>, i))
        (put_entry b1 (ArrHdr (if t = CT_string then CT_chars else t) (length es) # cs))) \<and>
    strBuffer hdr1 = strBuffer hdr \<and> h_type hdr1 = h_type hdr \<and> isMallocedArrayBuf hdr1 \<and>
    cap_ok b1 \<and> buf b1 = buf b \<and> indexPtr b1 = indexPtr b \<and> iUsed b1 = iUsed b \<and>
    unat (iUsed b1) < unat (GetMax (iMax b1)) \<and> length (buf b1) + length es + 1 < bMax b1"
proof -
  let ?l = "length es + 1" and ?g = "grow_index b"
  let ?h = "if index_full b then set_flag HDR_Rebuild hdr else hdr"
  note g = grow_index_ok [OF b(2,3)]
  obtain n where n: "grow_to (bMax ?g) (length (buf ?g) + ?l) = Some n" "cap_ok (?g\<lparr>bMax := n\<rparr>)" "length (buf b) + ?l < n"
    using make_room(1) [OF b(2,3)] by blast
  show ?thesis
  proof (cases "bytes_full ?g ?l")
    case True
    let ?h' = "set_flag (HDR_ArrayBufferMalloced OR HDR_Rebuild) ?h"
    have "addClArray hdr t es = Option.bind (addElems ?h' t es) (\<lambda>(hdr2, cs). map_option (\<lambda>(b2, i). (hdr2\<lparr>arrayBuffer := Some b2\<rparr>, i))
        (put_entry (?g\<lparr>bMax := n\<rparr>) (ArrHdr (if t = CT_string then CT_chars else t) (length es) # cs)))"
      using b(1) n(1) True m by (simp add: addClArray_def Let_def)
    moreover have "isMallocedArrayBuf ?h'" by (rule set_flag_malloced(2))
    ultimately show ?thesis using n g(2-5) by (intro exI [of _ ?h'] exI [of _ "?g\<lparr>bMax := n\<rparr>"]) simp
  next
    case False
    have "addClArray hdr t es = Option.bind (addElems ?h t es) (\<lambda>(hdr2, cs). map_option (\<lambda>(b2, i). (hdr2\<lparr>arrayBuffer := Some b2\<rparr>, i))
        (put_entry ?g (ArrHdr (if t = CT_string then CT_chars else t) (length es) # cs)))"
      using b(1) False by (simp add: addClArray_def Let_def)
    moreover have "isMallocedArrayBuf ?h" using m by (simp add: set_flag_malloced)
    ultimately show ?thesis using make_room(2) [OF b(2,3) False] g by (intro exI [of _ ?h] exI [of _ ?g]) simp
  qed
qed

text \<open>The entry of an array with the element type \<open>t\<close> and the cells \<open>cs\<close>.\<close>

definition array_entry :: "ctype \<Rightarrow> arr_cell list \<Rightarrow> arr_cell list" where
  "array_entry t cs = ArrHdr (if t = CT_string then CT_chars else t) (length cs) # cs"

lemma addClArray_ok:
  assumes s: "buffer_holds (strBuffer hdr) ss" and a: "buffer_holds (arrayBuffer hdr) as" and m: "arrayBuffer hdr = None \<or> isMallocedArrayBuf hdr"
    and few: "length as < 2 ^ 14" "length ss + length es \<le> 2 ^ 14" and ok: "\<forall>e \<in> set es. elem_ok e"
  shows "\<exists>hdr' cs ss'. addClArray hdr t es = Some (hdr', Suc (length as)) \<and> buffer_holds (strBuffer hdr') (ss @ ss') \<and>
    buffer_holds (arrayBuffer hdr') (as @ [array_entry t cs]) \<and> list_all2 (cell_ok (length ss) (ss @ ss') t) es cs \<and>
    isMallocedArrayBuf hdr' \<and> h_type hdr' = h_type hdr \<and> length ss' \<le> length es \<and> (\<forall>x \<in> set ss'. \<exists>e \<in> set es. elem_entry e x)"
proof (cases "arrayBuffer hdr")
  case None
  obtain n where n: "grow_to 16 (length es + 1) = Some n" "length es + 1 < n" using grow_to_ok [of 16 "length es + 1"] by auto
  let ?h = "set_flag (HDR_ArrayBufferMalloced OR HDR_Rebuild) hdr"
  have as: "as = []" using a None by (simp add: buffer_holds_def)
  have "buffer_holds (strBuffer ?h) ss" using s by simp
  from addElems_ok [OF this few(2) ok order.refl, of t] obtain hdr2 cs ss' where
    2: "addElems ?h t es = Some (hdr2, cs)" "buffer_holds (strBuffer hdr2) (ss @ ss')" "length ss' \<le> length es" "rest_same ?h hdr2"
      "list_all2 (cell_ok (length ss) (ss @ ss') t) es cs" "\<forall>x \<in> set ss'. \<exists>e \<in> set es. elem_entry e x" by blast
  have len: "length cs = length es" using list_all2_lengthD [OF 2(5)] by simp
  then have "length (buf (new_buf n :: arr_cell cl_buf)) + length (array_entry t cs) < bMax (new_buf n :: arr_cell cl_buf)"
    using n by (simp add: new_buf_def array_entry_def)
  from put_entry_ok [OF new_buf_ok new_buf_room this] n(2) obtain b where
    "put_entry (new_buf n) (array_entry t cs) = Some (b, 1)" "entries_ok b [array_entry t cs]" by auto
  with None n(1) as 2 len show ?thesis
    by (intro exI [of _ "hdr2\<lparr>arrayBuffer := Some b\<rparr>"] exI [of _ cs] exI [of _ ss'])
      (simp add: addClArray_def buffer_holds_def array_entry_def rest_same_def set_flag_malloced)
next
  case (Some b)
  then have e: "entries_ok b as" using a by (simp add: buffer_holds_def)
  then have "cap_ok b" "unat (iUsed b) < 2 ^ 14" using few by (simp_all add: entries_ok_def)
  from addClArray_step [OF Some this, of t es] m Some obtain hdr1 b1 where
    1: "addClArray hdr t es = Option.bind (addElems hdr1 t es) (\<lambda>(hdr2, cs).
        map_option (\<lambda>(b2, i). (hdr2\<lparr>arrayBuffer := Some b2\<rparr>, i)) (put_entry b1 (ArrHdr (if t = CT_string then CT_chars else t) (length es) # cs)))"
      "strBuffer hdr1 = strBuffer hdr" "h_type hdr1 = h_type hdr" "isMallocedArrayBuf hdr1"
      "cap_ok b1" "buf b1 = buf b" "indexPtr b1 = indexPtr b" "iUsed b1 = iUsed b"
      "unat (iUsed b1) < unat (GetMax (iMax b1))" "length (buf b1) + length es + 1 < bMax b1"
    by auto
  have "buffer_holds (strBuffer hdr1) ss" using s 1(2) by simp
  from addElems_ok [OF this few(2) ok order.refl, of t] obtain hdr2 cs ss' where
    2: "addElems hdr1 t es = Some (hdr2, cs)" "buffer_holds (strBuffer hdr2) (ss @ ss')" "length ss' \<le> length es" "rest_same hdr1 hdr2"
      "list_all2 (cell_ok (length ss) (ss @ ss') t) es cs" "\<forall>x \<in> set ss'. \<exists>e \<in> set es. elem_entry e x" by blast
  have len: "length cs = length es" using list_all2_lengthD [OF 2(5)] by simp
  have "length (buf b1) + length (array_entry t cs) < bMax b1" using 1(10) len by (simp add: array_entry_def)
  from put_entry_ok [OF entries_ok_cong [OF e 1(5-8)] 1(9) this] obtain b2 where
    "put_entry b1 (array_entry t cs) = Some (b2, Suc (length as))" "entries_ok b2 (as @ [array_entry t cs])" by blast
  with 1(1,3,4) 2 len show ?thesis
    by (intro exI [of _ "hdr2\<lparr>arrayBuffer := Some b2\<rparr>"] exI [of _ cs] exI [of _ ss'])
      (simp add: buffer_holds_def array_entry_def rest_same_def)
qed

lemma array_at_located:
  assumes "located b i (array_entry t cs)"
  shows "array_at (buf b) (indexPtr b ! i) = Some (array_entry t cs)"
proof -
  obtain post where "drop (indexPtr b ! i) (buf b) = array_entry t cs @ post" using assms by (auto simp: located_def)
  then show ?thesis by (simp add: array_at_def array_entry_def)
qed

lemma get_array:
  assumes "buffer_holds (arrayBuffer hdr) as" "i < length as" "as ! i = array_entry t cs"
  shows "ClObjectGetClArray hdr (Suc i) = Some (Some (array_entry t cs))"
proof -
  obtain b where b: "arrayBuffer hdr = Some b" "entries_ok b as"
    using assms by (cases "arrayBuffer hdr") (auto simp: buffer_holds_def)
  then have "located b i (array_entry t cs)" "Suc i \<le> unat (iUsed b)" using assms by (auto simp: entries_ok_def)
  with b(1) array_at_located show ?thesis by (fastforce simp: ClObjectGetClArray_def)
qed

lemma replaceClArray_ok:
  assumes s: "buffer_holds (strBuffer hdr) ss" and a: "buffer_holds (arrayBuffer hdr) as" and m: "isMallocedArrayBuf hdr"
    and few: "length as < 2 ^ 14" "length ss + length es \<le> 2 ^ 14" and ok: "\<forall>e \<in> set es. elem_ok e"
    and k: "k < length as" and arr: "\<forall>x \<in> set as. \<exists>t cs. x = array_entry t cs"
  shows "\<exists>hdr' cs ss'. replaceClArray hdr (Suc k) t es = Some hdr' \<and> buffer_holds (strBuffer hdr') (ss @ ss') \<and>
    buffer_holds (arrayBuffer hdr') (as[k := array_entry t cs]) \<and> list_all2 (cell_ok (length ss) (ss @ ss') t) es cs \<and>
    isMallocedArrayBuf hdr' \<and> h_type hdr' = h_type hdr \<and> length ss' \<le> length es \<and> (\<forall>x \<in> set ss'. \<exists>e \<in> set es. elem_entry e x)"
proof -
  obtain b where b: "arrayBuffer hdr = Some b" "entries_ok b as"
    using a k by (cases "arrayBuffer hdr") (auto simp: buffer_holds_def)
  have "array_at (buf b) (indexPtr b ! j) = Some (as ! j)" if j: "j < length as" "j \<noteq> k" for j
    using array_at_located [of b j] b(2) j arr by (metis entries_ok_def nth_mem)
  from compact_buf_ok [OF b(2) k, of array_at, OF this] obtain b' where
    b': "compact_buf array_at (Suc k) b = Some b'" "hole_ok b' k as" "iUsed b' = iUsed b" by blast
  have "cap_ok b'" "unat (iUsed b') < 2 ^ 14" using b'(2) few by (simp_all add: hole_ok_def)
  from addClArray_step [of "hdr\<lparr>arrayBuffer := Some b'\<rparr>", OF _ this, of t es] m obtain hdr1 b1 where
    1: "addClArray (hdr\<lparr>arrayBuffer := Some b'\<rparr>) t es = Option.bind (addElems hdr1 t es) (\<lambda>(hdr2, cs).
        map_option (\<lambda>(b2, i). (hdr2\<lparr>arrayBuffer := Some b2\<rparr>, i)) (put_entry b1 (ArrHdr (if t = CT_string then CT_chars else t) (length es) # cs)))"
      "strBuffer hdr1 = strBuffer hdr" "h_type hdr1 = h_type hdr" "isMallocedArrayBuf hdr1"
      "cap_ok b1" "buf b1 = buf b'" "indexPtr b1 = indexPtr b'" "iUsed b1 = iUsed b'"
      "unat (iUsed b1) < unat (GetMax (iMax b1))" "length (buf b1) + length es + 1 < bMax b1"
    by auto
  have "buffer_holds (strBuffer hdr1) ss" using s 1(2) by simp
  from addElems_ok [OF this few(2) ok order.refl, of t] obtain hdr2 cs ss' where
    2: "addElems hdr1 t es = Some (hdr2, cs)" "buffer_holds (strBuffer hdr2) (ss @ ss')" "length ss' \<le> length es" "rest_same hdr1 hdr2"
      "list_all2 (cell_ok (length ss) (ss @ ss') t) es cs" "\<forall>x \<in> set ss'. \<exists>e \<in> set es. elem_entry e x" by blast
  have len: "length cs = length es" using list_all2_lengthD [OF 2(5)] by simp
  have "length (buf b1) + length (array_entry t cs) < bMax b1" using 1(10) len by (simp add: array_entry_def)
  from fill_hole [OF hole_ok_cong [OF b'(2) 1(5-8)] 1(9) this] obtain b2 where
    "put_entry b1 (array_entry t cs) = Some (b2, Suc (length as))"
    "entries_ok (rename_last (Suc k) (Suc (length as)) b2) (as[k := array_entry t cs])" by blast
  with b(1) b'(1) 1(1,3,4) 2 len show ?thesis
    by (intro exI [of _ "hdr2\<lparr>arrayBuffer := Some (rename_last (Suc k) (Suc (length as)) b2)\<rparr>"] exI [of _ cs] exI [of _ ss'])
      (simp add: replaceClArray_def buffer_holds_def array_entry_def rest_same_def)
qed

section \<open>Rebuilt buffers\<close>

lemma pack_buf_ok:
  assumes ok: "entries_ok b es" and ne: "es \<noteq> []" "\<forall>e \<in> set es. e \<noteq> []" and few: "length es < 2 ^ 15"
  shows "entries_ok (pack_buf b) es"
proof -
  have e: "cap_ok b" "length es = unat (iUsed b)" "\<And>i. i < length es \<Longrightarrow> located b i (es ! i)" "sum_list (map length es) \<le> length (buf b)"
    using ok by (auto simp: entries_ok_def)
  have "length (hd es) \<le> sum_list (map length es)" using ne(1) by (cases es) auto
  then have "0 < length (buf b)" using ne e(4) hd_in_set [OF ne(1)] by (metis gr0I le_zero_eq length_0_conv)
  moreover have "GetMax (iUsed b AND 0x7fff) = GetMax (iUsed b)" by (simp add: GetMax_def and.assoc)
  moreover have "unat (GetMax (iUsed b)) = unat (iUsed b)" using few e(2) by (simp add: unat_GetMax)
  moreover have "iUsed b AND 0x7fff = GetMax (iUsed b)" "GetMax 0 = 0" by (simp_all add: GetMax_def)
  ultimately have "cap_ok (pack_buf b)" using e(1) by (simp add: cap_ok_def pack_buf_def unat_eq_zero)
  moreover have "located (pack_buf b) i (es ! i)" if "i < length es" for i
    using e(3) [OF that] that e(2) by (auto simp: located_def pack_buf_def)
  ultimately show ?thesis using e by (simp add: entries_ok_def pack_buf_def)
qed

lemma ALIGN_le: "0 < y \<Longrightarrow> x \<le> ALIGN x y"
  by (auto simp: ALIGN_def) (metis Suc_pred add.commute dividend_less_times_div mult.commute not_less_eq_eq less_eq_Suc_le mult_Suc_right)

lemma ALIGN_mult: "0 < y \<Longrightarrow> ALIGN (k * y + x) y = k * y + ALIGN x y"
proof (cases "x = 0")
  case True
  assume y: "0 < y"
  show ?thesis
  proof (cases k)
    case (Suc j)
    have "Suc j * y - 1 = j * y + (y - 1)" using y by simp
    then have "(Suc j * y - 1) div y = j" using y by (metis diff_less div_mult_self3 div_less add_0_right less_numeral_extra(1) less_numeral_extra(3))
    then show ?thesis using True Suc y by (simp add: ALIGN_def)
  qed (use True in \<open>simp add: ALIGN_def\<close>)
next
  case False
  assume "0 < y"
  then have "(k * y + x - 1) div y = k + (x - 1) div y"
    using False by (metis Nat.add_diff_assoc One_nat_def Suc_leI div_mult_self3 gr0I less_numeral_extra(3))
  then show ?thesis using False by (simp add: ALIGN_def algebra_simps)
qed

text \<open>The copy of a buffer takes the bytes its size function counts.\<close>

lemma copy_sizes: "snd (copyStringBuf th fh) = sizeStringBuf fh" "snd (copyArrayBuf th fh) = sizeArrayBuf fh"
proof -
  have "ALIGN (32 + n) 4 = 32 + ALIGN n 4" for n using ALIGN_mult [of 4 8 n] by simp
  then show "snd (copyStringBuf th fh) = sizeStringBuf fh"
    by (simp add: copyStringBuf_def sizeStringBuf_def SIZEOF_ClStrBuf_def split: option.split)
  show "snd (copyArrayBuf th fh) = sizeArrayBuf fh"
    by (simp add: copyArrayBuf_def sizeArrayBuf_def split: option.split)
qed

section \<open>Properties\<close>

text \<open>The index of a buffer whose capacity has wrapped has no room any more.\<close>

lemma index_wraps:
  assumes "iUsed b = 0x4000" "iMax b = 0x4000 OR Malloced"
  shows "iMax (grow_index b) = Malloced" "iUsed (grow_index b) = 0x4000"
  using assms by (simp_all add: grow_index_def Let_def GetMax_def Malloced_def)

lemma wrapped_index:
  assumes "strBuffer hdr = Some b" "iMax b = Malloced"
  shows "addClStringN hdr str len = None"
proof -
  have z: "iRoom (grow_index b) = 0" using assms(2) by (simp add: grow_index_def Let_def GetMax_def Malloced_def)
  then have "put_entry (grow_index b) e = None" "put_entry ((grow_index b)\<lparr>bMax := n\<rparr>) e = None" for e n
    by (simp_all add: put_entry_def)
  then show ?thesis using assms(1)
    by (cases "grow_to (bMax (grow_index b)) (length (buf (grow_index b)) + length (entry_bytes str len))") (simp_all add: addClStringN_def Let_def)
qed

lemma add_keeps_iMax:
  assumes "strBuffer hdr = Some b" "addClStringN hdr str len = Some (hdr', i)"
  shows "\<exists>b'. strBuffer hdr' = Some b' \<and> iMax b' = iMax (grow_index b)"
proof -
  have p: "iMax b' = iMax c" if "put_entry c e = Some (b', j)" for b' c e j
    using that by (auto simp: put_entry_def split: if_splits)
  show ?thesis using assms
    by (auto simp: addClStringN_def Let_def bind_eq_Some_conv split: if_splits dest!: p)
qed



end
