(* ===== verification/ObjectImpl.thy ===== *)
theory ObjectImpl
  imports ObjectBuffer
begin

text \<open>
  Classes, instances, object paths and argument lists, \<open>src/objectImpl.c\<close>: an object is a header with its buffers and
  sections of properties, qualifiers, methods and parameters, whose names and values are numbers of strings and
  arrays of the buffers.

  Shown: a property that is set is read back, the other properties keep their values, a value of another type is
  refused where the code checks it; every name is found without case and once; an object rebuilt into one block fits
  into the size computed for it and holds the same.
\<close>

section \<open>State\<close>

type_synonym in_data = "16 word \<times> cvalue"

record cl_qualifier =
  q_id :: nat
  q_data :: cl_data

type_synonym qualifiers = "cl_qualifier cl_section"

record cl_property =
  p_data :: cl_data
  p_id :: nat
  p_refName :: nat
  p_flags :: "16 word"
  p_quals :: "8 word"
  p_qualifiers :: qualifiers

type_synonym properties = "cl_property cl_section"

record cl_parameter =
  pa_id :: nat
  pa_type :: ctype
  pa_arraySize :: nat
  pa_refName :: nat
  pa_qualifiers :: qualifiers

record cl_method =
  m_id :: nat
  m_type :: ctype
  m_quals :: "8 word"
  m_qualifiers :: qualifiers
  m_parameters :: "cl_parameter cl_section"

record cl_class =
  c_hdr :: obj_hdr
  c_quals :: "8 word"
  c_parents :: "8 word"
  c_name :: nat
  c_parent :: nat
  c_qualifiers :: qualifiers
  c_properties :: properties
  c_methods :: "cl_method cl_section"

record cl_instance =
  i_hdr :: obj_hdr
  i_quals :: "8 word"
  i_className :: nat
  i_nameSpace :: nat
  i_qualifiers :: qualifiers
  i_properties :: properties

record cl_path =
  o_hdr :: obj_hdr
  o_hostName :: nat
  o_nameSpace :: nat
  o_className :: nat
  o_properties :: properties

record cl_args =
  a_hdr :: obj_hdr
  a_properties :: properties

definition ClClass_Q_Indication :: "8 word" where "ClClass_Q_Indication = 4"
definition ClProperty_Q_Key :: "8 word" where "ClProperty_Q_Key = 1"
definition ClProperty_Q_EmbeddedObject :: "8 word" where "ClProperty_Q_EmbeddedObject = 8"
definition ClProperty_Filtered :: "16 word" where "ClProperty_Filtered = 4"
definition CMPI_RC_ERR_TYPE_MISMATCH :: int where "CMPI_RC_ERR_TYPE_MISMATCH = 13"

section \<open>Searching\<close>

text \<open>The loop that compares a name with the names of the items; the result is the position from 1, or 0.\<close>

fun locate :: "obj_hdr \<Rightarrow> ('a \<Rightarrow> nat) \<Rightarrow> string \<Rightarrow> nat \<Rightarrow> 'a list \<Rightarrow> nat option" where
  "locate hdr nm ident i [] = Some 0"
| "locate hdr nm ident i (x # xs) =
     (case ClObjectGetClString hdr (nm x) of
        Some (Some s) \<Rightarrow> if strcasecmp ident s = 0 then Some (i + 1) else locate hdr nm ident (i + 1) xs
      | _ \<Rightarrow> None)"

definition locateQualifier :: "obj_hdr \<Rightarrow> qualifiers \<Rightarrow> string \<Rightarrow> nat option" where
  "locateQualifier hdr qlfs ident = locate hdr q_id ident 0 (s_items qlfs)"

text \<open>The condition of the loop of \<open>locateParameter\<close>, \<open>i > prms->used\<close>, never holds.\<close>

definition locateParameter :: "obj_hdr \<Rightarrow> cl_parameter cl_section \<Rightarrow> string \<Rightarrow> nat option" where
  "locateParameter hdr prms ident = Some 0"

definition ClClassLocateMethod :: "obj_hdr \<Rightarrow> cl_method cl_section \<Rightarrow> string \<Rightarrow> nat option" where
  "ClClassLocateMethod hdr mths ident = locate hdr m_id ident 0 (s_items mths)"

definition ClObjectLocateProperty :: "obj_hdr \<Rightarrow> properties \<Rightarrow> string \<Rightarrow> nat option" where
  "ClObjectLocateProperty hdr prps ident = locate hdr p_id ident 0 (s_items prps)"

text \<open>Room for one more item, and the item.\<close>

definition grow_append :: "obj_hdr \<Rightarrow> 'a cl_section \<Rightarrow> 16 word \<Rightarrow> 'a \<Rightarrow> (obj_hdr \<times> 'a cl_section) option" where
  "grow_append hdr sct iSize x =
     (case ensureClSpace hdr sct iSize of (hdr', sct') \<Rightarrow> map_option (Pair hdr') (section_append sct' x))"

section \<open>Qualifiers\<close>

definition store_qualifier :: "obj_hdr \<Rightarrow> in_data \<Rightarrow> (obj_hdr \<times> cl_data) option" where
  "store_qualifier hdr d =
     (case d of (st, v) \<Rightarrow>
      if null_state st then Some (hdr, \<lparr>sd_type = type_of v, sd_state = st, sd_val = Raw v\<rparr>)
      else case v of
        V_chars s \<Rightarrow> map_option (\<lambda>(hdr', i). (hdr', \<lparr>sd_type = CT_chars, sd_state = st, sd_val = Id i\<rparr>)) (addClString hdr s)
      | V_string s \<Rightarrow> map_option (\<lambda>(hdr', i). (hdr', \<lparr>sd_type = CT_chars, sd_state = st, sd_val = Id i\<rparr>)) (addClString hdr s)
      | V_array t es \<Rightarrow> map_option (\<lambda>(hdr', i). (hdr', \<lparr>sd_type = CT_array t, sd_state = st, sd_val = Id i\<rparr>)) (addClArray hdr t es)
      | V_null (CT_plain t) \<Rightarrow> Some (hdr, \<lparr>sd_type = CT_plain t, sd_state = st, sd_val = Raw v\<rparr>)
      | V_null _ \<Rightarrow> None
      | _ \<Rightarrow> Some (hdr, \<lparr>sd_type = type_of v, sd_state = st, sd_val = Raw v\<rparr>))"

definition addClQualifier :: "obj_hdr \<Rightarrow> qualifiers \<Rightarrow> string \<Rightarrow> in_data \<Rightarrow> (obj_hdr \<times> qualifiers \<times> nat) option" where
  "addClQualifier hdr qlfs ident d =
     Option.bind (locateQualifier hdr qlfs ident) (\<lambda>i.
     if i \<noteq> 0 then Some (hdr, qlfs, 0)
     else Option.bind (addClString hdr ident) (\<lambda>(hdr1, n).
       Option.bind (store_qualifier hdr1 d) (\<lambda>(hdr2, sd).
       map_option (\<lambda>(hdr3, qlfs'). (hdr3, qlfs', length (s_items qlfs')))
         (grow_append hdr2 qlfs 4 \<lparr>q_id = n, q_data = sd\<rparr>))))"

text \<open>On a class some qualifiers are bits of the class; \<open>quals\<close> are those of the class the header belongs to.\<close>

definition ClClassAddQualifierSpecial ::
  "obj_hdr \<Rightarrow> 8 word \<Rightarrow> qualifiers \<Rightarrow> string \<Rightarrow> in_data \<Rightarrow> (obj_hdr \<times> 8 word \<times> qualifiers \<times> nat) option" where
  "ClClassAddQualifierSpecial hdr quals qlfs ident d =
     (if h_type hdr = HDR_Class \<and> strcasecmp ident ''Abstract'' = 0 then Some (hdr, quals OR ClClass_Q_Abstract, qlfs, 0)
      else if h_type hdr = HDR_Class \<and> strcasecmp ident ''Association'' = 0 then Some (hdr, quals OR ClClass_Q_Association, qlfs, 0)
      else if h_type hdr = HDR_Class \<and> strcasecmp ident ''Indication'' = 0 then Some (hdr, quals OR ClClass_Q_Indication, qlfs, 0)
      else map_option (\<lambda>(hdr', qlfs', rc). (hdr', quals, qlfs', rc)) (addClQualifier hdr qlfs ident d))"

definition ClClassAddPropertyQualifierSpecial ::
  "obj_hdr \<Rightarrow> 8 word \<Rightarrow> cl_property \<Rightarrow> string \<Rightarrow> in_data \<Rightarrow> (obj_hdr \<times> 8 word \<times> cl_property \<times> nat) option" where
  "ClClassAddPropertyQualifierSpecial hdr quals p ident d =
     (if strcasecmp ident ''key'' = 0 then Some (hdr, quals, p\<lparr>p_quals := p_quals p OR ClProperty_Q_Key\<rparr>, 0)
      else if strcasecmp ident ''embeddedobject'' = 0 then Some (hdr, quals, p\<lparr>p_quals := p_quals p OR ClProperty_Q_EmbeddedObject\<rparr>, 0)
      else map_option (\<lambda>(hdr', quals', qlfs', rc). (hdr', quals', p\<lparr>p_qualifiers := qlfs'\<rparr>, rc))
             (ClClassAddQualifierSpecial hdr quals (p_qualifiers p) ident d))"

definition ClClassAddMethodQualifier :: "obj_hdr \<Rightarrow> cl_method \<Rightarrow> string \<Rightarrow> in_data \<Rightarrow> (obj_hdr \<times> cl_method \<times> nat) option" where
  "ClClassAddMethodQualifier hdr m ident d =
     map_option (\<lambda>(hdr', qlfs', rc). (hdr', m\<lparr>m_qualifiers := qlfs'\<rparr>, rc)) (addClQualifier hdr (m_qualifiers m) ident d)"

definition ClClassAddMethParamQualifier :: "obj_hdr \<Rightarrow> cl_parameter \<Rightarrow> string \<Rightarrow> in_data \<Rightarrow> (obj_hdr \<times> cl_parameter \<times> nat) option" where
  "ClClassAddMethParamQualifier hdr p ident d =
     map_option (\<lambda>(hdr', qlfs', rc). (hdr', p\<lparr>pa_qualifiers := qlfs'\<rparr>, rc)) (addClQualifier hdr (pa_qualifiers p) ident d)"

section \<open>Parameters and methods\<close>

definition makeClParameter :: "obj_hdr \<Rightarrow> string \<Rightarrow> ctype \<Rightarrow> nat \<Rightarrow> string option \<Rightarrow> (obj_hdr \<times> cl_parameter) option" where
  "makeClParameter hdr ident t asize refName =
     Option.bind (addClString hdr ident) (\<lambda>(hdr1, n).
     map_option (\<lambda>(hdr2, r). (hdr2, \<lparr>pa_id = n, pa_type = t, pa_arraySize = asize, pa_refName = r, pa_qualifiers = clearClSection\<rparr>))
       (case refName of None \<Rightarrow> Some (hdr1, 0) | Some s \<Rightarrow> addClString hdr1 s))"

definition addClParameter :: "obj_hdr \<Rightarrow> cl_parameter cl_section \<Rightarrow> cl_parameter \<Rightarrow> (obj_hdr \<times> cl_parameter cl_section \<times> nat) option" where
  "addClParameter hdr prms np =
     Option.bind (ClObjectGetClString hdr (pa_id np)) (\<lambda>ident.
     Option.bind ident (\<lambda>ident.
     Option.bind (locateParameter hdr prms ident) (\<lambda>i.
     if i \<noteq> 0 then Some (hdr, prms, 0)
     else map_option (\<lambda>(hdr', prms'). (hdr', prms', length (s_items prms'))) (grow_append hdr prms 4 np))))"

definition ClClassAddMethParameter :: "obj_hdr \<Rightarrow> cl_method \<Rightarrow> string \<Rightarrow> ctype \<Rightarrow> nat \<Rightarrow> string option \<Rightarrow> (obj_hdr \<times> cl_method \<times> nat) option" where
  "ClClassAddMethParameter hdr m ident t asize refName =
     Option.bind (makeClParameter hdr ident t asize refName) (\<lambda>(hdr1, p).
     map_option (\<lambda>(hdr2, prms, rc). (hdr2, m\<lparr>m_parameters := prms\<rparr>, rc)) (addClParameter hdr1 (m_parameters m) p))"

definition addClassMethodH :: "obj_hdr \<Rightarrow> cl_method cl_section \<Rightarrow> string \<Rightarrow> ctype \<Rightarrow> (obj_hdr \<times> cl_method cl_section \<times> nat) option" where
  "addClassMethodH hdr mths ident t =
     Option.bind (ClClassLocateMethod hdr mths ident) (\<lambda>i.
     if i = 0 then
       Option.bind (addClString hdr ident) (\<lambda>(hdr1, n).
       map_option (\<lambda>(hdr2, mths'). (hdr2, mths', length (s_items mths')))
         (grow_append hdr1 mths 8 \<lparr>m_id = n, m_type = t, m_quals = 0, m_qualifiers = clearClSection, m_parameters = clearClSection\<rparr>))
     else Some (hdr, mths\<lparr>s_items := (s_items mths)[i - 1 := (s_items mths ! (i - 1))\<lparr>m_type := t\<rparr>]\<rparr>, i))"

section \<open>Properties\<close>

text \<open>The data of a new property, and the property bits and header flag that an embedded instance sets.\<close>

definition store_text :: "obj_hdr \<Rightarrow> ctype \<Rightarrow> 16 word \<Rightarrow> string \<Rightarrow> (obj_hdr \<times> cl_data) option" where
  "store_text hdr t st s = map_option (\<lambda>(hdr', i). (hdr', \<lparr>sd_type = t, sd_state = st, sd_val = Id i\<rparr>)) (addClString hdr s)"

definition store_property :: "obj_hdr \<Rightarrow> in_data \<Rightarrow> (obj_hdr \<times> cl_data \<times> 8 word) option" where
  "store_property hdr d =
     (case d of (st, v) \<Rightarrow>
      if null_state st then Some (hdr, \<lparr>sd_type = type_of v, sd_state = st, sd_val = Raw v\<rparr>, 0)
      else case v of
        V_chars s \<Rightarrow> map_option (\<lambda>(h, sd). (h, sd, 0)) (store_text hdr CT_chars st s)
      | V_string s \<Rightarrow> map_option (\<lambda>(h, sd). (h, sd, 0)) (store_text hdr CT_chars st s)
      | V_dateTime s \<Rightarrow> map_option (\<lambda>(h, sd). (h, sd, 0)) (store_text hdr CT_dateTime st s)
      | V_ref s \<Rightarrow> map_option (\<lambda>(h, sd). (h, sd, 0)) (store_text hdr CT_ref st s)
      | V_array t es \<Rightarrow> map_option (\<lambda>(h, i). (h, \<lparr>sd_type = CT_array t, sd_state = st, sd_val = Id i\<rparr>, 0)) (addClArray hdr t es)
      | V_instance blob \<Rightarrow> map_option (\<lambda>(h, i). (set_flag HDR_ContainsEmbeddedObject h, \<lparr>sd_type = CT_instance, sd_state = st, sd_val = Id i\<rparr>,
            ClProperty_Q_EmbeddedObject)) (addClObject hdr blob)
      | V_plain t w \<Rightarrow> Some (hdr, \<lparr>sd_type = CT_plain t, sd_state = st, sd_val = Raw v\<rparr>, 0)
      | V_null CT_string \<Rightarrow> Some (hdr, \<lparr>sd_type = CT_chars, sd_state = st, sd_val = Id 0\<rparr>, 0)
      | V_null (CT_plain t) \<Rightarrow> Some (hdr, \<lparr>sd_type = CT_plain t, sd_state = st, sd_val = Raw v\<rparr>, 0)
      | V_null _ \<Rightarrow> None)"

text \<open>The number in a stored value; a pointer of a caller is none.\<close>

fun sval_id :: "sval \<Rightarrow> nat option" where
  "sval_id (Id n) = Some n"
| "sval_id (Raw (V_null _)) = Some 0"
| "sval_id (Raw (V_plain _ w)) = Some (unat w)"
| "sval_id (Raw _) = None"

definition raw_data :: "in_data \<Rightarrow> cl_data" where
  "raw_data d = \<lparr>sd_type = type_of (snd d), sd_state = fst d, sd_val = Raw (snd d)\<rparr>"

text \<open>A text replaces the one with the number of the old value, or is added when there was none.\<close>

definition update_text :: "obj_hdr \<Rightarrow> sval \<Rightarrow> ctype \<Rightarrow> 16 word \<Rightarrow> string \<Rightarrow> (obj_hdr \<times> cl_data) option" where
  "update_text hdr od t st s =
     Option.bind (sval_id od) (\<lambda>i.
     if i \<noteq> 0 then map_option (\<lambda>hdr'. (hdr', \<lparr>sd_type = t, sd_state = st, sd_val = Id i\<rparr>)) (replaceClString hdr i s)
     else store_text hdr t st s)"

definition update_array :: "obj_hdr \<Rightarrow> sval \<Rightarrow> ctype \<Rightarrow> 16 word \<Rightarrow> (16 word \<times> cvalue) list \<Rightarrow> (obj_hdr \<times> cl_data) option" where
  "update_array hdr od t st es =
     Option.bind (sval_id od) (\<lambda>i.
     if i \<noteq> 0 then map_option (\<lambda>hdr'. (hdr', \<lparr>sd_type = CT_array t, sd_state = st, sd_val = Id i\<rparr>)) (replaceClArray hdr i t es)
     else map_option (\<lambda>(hdr', j). (hdr', \<lparr>sd_type = CT_array t, sd_state = st, sd_val = Id j\<rparr>)) (addClArray hdr t es))"

definition is_array :: "ctype \<Rightarrow> bool" where
  "is_array t = (case t of CT_array _ \<Rightarrow> True | _ \<Rightarrow> False)"

text \<open>
  The branch of \<open>addObjectPropertyH\<close> for a property the object has. \<open>Inl\<close> is the code returned without a change. In a property
  of type \<open>chars\<close> a \<open>string\<close> is left as the pointer of the caller, and so is an instance that replaces another.
\<close>

definition update_property :: "obj_hdr \<Rightarrow> cl_property \<Rightarrow> in_data \<Rightarrow> (int + obj_hdr \<times> cl_data) option" where
  "update_property hdr p d =
     (let od = p_data p; ot = sd_type od; ov = sd_val od; st = fst d; v = snd d in
      if null_state st then Some (Inr (hdr, raw_data d))
      else if ot = CT_chars then
        if p_quals p \<noteq> 0 then Some (Inl (- CMPI_RC_ERR_TYPE_MISMATCH))
        else (case v of
            V_chars s \<Rightarrow> map_option Inr (update_text hdr ov CT_chars st s)
          | _ \<Rightarrow>
              if type_of v = CT_string then
                Option.bind (sval_id ov) (\<lambda>i. map_option (\<lambda>hdr'. Inr (hdr', raw_data d)) (replaceClString hdr i []))
              else if type_of v = CT_chars then None
              else Some (Inl (- CMPI_RC_ERR_TYPE_MISMATCH)))
      else if ot = CT_dateTime then
        (case v of V_dateTime s \<Rightarrow> map_option Inr (update_text hdr ov CT_dateTime st s)
          | _ \<Rightarrow> if type_of v = CT_dateTime then None else Some (Inl (- CMPI_RC_ERR_TYPE_MISMATCH)))
      else if ot = CT_ref then
        (case v of V_ref s \<Rightarrow> map_option Inr (update_text hdr ov CT_ref st s)
          | _ \<Rightarrow> if type_of v = CT_ref then None else Some (Inl (- CMPI_RC_ERR_TYPE_MISMATCH)))
      else if is_array ot then
        (case v of V_array t es \<Rightarrow> map_option Inr (update_array hdr ov t st es)
          | _ \<Rightarrow> if is_array (type_of v) then None else Some (Inl (- CMPI_RC_ERR_TYPE_MISMATCH)))
      else if h_type hdr = HDR_Instance \<and> ot = CT_instance then
        (case v of
            V_instance blob \<Rightarrow>
              Option.bind (sval_id ov) (\<lambda>i.
              if i \<noteq> 0 then map_option (\<lambda>hdr'. Inr (hdr', raw_data d)) (replaceClObject hdr i blob)
              else map_option (\<lambda>(hdr', j). Inr (hdr', \<lparr>sd_type = CT_instance, sd_state = st, sd_val = Id j\<rparr>)) (addClObject hdr blob))
          | _ \<Rightarrow> if type_of v = CT_instance then None else Some (Inl CMPI_RC_ERR_TYPE_MISMATCH))
      else Some (Inr (hdr, raw_data d)))"

definition addObjectPropertyH ::
  "obj_hdr \<Rightarrow> properties \<Rightarrow> string \<Rightarrow> in_data \<Rightarrow> string option \<Rightarrow> (obj_hdr \<times> properties \<times> int) option" where
  "addObjectPropertyH hdr prps ident d refName =
     Option.bind (ClObjectLocateProperty hdr prps ident) (\<lambda>i.
     if i = 0 then
       Option.bind (addClString hdr ident) (\<lambda>(hdr1, n).
       Option.bind (case refName of None \<Rightarrow> Some (hdr1, 0) | Some r \<Rightarrow> addClString hdr1 r) (\<lambda>(hdr2, r).
       Option.bind (store_property hdr2 d) (\<lambda>(hdr3, sd, quals).
       map_option (\<lambda>(hdr4, prps'). (hdr4, prps', int (length (s_items prps'))))
         (grow_append hdr3 prps 8 \<lparr>p_data = sd, p_id = n, p_refName = r, p_flags = 0, p_quals = quals, p_qualifiers = clearClSection\<rparr>))))
     else map_option (\<lambda>r. case r of
            Inl rc \<Rightarrow> (hdr, prps, rc)
          | Inr (hdr', sd) \<Rightarrow> (hdr', prps\<lparr>s_items := (s_items prps)[i - 1 := (s_items prps ! (i - 1))\<lparr>p_data := sd\<rparr>]\<rparr>, int i))
        (update_property hdr (s_items prps ! (i - 1)) d))"

section \<open>Reading\<close>

text \<open>
  What a caller gets: a string (perhaps null), the text of a date, the cells of an array, the bytes that begin at
  a serialised instance, or the stored value itself.
\<close>

datatype got = G_string "string option" | G_dateTime "string option" | G_array "arr_cell list option"
  | G_instance "string option" | G_zero ctype | G_raw ctype sval

definition text_of :: "obj_hdr \<Rightarrow> sval \<Rightarrow> string option option" where
  "text_of hdr sv = Option.bind (sval_id sv) (ClObjectGetClString hdr)"

definition cells_of :: "obj_hdr \<Rightarrow> sval \<Rightarrow> arr_cell list option option" where
  "cells_of hdr sv = Option.bind (sval_id sv) (ClObjectGetClArray hdr)"

definition ClGetQualifierAt :: "obj_hdr \<Rightarrow> cl_qualifier list \<Rightarrow> nat \<Rightarrow> (16 word \<times> got \<times> string option) option" where
  "ClGetQualifierAt hdr qs i =
     (if length qs \<le> i then None
      else let sd = q_data (qs ! i) in
        Option.bind (ClObjectGetClString hdr (q_id (qs ! i))) (\<lambda>nm.
        map_option (\<lambda>g. (sd_state sd, g, nm))
          (if sd_type sd = CT_chars then map_option G_string (text_of hdr (sd_val sd))
           else if is_array (sd_type sd) then map_option G_array (cells_of hdr (sd_val sd))
           else Some (G_raw (sd_type sd) (sd_val sd)))))"

text \<open>\<open>Inl 1\<close>: the code for an index out of range. The test lets the number of items through as an index.\<close>

definition ClClassGetQualifierAt :: "obj_hdr \<Rightarrow> qualifiers \<Rightarrow> int \<Rightarrow> (int + 16 word \<times> got \<times> string option) option" where
  "ClClassGetQualifierAt hdr qlfs i =
     (if i < 0 \<or> int (length (s_items qlfs)) < i then Some (Inl 1) else map_option Inr (ClGetQualifierAt hdr (s_items qlfs) (nat i)))"

definition read_property :: "obj_hdr \<Rightarrow> cl_data \<Rightarrow> got option" where
  "read_property hdr sd =
     (if sd_type sd = CT_chars then map_option G_string (text_of hdr (sd_val sd))
      else if sd_type sd = CT_dateTime then map_option G_dateTime (text_of hdr (sd_val sd))
      else if is_array (sd_type sd) then map_option G_array (cells_of hdr (sd_val sd))
      else if sd_type sd = CT_instance then map_option G_instance (Option.bind (sval_id (sd_val sd)) (ClObjectGetClObject hdr))
      else Some (G_raw (sd_type sd) (sd_val sd)))"

definition read_class_property :: "obj_hdr \<Rightarrow> cl_data \<Rightarrow> got option" where
  "read_class_property hdr sd = (if null_state (sd_state sd) then Some (G_zero (sd_type sd)) else read_property hdr sd)"

definition property_at :: "(obj_hdr \<Rightarrow> cl_data \<Rightarrow> got option) \<Rightarrow> obj_hdr \<Rightarrow> properties \<Rightarrow> int \<Rightarrow>
    (int + 16 word \<times> got \<times> string option \<times> 8 word) option" where
  "property_at rd hdr prps i =
     (if i < 0 \<or> int (length (s_items prps)) < i then Some (Inl 1)
      else if length (s_items prps) \<le> nat i then None
      else let p = s_items prps ! nat i in
        Option.bind (rd hdr (p_data p)) (\<lambda>g.
        map_option (\<lambda>nm. Inr (sd_state (p_data p), g, nm, p_quals p)) (ClObjectGetClString hdr (p_id p))))"

definition ClInstanceGetPropertyAt :: "cl_instance \<Rightarrow> int \<Rightarrow> (int + 16 word \<times> got \<times> string option \<times> 8 word) option" where
  "ClInstanceGetPropertyAt inst i = property_at read_property (i_hdr inst) (i_properties inst) i"

definition ClClassGetPropertyAt :: "cl_class \<Rightarrow> int \<Rightarrow> (int + (16 word \<times> got \<times> string option \<times> 8 word) \<times> string option) option" where
  "ClClassGetPropertyAt cls i =
     Option.bind (property_at read_class_property (c_hdr cls) (c_properties cls) i) (\<lambda>r.
     case r of Inl rc \<Rightarrow> Some (Inl rc)
     | Inr x \<Rightarrow> map_option (\<lambda>rn. Inr (x, rn)) (ClObjectGetClString (c_hdr cls) (p_refName (s_items (c_properties cls) ! nat i))))"

text \<open>A key of an object path is a string, a date, or taken as it is stored.\<close>

definition read_key :: "obj_hdr \<Rightarrow> cl_data \<Rightarrow> got option" where
  "read_key hdr sd =
     (if sd_type sd = CT_chars then map_option G_string (text_of hdr (sd_val sd))
      else if sd_type sd = CT_dateTime then map_option G_dateTime (text_of hdr (sd_val sd))
      else Some (G_raw (sd_type sd) (sd_val sd)))"

definition ClObjectPathGetKeyAt :: "cl_path \<Rightarrow> int \<Rightarrow> (int + 16 word \<times> got \<times> string option \<times> 8 word) option" where
  "ClObjectPathGetKeyAt op i = property_at read_key (o_hdr op) (o_properties op) i"

definition ClArgsGetArgAt :: "cl_args \<Rightarrow> int \<Rightarrow> (int + 16 word \<times> got \<times> string option \<times> 8 word) option" where
  "ClArgsGetArgAt arg i = property_at read_property (a_hdr arg) (a_properties arg) i"

text \<open>The qualifiers of a property or a method, the methods and the parameters of a method; every test is like the one above.\<close>

definition ClClassGetPropQualifierCount :: "cl_class \<Rightarrow> int \<Rightarrow> nat option" where
  "ClClassGetPropQualifierCount cls i =
     (if i < 0 \<or> int (length (s_items (c_properties cls))) < i then Some 1
      else if length (s_items (c_properties cls)) \<le> nat i then None
      else Some (length (s_items (p_qualifiers (s_items (c_properties cls) ! nat i)))))"

definition ClClassGetPropQualifierAt :: "cl_class \<Rightarrow> int \<Rightarrow> int \<Rightarrow> (int + 16 word \<times> got \<times> string option) option" where
  "ClClassGetPropQualifierAt cls i qid =
     (if i < 0 \<or> int (length (s_items (c_properties cls))) < i then Some (Inl 1)
      else if length (s_items (c_properties cls)) \<le> nat i then None
      else ClClassGetQualifierAt (c_hdr cls) (p_qualifiers (s_items (c_properties cls) ! nat i)) qid)"

definition ClClassGetMethodAt :: "obj_hdr \<Rightarrow> cl_method cl_section \<Rightarrow> int \<Rightarrow> (int + ctype \<times> string option \<times> 8 word) option" where
  "ClClassGetMethodAt hdr mths i =
     (if i < 0 \<or> int (length (s_items mths)) < i then Some (Inl 1)
      else if length (s_items mths) \<le> nat i then None
      else let m = s_items mths ! nat i in map_option (\<lambda>nm. Inr (m_type m, nm, m_quals m)) (ClObjectGetClString hdr (m_id m)))"

definition ClClassGetMethParameterAt ::
  "obj_hdr \<Rightarrow> cl_method \<Rightarrow> int \<Rightarrow> (int + (ctype \<times> nat \<times> string option) \<times> string option) option" where
  "ClClassGetMethParameterAt hdr m i =
     (if i < 0 \<or> int (length (s_items (m_parameters m))) < i then Some (Inl 1)
      else if length (s_items (m_parameters m)) \<le> nat i then None
      else let p = s_items (m_parameters m) ! nat i in
        Option.bind (ClObjectGetClString hdr (pa_refName p)) (\<lambda>rn.
        map_option (\<lambda>nm. Inr ((pa_type p, pa_arraySize p, rn), nm)) (ClObjectGetClString hdr (pa_id p))))"

text \<open>The flag that keeps a property out of an answer; there is no test of the index.\<close>

definition ClInstanceIsPropertyAtFiltered :: "cl_instance \<Rightarrow> nat \<Rightarrow> bool option" where
  "ClInstanceIsPropertyAtFiltered inst i =
     (if i < length (s_items (i_properties inst)) then Some (p_flags (s_items (i_properties inst) ! i) AND ClProperty_Filtered \<noteq> 0) else None)"

definition ClInstanceFilterFlagProperty :: "cl_instance \<Rightarrow> nat \<Rightarrow> cl_instance option" where
  "ClInstanceFilterFlagProperty inst i =
     (let prps = i_properties inst in
      if i < length (s_items prps) then
        Some (inst\<lparr>i_properties := prps\<lparr>s_items := (s_items prps)[i := (s_items prps ! i)\<lparr>p_flags := p_flags (s_items prps ! i) OR ClProperty_Filtered\<rparr>]\<rparr>\<rparr>)
      else None)"

section \<open>Objects\<close>

definition new_hdr :: "16 word \<Rightarrow> obj_hdr" where
  "new_hdr t = \<lparr>h_flags = 0, h_type = t, strBuffer = None, arrayBuffer = None\<rparr>"

definition add_opt :: "obj_hdr \<Rightarrow> string option \<Rightarrow> (obj_hdr \<times> nat) option" where
  "add_opt hdr so = (case so of None \<Rightarrow> Some (hdr, 0) | Some s \<Rightarrow> addClString hdr s)"

definition newClassH :: "string option \<Rightarrow> string option \<Rightarrow> cl_class option" where
  "newClassH cn pa =
     Option.bind (add_opt (new_hdr HDR_Class) cn) (\<lambda>(hdr1, n).
     map_option (\<lambda>(hdr2, m). \<lparr>c_hdr = hdr2, c_quals = 0, c_parents = (if pa = None then 0 else 1), c_name = n, c_parent = m,
         c_qualifiers = clearClSection, c_properties = clearClSection, c_methods = clearClSection\<rparr>)
       (add_opt hdr1 pa))"

definition ClClassAddGrandParent :: "cl_class \<Rightarrow> string \<Rightarrow> (cl_class \<times> 8 word) option" where
  "ClClassAddGrandParent cls gp =
     map_option (\<lambda>(hdr, n). (cls\<lparr>c_hdr := hdr, c_parents := c_parents cls + 1\<rparr>, of_nat n)) (addClString (c_hdr cls) gp)"

definition newInstanceH :: "string option \<Rightarrow> string option \<Rightarrow> cl_instance option" where
  "newInstanceH ns cn =
     Option.bind (add_opt (new_hdr HDR_Instance) ns) (\<lambda>(hdr1, n).
     map_option (\<lambda>(hdr2, m). \<lparr>i_hdr = hdr2, i_quals = 0, i_className = m, i_nameSpace = n,
         i_qualifiers = clearClSection, i_properties = clearClSection\<rparr>)
       (add_opt hdr1 cn))"

definition newObjectPathH :: "string option \<Rightarrow> string option \<Rightarrow> cl_path option" where
  "newObjectPathH ns cn =
     Option.bind (add_opt (new_hdr HDR_ObjectPath) ns) (\<lambda>(hdr1, n).
     map_option (\<lambda>(hdr2, m). \<lparr>o_hdr = hdr2, o_hostName = 0, o_nameSpace = n, o_className = m, o_properties = clearClSection\<rparr>)
       (add_opt hdr1 cn))"

definition newArgsH :: cl_args where
  "newArgsH = \<lparr>a_hdr = new_hdr HDR_Args, a_properties = clearClSection\<rparr>"

definition ClInstanceAddProperty :: "cl_instance \<Rightarrow> string \<Rightarrow> in_data \<Rightarrow> (cl_instance \<times> int) option" where
  "ClInstanceAddProperty inst ident d =
     map_option (\<lambda>(hdr, prps, rc). (inst\<lparr>i_hdr := hdr, i_properties := prps\<rparr>, rc)) (addObjectPropertyH (i_hdr inst) (i_properties inst) ident d None)"

definition ClClassAddProperty :: "cl_class \<Rightarrow> string \<Rightarrow> in_data \<Rightarrow> string option \<Rightarrow> (cl_class \<times> int) option" where
  "ClClassAddProperty cls ident d refName =
     map_option (\<lambda>(hdr, prps, rc). (cls\<lparr>c_hdr := hdr, c_properties := prps\<rparr>, rc)) (addObjectPropertyH (c_hdr cls) (c_properties cls) ident d refName)"

definition ClClassAddMethod :: "cl_class \<Rightarrow> string \<Rightarrow> ctype \<Rightarrow> (cl_class \<times> nat) option" where
  "ClClassAddMethod cls ident t =
     map_option (\<lambda>(hdr, mths, rc). (cls\<lparr>c_hdr := hdr, c_methods := mths\<rparr>, rc)) (addClassMethodH (c_hdr cls) (c_methods cls) ident t)"

definition ClObjectPathAddKey :: "cl_path \<Rightarrow> string \<Rightarrow> in_data \<Rightarrow> (cl_path \<times> int) option" where
  "ClObjectPathAddKey op ident d =
     map_option (\<lambda>(hdr, prps, rc). (op\<lparr>o_hdr := hdr, o_properties := prps\<rparr>, rc)) (addObjectPropertyH (o_hdr op) (o_properties op) ident d None)"

definition ClArgsAddArg :: "cl_args \<Rightarrow> string \<Rightarrow> in_data \<Rightarrow> (cl_args \<times> int) option" where
  "ClArgsAddArg arg ident d =
     map_option (\<lambda>(hdr, prps, rc). (arg\<lparr>a_hdr := hdr, a_properties := prps\<rparr>, rc)) (addObjectPropertyH (a_hdr arg) (a_properties arg) ident d None)"

text \<open>Setting a name of a path: with a null pointer for a name that was set, \<open>strlen\<close> is called on it.\<close>

definition set_path_name :: "obj_hdr \<Rightarrow> nat \<Rightarrow> string option \<Rightarrow> (obj_hdr \<times> nat) option" where
  "set_path_name hdr i so =
     (if i \<noteq> 0 then Option.bind so (\<lambda>s. map_option (\<lambda>hdr'. (hdr', i)) (replaceClString hdr i s))
      else add_opt hdr so)"

definition ClObjectPathSetHostName :: "cl_path \<Rightarrow> string option \<Rightarrow> cl_path option" where
  "ClObjectPathSetHostName op hn = map_option (\<lambda>(hdr, i). op\<lparr>o_hdr := hdr, o_hostName := i\<rparr>) (set_path_name (o_hdr op) (o_hostName op) hn)"

definition ClObjectPathSetNameSpace :: "cl_path \<Rightarrow> string option \<Rightarrow> cl_path option" where
  "ClObjectPathSetNameSpace op ns = map_option (\<lambda>(hdr, i). op\<lparr>o_hdr := hdr, o_nameSpace := i\<rparr>) (set_path_name (o_hdr op) (o_nameSpace op) ns)"

definition ClObjectPathSetClassName :: "cl_path \<Rightarrow> string option \<Rightarrow> cl_path option" where
  "ClObjectPathSetClassName op cn = map_option (\<lambda>(hdr, i). op\<lparr>o_hdr := hdr, o_className := i\<rparr>) (set_path_name (o_hdr op) (o_className op) cn)"

section \<open>Sizes and rebuilding\<close>

text \<open>
  The sizes of the structures on an LP64 platform. A section is copied to the offset \<open>ofs\<close> of the new object; the copy
  functions return the new section and the bytes they used.
\<close>

definition SIZEOF_ClQualifier :: nat where "SIZEOF_ClQualifier = 32"
definition SIZEOF_ClProperty :: nat where "SIZEOF_ClProperty = 64"
definition SIZEOF_ClParameter :: nat where "SIZEOF_ClParameter = 48"
definition SIZEOF_ClMethod :: nat where "SIZEOF_ClMethod = 48"
definition SIZEOF_ClClass :: nat where "SIZEOF_ClClass = 96"
definition SIZEOF_ClInstance :: nat where "SIZEOF_ClInstance = 88"
definition SIZEOF_ClObjectPath :: nat where "SIZEOF_ClObjectPath = 64"
definition SIZEOF_ClArgs :: nat where "SIZEOF_ClArgs = 40"

definition sizeQualifiers :: "qualifiers \<Rightarrow> nat" where
  "sizeQualifiers s = ALIGN (length (s_items s) * SIZEOF_ClQualifier) CLALIGN"

definition opt_size :: "('a cl_section \<Rightarrow> nat) \<Rightarrow> 'a cl_section \<Rightarrow> nat" where
  "opt_size f s = (if s_items s = [] then 0 else f s)"

definition sizeParameters :: "cl_parameter cl_section \<Rightarrow> nat" where
  "sizeParameters s = ALIGN (length (s_items s) * SIZEOF_ClParameter +
     sum_list (map (\<lambda>p. opt_size sizeQualifiers (pa_qualifiers p)) (s_items s))) CLALIGN"

definition sizeMethods :: "cl_method cl_section \<Rightarrow> nat" where
  "sizeMethods s = ALIGN (length (s_items s) * SIZEOF_ClMethod +
     sum_list (map (\<lambda>m. opt_size sizeQualifiers (m_qualifiers m) + opt_size sizeParameters (m_parameters m)) (s_items s))) CLALIGN"

definition sizeProperties :: "properties \<Rightarrow> nat" where
  "sizeProperties s = ALIGN (length (s_items s) * SIZEOF_ClProperty +
     sum_list (map (\<lambda>p. opt_size sizeQualifiers (p_qualifiers p)) (s_items s))) CLALIGN"

text \<open>A section of the new object: \<open>max\<close> is what is used, without the bit for the heap.\<close>

definition packed :: "nat \<Rightarrow> 'a list \<Rightarrow> 'a cl_section" where
  "packed ofs items = \<lparr>s_items = items, s_max = of_nat (length items) AND 0x7fff, s_room = length items, s_offset = ofs\<rparr>"

definition copyQualifiers :: "nat \<Rightarrow> qualifiers \<Rightarrow> qualifiers \<times> nat" where
  "copyQualifiers ofs fs =
     (if s_items fs = [] then (fs, 0)
      else (packed ofs (s_items fs), ALIGN (length (s_items fs) * SIZEOF_ClQualifier) CLALIGN))"

text \<open>The loop over the copied items: \<open>l\<close> bytes are used so far; \<open>f\<close> copies the sections of an item.\<close>

fun copy_items :: "(nat \<Rightarrow> 'a \<Rightarrow> 'a \<times> nat) \<Rightarrow> nat \<Rightarrow> nat \<Rightarrow> 'a list \<Rightarrow> 'a list \<times> nat" where
  "copy_items f ofs l [] = ([], l)"
| "copy_items f ofs l (x # xs) =
     (case f (ofs + l) x of (x', n) \<Rightarrow> case copy_items f ofs (l + n) xs of (xs', l') \<Rightarrow> (x' # xs', l'))"

definition copy_section :: "(nat \<Rightarrow> 'a \<Rightarrow> 'a \<times> nat) \<Rightarrow> nat \<Rightarrow> nat \<Rightarrow> 'a cl_section \<Rightarrow> 'a cl_section \<times> nat" where
  "copy_section f sz ofs fs =
     (if s_items fs = [] then (fs, 0)
      else case copy_items f ofs (length (s_items fs) * sz) (s_items fs) of (items, l) \<Rightarrow> (packed ofs items, ALIGN l CLALIGN))"

definition copyParameters :: "nat \<Rightarrow> cl_parameter cl_section \<Rightarrow> cl_parameter cl_section \<times> nat" where
  "copyParameters = copy_section (\<lambda>ofs p. case copyQualifiers ofs (pa_qualifiers p) of (q, n) \<Rightarrow> (p\<lparr>pa_qualifiers := q\<rparr>, n)) SIZEOF_ClParameter"

definition copyMethods :: "nat \<Rightarrow> cl_method cl_section \<Rightarrow> cl_method cl_section \<times> nat" where
  "copyMethods = copy_section (\<lambda>ofs m.
     case copyQualifiers ofs (m_qualifiers m) of (q, n) \<Rightarrow>
     case copyParameters (ofs + n) (m_parameters m) of (ps, k) \<Rightarrow> (m\<lparr>m_qualifiers := q, m_parameters := ps\<rparr>, n + k)) SIZEOF_ClMethod"

definition copyProperties :: "nat \<Rightarrow> properties \<Rightarrow> properties \<times> nat" where
  "copyProperties = copy_section (\<lambda>ofs p. case copyQualifiers ofs (p_qualifiers p) of (q, n) \<Rightarrow> (p\<lparr>p_qualifiers := q\<rparr>, n)) SIZEOF_ClProperty"

definition sizeClassH :: "cl_class \<Rightarrow> nat" where
  "sizeClassH cls = ALIGN (SIZEOF_ClClass + sizeQualifiers (c_qualifiers cls) + sizeProperties (c_properties cls) +
     sizeMethods (c_methods cls) + sizeStringBuf (c_hdr cls) + sizeArrayBuf (c_hdr cls)) CLALIGN"

definition sizeInstanceH :: "cl_instance \<Rightarrow> nat" where
  "sizeInstanceH inst = ALIGN (SIZEOF_ClInstance + sizeQualifiers (i_qualifiers inst) + sizeProperties (i_properties inst) +
     sizeStringBuf (i_hdr inst) + sizeArrayBuf (i_hdr inst)) CLALIGN"

text \<open>The rebuilt object and the offset behind the last byte written.\<close>

definition rebuildClassH :: "cl_class \<Rightarrow> cl_class \<times> nat" where
  "rebuildClassH cls =
     (case copyQualifiers SIZEOF_ClClass (c_qualifiers cls) of (q, n1) \<Rightarrow>
      case copyProperties (SIZEOF_ClClass + n1) (c_properties cls) of (p, n2) \<Rightarrow>
      case copyMethods (SIZEOF_ClClass + n1 + n2) (c_methods cls) of (m, n3) \<Rightarrow>
      case copyStringBuf ((c_hdr cls)\<lparr>h_flags := h_flags (c_hdr cls) AND NOT HDR_Rebuild\<rparr>) (c_hdr cls) of (h1, n4) \<Rightarrow>
      case copyArrayBuf h1 (c_hdr cls) of (h2, n5) \<Rightarrow>
        (cls\<lparr>c_hdr := h2, c_qualifiers := q, c_properties := p, c_methods := m\<rparr>, SIZEOF_ClClass + n1 + n2 + n3 + n4 + n5))"

definition rebuildInstanceH :: "cl_instance \<Rightarrow> cl_instance \<times> nat" where
  "rebuildInstanceH inst =
     (case copyQualifiers SIZEOF_ClInstance (i_qualifiers inst) of (q, n1) \<Rightarrow>
      case copyProperties (SIZEOF_ClInstance + n1) (i_properties inst) of (p, n2) \<Rightarrow>
      case copyStringBuf ((i_hdr inst)\<lparr>h_flags := h_flags (i_hdr inst) AND NOT HDR_Rebuild\<rparr>) (i_hdr inst) of (h1, n3) \<Rightarrow>
      case copyArrayBuf h1 (i_hdr inst) of (h2, n4) \<Rightarrow>
        (inst\<lparr>i_hdr := h2, i_qualifiers := q, i_properties := p\<rparr>, SIZEOF_ClInstance + n1 + n2 + n3 + n4))"

text \<open>The array buffer of an object path is not copied; the rebuilt path refers to that of the old one.\<close>

definition sizeObjectPathH :: "cl_path \<Rightarrow> nat" where
  "sizeObjectPathH op = ALIGN (SIZEOF_ClObjectPath + sizeProperties (o_properties op) + sizeStringBuf (o_hdr op)) CLALIGN"

definition rebuildObjectPathH :: "cl_path \<Rightarrow> cl_path \<times> nat" where
  "rebuildObjectPathH op =
     (case copyProperties SIZEOF_ClObjectPath (o_properties op) of (p, n1) \<Rightarrow>
      case copyStringBuf ((o_hdr op)\<lparr>h_flags := h_flags (o_hdr op) AND NOT HDR_Rebuild\<rparr>) (o_hdr op) of (h1, n2) \<Rightarrow>
        (op\<lparr>o_hdr := h1, o_properties := p\<rparr>, SIZEOF_ClObjectPath + n1 + n2))"

definition sizeArgsH :: "cl_args \<Rightarrow> nat" where
  "sizeArgsH arg = ALIGN (SIZEOF_ClArgs + sizeProperties (a_properties arg) + sizeStringBuf (a_hdr arg) + sizeArrayBuf (a_hdr arg)) CLALIGN"

definition rebuildArgsH :: "cl_args \<Rightarrow> cl_args \<times> nat" where
  "rebuildArgsH arg =
     (case copyProperties SIZEOF_ClArgs (a_properties arg) of (p, n1) \<Rightarrow>
      case copyStringBuf ((a_hdr arg)\<lparr>h_flags := h_flags (a_hdr arg) AND NOT HDR_Rebuild\<rparr>) (a_hdr arg) of (h1, n2) \<Rightarrow>
      case copyArrayBuf h1 (a_hdr arg) of (h2, n3) \<Rightarrow>
        (arg\<lparr>a_hdr := h2, a_properties := p\<rparr>, SIZEOF_ClArgs + n1 + n2 + n3))"

section \<open>Searching and growing\<close>

text \<open>\<open>str ss n\<close>: the string with number \<open>n\<close>.\<close>

definition str :: "string list \<Rightarrow> nat \<Rightarrow> string" where
  "str ss n = ss ! (n - 1)"

lemma texts_str: "texts hdr ss \<Longrightarrow> 0 < n \<Longrightarrow> n \<le> length ss \<Longrightarrow> ClObjectGetClString hdr n = Some (Some (str ss n))"
  using texts_get [of hdr ss "n - 1"] by (simp add: str_def)

lemma str_append: "0 < n \<Longrightarrow> n \<le> length ss \<Longrightarrow> str (ss @ xs) n = str ss n"
  by (cases n) (simp_all add: str_def nth_append)

lemma str_new: "str (ss @ [s]) (Suc (length ss)) = s"
  by (simp add: str_def)

text \<open>The first item of a name, ignoring case.\<close>

fun index_of :: "string list \<Rightarrow> string \<Rightarrow> nat \<Rightarrow> nat" where
  "index_of [] ident i = 0"
| "index_of (n # ns) ident i = (if map tolower ident = map tolower n then i + 1 else index_of ns ident (i + 1))"

lemma locate_ok:
  assumes "texts hdr ss" "\<forall>x \<in> set xs. 0 < nm x \<and> nm x \<le> length ss"
  shows "locate hdr nm ident i xs = Some (index_of (map (\<lambda>x. str ss (nm x)) xs) ident i)"
  using assms by (induction xs arbitrary: i) (auto simp: texts_str)

lemma index_of_0: "index_of ns ident i = 0 \<longleftrightarrow> map tolower ident \<notin> map tolower ` set ns"
  by (induction ns arbitrary: i) auto

lemma index_of_pos:
  "index_of ns ident i \<noteq> 0 \<Longrightarrow> \<exists>j < length ns. index_of ns ident i = Suc (i + j) \<and> map tolower ident = map tolower (ns ! j)"
proof (induction ns arbitrary: i)
  case (Cons n ns)
  show ?case
  proof (cases "map tolower ident = map tolower n")
    case False
    with Cons obtain j where "j < length ns" "index_of ns ident (Suc i) = Suc (Suc i + j)" "map tolower ident = map tolower (ns ! j)"
      by (metis Suc_eq_plus1 index_of.simps(2))
    with False show ?thesis by (intro exI [of _ "Suc j"]) simp
  qed auto
qed simp

text \<open>A section has no block, or one with room for its capacity and a capacity for its items.\<close>

definition section_ok :: "'a cl_section \<Rightarrow> bool" where
  "section_ok s \<longleftrightarrow> (if s_offset s = 0 then s_items s = []
     else length (s_items s) \<le> unat (GetMax (s_max s)) \<and> 0 < unat (GetMax (s_max s)) \<and> unat (GetMax (s_max s)) \<le> s_room s)"

lemma clearClSection_ok [simp]: "section_ok clearClSection" "s_items clearClSection = []"
  by (simp_all add: section_ok_def clearClSection_def)

lemma grow_append_ok:
  assumes ok: "section_ok s" and few: "length (s_items s) < 2 ^ 14" and i: "0 < unat iSize" "unat iSize < 2 ^ 15"
  shows "\<exists>f s'. grow_append hdr s iSize x = Some (set_flag f hdr, s') \<and> section_ok s' \<and> s_items s' = s_items s @ [x] \<and> (f = 0 \<or> f = HDR_Rebuild)"
proof -
  have keep: "set_flag 0 hdr = hdr" by (simp add: set_flag_def)
  let ?m = "unat (GetMax (s_max s))"
  consider (new) "s_offset s = 0" | (full) "s_offset s \<noteq> 0" "?m = length (s_items s)" | (room) "s_offset s \<noteq> 0" "length (s_items s) < ?m"
    using ok by (force simp: section_ok_def)
  then show ?thesis
  proof cases
    case new
    then show ?thesis using ok i
      by (intro exI [of _ HDR_Rebuild]) (simp add: grow_append_def ensureClSpace_def section_append_def section_ok_def GetMax_Malloced)
  next
    case full
    have m: "unat (GetMax (s_max s) * 2) = 2 * ?m" using full few by (simp add: unat_word_ariths)
    moreover have "Suc 0 \<le> length (s_items s)" using full ok by (simp add: section_ok_def Suc_leI)
    ultimately show ?thesis using full ok few
      by (intro exI [of _ HDR_Rebuild]) (simp add: grow_append_def ensureClSpace_def section_append_def section_ok_def GetMax_Malloced)
  next
    case room
    then show ?thesis using ok keep
      by (intro exI [of _ 0]) (simp add: grow_append_def ensureClSpace_def section_append_def section_ok_def)
  qed
qed

lemma section_update_ok: "section_ok s \<Longrightarrow> length xs = length (s_items s) \<Longrightarrow> section_ok (s\<lparr>s_items := xs\<rparr>)"
  by (auto simp: section_ok_def)

lemma texts_flag [simp]: "texts (set_flag f hdr) ss = texts hdr ss"
  by (simp add: texts_def)

section \<open>Values\<close>

text \<open>What a stored value stands for, given the strings and arrays of the object.\<close>

datatype aval = A_raw cvalue | A_null | A_text string | A_array "(16 word \<times> (string + cvalue)) list"

definition cell_view :: "string list \<Rightarrow> arr_cell \<Rightarrow> 16 word \<times> (string + cvalue)" where
  "cell_view ss c = (case c of
     ArrElem sd \<Rightarrow> (sd_state sd, case sd_val sd of Id n \<Rightarrow> Inl (str ss n) | Raw v \<Rightarrow> Inr v)
   | _ \<Rightarrow> (0, Inr (V_null CT_chars)))"

definition view :: "string list \<Rightarrow> arr_cell list list \<Rightarrow> cl_data \<Rightarrow> aval" where
  "view ss as sd = (case sd_val sd of
     Raw v \<Rightarrow> A_raw v
   | Id n \<Rightarrow> if n = 0 then A_null
       else if is_array (sd_type sd) then A_array (map (cell_view ss) (tl (as ! (n - 1))))
       else A_text (str ss n))"

text \<open>The value a caller passes.\<close>

definition elem_view :: "16 word \<times> cvalue \<Rightarrow> 16 word \<times> (string + cvalue)" where
  "elem_view ev = (fst ev, if null_state (fst ev) then Inr (snd ev)
     else case elem_string (snd ev) of Some (s, _) \<Rightarrow> Inl s | None \<Rightarrow> Inr (snd ev))"

definition in_view :: "in_data \<Rightarrow> aval" where
  "in_view d = (if null_state (fst d) then A_raw (snd d)
     else case snd d of V_chars s \<Rightarrow> A_text s | V_string s \<Rightarrow> A_text s | V_dateTime s \<Rightarrow> A_text s | V_ref s \<Rightarrow> A_text s
       | V_array t es \<Rightarrow> A_array (map elem_view es) | V_null CT_string \<Rightarrow> A_null | v \<Rightarrow> A_raw v)"

text \<open>The numbers of the strings and arrays that belong to a value; those of the strings of an array.\<close>

definition data_strs :: "cl_data \<Rightarrow> nat list" where
  "data_strs sd = (case sd_val sd of Id n \<Rightarrow> if n = 0 \<or> is_array (sd_type sd) then [] else [n] | Raw _ \<Rightarrow> [])"

definition data_arrs :: "cl_data \<Rightarrow> nat list" where
  "data_arrs sd = (case sd_val sd of Id n \<Rightarrow> if n \<noteq> 0 \<and> is_array (sd_type sd) then [n] else [] | Raw _ \<Rightarrow> [])"

definition cell_strs :: "arr_cell \<Rightarrow> nat list" where
  "cell_strs c = (case c of ArrElem sd \<Rightarrow> (case sd_val sd of Id n \<Rightarrow> [n] | Raw _ \<Rightarrow> []) | _ \<Rightarrow> [])"

definition prop_strs :: "cl_property \<Rightarrow> nat list" where
  "prop_strs p = p_id p # (if p_refName p = 0 then [] else [p_refName p]) @ data_strs (p_data p)"

lemma cell_view_cong: "(\<forall>n \<in> set (cell_strs c). str ss' n = str ss n) \<Longrightarrow> cell_view ss' c = cell_view ss c"
  by (auto simp: cell_view_def cell_strs_def split: arr_cell.splits sval.splits)

lemma view_cong:
  assumes "\<forall>n \<in> set (data_strs sd). str ss' n = str ss n"
    and "\<forall>n \<in> set (data_arrs sd). as' ! (n - 1) = as ! (n - 1) \<and> (\<forall>c \<in> set (tl (as ! (n - 1))). \<forall>k \<in> set (cell_strs c). str ss' k = str ss k)"
  shows "view ss' as' sd = view ss as sd"
proof (cases "sd_val sd")
  case (Id n)
  then show ?thesis
    using assms cell_view_cong by (auto simp: view_def data_strs_def data_arrs_def split: if_splits)
qed (simp add: view_def)

section \<open>Storing values\<close>

definition obj_ok :: "obj_hdr \<Rightarrow> string list \<Rightarrow> arr_cell list list \<Rightarrow> bool" where
  "obj_ok hdr ss as \<longleftrightarrow> texts hdr ss \<and> buffer_holds (arrayBuffer hdr) as \<and> (arrayBuffer hdr = None \<or> isMallocedArrayBuf hdr) \<and>
     (\<forall>a \<in> set as. \<exists>t cs. a = array_entry t cs)"

text \<open>Values the theorems are about: no embedded instances, no NUL inside a text, and a null value is zero.\<close>

definition elem_text :: "16 word \<times> cvalue \<Rightarrow> bool" where
  "elem_text ev \<longleftrightarrow> elem_ok ev \<and> (\<forall>s t. elem_string (snd ev) = Some (s, t) \<longrightarrow> CHR 0x00 \<notin> set s) \<and> (\<forall>b. snd ev \<noteq> V_instance b)"

definition in_ok :: "in_data \<Rightarrow> bool" where
  "in_ok d \<longleftrightarrow> (if null_state (fst d) then \<exists>t. snd d = V_null t
     else case snd d of
       V_null t \<Rightarrow> t = CT_string \<or> (\<exists>w. t = CT_plain w)
     | V_chars s \<Rightarrow> CHR 0x00 \<notin> set s | V_string s \<Rightarrow> CHR 0x00 \<notin> set s | V_dateTime s \<Rightarrow> CHR 0x00 \<notin> set s | V_ref s \<Rightarrow> CHR 0x00 \<notin> set s
     | V_instance _ \<Rightarrow> False | V_array t es \<Rightarrow> \<forall>e \<in> set es. elem_text e | V_plain _ _ \<Rightarrow> True)"

text \<open>How many strings a value may add.\<close>

definition in_size :: "in_data \<Rightarrow> nat" where
  "in_size d = (case snd d of V_array t es \<Rightarrow> Suc (length es) | _ \<Rightarrow> 1)"

lemma obj_okD:
  assumes "obj_ok hdr ss as"
  shows "texts hdr ss" "buffer_holds (arrayBuffer hdr) as" "arrayBuffer hdr = None \<or> isMallocedArrayBuf hdr"
    "a \<in> set as \<Longrightarrow> \<exists>t cs. a = array_entry t cs"
  using assms by (auto simp: obj_ok_def)

lemma obj_ok_rest: "obj_ok hdr ss as \<Longrightarrow> rest_same hdr hdr' \<Longrightarrow> texts hdr' ss' \<Longrightarrow> obj_ok hdr' ss' as"
  by (simp add: obj_ok_def rest_same_def)

lemma obj_ok_flag: "obj_ok hdr ss as \<Longrightarrow> f = 0 \<or> f = HDR_Rebuild \<Longrightarrow> obj_ok (set_flag f hdr) ss as"
  by (auto simp: obj_ok_def set_flag_malloced)

lemma addClString_obj:
  assumes "obj_ok hdr ss as" "length ss < 2 ^ 14" "CHR 0x00 \<notin> set s"
  shows "\<exists>hdr'. addClString hdr s = Some (hdr', Suc (length ss)) \<and> obj_ok hdr' (ss @ [s]) as \<and> h_type hdr' = h_type hdr"
  using texts_add [OF obj_okD(1) [OF assms(1)] assms(2,3)] obj_ok_rest [OF assms(1)] by (auto simp: rest_same_def)

lemma replaceClString_obj:
  assumes "obj_ok hdr ss as" "length ss < 2 ^ 14" "CHR 0x00 \<notin> set s" "0 < n" "n \<le> length ss"
  shows "\<exists>hdr'. replaceClString hdr n s = Some hdr' \<and> obj_ok hdr' (ss[n - 1 := s]) as \<and> h_type hdr' = h_type hdr"
proof -
  have "n - 1 < length ss" using assms(4,5) by simp
  from texts_replace [OF obj_okD(1) [OF assms(1)] assms(2,3) this] obj_ok_rest [OF assms(1)] assms(4) show ?thesis
    by (auto simp: rest_same_def)
qed

text \<open>The strings of an array are new.\<close>

definition cells_strs :: "arr_cell list \<Rightarrow> nat set" where
  "cells_strs a = (\<Union>c \<in> set (tl a). set (cell_strs c))"

lemma cell_ok_strs: "cell_ok b es t ev c \<Longrightarrow> set (cell_strs c) \<subseteq> {b<..length es}"
  by (cases ev; cases "snd ev") (auto simp: cell_ok_def cell_strs_def split: if_splits)

lemma cell_ok_view:
  assumes "cell_ok b (map (\<lambda>s. s @ [CHR 0x00]) ss) t ev c" "elem_text ev"
  shows "cell_view ss c = elem_view ev"
  using assms by (cases ev; cases "snd ev")
    (auto simp: cell_ok_def cell_view_def elem_view_def elem_text_def elem_ok_def str_def split: if_splits)

lemma texts_entries:
  assumes "\<forall>x \<in> set es. \<exists>s. x = s @ [CHR 0x00] \<and> CHR 0x00 \<notin> set s"
  shows "\<exists>ss. es = map (\<lambda>s. s @ [CHR 0x00]) ss \<and> (\<forall>s \<in> set ss. CHR 0x00 \<notin> set s)"
  using assms
proof (induction es)
  case (Cons e es)
  then obtain s ss where "e = s @ [CHR 0x00]" "CHR 0x00 \<notin> set s" "es = map (\<lambda>s. s @ [CHR 0x00]) ss" "\<forall>s \<in> set ss. CHR 0x00 \<notin> set s"
    by auto
  then show ?case by (intro exI [of _ "s # ss"]) simp
qed simp

text \<open>What adding or replacing an array does to the strings and arrays, in terms of texts.\<close>

definition new_array :: "string list \<Rightarrow> string list \<Rightarrow> (16 word \<times> cvalue) list \<Rightarrow> arr_cell list \<Rightarrow> bool" where
  "new_array ss ss' es a \<longleftrightarrow> (\<exists>t cs. a = array_entry t cs) \<and> map (cell_view (ss @ ss')) (tl a) = map elem_view es \<and>
     cells_strs a \<subseteq> {length ss<..length ss + length ss'} \<and> length ss' \<le> length es"

lemma new_arrayI:
  assumes "list_all2 (cell_ok (length ss) (map (\<lambda>s. s @ [CHR 0x00]) (ss @ ss')) t) es cs" "\<forall>e \<in> set es. elem_text e" "length ss' \<le> length es"
  shows "new_array ss ss' es (array_entry t cs)"
proof -
  have "map (cell_view (ss @ ss')) cs = map elem_view es"
    using assms(1,2) by (induction rule: list_all2_induct) (simp_all add: cell_ok_view del: map_append)
  moreover have "set (cell_strs c) \<subseteq> {length ss<..length ss + length ss'}" if c: "c \<in> set cs" for c
  proof -
    obtain i where "i < length cs" "c = cs ! i" using c by (metis in_set_conv_nth)
    with assms(1) have "cell_ok (length ss) (map (\<lambda>s. s @ [CHR 0x00]) (ss @ ss')) t (es ! i) c" by (simp add: list_all2_conv_all_nth)
    from cell_ok_strs [OF this] show ?thesis by simp
  qed
  moreover have tl: "tl (array_entry t cs) = cs" by (simp add: array_entry_def)
  ultimately show ?thesis using assms(3) unfolding new_array_def cells_strs_def tl by blast
qed

lemma elem_entries_texts:
  assumes "\<forall>x \<in> set es'. \<exists>e \<in> set es. elem_entry e x" "\<forall>e \<in> set es. elem_text e"
  shows "\<exists>ss'. es' = map (\<lambda>s. s @ [CHR 0x00]) ss' \<and> (\<forall>s \<in> set ss'. CHR 0x00 \<notin> set s)"
  using assms by (intro texts_entries) (fastforce simp: elem_entry_def elem_text_def)

lemma addClArray_obj:
  assumes ok: "obj_ok hdr ss as" and few: "length as < 2 ^ 14" "length ss + length es \<le> 2 ^ 14" and es: "\<forall>e \<in> set es. elem_text e"
  shows "\<exists>hdr' a ss'. addClArray hdr t es = Some (hdr', Suc (length as)) \<and> obj_ok hdr' (ss @ ss') (as @ [a]) \<and> new_array ss ss' es a \<and>
    h_type hdr' = h_type hdr"
proof -
  let ?e = "map (\<lambda>s. s @ [CHR 0x00]) ss"
  have t: "buffer_holds (strBuffer hdr) ?e" "\<forall>s \<in> set ss. CHR 0x00 \<notin> set s" using obj_okD(1) [OF ok] by (auto simp: texts_def)
  have e: "\<forall>e \<in> set es. elem_ok e" using es by (simp add: elem_text_def)
  obtain hdr' cs es' where 1: "addClArray hdr t es = Some (hdr', Suc (length as))" "buffer_holds (strBuffer hdr') (?e @ es')"
    "buffer_holds (arrayBuffer hdr') (as @ [array_entry t cs])" "list_all2 (cell_ok (length ?e) (?e @ es') t) es cs"
    "isMallocedArrayBuf hdr'" "h_type hdr' = h_type hdr" "length es' \<le> length es" "\<forall>x \<in> set es'. \<exists>e \<in> set es. elem_entry e x"
    using addClArray_ok [OF t(1) obj_okD(2,3) [OF ok] few(1) _ e, of t] few(2) by auto
  obtain ss' where ss': "es' = map (\<lambda>s. s @ [CHR 0x00]) ss'" "\<forall>s \<in> set ss'. CHR 0x00 \<notin> set s"
    using elem_entries_texts [OF 1(8) es] by blast
  have "texts hdr' (ss @ ss')" using 1(2) ss' t(2) by (auto simp: texts_def)
  then have "obj_ok hdr' (ss @ ss') (as @ [array_entry t cs])" using 1(3,5) obj_okD(4) [OF ok] by (auto simp: obj_ok_def)
  moreover have "new_array ss ss' es (array_entry t cs)"
    by (rule new_arrayI) (use 1(4,7) ss' es in simp_all)
  ultimately show ?thesis using 1(1,6) by blast
qed

lemma replaceClArray_obj:
  assumes ok: "obj_ok hdr ss as" and few: "length as < 2 ^ 14" "length ss + length es \<le> 2 ^ 14" and es: "\<forall>e \<in> set es. elem_text e"
    and n: "0 < n" "n \<le> length as"
  shows "\<exists>hdr' a ss'. replaceClArray hdr n t es = Some hdr' \<and> obj_ok hdr' (ss @ ss') (as[n - 1 := a]) \<and> new_array ss ss' es a \<and>
    h_type hdr' = h_type hdr"
proof -
  let ?e = "map (\<lambda>s. s @ [CHR 0x00]) ss"
  have t: "buffer_holds (strBuffer hdr) ?e" "\<forall>s \<in> set ss. CHR 0x00 \<notin> set s" using obj_okD(1) [OF ok] by (auto simp: texts_def)
  have e: "\<forall>e \<in> set es. elem_ok e" using es by (simp add: elem_text_def)
  have m: "isMallocedArrayBuf hdr" using obj_okD(2,3) [OF ok] n by (auto simp: buffer_holds_def)
  have k: "n - 1 < length as" using n by simp
  have as: "\<forall>x \<in> set as. \<exists>t cs. x = array_entry t cs" using obj_okD(4) [OF ok] by blast
  obtain hdr' cs es' where 1: "replaceClArray hdr (Suc (n - 1)) t es = Some hdr'" "buffer_holds (strBuffer hdr') (?e @ es')"
    "buffer_holds (arrayBuffer hdr') (as[n - 1 := array_entry t cs])" "list_all2 (cell_ok (length ?e) (?e @ es') t) es cs"
    "isMallocedArrayBuf hdr'" "h_type hdr' = h_type hdr" "length es' \<le> length es" "\<forall>x \<in> set es'. \<exists>e \<in> set es. elem_entry e x"
    using replaceClArray_ok [OF t(1) obj_okD(2) [OF ok] m few(1) _ e k as, of t] few(2) by auto
  obtain ss' where ss': "es' = map (\<lambda>s. s @ [CHR 0x00]) ss'" "\<forall>s \<in> set ss'. CHR 0x00 \<notin> set s"
    using elem_entries_texts [OF 1(8) es] by blast
  have "texts hdr' (ss @ ss')" using 1(2) ss' t(2) by (auto simp: texts_def)
  moreover have "\<forall>a \<in> set (as[n - 1 := array_entry t cs]). \<exists>t cs. a = array_entry t cs"
    using as set_update_subset_insert [of as "n - 1" "array_entry t cs"] by blast
  ultimately have "obj_ok hdr' (ss @ ss') (as[n - 1 := array_entry t cs])" using 1(3,5) by (simp add: obj_ok_def)
  moreover have "new_array ss ss' es (array_entry t cs)"
    by (rule new_arrayI) (use 1(4,7) ss' es in simp_all)
  ultimately show ?thesis using 1(1,6) n by auto
qed

text \<open>The forms the data of a property take.\<close>

definition data_ok :: "cl_data \<Rightarrow> bool" where
  "data_ok sd \<longleftrightarrow> (case sd_val sd of
     Id n \<Rightarrow> sd_type sd = CT_chars \<or> (sd_type sd = CT_dateTime \<or> sd_type sd = CT_ref \<or> is_array (sd_type sd)) \<and> n \<noteq> 0
   | Raw (V_null t) \<Rightarrow> sd_type sd = t
   | Raw (V_string _) \<Rightarrow> sd_type sd = CT_string
   | Raw (V_plain t _) \<Rightarrow> sd_type sd = CT_plain t
   | Raw _ \<Rightarrow> False)"

text \<open>
  New data have been placed: of the strings only those in \<open>D\<close> and of the arrays only those in \<open>E\<close> have changed, and the
  strings and arrays of the data are among these or new.
\<close>

definition placed :: "string list \<Rightarrow> arr_cell list list \<Rightarrow> nat set \<Rightarrow> nat set \<Rightarrow> string list \<Rightarrow> arr_cell list list \<Rightarrow> cl_data \<Rightarrow> bool" where
  "placed ss as D E ss' as' sd \<longleftrightarrow> length ss \<le> length ss' \<and> length as \<le> length as' \<and>
     (\<forall>n. 0 < n \<and> n \<le> length ss \<and> n \<notin> D \<longrightarrow> str ss' n = str ss n) \<and>
     (\<forall>n. 0 < n \<and> n \<le> length as \<and> n \<notin> E \<longrightarrow> as' ! (n - 1) = as ! (n - 1)) \<and>
     set (data_strs sd) \<subseteq> D \<union> {length ss<..length ss'} \<and> set (data_arrs sd) \<subseteq> E \<union> {length as<..length as'} \<and>
     (\<forall>a \<in> set as'. a \<in> set as \<or> cells_strs a \<subseteq> {length ss<..length ss'} - set (data_strs sd)) \<and> data_ok sd"

lemma placedD:
  assumes "placed ss as D E ss' as' sd"
  shows "length ss \<le> length ss'" "length as \<le> length as'" "0 < n \<Longrightarrow> n \<le> length ss \<Longrightarrow> n \<notin> D \<Longrightarrow> str ss' n = str ss n"
    "0 < n \<Longrightarrow> n \<le> length as \<Longrightarrow> n \<notin> E \<Longrightarrow> as' ! (n - 1) = as ! (n - 1)"
    "set (data_strs sd) \<subseteq> D \<union> {length ss<..length ss'}" "set (data_arrs sd) \<subseteq> E \<union> {length as<..length as'}"
    "a \<in> set as' \<Longrightarrow> a \<in> set as \<or> cells_strs a \<subseteq> {length ss<..length ss'} - set (data_strs sd)" "data_ok sd"
  using assms by (auto simp: placed_def)

lemma placed_raw: "data_ok sd \<Longrightarrow> sd_val sd = Raw v \<Longrightarrow> placed ss as D E ss as sd \<and> view ss as sd = A_raw v"
  by (simp add: placed_def data_strs_def data_arrs_def view_def)

lemma placed_text:
  assumes "t \<noteq> CT_string" "\<not> is_array t" "t = CT_chars \<or> t = CT_dateTime \<or> t = CT_ref"
  shows "placed ss as D E (ss @ [s]) as \<lparr>sd_type = t, sd_state = st, sd_val = Id (Suc (length ss))\<rparr> \<and>
    view (ss @ [s]) as \<lparr>sd_type = t, sd_state = st, sd_val = Id (Suc (length ss))\<rparr> = A_text s"
  using assms by (auto simp: placed_def data_strs_def data_arrs_def view_def str_new str_append data_ok_def)

lemma placed_text_update:
  assumes "t = CT_chars \<or> t = CT_dateTime \<or> t = CT_ref" "0 < n" "n \<le> length ss" "n \<in> D"
  shows "placed ss as D E (ss[n - 1 := s]) as \<lparr>sd_type = t, sd_state = st, sd_val = Id n\<rparr> \<and>
    view (ss[n - 1 := s]) as \<lparr>sd_type = t, sd_state = st, sd_val = Id n\<rparr> = A_text s"
proof -
  have "\<not> is_array t" using assms(1) by (auto simp: is_array_def)
  moreover have other: "str (ss[n - Suc 0 := s]) m = str ss m" if "0 < m" "m \<noteq> n" for m
    using that assms(2) by (auto simp: str_def nth_list_update)
  moreover have "str (ss[n - Suc 0 := s]) m = str ss m" if "0 < m" "m \<notin> D" for m
    using other [of m] that assms(4) by auto
  moreover have "str (ss[n - Suc 0 := s]) n = s" using assms(2,3) by (simp add: str_def)
  ultimately show ?thesis using assms by (auto simp: placed_def data_strs_def data_arrs_def view_def data_ok_def)
qed

lemma placed_array:
  assumes a: "new_array ss ss' es a"
  shows "placed ss as D E (ss @ ss') (as @ [a]) \<lparr>sd_type = CT_array t, sd_state = st, sd_val = Id (Suc (length as))\<rparr> \<and>
    view (ss @ ss') (as @ [a]) \<lparr>sd_type = CT_array t, sd_state = st, sd_val = Id (Suc (length as))\<rparr> = A_array (map elem_view es)"
proof -
  have "(as @ [a]) ! (n - 1) = as ! (n - 1)" if "0 < n" "n \<le> length as" for n using that by (cases n) (simp_all add: nth_append)
  then show ?thesis using a
    by (auto simp: placed_def data_strs_def data_arrs_def view_def str_append data_ok_def is_array_def new_array_def)
qed

lemma placed_array_update:
  assumes a: "new_array ss ss' es a" and n: "0 < n" "n \<le> length as" "n \<in> E"
  shows "placed ss as D E (ss @ ss') (as[n - 1 := a]) \<lparr>sd_type = CT_array t, sd_state = st, sd_val = Id n\<rparr> \<and>
    view (ss @ ss') (as[n - 1 := a]) \<lparr>sd_type = CT_array t, sd_state = st, sd_val = Id n\<rparr> = A_array (map elem_view es)"
proof -
  have "as[n - Suc 0 := a] ! (m - Suc 0) = as ! (m - Suc 0)" if "0 < m" "m \<notin> E" for m
  proof -
    have "m \<noteq> n" using that n by auto
    then show ?thesis using that n by (auto simp: nth_list_update)
  qed
  moreover have "x \<in> set as \<or> x = a" if "x \<in> set (as[n - 1 := a])" for x
    using that set_update_subset_insert [of as "n - 1" a] by blast
  ultimately show ?thesis using a n
    by (auto simp: placed_def data_strs_def data_arrs_def view_def str_append data_ok_def is_array_def new_array_def)
qed

text \<open>A new value stored, with its effect on strings and arrays.\<close>

definition stores :: "obj_hdr \<Rightarrow> string list \<Rightarrow> arr_cell list list \<Rightarrow> in_data \<Rightarrow> bool" where
  "stores hdr ss as d \<longleftrightarrow> (\<exists>hdr' sd ss' as'. store_property hdr d = Some (hdr', sd, 0) \<and> obj_ok hdr' ss' as' \<and> h_type hdr' = h_type hdr \<and>
     placed ss as {} {} ss' as' sd \<and> view ss' as' sd = in_view d \<and> sd_state sd = fst d)"

lemma stores_raw:
  assumes "obj_ok hdr ss as" "store_property hdr (st, v) = Some (hdr, sd, 0)" "data_ok sd" "sd_val sd = Raw v" "in_view (st, v) = A_raw v" "sd_state sd = st"
  shows "stores hdr ss as (st, v)"
  using assms placed_raw [OF assms(3,4)] unfolding stores_def by fastforce

lemma stores_text:
  assumes ok: "obj_ok hdr ss as" and few: "length ss < 2 ^ 14" and s: "CHR 0x00 \<notin> set s"
    and h: "store_property hdr d = map_option (\<lambda>(h, sd). (h, sd, 0)) (store_text hdr t (fst d) s)" "in_view d = A_text s" "t = CT_chars \<or> t = CT_dateTime \<or> t = CT_ref"
  shows "stores hdr ss as d"
proof -
  obtain hdr' where "addClString hdr s = Some (hdr', Suc (length ss))" "obj_ok hdr' (ss @ [s]) as" "h_type hdr' = h_type hdr"
    using addClString_obj [OF ok few s] by blast
  moreover have "t \<noteq> CT_string" "\<not> is_array t" using h(3) by (auto simp: is_array_def)
  ultimately show ?thesis using h(1,2) placed_text [OF _ _ h(3), of ss as "{}" "{}" s "fst d"] unfolding stores_def by (fastforce simp: store_text_def)
qed

lemma stores_null:
  assumes ok: "obj_ok hdr ss as" and d: "in_ok (st, V_null t)" and st: "\<not> null_state st"
  shows "stores hdr ss as (st, V_null t)"
proof -
  consider "t = CT_string" | w where "t = CT_plain w" using d st by (auto simp: in_ok_def)
  then show ?thesis
  proof cases
    case 1
    let ?sd = "\<lparr>sd_type = CT_chars, sd_state = st, sd_val = Id 0\<rparr>"
    have "placed ss as {} {} ss as ?sd" "view ss as ?sd = A_null"
      by (simp_all add: placed_def data_strs_def data_arrs_def view_def data_ok_def)
    then show ?thesis using 1 st ok unfolding stores_def by (fastforce simp: store_property_def in_view_def)
  next
    case (2 w)
    show ?thesis by (rule stores_raw [OF ok, of st "V_null t" "\<lparr>sd_type = t, sd_state = st, sd_val = Raw (V_null t)\<rparr>"])
        (use st 2 in \<open>simp_all add: store_property_def data_ok_def in_view_def\<close>)
  qed
qed

lemma stores_array:
  assumes ok: "obj_ok hdr ss as" and d: "in_ok (st, V_array t es)" and st: "\<not> null_state st"
    and few: "length as < 2 ^ 14" "length ss + in_size (st, V_array t es) \<le> 2 ^ 14"
  shows "stores hdr ss as (st, V_array t es)"
proof -
  have es: "\<forall>e \<in> set es. elem_text e" using d st by (simp add: in_ok_def)
  have "length ss + length es \<le> 2 ^ 14" using few(2) by (simp add: in_size_def)
  from addClArray_obj [OF ok few(1) this es, of t] obtain hdr' a ss' where
    "addClArray hdr t es = Some (hdr', Suc (length as))" "obj_ok hdr' (ss @ ss') (as @ [a])" "new_array ss ss' es a" "h_type hdr' = h_type hdr"
    by blast
  with st placed_array [of ss ss' es a as "{}" "{}" t st] show ?thesis
    unfolding stores_def by (fastforce simp: store_property_def in_view_def)
qed

lemma store_property_ok:
  assumes ok: "obj_ok hdr ss as" and d: "in_ok d" and few: "length as < 2 ^ 14" "length ss + in_size d \<le> 2 ^ 14"
  shows "stores hdr ss as d"
proof -
  obtain st v where dv: "d = (st, v)" by (cases d)
  have size: "length ss < 2 ^ 14" using few(2) by (auto simp: in_size_def split: cvalue.splits)
  show ?thesis
  proof (cases "null_state st")
    case True
    then obtain t where v: "v = V_null t" using d dv by (auto simp: in_ok_def)
    show ?thesis unfolding dv by (rule stores_raw [OF ok, of st v "\<lparr>sd_type = t, sd_state = st, sd_val = Raw v\<rparr>"])
        (use True v in \<open>simp_all add: store_property_def data_ok_def in_view_def\<close>)
  next
    case False
    note stext = stores_text [OF ok size, where d = "(st, v)"]
    show ?thesis
    proof (cases v)
      case (V_plain t w)
      show ?thesis unfolding dv by (rule stores_raw [OF ok, of st v "\<lparr>sd_type = CT_plain t, sd_state = st, sd_val = Raw v\<rparr>"])
          (use False V_plain in \<open>simp_all add: store_property_def data_ok_def in_view_def\<close>)
    next
      case (V_chars s)
      show ?thesis unfolding dv by (rule stext [of s CT_chars]) (use False V_chars dv d in \<open>simp_all add: store_property_def in_view_def in_ok_def\<close>)
    next
      case (V_string s)
      show ?thesis unfolding dv by (rule stext [of s CT_chars]) (use False V_string dv d in \<open>simp_all add: store_property_def in_view_def in_ok_def\<close>)
    next
      case (V_dateTime s)
      show ?thesis unfolding dv by (rule stext [of s CT_dateTime]) (use False V_dateTime dv d in \<open>simp_all add: store_property_def in_view_def in_ok_def\<close>)
    next
      case (V_ref s)
      show ?thesis unfolding dv by (rule stext [of s CT_ref]) (use False V_ref dv d in \<open>simp_all add: store_property_def in_view_def in_ok_def\<close>)
    qed (use False dv d ok few stores_null stores_array in \<open>auto simp: in_ok_def\<close>)
  qed
qed

section \<open>Changing a value\<close>

text \<open>The outcome of setting a property the object has: the code returned without a change, or what the property then holds.\<close>

definition update_spec :: "cl_property \<Rightarrow> in_data \<Rightarrow> int + aval" where
  "update_spec p d =
     (let t = sd_type (p_data p) in
      if null_state (fst d) then Inr (A_raw (snd d))
      else if t = CT_chars then
        if p_quals p \<noteq> 0 then Inl (- 13)
        else (case snd d of V_chars s \<Rightarrow> Inr (A_text s) | V_string _ \<Rightarrow> Inr (A_raw (snd d)) | V_null CT_string \<Rightarrow> Inr (A_raw (snd d)) | _ \<Rightarrow> Inl (- 13))
      else if t = CT_dateTime then (case snd d of V_dateTime s \<Rightarrow> Inr (A_text s) | _ \<Rightarrow> Inl (- 13))
      else if t = CT_ref then (case snd d of V_ref s \<Rightarrow> Inr (A_text s) | _ \<Rightarrow> Inl (- 13))
      else if is_array t then (case snd d of V_array _ es \<Rightarrow> Inr (A_array (map elem_view es)) | _ \<Rightarrow> Inl (- 13))
      else Inr (A_raw (snd d)))"

text \<open>
  Embedded instances are left out. What the code does not check: a \<open>string\<close> for a property of type \<open>chars\<close> that is null goes to the string with number 0, and a property
  of another type takes every value as it comes, a pointer too.
\<close>

definition fits :: "cl_property \<Rightarrow> in_data \<Rightarrow> bool" where
  "fits p d \<longleftrightarrow> null_state (fst d) \<or>
     (case sd_type (p_data p) of
        CT_chars \<Rightarrow> type_of (snd d) = CT_string \<longrightarrow> sval_id (sd_val (p_data p)) \<noteq> Some 0
      | CT_dateTime \<Rightarrow> True | CT_ref \<Rightarrow> True | CT_array _ \<Rightarrow> True | CT_instance \<Rightarrow> False
      | _ \<Rightarrow> (case snd d of V_plain _ _ \<Rightarrow> True | V_string _ \<Rightarrow> True | V_null _ \<Rightarrow> True | _ \<Rightarrow> False))"

definition data_in :: "cl_data \<Rightarrow> string list \<Rightarrow> arr_cell list list \<Rightarrow> bool" where
  "data_in sd ss as \<longleftrightarrow> data_ok sd \<and> set (data_strs sd) \<subseteq> {0<..length ss} \<and> set (data_arrs sd) \<subseteq> {0<..length as}"

text \<open>A set value, with its effect on strings and arrays.\<close>

definition sets :: "obj_hdr \<Rightarrow> string list \<Rightarrow> arr_cell list list \<Rightarrow> cl_data \<Rightarrow> 16 word \<Rightarrow> aval \<Rightarrow> (obj_hdr \<times> cl_data) option \<Rightarrow> bool" where
  "sets hdr ss as od st a r \<longleftrightarrow> (\<exists>hdr' sd ss' as'. r = Some (hdr', sd) \<and> obj_ok hdr' ss' as' \<and> h_type hdr' = h_type hdr \<and>
     placed ss as (set (data_strs od)) (set (data_arrs od)) ss' as' sd \<and> view ss' as' sd = a \<and> sd_state sd = st)"

lemma sets_raw: "obj_ok hdr ss as \<Longrightarrow> data_ok (raw_data d) \<Longrightarrow> sets hdr ss as od (fst d) (A_raw (snd d)) (Some (hdr, raw_data d))"
  using placed_raw [of "raw_data d" "snd d"] unfolding sets_def by (fastforce simp: raw_data_def)

lemma update_text_ok:
  assumes ok: "obj_ok hdr ss as" and few: "length ss < 2 ^ 14" and s: "CHR 0x00 \<notin> set s" and od: "data_in od ss as"
    and t: "sd_type od = t" "t = CT_chars \<or> t = CT_dateTime \<or> t = CT_ref"
  shows "sets hdr ss as od st (A_text s) (update_text hdr (sd_val od) t st s)"
proof -
  have na: "t \<noteq> CT_string" "\<not> is_array t" using t(2) by (auto simp: is_array_def)
  consider (old) n where "sd_val od = Id n" "n \<noteq> 0" | (none) "sval_id (sd_val od) = Some 0"
    using od t na by (auto simp: data_in_def data_ok_def split: sval.splits cvalue.splits)
  then show ?thesis
  proof cases
    case (old n)
    then have "n \<in> set (data_strs od)" using t na by (simp add: data_strs_def)
    moreover from this have n: "0 < n" "n \<le> length ss" using od by (auto simp: data_in_def)
    ultimately show ?thesis
      using replaceClString_obj [OF ok few s n] placed_text_update [OF t(2) n, of "set (data_strs od)" as "set (data_arrs od)" s st] old
      unfolding sets_def update_text_def by fastforce
  next
    case none
    then show ?thesis
      using addClString_obj [OF ok few s] placed_text [OF na t(2), of ss as "set (data_strs od)" "set (data_arrs od)" s st]
      unfolding sets_def update_text_def store_text_def by fastforce
  qed
qed

lemma update_array_ok:
  assumes ok: "obj_ok hdr ss as" and few: "length as < 2 ^ 14" "length ss + length es \<le> 2 ^ 14" and es: "\<forall>e \<in> set es. elem_text e"
    and od: "data_in od ss as" "is_array (sd_type od)"
  shows "sets hdr ss as od st (A_array (map elem_view es)) (update_array hdr (sd_val od) t st es)"
proof -
  consider (old) n where "sd_val od = Id n" "n \<noteq> 0" | (none) "sval_id (sd_val od) = Some 0"
    using od by (auto simp: data_in_def data_ok_def is_array_def split: sval.splits cvalue.splits ctype.splits)
  then show ?thesis
  proof cases
    case (old n)
    then have "n \<in> set (data_arrs od)" using od by (simp add: data_arrs_def)
    moreover from this have n: "0 < n" "n \<le> length as" using od by (auto simp: data_in_def)
    ultimately show ?thesis
      using replaceClArray_obj [OF ok few es n, of t] placed_array_update [OF _ n, of ss _ es _ "set (data_arrs od)" "set (data_strs od)" t st] old
      unfolding sets_def update_array_def by fastforce
  next
    case none
    then show ?thesis
      using addClArray_obj [OF ok few es, of t] placed_array [of ss _ es _ as "set (data_strs od)" "set (data_arrs od)" t st]
      unfolding sets_def update_array_def by fastforce
  qed
qed

text \<open>\<open>update_property\<close> returns as specified; the assumptions its cases share.\<close>

definition update_matches :: "obj_hdr \<Rightarrow> string list \<Rightarrow> arr_cell list list \<Rightarrow> cl_property \<Rightarrow> in_data \<Rightarrow> bool" where
  "update_matches hdr ss as p d \<longleftrightarrow>
     (case update_spec p d of
        Inl rc \<Rightarrow> update_property hdr p d = Some (Inl rc)
      | Inr a \<Rightarrow> \<exists>r. update_property hdr p d = map_option Inr r \<and> sets hdr ss as (p_data p) (fst d) a r)"

definition settable :: "obj_hdr \<Rightarrow> string list \<Rightarrow> arr_cell list list \<Rightarrow> cl_property \<Rightarrow> in_data \<Rightarrow> bool" where
  "settable hdr ss as p d \<longleftrightarrow> obj_ok hdr ss as \<and> length as < 2 ^ 14 \<and> length ss + in_size d \<le> 2 ^ 14 \<and> in_ok d \<and> fits p d \<and> data_in (p_data p) ss as"

lemma settableD:
  assumes "settable hdr ss as p d"
  shows "obj_ok hdr ss as" "length as < 2 ^ 14" "length ss < 2 ^ 14" "length ss + in_size d \<le> 2 ^ 14" "in_ok d" "fits p d" "data_in (p_data p) ss as"
  using assms by (auto simp: settable_def in_size_def split: cvalue.splits)

lemma update_raw:
  assumes "settable hdr ss as p d" "data_ok (raw_data d)" "update_spec p d = Inr (A_raw (snd d))" "update_property hdr p d = Some (Inr (hdr, raw_data d))"
  shows "update_matches hdr ss as p d"
  using sets_raw [OF settableD(1) [OF assms(1)] assms(2)] assms(3,4) unfolding update_matches_def
  by (auto intro!: exI [of _ "Some (hdr, raw_data d)"])

lemma update_to_null:
  assumes "settable hdr ss as p (st, v)" "null_state st"
  shows "update_matches hdr ss as p (st, v)"
proof (rule update_raw [OF assms(1)])
  show "data_ok (raw_data (st, v))" using settableD(5) [OF assms(1)] assms(2) by (auto simp: in_ok_def raw_data_def data_ok_def)
qed (use assms(2) in \<open>simp_all add: update_spec_def update_property_def\<close>)

text \<open>A \<open>string\<close> given for a property of type \<open>chars\<close>: the old text is emptied, and the property holds the caller's value.\<close>

lemma update_chars_string:
  assumes set: "settable hdr ss as p (st, v)" and st: "\<not> null_state st" and t: "sd_type (p_data p) = CT_chars" "p_quals p = 0" "type_of v = CT_string"
  shows "update_matches hdr ss as p (st, v)"
proof -
  let ?d = "(st, v)" and ?od = "p_data p"
  obtain n where n: "sd_val ?od = Id n" "n \<noteq> 0"
    using settableD(6,7) [OF set] t st by (auto simp: data_in_def data_ok_def fits_def split: sval.splits cvalue.splits)
  then have m: "n \<in> set (data_strs ?od)" using t by (simp add: data_strs_def is_array_def)
  then have n': "0 < n" "n \<le> length ss" using settableD(7) [OF set] by (auto simp: data_in_def)
  obtain hdr' where h: "replaceClString hdr n [] = Some hdr'" "obj_ok hdr' (ss[n - 1 := []]) as" "h_type hdr' = h_type hdr"
    using replaceClString_obj [OF settableD(1,3) [OF set] _ n', of "[]"] by auto
  have "data_ok (raw_data ?d)" using t(3) by (cases v) (auto simp: raw_data_def data_ok_def)
  moreover have "str (ss[n - Suc 0 := []]) k = str ss k" if "0 < k" "k \<notin> set (data_strs ?od)" for k
  proof -
    have "k \<noteq> n" using that m by auto
    then show ?thesis using that n' by (auto simp: str_def nth_list_update)
  qed
  ultimately have "placed ss as (set (data_strs ?od)) (set (data_arrs ?od)) (ss[n - 1 := []]) as (raw_data ?d)"
    by (auto simp: placed_def raw_data_def data_strs_def data_arrs_def)
  then have "sets hdr ss as ?od st (A_raw v) (Some (hdr', raw_data ?d))"
    using h unfolding sets_def by (fastforce simp: raw_data_def view_def)
  moreover have "update_spec p ?d = Inr (A_raw v)" using t st by (cases v) (simp_all add: update_spec_def)
  moreover have "update_property hdr p ?d = Some (Inr (hdr', raw_data ?d))" using t st n h by (cases v) (simp_all add: update_property_def)
  ultimately show ?thesis unfolding update_matches_def by (auto intro!: exI [of _ "Some (hdr', raw_data ?d)"])
qed

lemma update_chars:
  assumes set: "settable hdr ss as p (st, v)" and st: "\<not> null_state st" and t: "sd_type (p_data p) = CT_chars"
  shows "update_matches hdr ss as p (st, v)"
proof -
  consider (quals) "p_quals p \<noteq> 0" | (string) "p_quals p = 0" "type_of v = CT_string" | (chars) s where "p_quals p = 0" "v = V_chars s"
    | (other) "p_quals p = 0" "type_of v \<noteq> CT_string" "\<forall>s. v \<noteq> V_chars s" by blast
  then show ?thesis
  proof cases
    case quals
    then show ?thesis using st t by (simp add: update_matches_def update_spec_def update_property_def CMPI_RC_ERR_TYPE_MISMATCH_def)
  next
    case string
    then show ?thesis by (rule update_chars_string [OF set st t])
  next
    case (chars s)
    then have "CHR 0x00 \<notin> set s" using settableD(5) [OF set] st by (simp add: in_ok_def)
    from update_text_ok [OF settableD(1,3) [OF set] this settableD(7) [OF set] t, of st] show ?thesis
      using chars t st by (auto simp: update_matches_def update_spec_def update_property_def)
  next
    case other
    then have "type_of v \<noteq> CT_chars" using settableD(5) [OF set] st by (cases v) (auto simp: in_ok_def)
    then show ?thesis using other t st
      by (cases v) (auto simp: update_matches_def update_spec_def update_property_def CMPI_RC_ERR_TYPE_MISMATCH_def split: ctype.splits)
  qed
qed

lemma update_dateTime:
  assumes set: "settable hdr ss as p (st, v)" and st: "\<not> null_state st" and t: "sd_type (p_data p) = CT_dateTime"
  shows "update_matches hdr ss as p (st, v)"
proof (cases "\<exists>s. v = V_dateTime s")
  case True
  then obtain s where v: "v = V_dateTime s" by blast
  then have "CHR 0x00 \<notin> set s" using settableD(5) [OF set] st by (simp add: in_ok_def)
  from update_text_ok [OF settableD(1,3) [OF set] this settableD(7) [OF set] t, of st] show ?thesis
    using v t st by (auto simp: update_matches_def update_spec_def update_property_def)
next
  case False
  then have "type_of v \<noteq> CT_dateTime" using settableD(5) [OF set] st by (cases v) (auto simp: in_ok_def)
  then show ?thesis using False t st
    by (cases v) (auto simp: update_matches_def update_spec_def update_property_def CMPI_RC_ERR_TYPE_MISMATCH_def)
qed

lemma update_ref:
  assumes set: "settable hdr ss as p (st, v)" and st: "\<not> null_state st" and t: "sd_type (p_data p) = CT_ref"
  shows "update_matches hdr ss as p (st, v)"
proof (cases "\<exists>s. v = V_ref s")
  case True
  then obtain s where v: "v = V_ref s" by blast
  then have "CHR 0x00 \<notin> set s" using settableD(5) [OF set] st by (simp add: in_ok_def)
  from update_text_ok [OF settableD(1,3) [OF set] this settableD(7) [OF set] t, of st] show ?thesis
    using v t st by (auto simp: update_matches_def update_spec_def update_property_def)
next
  case False
  then have "type_of v \<noteq> CT_ref" using settableD(5) [OF set] st by (cases v) (auto simp: in_ok_def)
  then show ?thesis using False t st
    by (cases v) (auto simp: update_matches_def update_spec_def update_property_def CMPI_RC_ERR_TYPE_MISMATCH_def)
qed

lemma update_to_array:
  assumes set: "settable hdr ss as p (st, v)" and st: "\<not> null_state st" and a: "is_array (sd_type (p_data p))"
  shows "update_matches hdr ss as p (st, v)"
proof -
  have t: "sd_type (p_data p) \<noteq> CT_chars" "sd_type (p_data p) \<noteq> CT_dateTime" "sd_type (p_data p) \<noteq> CT_ref" using a by (auto simp: is_array_def)
  show ?thesis
  proof (cases "\<exists>t es. v = V_array t es")
    case True
    then obtain t' es where v: "v = V_array t' es" by blast
    then have es: "\<forall>e \<in> set es. elem_text e" "length ss + length es \<le> 2 ^ 14"
      using settableD(4,5) [OF set] st by (simp_all add: in_ok_def in_size_def)
    from update_array_ok [OF settableD(1,2) [OF set] es(2,1) settableD(7) [OF set] a, of st t'] show ?thesis
      using v t a st by (auto simp: update_matches_def update_spec_def update_property_def)
  next
    case False
    then have "\<not> is_array (type_of v)" using settableD(5) [OF set] st by (cases v) (auto simp: in_ok_def is_array_def)
    then show ?thesis using False a t st
      by (cases v) (auto simp: update_matches_def update_spec_def update_property_def CMPI_RC_ERR_TYPE_MISMATCH_def)
  qed
qed

lemma update_other:
  assumes set: "settable hdr ss as p (st, v)" and st: "\<not> null_state st"
    and t: "sd_type (p_data p) \<noteq> CT_chars" "sd_type (p_data p) \<noteq> CT_dateTime" "sd_type (p_data p) \<noteq> CT_ref" "\<not> is_array (sd_type (p_data p))"
  shows "update_matches hdr ss as p (st, v)"
proof (rule update_raw [OF set])
  have inst: "sd_type (p_data p) \<noteq> CT_instance" using settableD(6) [OF set] st by (auto simp: fits_def)
  have "case v of V_plain _ _ \<Rightarrow> True | V_string _ \<Rightarrow> True | V_null _ \<Rightarrow> True | _ \<Rightarrow> False"
    using settableD(6) [OF set] t st by (auto simp: fits_def is_array_def split: ctype.splits)
  then show "data_ok (raw_data (st, v))" by (cases v) (auto simp: raw_data_def data_ok_def)
  show "update_spec p (st, v) = Inr (A_raw (snd (st, v)))" using t st by (simp add: update_spec_def)
  show "update_property hdr p (st, v) = Some (Inr (hdr, raw_data (st, v)))" using t st inst by (simp add: update_property_def Let_def)
qed

lemma update_property_ok:
  assumes "settable hdr ss as p d"
  shows "update_matches hdr ss as p d"
proof -
  obtain st v where d: "d = (st, v)" by (cases d)
  show ?thesis using assms unfolding d
    by (cases "null_state st"; cases "is_array (sd_type (p_data p))"; cases "sd_type (p_data p)")
      (blast intro: update_to_null update_chars update_dateTime update_ref update_to_array, auto intro: update_to_null update_chars update_dateTime update_ref update_to_array update_other)
qed

section \<open>The properties of an object\<close>

definition prop_arrs :: "cl_property \<Rightarrow> nat list" where
  "prop_arrs p = data_arrs (p_data p)"

text \<open>
  The strings \<open>N\<close> and arrays \<open>M\<close> in use: each by one item only, and no string by an item and an array. An object may hold strings
  and arrays that nothing uses any more.
\<close>

definition owned :: "string list \<Rightarrow> arr_cell list list \<Rightarrow> nat list \<Rightarrow> nat list \<Rightarrow> bool" where
  "owned ss as N M \<longleftrightarrow> distinct N \<and> set N \<subseteq> {0<..length ss} \<and> distinct M \<and> set M \<subseteq> {0<..length as} \<and>
     (\<forall>a \<in> set as. cells_strs a \<subseteq> {0<..length ss} - set N)"

lemma ownedD:
  assumes "owned ss as N M"
  shows "distinct N" "n \<in> set N \<Longrightarrow> 0 < n \<and> n \<le> length ss" "distinct M" "n \<in> set M \<Longrightarrow> 0 < n \<and> n \<le> length as"
    "a \<in> set as \<Longrightarrow> cells_strs a \<subseteq> {0<..length ss} - set N"
  using assms by (auto simp: owned_def)

definition pview :: "string list \<Rightarrow> arr_cell list list \<Rightarrow> cl_property \<Rightarrow> string \<times> 16 word \<times> aval" where
  "pview ss as p = (str ss (p_id p), sd_state (p_data p), view ss as (p_data p))"

text \<open>\<open>S\<close> and \<open>A\<close> are the strings and arrays of the object that its properties do not own.\<close>

definition props_ok :: "obj_hdr \<Rightarrow> properties \<Rightarrow> nat list \<Rightarrow> nat list \<Rightarrow> string list \<Rightarrow> arr_cell list list \<Rightarrow> bool" where
  "props_ok hdr prps S A ss as \<longleftrightarrow> obj_ok hdr ss as \<and> section_ok prps \<and> (\<forall>p \<in> set (s_items prps). data_ok (p_data p)) \<and>
     owned ss as (S @ concat (map prop_strs (s_items prps))) (A @ concat (map prop_arrs (s_items prps))) \<and>
     distinct (map (\<lambda>p. map tolower (str ss (p_id p))) (s_items prps))"

lemma placed_other:
  assumes pl: "placed ss as D E ss' as' sd" and ow: "\<forall>a \<in> set as. cells_strs a \<subseteq> {0<..length ss} - D"
    and n: "set (data_strs od) \<subseteq> {0<..length ss} - D" "set (data_arrs od) \<subseteq> {0<..length as} - E"
  shows "view ss' as' od = view ss as od"
proof (rule view_cong)
  show "\<forall>n \<in> set (data_strs od). str ss' n = str ss n"
  proof
    fix k
    assume "k \<in> set (data_strs od)"
    then have "0 < k" "k \<le> length ss" "k \<notin> D" using n(1) by auto
    then show "str ss' k = str ss k" by (rule placedD(3) [OF pl])
  qed
  show "\<forall>n \<in> set (data_arrs od). as' ! (n - 1) = as ! (n - 1) \<and> (\<forall>c \<in> set (tl (as ! (n - 1))). \<forall>k \<in> set (cell_strs c). str ss' k = str ss k)"
  proof (intro ballI conjI)
    fix n
    assume m: "n \<in> set (data_arrs od)"
    then have r: "0 < n" "n \<le> length as" "n \<notin> E" using n(2) by auto
    then show "as' ! (n - 1) = as ! (n - 1)" using placedD(4) [OF pl] by blast
    fix c k
    assume c: "c \<in> set (tl (as ! (n - 1)))" "k \<in> set (cell_strs c)"
    have "n - 1 < length as" using r by simp
    then have "as ! (n - 1) \<in> set as" by (rule nth_mem)
    then have "k \<in> {0<..length ss} - D" using ow c by (fastforce simp: cells_strs_def)
    then show "str ss' k = str ss k" using placedD(3) [OF pl, of k] by simp
  qed
qed

lemma placed_other_prop:
  assumes "placed ss as D E ss' as' sd" "\<forall>a \<in> set as. cells_strs a \<subseteq> {0<..length ss} - D"
    and "set (prop_strs p) \<subseteq> {0<..length ss} - D" "set (prop_arrs p) \<subseteq> {0<..length as} - E"
  shows "pview ss' as' p = pview ss as p"
proof -
  have "view ss' as' (p_data p) = view ss as (p_data p)"
    using assms(3,4) by (intro placed_other [OF assms(1,2)]) (auto simp: prop_strs_def prop_arrs_def)
  moreover have "str ss' (p_id p) = str ss (p_id p)" using placedD(3) [OF assms(1), of "p_id p"] assms(3) by (auto simp: prop_strs_def)
  ultimately show ?thesis by (simp add: pview_def)
qed

text \<open>Placing data keeps ownership: the strings \<open>D\<close> and arrays \<open>E\<close> give way to those of the data.\<close>

lemma placed_owned:
  assumes pl: "placed ss as (set D) (set E) ss' as' sd" and ow: "owned ss as (N1 @ D @ N2) (M1 @ E @ M2)"
  shows "owned ss' as' (N1 @ data_strs sd @ N2) (M1 @ data_arrs sd @ M2)"
proof -
  note p = placedD [OF pl]
  have o: "distinct (N1 @ D @ N2)" "set (N1 @ D @ N2) \<subseteq> {0<..length ss}" "distinct (M1 @ E @ M2)" "set (M1 @ E @ M2) \<subseteq> {0<..length as}"
    "\<And>a. a \<in> set as \<Longrightarrow> cells_strs a \<subseteq> {0<..length ss} - set (N1 @ D @ N2)"
    using ow by (auto simp: owned_def)
  have d: "distinct (data_strs sd)" "distinct (data_arrs sd)" by (auto simp: data_strs_def data_arrs_def split: sval.splits)
  have "distinct (N1 @ data_strs sd @ N2)" using o(1,2) p(5) d by fastforce
  moreover have "distinct (M1 @ data_arrs sd @ M2)" using o(3,4) p(6) d by fastforce
  moreover have "set (N1 @ data_strs sd @ N2) \<subseteq> {0<..length ss'}" using o(2) p(1,5) by fastforce
  moreover have "set (M1 @ data_arrs sd @ M2) \<subseteq> {0<..length as'}" using o(4) p(2,6) by fastforce
  moreover have "cells_strs a \<subseteq> {0<..length ss'} - set (N1 @ data_strs sd @ N2)" if "a \<in> set as'" for a
  proof (cases "a \<in> set as")
    case True
    have "set (data_strs sd) \<inter> cells_strs a = {}" using o(5) [OF True] p(5) by fastforce
    then show ?thesis using o(5) [OF True] p(1) by fastforce
  next
    case False
    then have c: "cells_strs a \<subseteq> {length ss<..length ss'} - set (data_strs sd)" using p(7) that by blast
    then show ?thesis using o(2) by fastforce
  qed
  ultimately show ?thesis by (simp add: owned_def)
qed

lemma props_okD:
  assumes "props_ok hdr prps S A ss as"
  shows "obj_ok hdr ss as" "section_ok prps" "p \<in> set (s_items prps) \<Longrightarrow> data_ok (p_data p)"
    "owned ss as (S @ concat (map prop_strs (s_items prps))) (A @ concat (map prop_arrs (s_items prps)))"
    "distinct (map (\<lambda>p. map tolower (str ss (p_id p))) (s_items prps))"
  using assms by (auto simp: props_ok_def)

lemma locate_property:
  assumes "props_ok hdr prps S A ss as"
  shows "ClObjectLocateProperty hdr prps ident = Some (index_of (map (\<lambda>p. str ss (p_id p)) (s_items prps)) ident 0)"
  unfolding ClObjectLocateProperty_def
proof (rule locate_ok)
  show "texts hdr ss" using props_okD(1) [OF assms] by (rule obj_okD(1))
  show "\<forall>p \<in> set (s_items prps). 0 < p_id p \<and> p_id p \<le> length ss"
  proof
    fix p
    assume "p \<in> set (s_items prps)"
    then have "p_id p \<in> set (S @ concat (map prop_strs (s_items prps)))" by (auto simp: prop_strs_def)
    then show "0 < p_id p \<and> p_id p \<le> length ss" by (rule ownedD(2) [OF props_okD(4) [OF assms]])
  qed
qed

text \<open>What is not owned by the properties keeps its value.\<close>

definition same_rest :: "string list \<Rightarrow> arr_cell list list \<Rightarrow> nat list \<Rightarrow> nat list \<Rightarrow> string list \<Rightarrow> arr_cell list list \<Rightarrow> bool" where
  "same_rest ss as S A ss' as' \<longleftrightarrow> (\<forall>n \<in> set S. str ss' n = str ss n) \<and> (\<forall>sd. set (data_strs sd) \<subseteq> set S \<and> set (data_arrs sd) \<subseteq> set A \<longrightarrow> view ss' as' sd = view ss as sd)"

lemma same_restD:
  assumes "same_rest ss as S A ss' as'"
  shows "n \<in> set S \<Longrightarrow> str ss' n = str ss n"
    "set (data_strs sd) \<subseteq> set S \<Longrightarrow> set (data_arrs sd) \<subseteq> set A \<Longrightarrow> view ss' as' sd = view ss as sd"
  using assms by (simp_all add: same_rest_def)

lemma placed_rest:
  assumes pl: "placed ss as D E ss' as' sd" and ow: "owned ss as N M" "D \<subseteq> set N" "E \<subseteq> set M"
    and S: "set S \<subseteq> set N - D" "set A \<subseteq> set M - E"
  shows "same_rest ss as S A ss' as'"
proof -
  have c: "\<forall>a \<in> set as. cells_strs a \<subseteq> {0<..length ss} - D" using ownedD(5) [OF ow(1)] ow(2) by blast
  have s: "set S \<subseteq> {0<..length ss} - D" "set A \<subseteq> {0<..length as} - E"
    using S ownedD(2,4) [OF ow(1)] by fastforce+
  have "str ss' n = str ss n" if "n \<in> set S" for n
  proof -
    have "0 < n" "n \<le> length ss" "n \<notin> D" using s(1) that by auto
    then show ?thesis by (rule placedD(3) [OF pl])
  qed
  moreover have "view ss' as' od = view ss as od" if "set (data_strs od) \<subseteq> set S" "set (data_arrs od) \<subseteq> set A" for od
    using that s by (intro placed_other [OF pl c]) auto
  ultimately show ?thesis by (simp add: same_rest_def)
qed

lemma distinct_without: "distinct (xs @ ys @ zs) \<Longrightarrow> set (xs @ ys @ zs) \<subseteq> X \<Longrightarrow> set (xs @ zs) \<subseteq> X - set ys"
  by auto

text \<open>Replacing the data of one property.\<close>

lemma replace_data_ok:
  assumes ok: "props_ok hdr prps S A ss as" and items: "s_items prps = xs @ p # ys"
    and pl: "placed ss as (set (data_strs (p_data p))) (set (data_arrs (p_data p))) ss' as' sd" and h: "obj_ok hdr' ss' as'"
  shows "props_ok hdr' (prps\<lparr>s_items := xs @ p\<lparr>p_data := sd\<rparr> # ys\<rparr>) S A ss' as' \<and>
    map (pview ss' as') (xs @ ys) = map (pview ss as) (xs @ ys) \<and> str ss' (p_id p) = str ss (p_id p) \<and> same_rest ss as S A ss' as'"
proof -
  let ?D = "data_strs (p_data p)" and ?E = "data_arrs (p_data p)"
  let ?N1 = "S @ concat (map prop_strs xs) @ p_id p # (if p_refName p = 0 then [] else [p_refName p])" and ?N2 = "concat (map prop_strs ys)"
  let ?M1 = "A @ concat (map prop_arrs xs)" and ?M2 = "concat (map prop_arrs ys)"
  have ow: "owned ss as (?N1 @ ?D @ ?N2) (?M1 @ ?E @ ?M2)"
    using props_okD(4) [OF ok] items by (simp add: prop_strs_def prop_arrs_def)
  have dist: "distinct (?N1 @ ?D @ ?N2)" "distinct (?M1 @ ?E @ ?M2)" using ownedD(1,3) [OF ow] .
  have sub: "set (?N1 @ ?N2) \<subseteq> {0<..length ss} - set ?D" "set (?M1 @ ?M2) \<subseteq> {0<..length as} - set ?E"
    using distinct_without [OF dist(1)] distinct_without [OF dist(2)] ow unfolding owned_def by blast+
  have c: "\<forall>a \<in> set as. cells_strs a \<subseteq> {0<..length ss} - set ?D" using ownedD(5) [OF ow] unfolding set_append by blast
  have other: "pview ss' as' q = pview ss as q" if q: "q \<in> set xs \<union> set ys" for q
  proof (rule placed_other_prop [OF pl c])
    have "set (prop_strs q) \<subseteq> set (?N1 @ ?N2)" "set (prop_arrs q) \<subseteq> set (?M1 @ ?M2)" using q by auto
    then show "set (prop_strs q) \<subseteq> {0<..length ss} - set ?D" "set (prop_arrs q) \<subseteq> {0<..length as} - set ?E" using sub by blast+
  qed
  have p: "str ss' (p_id p) = str ss (p_id p)"
  proof (rule placedD(3) [OF pl])
    show "0 < p_id p" "p_id p \<le> length ss" "p_id p \<notin> set ?D" using sub(1) by auto
  qed
  have "same_rest ss as S A ss' as'"
  proof (rule placed_rest [OF pl ow])
    show "set S \<subseteq> set (?N1 @ ?D @ ?N2) - set ?D" "set A \<subseteq> set (?M1 @ ?E @ ?M2) - set ?E"
      using distinct_without [OF dist(1) order.refl] distinct_without [OF dist(2) order.refl] by (auto simp del: distinct_append)
  qed auto
  moreover have "props_ok hdr' (prps\<lparr>s_items := xs @ p\<lparr>p_data := sd\<rparr> # ys\<rparr>) S A ss' as'"
    unfolding props_ok_def
  proof (intro conjI h)
    show "section_ok (prps\<lparr>s_items := xs @ p\<lparr>p_data := sd\<rparr> # ys\<rparr>)"
      using props_okD(2) [OF ok] items by (simp add: section_update_ok)
    show "\<forall>q \<in> set (s_items (prps\<lparr>s_items := xs @ p\<lparr>p_data := sd\<rparr> # ys\<rparr>)). data_ok (p_data q)"
      using props_okD(3) [OF ok] items placedD(8) [OF pl] by auto
    have "owned ss' as' (?N1 @ data_strs sd @ ?N2) (?M1 @ data_arrs sd @ ?M2)" by (rule placed_owned [OF pl ow])
    then show "owned ss' as' (S @ concat (map prop_strs (s_items (prps\<lparr>s_items := xs @ p\<lparr>p_data := sd\<rparr> # ys\<rparr>))))
        (A @ concat (map prop_arrs (s_items (prps\<lparr>s_items := xs @ p\<lparr>p_data := sd\<rparr> # ys\<rparr>))))"
      by (simp add: prop_strs_def prop_arrs_def split: if_splits)
    have "map (\<lambda>q. map tolower (str ss' (p_id q))) (xs @ p\<lparr>p_data := sd\<rparr> # ys) = map (\<lambda>q. map tolower (str ss (p_id q))) (s_items prps)"
      using other p items by (auto simp: pview_def)
    then show "distinct (map (\<lambda>q. map tolower (str ss' (p_id q))) (s_items (prps\<lparr>s_items := xs @ p\<lparr>p_data := sd\<rparr> # ys\<rparr>)))"
      using props_okD(5) [OF ok] by simp
  qed
  ultimately show ?thesis using other p by auto
qed

text \<open>Adding a property, with its name and the name of its reference class.\<close>

lemma add_opt_obj:
  assumes "obj_ok hdr ss as" "length ss < 2 ^ 14" "\<forall>s. so = Some s \<longrightarrow> CHR 0x00 \<notin> set s"
  shows "\<exists>hdr' n ss'. (case so of None \<Rightarrow> Some (hdr, 0) | Some s \<Rightarrow> addClString hdr s) = Some (hdr', n) \<and> obj_ok hdr' (ss @ ss') as \<and>
    h_type hdr' = h_type hdr \<and> length ss' \<le> 1 \<and> (if so = None then n = 0 \<and> ss' = [] else n = Suc (length ss) \<and> ss' = [the so])"
  using addClString_obj [OF assms(1,2)] assms(1,3) by (cases so) auto

lemma owned_append:
  assumes ow: "owned ss as N M" and new: "distinct K" "set K \<subseteq> {length ss<..length (ss @ ss')}"
  shows "owned (ss @ ss') as (N @ K) M"
proof -
  have "set N \<inter> set K = {}" using ownedD(2) [OF ow] new(2) by fastforce
  moreover have "cells_strs a \<subseteq> {0<..length (ss @ ss')} - set (N @ K)" if "a \<in> set as" for a
    using ownedD(5) [OF ow that] new(2) by fastforce
  moreover have "set (N @ K) \<subseteq> {0<..length (ss @ ss')}" using ownedD(2) [OF ow] new(2) by fastforce
  ultimately show ?thesis using ow new(1) by (simp add: owned_def)
qed

lemma append_rest:
  assumes "owned ss as N M"
  shows "same_rest ss as N M (ss @ new) as"
proof (rule placed_rest [where D = "{}" and E = "{}" and N = N and M = M])
  show "placed ss as {} {} (ss @ new) as \<lparr>sd_type = CT_chars, sd_state = 0, sd_val = Id 0\<rparr>"
    by (auto simp: placed_def data_strs_def data_arrs_def data_ok_def str_append)
qed (use assms in auto)

lemma same_rest_trans: "same_rest ss as N M s2 a2 \<Longrightarrow> same_rest s2 a2 N M s3 a3 \<Longrightarrow> same_rest ss as N M s3 a3"
  by (simp add: same_rest_def)

lemma same_rest_mono:
  assumes "same_rest ss as N M ss' as'" "set S \<subseteq> set N" "set A \<subseteq> set M"
  shows "same_rest ss as S A ss' as'"
proof -
  have "view ss' as' sd = view ss as sd" if "set (data_strs sd) \<subseteq> set S" "set (data_arrs sd) \<subseteq> set A" for sd
    by (rule same_restD(2) [OF assms(1) order.trans [OF that(1) assms(2)] order.trans [OF that(2) assms(3)]])
  moreover have "str ss' n = str ss n" if "n \<in> set S" for n by (rule same_restD(1) [OF assms(1) subsetD [OF assms(2) that]])
  ultimately show ?thesis by (simp add: same_rest_def)
qed

lemma same_rest_pview:
  assumes "same_rest ss as (S @ concat (map prop_strs items)) (A @ concat (map prop_arrs items)) ss' as'" "q \<in> set items"
  shows "pview ss' as' q = pview ss as q"
proof -
  have "p_id q \<in> set (S @ concat (map prop_strs items))" "set (data_strs (p_data q)) \<subseteq> set (S @ concat (map prop_strs items))"
    "set (data_arrs (p_data q)) \<subseteq> set (A @ concat (map prop_arrs items))"
    using assms(2) by (auto simp: prop_strs_def prop_arrs_def)
  then show ?thesis unfolding pview_def using same_restD [OF assms(1)] by simp
qed

text \<open>The strings a new property brings along: its name and the name of its reference class.\<close>

lemma add_names:
  assumes ok: "obj_ok hdr ss as" "owned ss as N M" and few: "length ss + 2 \<le> 2 ^ 14"
    and n: "CHR 0x00 \<notin> set ident" "\<forall>r. refName = Some r \<longrightarrow> CHR 0x00 \<notin> set r"
  shows "\<exists>hdr1 hdr2 r s2. addClString hdr ident = Some (hdr1, Suc (length ss)) \<and>
    (case refName of None \<Rightarrow> Some (hdr1, 0) | Some r \<Rightarrow> addClString hdr1 r) = Some (hdr2, r) \<and> obj_ok hdr2 s2 as \<and> h_type hdr2 = h_type hdr \<and>
    length s2 \<le> length ss + 2 \<and> str s2 (Suc (length ss)) = ident \<and> same_rest ss as N M s2 as \<and>
    owned s2 as (N @ Suc (length ss) # (if r = 0 then [] else [r])) M"
proof -
  obtain hdr1 where h1: "addClString hdr ident = Some (hdr1, Suc (length ss))" "obj_ok hdr1 (ss @ [ident]) as" "h_type hdr1 = h_type hdr"
    using addClString_obj [OF ok(1) _ n(1)] few by auto
  obtain hdr2 r rs where h2: "(case refName of None \<Rightarrow> Some (hdr1, 0) | Some r \<Rightarrow> addClString hdr1 r) = Some (hdr2, r)"
    "obj_ok hdr2 ((ss @ [ident]) @ rs) as" "h_type hdr2 = h_type hdr1" "length rs \<le> 1"
    "if refName = None then r = 0 \<and> rs = [] else r = Suc (length (ss @ [ident])) \<and> rs = [the refName]"
    using add_opt_obj [OF h1(2) _ n(2)] few by auto
  let ?K = "Suc (length ss) # (if r = 0 then [] else [r])"
  have K: "distinct ?K" "set ?K \<subseteq> {length ss<..length (ss @ [ident] @ rs)}" using h2(5) by (auto split: if_splits)
  have "owned (ss @ [ident] @ rs) as (N @ ?K) M" by (rule owned_append [OF ok(2) K])
  moreover have "same_rest ss as N M (ss @ [ident] @ rs) as" by (rule append_rest [OF ok(2)])
  ultimately show ?thesis using h1 h2
    by (intro exI [of _ hdr1] exI [of _ hdr2] exI [of _ r] exI [of _ "ss @ [ident] @ rs"]) (simp add: str_def nth_append)
qed

text \<open>A property behind the others, whose name is new.\<close>

lemma props_ok_snoc:
  assumes ok: "props_ok hdr prps S A ss as" and h: "obj_ok hdr' ss' as'" "section_ok prps'" "s_items prps' = s_items prps @ [p]" "data_ok (p_data p)"
    and ow: "owned ss' as' ((S @ concat (map prop_strs (s_items prps))) @ prop_strs p) ((A @ concat (map prop_arrs (s_items prps))) @ prop_arrs p)"
    and pv: "\<And>q. q \<in> set (s_items prps) \<Longrightarrow> pview ss' as' q = pview ss as q"
    and new: "map tolower (str ss' (p_id p)) \<notin> map tolower ` (\<lambda>p. str ss (p_id p)) ` set (s_items prps)"
  shows "props_ok hdr' prps' S A ss' as'"
proof -
  have names: "map (\<lambda>q. map tolower (str ss' (p_id q))) (s_items prps) = map (\<lambda>q. map tolower (str ss (p_id q))) (s_items prps)"
    using pv by (simp add: pview_def)
  have "distinct (map (\<lambda>p. map tolower (str ss' (p_id p))) (s_items prps'))"
    using props_okD(5) [OF ok] new unfolding h(3) map_append names by (simp add: image_image)
  moreover have "\<forall>p \<in> set (s_items prps'). data_ok (p_data p)" using h(3,4) props_okD(3) [OF ok] by auto
  ultimately show ?thesis unfolding props_ok_def using h ow by simp
qed

lemma add_property_ok:
  assumes ok: "props_ok hdr prps S A ss as" and new: "map tolower ident \<notin> map tolower ` (\<lambda>p. str ss (p_id p)) ` set (s_items prps)"
    and d: "in_ok d" "CHR 0x00 \<notin> set ident" "\<forall>r. refName = Some r \<longrightarrow> CHR 0x00 \<notin> set r"
    and few: "length as < 2 ^ 14" "length ss + in_size d + 2 \<le> 2 ^ 14" "length (s_items prps) < 2 ^ 14"
  shows "\<exists>hdr' prps' ss' as'. addObjectPropertyH hdr prps ident d refName = Some (hdr', prps', int (Suc (length (s_items prps)))) \<and>
    props_ok hdr' prps' S A ss' as' \<and> h_type hdr' = h_type hdr \<and>
    map (pview ss' as') (s_items prps') = map (pview ss as) (s_items prps) @ [(ident, fst d, in_view d)] \<and> same_rest ss as S A ss' as'"
proof -
  let ?N = "S @ concat (map prop_strs (s_items prps))" and ?M = "A @ concat (map prop_arrs (s_items prps))"
  have i0: "ClObjectLocateProperty hdr prps ident = Some 0" using locate_property [OF ok] new by (simp add: index_of_0 image_image)
  have "length ss + 2 \<le> 2 ^ 14" using few(2) by simp
  from add_names [OF props_okD(1,4) [OF ok] this d(2,3)] obtain hdr1 hdr2 r s2 where
    n: "addClString hdr ident = Some (hdr1, Suc (length ss))" "(case refName of None \<Rightarrow> Some (hdr1, 0) | Some r \<Rightarrow> addClString hdr1 r) = Some (hdr2, r)"
      "obj_ok hdr2 s2 as" "h_type hdr2 = h_type hdr" "length s2 \<le> length ss + 2" "str s2 (Suc (length ss)) = ident" "same_rest ss as ?N ?M s2 as"
      "owned s2 as (?N @ Suc (length ss) # (if r = 0 then [] else [r])) ?M"
    by blast
  let ?K = "Suc (length ss) # (if r = 0 then [] else [r])"
  have "length s2 + in_size d \<le> 2 ^ 14" using few(2) n(5) by simp
  from store_property_ok [OF n(3) d(1) few(1) this] obtain hdr3 sd ss' as' where
    h: "store_property hdr2 d = Some (hdr3, sd, 0)" "obj_ok hdr3 ss' as'" "h_type hdr3 = h_type hdr2"
      "placed s2 as {} {} ss' as' sd" "view ss' as' sd = in_view d" "sd_state sd = fst d"
    unfolding stores_def by blast
  let ?p = "\<lparr>p_data = sd, p_id = Suc (length ss), p_refName = r, p_flags = 0, p_quals = 0, p_qualifiers = clearClSection\<rparr>"
  obtain f prps' where g: "grow_append hdr3 prps 8 ?p = Some (set_flag f hdr3, prps')" "section_ok prps'" "s_items prps' = s_items prps @ [?p]"
    "f = 0 \<or> f = HDR_Rebuild"
    using grow_append_ok [OF props_okD(2) [OF ok] few(3), of 8 hdr3 ?p] by auto
  have call: "addObjectPropertyH hdr prps ident d refName = Some (set_flag f hdr3, prps', int (Suc (length (s_items prps))))"
    using i0 n(1,2) h(1) g(1,3) by (simp add: addObjectPropertyH_def)
  have ow: "owned ss' as' (?N @ prop_strs ?p) (?M @ prop_arrs ?p)"
    using placed_owned [of s2 as "[]" "[]" ss' as' sd "?N @ ?K" "[]" ?M "[]"] h(4) n(8) by (simp add: prop_strs_def prop_arrs_def split: if_splits)
  have rest: "same_rest s2 as (?N @ ?K) ?M ss' as'" by (rule placed_rest [OF h(4) n(8)]) auto
  have ident: "str ss' (Suc (length ss)) = ident" using same_restD(1) [OF rest, of "Suc (length ss)"] n(6) by simp
  have same: "same_rest ss as ?N ?M ss' as'" by (rule same_rest_trans [OF n(7) same_rest_mono [OF rest]]) auto
  note pv = same_rest_pview [OF same]
  have "props_ok (set_flag f hdr3) prps' S A ss' as'"
    by (rule props_ok_snoc [OF ok obj_ok_flag [OF h(2) g(4)] g(2,3) _ ow pv]) (use placedD(8) [OF h(4)] ident new in simp_all)
  moreover have "same_rest ss as S A ss' as'" by (rule same_rest_mono [OF same]) auto
  moreover have "map (pview ss' as') (s_items prps') = map (pview ss as) (s_items prps) @ [(ident, fst d, in_view d)]"
    using g(3) pv ident h(5,6) by (simp add: pview_def)
  ultimately show ?thesis using call n(4) h(3) by (intro exI [of _ "set_flag f hdr3"] exI [of _ prps'] exI [of _ ss'] exI [of _ as']) simp
qed

lemma index_of_nth:
  assumes "distinct (map (map tolower) ns)" "j < length ns" "map tolower ident = map tolower (ns ! j)"
  shows "index_of ns ident i = Suc (i + j)"
  using assms
proof (induction ns arbitrary: i j)
  case (Cons n ns)
  show ?case
  proof (cases j)
    case (Suc k)
    then have "map tolower ident \<noteq> map tolower n" using Cons.prems by (auto simp: image_iff) (metis nth_mem)
    with Cons.IH [of k "Suc i"] Cons.prems Suc show ?thesis by simp
  qed (use Cons.prems in simp)
qed simp

lemma change_property_ok:
  assumes ok: "props_ok hdr prps S A ss as" and j: "j < length (s_items prps)" and upd: "update_property hdr (s_items prps ! j) d = map_option Inr r"
    "sets hdr ss as (p_data (s_items prps ! j)) (fst d) a r" and loc: "ClObjectLocateProperty hdr prps ident = Some (Suc j)"
  shows "\<exists>hdr' prps' ss' as'. addObjectPropertyH hdr prps ident d refName = Some (hdr', prps', int (Suc j)) \<and>
    props_ok hdr' prps' S A ss' as' \<and>
    map (pview ss' as') (s_items prps') = (map (pview ss as) (s_items prps))[j := (str ss (p_id (s_items prps ! j)), fst d, a)] \<and>
    same_rest ss as S A ss' as'"
proof -
  let ?p = "s_items prps ! j" and ?xs = "take j (s_items prps)" and ?ys = "drop (Suc j) (s_items prps)"
  obtain hdr' sd ss' as' where s: "r = Some (hdr', sd)" "obj_ok hdr' ss' as'"
    "placed ss as (set (data_strs (p_data ?p))) (set (data_arrs (p_data ?p))) ss' as' sd" "view ss' as' sd = a" "sd_state sd = fst d"
    using upd(2) unfolding sets_def by blast
  let ?prps = "prps\<lparr>s_items := ?xs @ ?p\<lparr>p_data := sd\<rparr> # ?ys\<rparr>"
  have call: "addObjectPropertyH hdr prps ident d refName = Some (hdr', ?prps, int (Suc j))"
    using loc upd(1) s(1) upd_conv_take_nth_drop [OF j, of "?p\<lparr>p_data := sd\<rparr>"] by (simp add: addObjectPropertyH_def)
  from replace_data_ok [OF ok id_take_nth_drop [OF j] s(3,2)]
  have rep: "props_ok hdr' ?prps S A ss' as'" "map (pview ss' as') (?xs @ ?ys) = map (pview ss as) (?xs @ ?ys)"
    "str ss' (p_id ?p) = str ss (p_id ?p)" "same_rest ss as S A ss' as'"
    by blast+
  have v: "(map (pview ss as) (s_items prps))[j := (str ss (p_id ?p), fst d, a)] = map (pview ss as) ?xs @ (str ss (p_id ?p), fst d, a) # map (pview ss as) ?ys"
    using upd_conv_take_nth_drop [of j "map (pview ss as) (s_items prps)" "(str ss (p_id ?p), fst d, a)"] j by (simp add: take_map drop_map)
  have "map (pview ss' as') ?xs = map (pview ss as) ?xs" "map (pview ss' as') ?ys = map (pview ss as) ?ys"
    using rep(2) by (simp_all only: map_append append_eq_append_conv length_map simp_thms)
  moreover have "pview ss' as' (?p\<lparr>p_data := sd\<rparr>) = (str ss (p_id ?p), fst d, a)" using rep(3) s(4,5) by (simp add: pview_def)
  ultimately have "map (pview ss' as') (s_items ?prps) = (map (pview ss as) (s_items prps))[j := (str ss (p_id ?p), fst d, a)]"
    unfolding v by simp
  with call rep(1,4) show ?thesis by auto
qed

lemma props_ok_data_in:
  assumes ok: "props_ok hdr prps S A ss as" and p: "p \<in> set (s_items prps)"
  shows "data_in (p_data p) ss as"
proof -
  have "set (data_strs (p_data p)) \<subseteq> set (S @ concat (map prop_strs (s_items prps)))" "set (data_arrs (p_data p)) \<subseteq> set (A @ concat (map prop_arrs (s_items prps)))"
    using p by (auto simp: prop_strs_def prop_arrs_def)
  then show ?thesis using props_okD(4) [OF ok] props_okD(3) [OF ok p] unfolding data_in_def owned_def by blast
qed

lemma locate_nth:
  assumes "props_ok hdr prps S A ss as" "j < length (s_items prps)" "map tolower ident = map tolower (str ss (p_id (s_items prps ! j)))"
  shows "ClObjectLocateProperty hdr prps ident = Some (Suc j)"
proof -
  have "index_of (map (\<lambda>p. str ss (p_id p)) (s_items prps)) ident 0 = Suc (0 + j)"
    by (rule index_of_nth) (use props_okD(5) [OF assms(1)] assms(2,3) in \<open>simp_all add: comp_def\<close>)
  then show ?thesis using locate_property [OF assms(1)] by simp
qed


section \<open>Rebuilt objects\<close>

lemma ALIGN_0 [simp]: "ALIGN 0 y = 0"
  by (simp add: ALIGN_def)

lemma copyQualifiers_size: "snd (copyQualifiers ofs q) = sizeQualifiers q"
  by (simp add: copyQualifiers_def sizeQualifiers_def)

lemma copy_items_size:
  assumes "\<And>ofs x. snd (f ofs x) = g x"
  shows "snd (copy_items f ofs l xs) = l + sum_list (map g xs)"
proof (induction xs arbitrary: l)
  case (Cons x xs)
  obtain x' n where x: "f (ofs + l) x = (x', n)" by fastforce
  then have "n = g x" using assms [of "ofs + l" x] by simp
  with Cons [of "l + n"] x show ?case by (auto simp: case_prod_unfold)
qed simp

lemma copy_section_size:
  assumes "\<And>ofs x. snd (f ofs x) = g x"
  shows "snd (copy_section f sz ofs s) = ALIGN (length (s_items s) * sz + sum_list (map g (s_items s))) CLALIGN"
proof -
  obtain items l where i: "copy_items f ofs (length (s_items s) * sz) (s_items s) = (items, l)" by fastforce
  have "snd (copy_items f ofs (length (s_items s) * sz) (s_items s)) = length (s_items s) * sz + sum_list (map g (s_items s))"
    by (rule copy_items_size) (rule assms)
  then have "l = length (s_items s) * sz + sum_list (map g (s_items s))" using i by simp
  with i show ?thesis by (simp add: copy_section_def)
qed

lemma opt_size_qualifiers: "opt_size sizeQualifiers q = sizeQualifiers q"
  by (simp add: opt_size_def sizeQualifiers_def)

lemma opt_size_parameters: "opt_size sizeParameters q = sizeParameters q"
  by (simp add: opt_size_def sizeParameters_def)

lemma snd_case_pair: "snd (case x of (a, n) \<Rightarrow> (h a, n)) = snd x"
  by (cases x) simp

lemma copyProperties_size: "snd (copyProperties ofs s) = sizeProperties s"
  unfolding copyProperties_def sizeProperties_def
  by (rule copy_section_size) (simp add: opt_size_qualifiers copyQualifiers_size snd_case_pair)

lemma copyParameters_size: "snd (copyParameters ofs s) = sizeParameters s"
  unfolding copyParameters_def sizeParameters_def
  by (rule copy_section_size) (simp add: opt_size_qualifiers copyQualifiers_size snd_case_pair)

lemma copyMethods_size: "snd (copyMethods ofs s) = sizeMethods s"
  unfolding copyMethods_def sizeMethods_def
proof (rule copy_section_size)
  fix ofs m
  obtain q n where q: "copyQualifiers ofs (m_qualifiers m) = (q, n)" by fastforce
  obtain ps k where ps: "copyParameters (ofs + n) (m_parameters m) = (ps, k)" by fastforce
  show "snd (case copyQualifiers ofs (m_qualifiers m) of (q, n) \<Rightarrow>
      case copyParameters (ofs + n) (m_parameters m) of (ps, k) \<Rightarrow> (m\<lparr>m_qualifiers := q, m_parameters := ps\<rparr>, n + k)) =
    opt_size sizeQualifiers (m_qualifiers m) + opt_size sizeParameters (m_parameters m)"
    using copyQualifiers_size [of ofs "m_qualifiers m"] copyParameters_size [of "ofs + n" "m_parameters m"] q ps
    by (simp add: opt_size_qualifiers opt_size_parameters)
qed

text \<open>The places the sections of an object take in its block, in their order.\<close>

definition extent :: "nat \<Rightarrow> 'a cl_section \<Rightarrow> (nat \<times> nat) list" where
  "extent sz s = (if s_items s = [] then [] else [(s_offset s, s_offset s + length (s_items s) * sz)])"

definition ext_qualifiers :: "qualifiers \<Rightarrow> (nat \<times> nat) list" where
  "ext_qualifiers = extent SIZEOF_ClQualifier"

definition ext_properties :: "properties \<Rightarrow> (nat \<times> nat) list" where
  "ext_properties s = extent SIZEOF_ClProperty s @ concat (map (\<lambda>p. ext_qualifiers (p_qualifiers p)) (s_items s))"

definition ext_parameters :: "cl_parameter cl_section \<Rightarrow> (nat \<times> nat) list" where
  "ext_parameters s = extent SIZEOF_ClParameter s @ concat (map (\<lambda>p. ext_qualifiers (pa_qualifiers p)) (s_items s))"

definition ext_methods :: "cl_method cl_section \<Rightarrow> (nat \<times> nat) list" where
  "ext_methods s = extent SIZEOF_ClMethod s @
     concat (map (\<lambda>m. ext_qualifiers (m_qualifiers m) @ ext_parameters (m_parameters m)) (s_items s))"

fun chain :: "nat \<Rightarrow> (nat \<times> nat) list \<Rightarrow> nat \<Rightarrow> bool" where
  "chain a [] b \<longleftrightarrow> a \<le> b"
| "chain a ((s, e) # xs) b \<longleftrightarrow> a \<le> s \<and> s \<le> e \<and> chain e xs b"

lemma chain_append: "chain a xs b \<Longrightarrow> chain b ys c \<Longrightarrow> chain a (xs @ ys) c"
proof (induction xs arbitrary: a)
  case Nil
  then show ?case by (cases ys rule: list.exhaust [case_names Nil Cons]) auto
qed auto

lemma chain_mono: "chain a xs b \<Longrightarrow> b \<le> c \<Longrightarrow> chain a xs c"
  using chain_append [of a xs b "[]" c] by simp

lemma CLALIGN_pos: "0 < CLALIGN"
  by (simp add: CLALIGN_def)

lemma copyQualifiers_chain: "copyQualifiers ofs q = (q', n) \<Longrightarrow> chain ofs (ext_qualifiers q') (ofs + n) \<and> s_items q' = s_items q"
  using ALIGN_le [OF CLALIGN_pos, of "length (s_items q) * SIZEOF_ClQualifier"]
  by (auto simp: copyQualifiers_def ext_qualifiers_def extent_def packed_def split: if_splits)

lemma copy_items_chain:
  assumes "\<And>ofs x x' n. f ofs x = (x', n) \<Longrightarrow> chain ofs (ext x') (ofs + n) \<and> same x x'"
  shows "copy_items f ofs l xs = (xs', l') \<Longrightarrow> chain (ofs + l) (concat (map ext xs')) (ofs + l') \<and> list_all2 same xs xs'"
proof (induction xs arbitrary: l xs')
  case (Cons x xs)
  obtain x' n where x: "f (ofs + l) x = (x', n)" by fastforce
  obtain ys k where ys: "copy_items f ofs (l + n) xs = (ys, k)" by fastforce
  have out: "xs' = x' # ys" "l' = k" using Cons.prems x ys by simp_all
  from Cons.IH [OF ys [folded out(2)]] assms [OF x] show ?case
    using chain_append [of "ofs + l" "ext x'" "ofs + l + n"] by (auto simp: out(1) add.assoc)
qed simp

lemma copy_section_chain:
  assumes f: "\<And>ofs x x' n. f ofs x = (x', n) \<Longrightarrow> chain ofs (ext x') (ofs + n) \<and> same x x'"
    and s: "copy_section f sz ofs s = (s', n)"
  shows "chain ofs (extent sz s' @ concat (map ext (s_items s'))) (ofs + n) \<and> list_all2 same (s_items s) (s_items s')"
proof (cases "s_items s = []")
  case True
  then show ?thesis using s by (auto simp: copy_section_def extent_def)
next
  case False
  let ?l = "length (s_items s) * sz"
  obtain items l where i: "copy_items f ofs ?l (s_items s) = (items, l)" by fastforce
  have c: "chain (ofs + ?l) (concat (map ext items)) (ofs + l)" "list_all2 same (s_items s) items"
    using copy_items_chain [of f ext same, OF f i] by blast+
  have out: "s' = packed ofs items" "n = ALIGN l CLALIGN" using s False i by (simp_all add: copy_section_def)
  have len: "length items = length (s_items s)" using list_all2_lengthD [OF c(2)] by simp
  then have "extent sz s' = [(ofs, ofs + ?l)]" using False out(1) by (auto simp: extent_def packed_def)
  moreover have "chain ofs [(ofs, ofs + ?l)] (ofs + ?l)" by simp
  ultimately show ?thesis
    using chain_mono [OF chain_append [OF _ c(1)], of ofs "[(ofs, ofs + ?l)]"] ALIGN_le [OF CLALIGN_pos, of l] c(2) out
    by (simp add: packed_def)
qed

text \<open>An item and its copy differ in the places of their sections.\<close>

definition same_property :: "cl_property \<Rightarrow> cl_property \<Rightarrow> bool" where
  "same_property p p' \<longleftrightarrow> (\<exists>q. p' = p\<lparr>p_qualifiers := q\<rparr> \<and> s_items q = s_items (p_qualifiers p))"

definition same_parameter :: "cl_parameter \<Rightarrow> cl_parameter \<Rightarrow> bool" where
  "same_parameter p p' \<longleftrightarrow> (\<exists>q. p' = p\<lparr>pa_qualifiers := q\<rparr> \<and> s_items q = s_items (pa_qualifiers p))"

definition same_method :: "cl_method \<Rightarrow> cl_method \<Rightarrow> bool" where
  "same_method m m' \<longleftrightarrow> (\<exists>q ps. m' = m\<lparr>m_qualifiers := q, m_parameters := ps\<rparr> \<and> s_items q = s_items (m_qualifiers m) \<and>
     list_all2 same_parameter (s_items (m_parameters m)) (s_items ps))"

lemma copyProperties_chain:
  assumes "copyProperties ofs s = (s', n)"
  shows "chain ofs (ext_properties s') (ofs + n) \<and> list_all2 same_property (s_items s) (s_items s')"
  unfolding ext_properties_def
proof (rule copy_section_chain [OF _ assms [unfolded copyProperties_def]])
  fix ofs n and p p' :: cl_property
  assume h: "(case copyQualifiers ofs (p_qualifiers p) of (q, n) \<Rightarrow> (p\<lparr>p_qualifiers := q\<rparr>, n)) = (p', n)"
  obtain q where "copyQualifiers ofs (p_qualifiers p) = (q, n)" "p' = p\<lparr>p_qualifiers := q\<rparr>" using h by (auto split: prod.splits)
  with copyQualifiers_chain show "chain ofs (ext_qualifiers (p_qualifiers p')) (ofs + n) \<and> same_property p p'"
    by (fastforce simp: same_property_def)
qed

lemma copyParameters_chain:
  assumes "copyParameters ofs s = (s', n)"
  shows "chain ofs (ext_parameters s') (ofs + n) \<and> list_all2 same_parameter (s_items s) (s_items s')"
  unfolding ext_parameters_def
proof (rule copy_section_chain [OF _ assms [unfolded copyParameters_def]])
  fix ofs n and p p' :: cl_parameter
  assume h: "(case copyQualifiers ofs (pa_qualifiers p) of (q, n) \<Rightarrow> (p\<lparr>pa_qualifiers := q\<rparr>, n)) = (p', n)"
  obtain q where "copyQualifiers ofs (pa_qualifiers p) = (q, n)" "p' = p\<lparr>pa_qualifiers := q\<rparr>" using h by (auto split: prod.splits)
  with copyQualifiers_chain show "chain ofs (ext_qualifiers (pa_qualifiers p')) (ofs + n) \<and> same_parameter p p'"
    by (fastforce simp: same_parameter_def)
qed

lemma copyMethods_chain:
  assumes "copyMethods ofs s = (s', n)"
  shows "chain ofs (ext_methods s') (ofs + n) \<and> list_all2 same_method (s_items s) (s_items s')"
  unfolding ext_methods_def
proof (rule copy_section_chain [OF _ assms [unfolded copyMethods_def]])
  fix ofs n and m m' :: cl_method
  assume h: "(case copyQualifiers ofs (m_qualifiers m) of (q, n) \<Rightarrow>
      case copyParameters (ofs + n) (m_parameters m) of (ps, k) \<Rightarrow> (m\<lparr>m_qualifiers := q, m_parameters := ps\<rparr>, n + k)) = (m', n)"
  obtain q k where q: "copyQualifiers ofs (m_qualifiers m) = (q, k)" by fastforce
  obtain ps j where ps: "copyParameters (ofs + k) (m_parameters m) = (ps, j)" by fastforce
  have out: "m' = m\<lparr>m_qualifiers := q, m_parameters := ps\<rparr>" "n = k + j" using h q ps by simp_all
  have "chain ofs (ext_qualifiers q @ ext_parameters ps) (ofs + n)"
    using chain_append copyQualifiers_chain [OF q] copyParameters_chain [OF ps] out(2) by (fastforce simp: add.assoc)
  then show "chain ofs (ext_qualifiers (m_qualifiers m') @ ext_parameters (m_parameters m')) (ofs + n) \<and> same_method m m'"
    using out(1) copyQualifiers_chain [OF q] copyParameters_chain [OF ps] by (auto simp: same_method_def)
qed

lemma pack_reads:
  assumes "copyStringBuf h0 hdr = (h1, n)" "copyArrayBuf h1 hdr = (h2, k)" "strBuffer h0 = strBuffer hdr" "arrayBuffer h0 = arrayBuffer hdr"
  shows "ClObjectGetClString h2 i = ClObjectGetClString hdr i" "ClObjectGetClArray h2 i = ClObjectGetClArray hdr i"
    "ClObjectGetClObject h2 i = ClObjectGetClObject hdr i"
  using assms unfolding ClObjectGetClString_def ClObjectGetClArray_def ClObjectGetClObject_def copyStringBuf_def copyArrayBuf_def
  by (auto simp: pack_buf_def split: option.splits)

section \<open>Properties\<close>

text \<open>What a caller gets for a property that holds \<open>a\<close>. A reference is handed out as its number.\<close>

definition got_ok :: "string list \<Rightarrow> cl_data \<Rightarrow> aval \<Rightarrow> got \<Rightarrow> bool" where
  "got_ok ss sd a g \<longleftrightarrow>
     (if sd_type sd = CT_chars then g = G_string (case a of A_text s \<Rightarrow> Some s | _ \<Rightarrow> None)
      else if sd_type sd = CT_dateTime then g = G_dateTime (case a of A_text s \<Rightarrow> Some s | _ \<Rightarrow> None)
      else if is_array (sd_type sd) then (case a of A_array xs \<Rightarrow> \<exists>c cs. g = G_array (Some (c # cs)) \<and> map (cell_view ss) cs = xs | _ \<Rightarrow> g = G_array None)
      else if sd_type sd = CT_instance then g = G_instance None
      else g = G_raw (sd_type sd) (sd_val sd))"

lemma texts_null: "ClObjectGetClString hdr 0 = Some None" "ClObjectGetClArray hdr 0 = Some None" "ClObjectGetClObject hdr 0 = Some None"
  by (simp_all add: ClObjectGetClString_def ClObjectGetClArray_def ClObjectGetClObject_def)

lemma read_property_ok:
  assumes ok: "obj_ok hdr ss as" and d: "data_in sd ss as"
  shows "\<exists>g. read_property hdr sd = Some g \<and> got_ok ss sd (view ss as sd) g"
proof -
  have tx: "ClObjectGetClString hdr n = Some (Some (str ss n))" if "0 < n" "n \<le> length ss" for n
    using texts_str [OF obj_okD(1) [OF ok] that] .
  consider (raw) t where "sd_val sd = Raw (V_null t)" "sd_type sd = t" | (str) s where "sd_val sd = Raw (V_string s)" "sd_type sd = CT_string"
    | (plain) t w where "sd_val sd = Raw (V_plain t w)" "sd_type sd = CT_plain t"
    | (nil) "sd_val sd = Id 0" "sd_type sd = CT_chars"
    | (arr) n where "sd_val sd = Id n" "n \<noteq> 0" "is_array (sd_type sd)"
    | (txtv) n where "sd_val sd = Id n" "n \<noteq> 0" "sd_type sd = CT_chars \<or> sd_type sd = CT_dateTime \<or> sd_type sd = CT_ref"
    using d by (auto simp: data_in_def data_ok_def split: sval.splits cvalue.splits)
  then show ?thesis
  proof cases
    case raw
    then show ?thesis
      by (auto simp: read_property_def got_ok_def text_of_def cells_of_def view_def texts_null)
  next
    case str
    then show ?thesis by (simp add: read_property_def got_ok_def is_array_def)
  next
    case plain
    then show ?thesis by (simp add: read_property_def got_ok_def is_array_def)
  next
    case nil
    then show ?thesis by (simp add: read_property_def got_ok_def text_of_def view_def texts_null)
  next
    case (arr n)
    then have n: "0 < n" "n \<le> length as" using d by (auto simp: data_in_def data_arrs_def)
    then have m: "n - 1 < length as" by simp
    obtain t cs where e: "as ! (n - 1) = array_entry t cs" using obj_okD(4) [OF ok nth_mem [OF m]] by blast
    have "ClObjectGetClArray hdr n = Some (Some (array_entry t cs))"
      using get_array [OF obj_okD(2) [OF ok] m e] n by simp
    moreover have "sd_type sd \<noteq> CT_chars" "sd_type sd \<noteq> CT_dateTime" using arr(3) by (auto simp: is_array_def)
    ultimately show ?thesis using arr e by (simp add: read_property_def got_ok_def cells_of_def view_def array_entry_def)
  next
    case (txtv n)
    then have na: "\<not> is_array (sd_type sd)" by (auto simp: is_array_def)
    then have "0 < n" "n \<le> length ss" using d txtv by (auto simp: data_in_def data_strs_def)
    from tx [OF this] txtv na show ?thesis
      by (auto simp: read_property_def got_ok_def text_of_def view_def)
  qed
qed

lemma property_at_ok:
  assumes ok: "props_ok hdr prps S A ss as" and j: "j < length (s_items prps)"
  shows "\<exists>g. property_at read_property hdr prps (int j) =
      Some (Inr (sd_state (p_data (s_items prps ! j)), g, Some (str ss (p_id (s_items prps ! j))), p_quals (s_items prps ! j))) \<and>
    got_ok ss (p_data (s_items prps ! j)) (view ss as (p_data (s_items prps ! j))) g"
proof -
  let ?p = "s_items prps ! j"
  have mem: "?p \<in> set (s_items prps)" using j by simp
  note ow = props_okD(4) [OF ok]
  have sub: "set (data_strs (p_data ?p)) \<subseteq> set (S @ concat (map prop_strs (s_items prps)))" "p_id ?p \<in> set (S @ concat (map prop_strs (s_items prps)))"
    "set (data_arrs (p_data ?p)) \<subseteq> set (A @ concat (map prop_arrs (s_items prps)))"
    using mem by (auto simp: prop_strs_def prop_arrs_def)
  then have "data_in (p_data ?p) ss as" using ow props_okD(3) [OF ok mem] unfolding data_in_def owned_def by blast
  then obtain g where g: "read_property hdr (p_data ?p) = Some g" "got_ok ss (p_data ?p) (view ss as (p_data ?p)) g"
    using read_property_ok [OF props_okD(1) [OF ok]] by blast
  have "ClObjectGetClString hdr (p_id ?p) = Some (Some (str ss (p_id ?p)))"
    using texts_str [OF obj_okD(1) [OF props_okD(1) [OF ok]]] ownedD(2) [OF ow sub(2)] by simp
  with g j show ?thesis by (auto simp: property_at_def Let_def)
qed


lemma fresh_props: "props_ok (new_hdr t) clearClSection [] [] [] []"
  by (simp add: props_ok_def obj_ok_def texts_def buffer_holds_def new_hdr_def owned_def)

definition sample_data :: in_data where "sample_data = (0, V_chars ''value'')"

lemma sample_data_ok: "in_ok sample_data" "in_size sample_data = 1" "fst sample_data = 0" "in_view sample_data = A_text ''value''"
  by (simp_all add: sample_data_def in_ok_def null_state_def in_size_def in_view_def)



lemma rebuildClassH_ok:
  fixes cls :: cl_class
  shows "case rebuildClassH cls of (cls', n) \<Rightarrow>
      n \<le> sizeClassH cls \<and>
      chain SIZEOF_ClClass (ext_qualifiers (c_qualifiers cls') @ ext_properties (c_properties cls') @ ext_methods (c_methods cls'))
        (n - sizeStringBuf (c_hdr cls) - sizeArrayBuf (c_hdr cls)) \<and>
      s_items (c_qualifiers cls') = s_items (c_qualifiers cls) \<and> list_all2 same_property (s_items (c_properties cls)) (s_items (c_properties cls')) \<and>
      list_all2 same_method (s_items (c_methods cls)) (s_items (c_methods cls')) \<and>
      c_name cls' = c_name cls \<and> c_parent cls' = c_parent cls \<and> c_quals cls' = c_quals cls \<and>
      (\<forall>i. ClObjectGetClString (c_hdr cls') i = ClObjectGetClString (c_hdr cls) i \<and> ClObjectGetClArray (c_hdr cls') i = ClObjectGetClArray (c_hdr cls) i)"
proof -
  obtain q n1 where q: "copyQualifiers SIZEOF_ClClass (c_qualifiers cls) = (q, n1)" by fastforce
  obtain p n2 where p: "copyProperties (SIZEOF_ClClass + n1) (c_properties cls) = (p, n2)" by fastforce
  obtain m n3 where m: "copyMethods (SIZEOF_ClClass + n1 + n2) (c_methods cls) = (m, n3)" by fastforce
  let ?h0 = "(c_hdr cls)\<lparr>h_flags := h_flags (c_hdr cls) AND NOT HDR_Rebuild\<rparr>"
  obtain h1 n4 where s: "copyStringBuf ?h0 (c_hdr cls) = (h1, n4)" by fastforce
  obtain h2 n5 where a: "copyArrayBuf h1 (c_hdr cls) = (h2, n5)" by fastforce
  let ?n = "SIZEOF_ClClass + n1 + n2 + n3"
  have r: "rebuildClassH cls = (cls\<lparr>c_hdr := h2, c_qualifiers := q, c_properties := p, c_methods := m\<rparr>, ?n + n4 + n5)"
    by (simp add: rebuildClassH_def q p m s a)
  have sz: "n1 = sizeQualifiers (c_qualifiers cls)" "n2 = sizeProperties (c_properties cls)" "n3 = sizeMethods (c_methods cls)"
    "n4 = sizeStringBuf (c_hdr cls)" "n5 = sizeArrayBuf (c_hdr cls)"
    using copyQualifiers_size [of SIZEOF_ClClass "c_qualifiers cls"] copyProperties_size [of "SIZEOF_ClClass + n1" "c_properties cls"]
      copyMethods_size [of "SIZEOF_ClClass + n1 + n2" "c_methods cls"] copy_sizes [of ?h0 "c_hdr cls"] copy_sizes(2) [of h1 "c_hdr cls"] q p m s a by simp_all
  have fit: "?n + n4 + n5 \<le> sizeClassH cls" using ALIGN_le [OF CLALIGN_pos] by (simp add: sizeClassH_def sz)
  note c = copyQualifiers_chain [OF q] copyProperties_chain [OF p] copyMethods_chain [OF m]
  have "chain SIZEOF_ClClass (ext_qualifiers q @ ext_properties p @ ext_methods m) ?n"
    using c by (blast intro: chain_append)
  then have ch: "chain SIZEOF_ClClass (ext_qualifiers q @ ext_properties p @ ext_methods m) (?n + n4 + n5 - sizeStringBuf (c_hdr cls) - sizeArrayBuf (c_hdr cls))"
    unfolding sz(4,5) [symmetric] by (simp add: add.assoc)
  have reads: "ClObjectGetClString h2 i = ClObjectGetClString (c_hdr cls) i" "ClObjectGetClArray h2 i = ClObjectGetClArray (c_hdr cls) i" for i
    using pack_reads(1,2) [OF s a] by simp_all
  show ?thesis
    unfolding r using fit ch c reads by simp
qed

lemma rebuildInstanceH_ok:
  fixes inst :: cl_instance
  shows "case rebuildInstanceH inst of (inst', n) \<Rightarrow>
      n \<le> sizeInstanceH inst \<and>
      chain SIZEOF_ClInstance (ext_qualifiers (i_qualifiers inst') @ ext_properties (i_properties inst'))
        (n - sizeStringBuf (i_hdr inst) - sizeArrayBuf (i_hdr inst)) \<and>
      s_items (i_qualifiers inst') = s_items (i_qualifiers inst) \<and> list_all2 same_property (s_items (i_properties inst)) (s_items (i_properties inst')) \<and>
      (\<forall>i. ClObjectGetClString (i_hdr inst') i = ClObjectGetClString (i_hdr inst) i \<and> ClObjectGetClArray (i_hdr inst') i = ClObjectGetClArray (i_hdr inst) i \<and>
        ClObjectGetClObject (i_hdr inst') i = ClObjectGetClObject (i_hdr inst) i)"
proof -
  obtain q n1 where q: "copyQualifiers SIZEOF_ClInstance (i_qualifiers inst) = (q, n1)" by fastforce
  obtain p n2 where p: "copyProperties (SIZEOF_ClInstance + n1) (i_properties inst) = (p, n2)" by fastforce
  let ?h0 = "(i_hdr inst)\<lparr>h_flags := h_flags (i_hdr inst) AND NOT HDR_Rebuild\<rparr>"
  obtain h1 n4 where s: "copyStringBuf ?h0 (i_hdr inst) = (h1, n4)" by fastforce
  obtain h2 n5 where a: "copyArrayBuf h1 (i_hdr inst) = (h2, n5)" by fastforce
  let ?n = "SIZEOF_ClInstance + n1 + n2"
  have r: "rebuildInstanceH inst = (inst\<lparr>i_hdr := h2, i_qualifiers := q, i_properties := p\<rparr>, ?n + n4 + n5)"
    by (simp add: rebuildInstanceH_def q p s a)
  have sz: "n1 = sizeQualifiers (i_qualifiers inst)" "n2 = sizeProperties (i_properties inst)" "n4 = sizeStringBuf (i_hdr inst)" "n5 = sizeArrayBuf (i_hdr inst)"
    using copyQualifiers_size [of SIZEOF_ClInstance "i_qualifiers inst"] copyProperties_size [of "SIZEOF_ClInstance + n1" "i_properties inst"]
      copy_sizes [of ?h0 "i_hdr inst"] copy_sizes(2) [of h1 "i_hdr inst"] q p s a by simp_all
  have fit: "?n + n4 + n5 \<le> sizeInstanceH inst" using ALIGN_le [OF CLALIGN_pos] by (simp add: sizeInstanceH_def sz)
  note c = copyQualifiers_chain [OF q] copyProperties_chain [OF p]
  have "chain SIZEOF_ClInstance (ext_qualifiers q @ ext_properties p) ?n" using c by (blast intro: chain_append)
  then have ch: "chain SIZEOF_ClInstance (ext_qualifiers q @ ext_properties p) (?n + n4 + n5 - sizeStringBuf (i_hdr inst) - sizeArrayBuf (i_hdr inst))"
    unfolding sz(3,4) [symmetric] by (simp add: add.assoc)
  have reads: "ClObjectGetClString h2 i = ClObjectGetClString (i_hdr inst) i" "ClObjectGetClArray h2 i = ClObjectGetClArray (i_hdr inst) i"
    "ClObjectGetClObject h2 i = ClObjectGetClObject (i_hdr inst) i" for i
    using pack_reads [OF s a] by simp_all
  show ?thesis
    unfolding r using fit ch c reads by simp
qed

lemma rebuildObjectPathH_ok:
  fixes op :: cl_path
  shows "case rebuildObjectPathH op of (op', n) \<Rightarrow>
      n \<le> sizeObjectPathH op \<and> chain SIZEOF_ClObjectPath (ext_properties (o_properties op')) (n - sizeStringBuf (o_hdr op)) \<and>
      list_all2 same_property (s_items (o_properties op)) (s_items (o_properties op')) \<and>
      o_hostName op' = o_hostName op \<and> o_nameSpace op' = o_nameSpace op \<and> o_className op' = o_className op \<and>
      (\<forall>i. ClObjectGetClString (o_hdr op') i = ClObjectGetClString (o_hdr op) i) \<and> arrayBuffer (o_hdr op') = arrayBuffer (o_hdr op)"
proof -
  obtain p n1 where p: "copyProperties SIZEOF_ClObjectPath (o_properties op) = (p, n1)" by fastforce
  let ?h0 = "(o_hdr op)\<lparr>h_flags := h_flags (o_hdr op) AND NOT HDR_Rebuild\<rparr>"
  obtain h1 n2 where s: "copyStringBuf ?h0 (o_hdr op) = (h1, n2)" by fastforce
  obtain h2 n3 where a: "copyArrayBuf h1 (o_hdr op) = (h2, n3)" by fastforce
  have r: "rebuildObjectPathH op = (op\<lparr>o_hdr := h1, o_properties := p\<rparr>, SIZEOF_ClObjectPath + n1 + n2)"
    by (simp add: rebuildObjectPathH_def p s)
  have sz: "n1 = sizeProperties (o_properties op)" "n2 = sizeStringBuf (o_hdr op)"
    using copyProperties_size [of SIZEOF_ClObjectPath "o_properties op"] copy_sizes [of ?h0 "o_hdr op"] p s by simp_all
  have fit: "SIZEOF_ClObjectPath + n1 + n2 \<le> sizeObjectPathH op" using ALIGN_le [OF CLALIGN_pos] by (simp add: sizeObjectPathH_def sz)
  note c = copyProperties_chain [OF p]
  have ch: "chain SIZEOF_ClObjectPath (ext_properties p) (SIZEOF_ClObjectPath + n1 + n2 - sizeStringBuf (o_hdr op))"
    using c unfolding sz(2) [symmetric] by simp
  have "arrayBuffer h1 = arrayBuffer (o_hdr op)" using s by (auto simp: copyStringBuf_def split: option.splits)
  moreover have "strBuffer h2 = strBuffer h1" using a by (auto simp: copyArrayBuf_def split: option.splits)
  then have "ClObjectGetClString h1 = ClObjectGetClString h2" by (simp add: ClObjectGetClString_def fun_eq_iff)
  then have "ClObjectGetClString h1 i = ClObjectGetClString (o_hdr op) i" for i
    using pack_reads(1) [OF s a, of i] by simp
  ultimately show ?thesis unfolding r using fit ch c by simp
qed

lemma rebuildArgsH_ok:
  fixes arg :: cl_args
  shows "case rebuildArgsH arg of (arg', n) \<Rightarrow>
      n \<le> sizeArgsH arg \<and> chain SIZEOF_ClArgs (ext_properties (a_properties arg')) (n - sizeStringBuf (a_hdr arg) - sizeArrayBuf (a_hdr arg)) \<and>
      list_all2 same_property (s_items (a_properties arg)) (s_items (a_properties arg')) \<and>
      (\<forall>i. ClObjectGetClString (a_hdr arg') i = ClObjectGetClString (a_hdr arg) i \<and> ClObjectGetClArray (a_hdr arg') i = ClObjectGetClArray (a_hdr arg) i)"
proof -
  obtain p n1 where p: "copyProperties SIZEOF_ClArgs (a_properties arg) = (p, n1)" by fastforce
  let ?h0 = "(a_hdr arg)\<lparr>h_flags := h_flags (a_hdr arg) AND NOT HDR_Rebuild\<rparr>"
  obtain h1 n2 where s: "copyStringBuf ?h0 (a_hdr arg) = (h1, n2)" by fastforce
  obtain h2 n3 where a: "copyArrayBuf h1 (a_hdr arg) = (h2, n3)" by fastforce
  have r: "rebuildArgsH arg = (arg\<lparr>a_hdr := h2, a_properties := p\<rparr>, SIZEOF_ClArgs + n1 + n2 + n3)"
    by (simp add: rebuildArgsH_def p s a)
  have sz: "n1 = sizeProperties (a_properties arg)" "n2 = sizeStringBuf (a_hdr arg)" "n3 = sizeArrayBuf (a_hdr arg)"
    using copyProperties_size [of SIZEOF_ClArgs "a_properties arg"] copy_sizes [of ?h0 "a_hdr arg"] copy_sizes(2) [of h1 "a_hdr arg"] p s a by simp_all
  have fit: "SIZEOF_ClArgs + n1 + n2 + n3 \<le> sizeArgsH arg" using ALIGN_le [OF CLALIGN_pos] by (simp add: sizeArgsH_def sz)
  note c = copyProperties_chain [OF p]
  have ch: "chain SIZEOF_ClArgs (ext_properties p) (SIZEOF_ClArgs + n1 + n2 + n3 - sizeStringBuf (a_hdr arg) - sizeArrayBuf (a_hdr arg))"
    using c unfolding sz(2,3) [symmetric] by simp
  have "ClObjectGetClString h2 i = ClObjectGetClString (a_hdr arg) i" "ClObjectGetClArray h2 i = ClObjectGetClArray (a_hdr arg) i" for i
    using pack_reads(1,2) [OF s a] by simp_all
  then show ?thesis unfolding r using fit ch c by simp
qed


text \<open>An object with one array, rebuilt, and a second array added to it; an embedded instance, and another string replaced.\<close>

definition array_case :: "cvalue \<Rightarrow> cvalue \<Rightarrow> cvalue \<Rightarrow> (obj_hdr \<times> nat) option" where
  "array_case x y z =
     Option.bind (addClArray (new_hdr HDR_Instance) (CT_plain 8) [(0, x), (0, y)]) (\<lambda>(h1, _).
     addClArray (fst (copyArrayBuf (fst (copyStringBuf h1 h1)) h1)) (CT_plain 8) [(0, z)])"

definition blob_case :: "string \<Rightarrow> obj_hdr option" where
  "blob_case blob =
     Option.bind (addClString (new_hdr HDR_Instance) ''N'') (\<lambda>(h1, _).
     Option.bind (addClObject h1 blob) (\<lambda>(h2, _). replaceClString h2 1 ''M''))"

definition text_property :: "8 word \<Rightarrow> sval \<Rightarrow> cl_property" where
  "text_property quals v = \<lparr>p_data = \<lparr>sd_type = CT_chars, sd_state = 0, sd_val = v\<rparr>, p_id = 1, p_refName = 0, p_flags = 0,
     p_quals = quals, p_qualifiers = clearClSection\<rparr>"


section \<open>Methods and parameters\<close>

text \<open>The names of the items of a section are strings of the object.\<close>

definition named :: "('a \<Rightarrow> nat) \<Rightarrow> string list \<Rightarrow> 'a cl_section \<Rightarrow> bool" where
  "named nm ss s \<longleftrightarrow> section_ok s \<and> length (s_items s) < 2 ^ 14 \<and> (\<forall>x \<in> set (s_items s). 0 < nm x \<and> nm x \<le> length ss)"

lemma add_method_ok:
  assumes t: "texts hdr ss" "length ss < 2 ^ 14" and n: "CHR 0x00 \<notin> set ident" and ok: "named m_id ss mths"
    and new: "map tolower ident \<notin> map tolower ` (\<lambda>m. str ss (m_id m)) ` set (s_items mths)"
  shows "\<exists>hdr' mths'. addClassMethodH hdr mths ident t = Some (hdr', mths', Suc (length (s_items mths))) \<and> texts hdr' (ss @ [ident]) \<and> section_ok mths' \<and>
    s_items mths' = s_items mths @ [\<lparr>m_id = Suc (length ss), m_type = t, m_quals = 0, m_qualifiers = clearClSection, m_parameters = clearClSection\<rparr>]"
proof -
  have "ClClassLocateMethod hdr mths ident = Some 0"
    using locate_ok [OF t(1), of "s_items mths" m_id ident 0] ok new by (simp add: ClClassLocateMethod_def named_def index_of_0 image_image)
  moreover obtain hdr' where h: "addClString hdr ident = Some (hdr', Suc (length ss))" "texts hdr' (ss @ [ident])"
    using texts_add [OF t n] by blast
  let ?m = "\<lparr>m_id = Suc (length ss), m_type = t, m_quals = 0, m_qualifiers = clearClSection, m_parameters = clearClSection\<rparr>"
  obtain f mths' where "grow_append hdr' mths 8 ?m = Some (set_flag f hdr', mths')" "section_ok mths'" "s_items mths' = s_items mths @ [?m]"
    using grow_append_ok [of mths 8 hdr' ?m] ok by (auto simp: named_def)
  ultimately show ?thesis using h by (simp add: addClassMethodH_def)
qed

lemma add_parameter_ok:
  assumes t: "texts hdr ss" "length ss + 1 < 2 ^ 14" and n: "CHR 0x00 \<notin> set ident" "\<forall>r. refName = Some r \<longrightarrow> CHR 0x00 \<notin> set r"
    and ok: "named pa_id ss (m_parameters m)"
  shows "\<exists>hdr' prms' r rs. ClClassAddMethParameter hdr m ident t asize refName = Some (hdr', m\<lparr>m_parameters := prms'\<rparr>, Suc (length (s_items (m_parameters m)))) \<and>
    texts hdr' (ss @ ident # rs) \<and> section_ok prms' \<and> rs = (case refName of None \<Rightarrow> [] | Some s \<Rightarrow> [s]) \<and>
    s_items prms' = s_items (m_parameters m) @ [\<lparr>pa_id = Suc (length ss), pa_type = t, pa_arraySize = asize, pa_refName = r, pa_qualifiers = clearClSection\<rparr>] \<and>
    r = (if refName = None then 0 else Suc (Suc (length ss)))"
proof -
  obtain hdr1 where h1: "addClString hdr ident = Some (hdr1, Suc (length ss))" "texts hdr1 (ss @ [ident])"
    using texts_add [OF t(1) _ n(1)] t(2) by auto
  obtain hdr2 r rs where h2: "(case refName of None \<Rightarrow> Some (hdr1, 0) | Some s \<Rightarrow> addClString hdr1 s) = Some (hdr2, r)" "texts hdr2 (ss @ ident # rs)"
    "r = (if refName = None then 0 else Suc (Suc (length ss)))" "rs = (case refName of None \<Rightarrow> [] | Some s \<Rightarrow> [s])"
  proof (cases refName)
    case None
    then show thesis using that [of hdr1 0 "[]"] h1(2) by simp
  next
    case (Some s)
    then have "CHR 0x00 \<notin> set s" using n(2) by blast
    then obtain h where "addClString hdr1 s = Some (h, Suc (length (ss @ [ident])))" "texts h ((ss @ [ident]) @ [s])"
      using texts_add [OF h1(2), of s] t(2) by auto
    then show thesis using Some by (intro that [of h "Suc (Suc (length ss))" "[s]"]) simp_all
  qed
  let ?p = "\<lparr>pa_id = Suc (length ss), pa_type = t, pa_arraySize = asize, pa_refName = r, pa_qualifiers = clearClSection\<rparr>"
  have mk: "makeClParameter hdr ident t asize refName = Some (hdr2, ?p)" using h1(1) h2(1) by (simp add: makeClParameter_def)
  have nm: "ClObjectGetClString hdr2 (Suc (length ss)) = Some (Some ident)" using texts_str [OF h2(2), of "Suc (length ss)"] by (simp add: str_def nth_append)
  obtain f prms' where "grow_append hdr2 (m_parameters m) 4 ?p = Some (set_flag f hdr2, prms')" "section_ok prms'" "s_items prms' = s_items (m_parameters m) @ [?p]"
    using grow_append_ok [of "m_parameters m" 4 hdr2 ?p] ok by (auto simp: named_def)
  note g = this
  have "ClClassAddMethParameter hdr m ident t asize refName = Some (set_flag f hdr2, m\<lparr>m_parameters := prms'\<rparr>, Suc (length (s_items (m_parameters m))))"
    using mk nm g(1,3) by (simp add: ClClassAddMethParameter_def addClParameter_def locateParameter_def)
  then show ?thesis using g(2,3) h2(3,4) texts_flag [THEN iffD2, OF h2(2), of f]
    by (intro exI [of _ "set_flag f hdr2"] exI [of _ prms'] exI [of _ r] exI [of _ rs]) blast
qed

lemma method_read:
  assumes "texts hdr ss" "j < length (s_items mths)" "0 < m_id (s_items mths ! j)" "m_id (s_items mths ! j) \<le> length ss"
  shows "ClClassGetMethodAt hdr mths (int j) = Some (Inr (m_type (s_items mths ! j), Some (str ss (m_id (s_items mths ! j))), m_quals (s_items mths ! j)))"
  using texts_str [OF assms(1,3,4)] assms(2) by (simp add: ClClassGetMethodAt_def Let_def)

lemma add_method_read:
  assumes t: "texts hdr ss" "length ss < 2 ^ 14" and n: "CHR 0x00 \<notin> set ident" and ok: "named m_id ss mths"
    and new: "map tolower ident \<notin> map tolower ` (\<lambda>m. str ss (m_id m)) ` set (s_items mths)"
  shows "\<exists>hdr' mths'. addClassMethodH hdr mths ident t = Some (hdr', mths', Suc (length (s_items mths))) \<and> texts hdr' (ss @ [ident]) \<and> section_ok mths' \<and>
    ClClassGetMethodAt hdr' mths' (int (length (s_items mths))) = Some (Inr (t, Some ident, 0)) \<and>
    (\<forall>j < length (s_items mths). ClClassGetMethodAt hdr' mths' (int j) = ClClassGetMethodAt hdr mths (int j))"
proof -
  have ids: "0 < m_id (s_items mths ! j)" "m_id (s_items mths ! j) \<le> length ss" if "j < length (s_items mths)" for j
    using ok nth_mem [OF that] by (auto simp: named_def)
  from add_method_ok [OF t n ok new, of t] obtain hdr' mths' where
    a: "addClassMethodH hdr mths ident t = Some (hdr', mths', Suc (length (s_items mths)))" "texts hdr' (ss @ [ident])" "section_ok mths'"
      "s_items mths' = s_items mths @ [\<lparr>m_id = Suc (length ss), m_type = t, m_quals = 0, m_qualifiers = clearClSection, m_parameters = clearClSection\<rparr>]"
    by blast
  have "ClClassGetMethodAt hdr' mths' (int (length (s_items mths))) = Some (Inr (t, Some ident, 0))"
    using method_read [OF a(2), of "length (s_items mths)" mths'] a(4) by (simp add: str_def)
  moreover have "ClClassGetMethodAt hdr' mths' (int j) = ClClassGetMethodAt hdr mths (int j)" if j: "j < length (s_items mths)" for j
    using method_read [OF a(2), of j mths'] method_read [OF t(1) j ids [OF j]] j a(4) ids [OF j] by (simp add: nth_append str_append)
  ultimately show ?thesis using a by blast
qed

lemma add_method_again:
  assumes t: "texts hdr ss" and ok: "named m_id ss mths" and old: "map tolower ident \<in> map tolower ` (\<lambda>m. str ss (m_id m)) ` set (s_items mths)"
  shows "\<exists>k < length (s_items mths). map tolower ident = map tolower (str ss (m_id (s_items mths ! k))) \<and>
    addClassMethodH hdr mths ident t = Some (hdr, mths\<lparr>s_items := (s_items mths)[k := (s_items mths ! k)\<lparr>m_type := t\<rparr>]\<rparr>, Suc k)"
proof -
  have "index_of (map (\<lambda>m. str ss (m_id m)) (s_items mths)) ident 0 \<noteq> 0" using old by (simp add: index_of_0 image_image)
  from index_of_pos [OF this] obtain k where k: "k < length (s_items mths)" "index_of (map (\<lambda>m. str ss (m_id m)) (s_items mths)) ident 0 = Suc k"
    "map tolower ident = map tolower (str ss (m_id (s_items mths ! k)))"
    by auto
  then have "ClClassLocateMethod hdr mths ident = Some (Suc k)"
    using locate_ok [OF t, of "s_items mths" m_id ident 0] ok by (simp add: ClClassLocateMethod_def named_def)
  then show ?thesis using k by (intro exI [of _ k]) (simp add: addClassMethodH_def)
qed

lemma add_parameter_read:
  assumes "texts hdr ss" "length ss + 1 < 2 ^ 14" "CHR 0x00 \<notin> set ident" "\<forall>r. refName = Some r \<longrightarrow> CHR 0x00 \<notin> set r" "named pa_id ss (m_parameters m)"
  shows "\<exists>hdr' m'. ClClassAddMethParameter hdr m ident t asize refName = Some (hdr', m', Suc (length (s_items (m_parameters m)))) \<and>
      m' = m\<lparr>m_parameters := m_parameters m'\<rparr> \<and> take (length (s_items (m_parameters m))) (s_items (m_parameters m')) = s_items (m_parameters m) \<and>
      ClClassGetMethParameterAt hdr' m' (int (length (s_items (m_parameters m)))) = Some (Inr ((t, asize, refName), Some ident))"
proof -
  from add_parameter_ok [OF assms, of t asize] obtain hdr' prms' r rs where
    p: "ClClassAddMethParameter hdr m ident t asize refName = Some (hdr', m\<lparr>m_parameters := prms'\<rparr>, Suc (length (s_items (m_parameters m))))"
      "texts hdr' (ss @ ident # rs)" "rs = (case refName of None \<Rightarrow> [] | Some s \<Rightarrow> [s])"
      "s_items prms' = s_items (m_parameters m) @ [\<lparr>pa_id = Suc (length ss), pa_type = t, pa_arraySize = asize, pa_refName = r, pa_qualifiers = clearClSection\<rparr>]"
      "r = (if refName = None then 0 else Suc (Suc (length ss)))"
    by blast
  have "ClObjectGetClString hdr' r = Some refName"
    using p(3,5) texts_str [OF p(2), of r] by (cases refName) (simp_all add: ClObjectGetClString_def str_def nth_append)
  moreover have "ClObjectGetClString hdr' (Suc (length ss)) = Some (Some ident)" using texts_str [OF p(2), of "Suc (length ss)"] by (simp add: str_def nth_append)
  ultimately have "ClClassGetMethParameterAt hdr' (m\<lparr>m_parameters := prms'\<rparr>) (int (length (s_items (m_parameters m)))) = Some (Inr ((t, asize, refName), Some ident))"
    using p(4) by (simp add: ClClassGetMethParameterAt_def Let_def)
  then show ?thesis
    using p(1,4) by (intro exI [of _ hdr'] exI [of _ "m\<lparr>m_parameters := prms'\<rparr>"]) simp
qed



end
