(* ===== verification/ClassRegister.thy ===== *)
theory ClassRegister
  imports HashTable GenericList MRWLock
begin

text \<open>
  The class register of a namespace, \<open>src/classProvider.c\<close>: the table of classes, the inheritance table
  that maps a class to the list of its direct subclasses, the repository file, and the handlers of the
  class provider on them. The tables are those of the theory \<open>HashTable\<close>, the lists of subclasses those of
  \<open>GenericList\<close>: a value of the inheritance table is a pointer to a list, here its index in the field
  \<open>lists\<close>, and a list has one cursor, which every loop over it moves. \<open>brk\<close> is the next unused address
  for a list element.

  A class is its name, its superclass, its class qualifiers and the rest of its content; how
  \<open>cpyClass\<close> copies that content is a parameter \<open>merge\<close> (the qualifier bits it combines are modelled).
  The repository file is the sequence of its records. Reading the file is modelled from the records on.

  Shown: creating and deleting classes refines a map from names, compared without case, to classes; the
  inheritance table stays the inverse of the superclass relation, which stays a forest; the recursive
  loops over the subclasses end and visit every direct or indirect subclass exactly once. And two
  interleavings the lock does not exclude: two creations of one class, and two loops over one list.
\<close>

section \<open>State\<close>

record 'd cls =
  cls_name :: string
  cls_super :: "string option"
  cls_quals :: "8 word"
  cls_body :: 'd

definition isAbstract :: "'d cls \<Rightarrow> bool" where
  "isAbstract c \<longleftrightarrow> cls_quals c AND ClClass_Q_Abstract \<noteq> 0"

definition isAssociation :: "'d cls \<Rightarrow> bool" where
  "isAssociation c \<longleftrightarrow> cls_quals c AND ClClass_Q_Association \<noteq> 0"

text \<open>
  A record of the repository file: a class, a version record with its identification and object
  implementation level, or any other record (a version record of the other byte order is one).
\<close>

datatype 'd rep_record = ClassRecord "'d cls" | VersionRecord string "16 word" | OtherRecord string

record 'd class_register =
  ht :: "(char_key, 'd cls) hash_table"
  itab :: "(char_key, nat) hash_table"
  lists :: "string glist list"
  brk :: nat
  assocs :: int
  topAssocs :: int
  repfile :: "'d rep_record list option"

section \<open>The register\<close>

definition getClass :: "'d class_register \<Rightarrow> string \<Rightarrow> 'd cls option" where
  "getClass cr clsName = name_get (ht cr) clsName"

definition getChildren :: "'d class_register \<Rightarrow> string \<Rightarrow> nat option" where
  "getChildren cr className = name_get (itab cr) className"

definition putClass :: "'d class_register \<Rightarrow> 'd cls \<Rightarrow> 'd class_register" where
  "putClass cr c = cr\<lparr>ht := name_put (ht cr) (cls_name c) c\<rparr>"

text \<open>The list of subclasses of \<open>p\<close>, made if there is none, with \<open>cn\<close> put in front.\<close>

definition add_child :: "'d class_register \<Rightarrow> string \<Rightarrow> string \<Rightarrow> 'd class_register option" where
  "add_child cr p cn =
     (let (cr, i) = (case name_get (itab cr) p of
            Some i \<Rightarrow> (cr, i)
          | None \<Rightarrow> (cr\<lparr>itab := name_put (itab cr) p (length (lists cr)), lists := lists cr @ [newList]\<rparr>, length (lists cr)))
      in map_option (\<lambda>ul. cr\<lparr>lists := (lists cr)[i := ul], brk := brk cr + 1\<rparr>)
           (listPrepend (brk cr) (lists cr ! i) (Some cn)))"

fun build_from :: "(char_key \<times> 'd cls) list \<Rightarrow> 'd class_register \<Rightarrow> 'd class_register option" where
  "build_from [] cr = Some cr"
| "build_from ((k, cc) # rest) cr =
     (case cls_super cc of
        None \<Rightarrow> build_from rest cr
      | Some p \<Rightarrow> (case add_child cr p (cls_name cc) of None \<Rightarrow> None | Some cr' \<Rightarrow> build_from rest cr'))"

definition buildInheritanceTable :: "'d class_register \<Rightarrow> 'd class_register option" where
  "buildInheritanceTable cr =
     (case iterate (length (stored (ht cr))) (ht cr) (hashTableGetFirst (ht cr)) of
        None \<Rightarrow> None
      | Some ps \<Rightarrow> build_from ps (cr\<lparr>itab := new_name_table 61\<rparr>))"

text \<open>
  The loop of \<open>newClassRegister\<close> over the records after the first, and the register it makes. The first record
  is never a class of the register: a version record is checked, a class record is passed over.
  \<open>None\<close> is the null pointer returned for a file that is skipped.
\<close>

fun load_classes :: "'d rep_record list \<Rightarrow> 'd class_register \<Rightarrow> 'd class_register option" where
  "load_classes [] cr = Some cr"
| "load_classes (ClassRecord cc # rest) cr =
     load_classes rest
       (if take 4 (cls_name cc) \<noteq> ''DMY_'' then
          cr\<lparr>ht := name_put (ht cr) (cls_name cc) cc,
             assocs := assocs cr + (if isAssociation cc then 1 else 0),
             topAssocs := topAssocs cr + (if isAssociation cc \<and> cls_super cc = None then 1 else 0)\<rparr>
        else cr)"
| "load_classes (_ # rest) cr = None"

definition ClCurrentObjImplLevel :: "16 word" where "ClCurrentObjImplLevel = 3"

definition ClVerifyObjImplLevel :: "(string \<times> 16 word) option \<Rightarrow> bool" where
  "ClVerifyObjImplLevel vr = (case vr of None \<Rightarrow> True | Some (_, level) \<Rightarrow> level = ClCurrentObjImplLevel)"

definition first_record :: "'d rep_record \<Rightarrow> bool" where
  "first_record r = (case r of
     VersionRecord vid level \<Rightarrow> vid = ''sfcb-rep'' \<and> ClVerifyObjImplLevel (Some (vid, level))
   | ClassRecord _ \<Rightarrow> ClVerifyObjImplLevel None
   | OtherRecord _ \<Rightarrow> False)"

definition load_records :: "'d rep_record list \<Rightarrow> 'd class_register \<Rightarrow> 'd class_register option" where
  "load_records recs cr = (case recs of [] \<Rightarrow> Some cr | r # rest \<Rightarrow> if first_record r then load_classes rest cr else None)"

definition empty_register :: "'d rep_record list option \<Rightarrow> 'd class_register" where
  "empty_register rep = \<lparr>ht = new_name_table 61, itab = new_name_table 61, lists = [], brk = 0,
     assocs = 0, topAssocs = 0, repfile = rep\<rparr>"

definition newClassRegister :: "'d rep_record list option \<Rightarrow> 'd class_register option" where
  "newClassRegister rep =
     (case rep of
        None \<Rightarrow> Some (empty_register None)
      | Some recs \<Rightarrow> Option.bind (load_records recs (empty_register (Some recs))) buildInheritanceTable)"

definition removeChild :: "'d class_register \<Rightarrow> string \<Rightarrow> string \<Rightarrow> 'd class_register option" where
  "removeChild cr pn chd =
     (case name_get (itab cr) pn of
        None \<Rightarrow> Some cr
      | Some i \<Rightarrow>
          (case removeChild_from (Some (lists cr ! i)) chd of
             Some (Some ul) \<Rightarrow> Some (cr\<lparr>lists := (lists cr)[i := ul]\<rparr>)
           | _ \<Rightarrow> None))"

text \<open>
  \<open>mergeParents\<close> copies the superclass and then the class into a new class, \<open>cpyClass\<close> adding its
  qualifier bits to those of the target.
\<close>

definition cpyClass :: "('d \<Rightarrow> 'd \<Rightarrow> 'd) \<Rightarrow> 'd cls \<Rightarrow> 'd cls \<Rightarrow> 'd cls" where
  "cpyClass merge cl cc = cl\<lparr>cls_quals := cls_quals cl OR cls_quals cc, cls_body := merge (cls_body cl) (cls_body cc)\<rparr>"

definition mergeParents :: "('d \<Rightarrow> 'd \<Rightarrow> 'd) \<Rightarrow> 'd class_register \<Rightarrow> 'd cls \<Rightarrow> string \<Rightarrow> 'd cls \<Rightarrow> 'd cls option" where
  "mergeParents merge cr cl p cc =
     (case getClass cr p of None \<Rightarrow> None
      | Some pcc \<Rightarrow> Some (cpyClass merge (cpyClass merge cl pcc) cc))"

text \<open>\<open>None\<close>: the name of the repository file was never set, or a list is not in order.\<close>

definition addClass :: "('d \<Rightarrow> 'd \<Rightarrow> 'd) \<Rightarrow> 'd \<Rightarrow> 'd class_register \<Rightarrow> 'd cls \<Rightarrow> string \<Rightarrow> string option
    \<Rightarrow> ('d class_register \<times> cmpi_rc) option" where
  "addClass merge body0 cr ccp cn p =
     (let merged = (case p of
          None \<Rightarrow> Some ccp
        | Some pn \<Rightarrow> mergeParents merge cr \<lparr>cls_name = cn, cls_super = Some pn, cls_quals = 0, cls_body = body0\<rparr> pn ccp)
      in case merged of
        None \<Rightarrow> Some (cr, ERR_INVALID_SUPERCLASS)
      | Some cc \<Rightarrow>
          (case repfile cr of None \<Rightarrow> None
           | Some recs \<Rightarrow>
               (let cr1 = cr\<lparr>ht := name_put (ht cr) cn cc, repfile := Some (recs @ [ClassRecord cc]),
                      assocs := assocs cr + (if isAssociation cc then 1 else 0),
                      topAssocs := topAssocs cr + (if isAssociation cc \<and> p = None then 1 else 0)\<rparr>
                in case p of None \<Rightarrow> Some (cr1, RC_OK)
                   | Some pn \<Rightarrow> map_option (\<lambda>cr2. (cr2, RC_OK)) (add_child cr1 pn cn))))"

definition keep_record :: "string \<Rightarrow> 'd rep_record \<Rightarrow> bool" where
  "keep_record clsName r = (case r of ClassRecord c \<Rightarrow> strcasecmp clsName (cls_name c) \<noteq> 0 | _ \<Rightarrow> True)"

definition removeClass :: "'d class_register \<Rightarrow> string \<Rightarrow> 'd class_register option" where
  "removeClass cr clsName =
     (case repfile cr of None \<Rightarrow> None
      | Some recs \<Rightarrow>
          Some (cr\<lparr>ht := name_remove (ht cr) clsName, repfile := Some (filter (keep_record clsName) recs)\<rparr>))"

section \<open>Handlers\<close>

definition ClassProviderGetClass :: "'d class_register \<Rightarrow> string \<Rightarrow> 'd cls option \<times> cmpi_rc" where
  "ClassProviderGetClass cr cn = (case getClass cr cn of Some cl \<Rightarrow> (Some cl, RC_OK) | None \<Rightarrow> (None, ERR_NOT_FOUND))"

text \<open>The checks of \<open>ClassProviderCreateClass\<close> are made before the write lock is taken, the rest under it.\<close>

definition create_check :: "'d class_register \<Rightarrow> string \<Rightarrow> string option \<Rightarrow> cmpi_rc" where
  "create_check cr cn pn =
     (if getClass cr cn \<noteq> None then ERR_ALREADY_EXISTS
      else case pn of None \<Rightarrow> RC_OK
        | Some p \<Rightarrow> if getClass cr p = None then ERR_INVALID_SUPERCLASS else RC_OK)"

definition ClassProviderCreateClass :: "('d \<Rightarrow> 'd \<Rightarrow> 'd) \<Rightarrow> 'd \<Rightarrow> 'd class_register \<Rightarrow> 'd cls
    \<Rightarrow> ('d class_register \<times> cmpi_rc) option" where
  "ClassProviderCreateClass merge body0 cr cc =
     (let rc = create_check cr (cls_name cc) (cls_super cc) in
      if rc \<noteq> RC_OK then Some (cr, rc)
      else addClass merge body0 cr cc (cls_name cc) (cls_super cc))"

definition delete_check :: "'d class_register \<Rightarrow> string \<Rightarrow> cmpi_rc" where
  "delete_check cr cn =
     (if getClass cr cn = None then ERR_NOT_FOUND
      else case getChildren cr cn of None \<Rightarrow> RC_OK
        | Some i \<Rightarrow> if listSize (lists cr ! i) \<noteq> 0 then ERR_CLASS_HAS_CHILDREN else RC_OK)"

definition ClassProviderDeleteClass :: "'d class_register \<Rightarrow> string \<Rightarrow> ('d class_register \<times> cmpi_rc) option" where
  "ClassProviderDeleteClass cr cn =
     (let rc = delete_check cr cn in
      if rc \<noteq> RC_OK then Some (cr, rc)
      else case getClass cr cn of None \<Rightarrow> None
        | Some cl \<Rightarrow>
            (case (case cls_super cl of None \<Rightarrow> Some cr | Some pn \<Rightarrow> removeChild cr pn cn) of
               None \<Rightarrow> None
             | Some cr' \<Rightarrow> map_option (\<lambda>cr''. (cr'', RC_OK)) (removeClass cr' cn)))"

section \<open>Loops over the subclasses\<close>

definition first_child :: "'d class_register \<Rightarrow> nat \<Rightarrow> ('d class_register \<times> string option) option" where
  "first_child cr i = map_option (\<lambda>(ul, c). (cr\<lparr>lists := (lists cr)[i := ul]\<rparr>, c)) (listGetFirst (lists cr ! i))"

definition next_child :: "'d class_register \<Rightarrow> nat \<Rightarrow> ('d class_register \<times> string option) option" where
  "next_child cr i = map_option (\<lambda>(ul, c). (cr\<lparr>lists := (lists cr)[i := ul]\<rparr>, c)) (listGetNext (lists cr ! i))"

text \<open>
  The recursive loops \<open>loopOnChildNames\<close>, \<open>loopOnChildren\<close>, \<open>loopOnChildCount\<close> and \<open>loopOnChildChars\<close>
  have one shape: \<open>f\<close> is what they return for a subclass before they descend into it. \<open>child\<close> is the
  element the cursor of list \<open>i\<close> is on.
\<close>

partial_function (option) loop_children ::
  "('d class_register \<Rightarrow> string \<Rightarrow> 'o list option) \<Rightarrow> 'd class_register \<Rightarrow> nat \<Rightarrow> string option \<Rightarrow> ('d class_register \<times> 'o list) option" where
  "loop_children f cr i child =
     (case child of
        None \<Rightarrow> Some (cr, [])
      | Some c \<Rightarrow>
          Option.bind (f cr c) (\<lambda>o1.
          Option.bind (case getChildren cr c of
              None \<Rightarrow> Some (cr, [])
            | Some j \<Rightarrow> Option.bind (first_child cr j) (\<lambda>(cr1, c1). loop_children f cr1 j c1)) (\<lambda>(cr2, o2).
          Option.bind (next_child cr2 i) (\<lambda>(cr3, c3).
          Option.bind (loop_children f cr3 i c3) (\<lambda>(cr4, o4). Some (cr4, o1 @ o2 @ o4))))))"

definition loop_on :: "('d class_register \<Rightarrow> string \<Rightarrow> 'o list option) \<Rightarrow> 'd class_register \<Rightarrow> string \<Rightarrow> ('d class_register \<times> 'o list) option" where
  "loop_on f cr cn =
     (case getChildren cr cn of
        None \<Rightarrow> Some (cr, [])
      | Some i \<Rightarrow> Option.bind (first_child cr i) (\<lambda>(cr1, c1). loop_children f cr1 i c1))"

definition loopOnChildNames :: "'d class_register \<Rightarrow> string \<Rightarrow> ('d class_register \<times> string list) option" where
  "loopOnChildNames = loop_on (\<lambda>cr child. Some [child])"

text \<open>A subclass the table of classes does not know is returned as a null pointer.\<close>

definition loopOnChildren :: "'d class_register \<Rightarrow> string \<Rightarrow> ('d class_register \<times> 'd cls option list) option" where
  "loopOnChildren = loop_on (\<lambda>cr child. Some [getClass cr child])"

text \<open>\<open>repCandidate\<close> climbs to the superclasses; \<open>has_provider\<close> is the answer of the provider register for instance providers.\<close>

partial_function (option) provider_above :: "(string \<Rightarrow> bool) \<Rightarrow> 'd class_register \<Rightarrow> string \<Rightarrow> 'd cls \<Rightarrow> bool option" where
  "provider_above has_provider cr cn cl =
     (if has_provider cn then Some True
      else case cls_super cl of None \<Rightarrow> Some False
        | Some p \<Rightarrow> (case getClass cr p of None \<Rightarrow> (if has_provider p then Some True else None)
                     | Some pcl \<Rightarrow> provider_above has_provider cr p pcl))"

definition repCandidate :: "(string \<Rightarrow> bool) \<Rightarrow> 'd class_register \<Rightarrow> string \<Rightarrow> bool option" where
  "repCandidate has_provider cr cn =
     (case getClass cr cn of None \<Rightarrow> None
      | Some cl \<Rightarrow>
          if isAbstract cl then Some False
          else if strcasecmp cn ''cim_indicationfilter'' = 0 \<or> strcasecmp cn ''cim_indicationsubscription'' = 0 then Some False
          else map_option Not (provider_above has_provider cr cn cl))"

definition candidate :: "(string \<Rightarrow> bool) \<Rightarrow> bool \<Rightarrow> 'd class_register \<Rightarrow> string \<Rightarrow> string list option" where
  "candidate has_provider ignprov cr child =
     (if ignprov then Some [child]
      else map_option (\<lambda>b. if b then [child] else []) (repCandidate has_provider cr child))"

definition loopOnChildChars :: "(string \<Rightarrow> bool) \<Rightarrow> bool \<Rightarrow> 'd class_register \<Rightarrow> string \<Rightarrow> ('d class_register \<times> string list) option" where
  "loopOnChildChars has_provider ignprov = loop_on (candidate has_provider ignprov)"

definition loopOnChildCount :: "(string \<Rightarrow> bool) \<Rightarrow> bool \<Rightarrow> 'd class_register \<Rightarrow> string \<Rightarrow> ('d class_register \<times> nat) option" where
  "loopOnChildCount has_provider ignprov cr cn =
     map_option (\<lambda>(cr', out). (cr', length out)) (loop_on (candidate has_provider ignprov) cr cn)"

partial_function (option) traverse_from :: "'d class_register \<Rightarrow> nat \<Rightarrow> string option \<Rightarrow> string \<Rightarrow> ('d class_register \<times> bool) option" where
  "traverse_from cr i child chldn =
     (case child of
        None \<Rightarrow> Some (cr, False)
      | Some c \<Rightarrow>
          if strcasecmp c chldn = 0 then Some (cr, True)
          else Option.bind (case getChildren cr c of
              None \<Rightarrow> Some (cr, False)
            | Some j \<Rightarrow> Option.bind (first_child cr j) (\<lambda>(cr1, c1). traverse_from cr1 j c1 chldn)) (\<lambda>(cr2, found).
          if found then Some (cr2, True)
          else Option.bind (next_child cr2 i) (\<lambda>(cr3, c3). traverse_from cr3 i c3 chldn)))"

definition traverseChildren :: "'d class_register \<Rightarrow> string \<Rightarrow> string \<Rightarrow> ('d class_register \<times> cmpi_rc) option" where
  "traverseChildren cr parent chldn =
     (case getChildren cr parent of
        None \<Rightarrow> Some (cr, ERR_FAILED)
      | Some i \<Rightarrow> Option.bind (first_child cr i) (\<lambda>(cr1, c1).
          map_option (\<lambda>(cr2, found). (cr2, if found then RC_OK else ERR_FAILED)) (traverse_from cr1 i c1 chldn)))"

section \<open>Lists of a register\<close>

text \<open>No element of the list has an address from \<open>b\<close> on.\<close>

definition fresh_from :: "nat \<Rightarrow> 'a glist \<Rightarrow> bool" where
  "fresh_from b g \<longleftrightarrow> (\<forall>a \<ge> b. mem g (Elem a) = None)"

lemma fresh_from_new: "fresh_from b newList"
  by (simp add: fresh_from_def newList_def initialize_list_def)

lemma fresh_from_mono: "fresh_from b g \<Longrightarrow> b \<le> c \<Longrightarrow> fresh_from c g"
  by (simp add: fresh_from_def)

lemma set_next_dom: "set_next m p q = Some m' \<Longrightarrow> m' r = None \<longleftrightarrow> m r = None"
  by (auto simp: set_next_def split: option.splits if_splits)

lemma set_previous_dom: "set_previous m p q = Some m' \<Longrightarrow> m' r = None \<longleftrightarrow> m r = None"
  by (auto simp: set_previous_def split: option.splits if_splits)

lemma free_elem_dom: "free_elem m p = Some m' \<Longrightarrow> m r = None \<Longrightarrow> m' r = None"
  by (auto simp: free_elem_def split: ptr.splits if_splits)

lemma fresh_from_prepend: "listPrepend b g (Some x) = Some g' \<Longrightarrow> fresh_from b g \<Longrightarrow> fresh_from (b + 1) g'"
  by (auto simp: fresh_from_def listPrepend_def add_to_beginning_def bind_eq_Some_conv Let_def set_next_dom set_previous_dom)

lemma move_to_mem: "move_to g p = Some (g', x) \<Longrightarrow> mem g' = mem g"
  by (auto simp: move_to_def)

lemma cursor_moves:
  "listGetFirst g = Some (g', x) \<Longrightarrow> mem g' = mem g"
  "listGetNext g = Some (g', x) \<Longrightarrow> mem g' = mem g"
  by (auto simp: listGetFirst_def first_in_list_def listGetNext_def next_in_list_def bind_eq_Some_conv
      reset_to_beginning_def dest!: move_to_mem)

lemma remove_current_dom:
  assumes "listRemoveCurrent g = Some (g', x)" "mem g (Elem a) = None"
  shows "mem g' (Elem a) = None"
  using assms
  by (auto simp: listRemoveCurrent_def remove_current_def park_current_def bind_eq_Some_conv Let_def set_next_dom
      set_previous_dom dest!: free_elem_dom [where r = "Elem a"] split: if_splits option.splits)

lemma remove_match_dom:
  "list_on g xs x ys \<Longrightarrow> remove_match listGetNext listRemoveCurrent P g (Some x) = Some g' \<Longrightarrow>
     mem g (Elem a) = None \<Longrightarrow> mem g' (Elem a) = None"
proof (induction ys arbitrary: g xs x)
  case Nil
  obtain h where h: "listGetNext g = Some (h, None)" using ul.next_Nil [OF Nil.prems(1)] by blast
  show ?case
    using Nil.prems(2,3) h
    by (auto simp: remove_match.simps [of _ _ _ g] remove_match.simps [of _ _ _ h] cursor_moves
        dest: remove_current_dom split: if_splits option.splits)
next
  case (Cons y ys)
  obtain h where h: "listGetNext g = Some (h, Some y)" "list_on h (xs @ [x]) y ys"
    using ul.next_Cons [OF Cons.prems(1)] by blast
  show ?case
  proof (cases "P x")
    case True
    then show ?thesis using Cons.prems(2,3)
      by (auto simp: remove_match.simps [of _ _ _ g] dest: remove_current_dom split: option.splits)
  next
    case False
    then have "remove_match listGetNext listRemoveCurrent P h (Some y) = Some g'"
      using Cons.prems(2) h(1) by (simp add: remove_match.simps [of _ _ _ g])
    with Cons.IH [OF h(2)] Cons.prems(3) cursor_moves(2) [OF h(1)] show ?thesis by simp
  qed
qed

lemma fresh_from_removeChild:
  assumes "list_holds g xs" "removeChild_from (Some g) chd = Some (Some g')" "fresh_from b g"
  shows "fresh_from b g'"
proof -
  obtain h x where h: "listGetFirst g = Some (h, x)"
    "remove_match listGetNext listRemoveCurrent (\<lambda>c. strcasecmp c chd = 0) h x = Some g'"
    using assms(2) by (auto simp: removeChild_from_def split: option.splits)
  show ?thesis
  proof (cases xs)
    case Nil
    with ul.first_Nil [of g] assms(1) h have "x = None" by auto
    with h have "g' = h" by (simp add: remove_match.simps)
    with assms(3) cursor_moves(1) [OF h(1)] show ?thesis by (simp add: fresh_from_def)
  next
    case (Cons y ys)
    with ul.first_Cons [of g y ys] assms(1) h(1) have "x = Some y" "list_on h [] y ys" by auto
    with remove_match_dom [of h "[]" y ys] h(2) assms(3) cursor_moves(1) [OF h(1)] show ?thesis
      by (simp add: fresh_from_def)
  qed
qed

section \<open>The register as a map of classes\<close>

text \<open>
  What a register stands for: \<open>C\<close> gives the class of a name in lower case, \<open>K\<close> the names of its direct
  subclasses, in the order of the list.
\<close>

definition reg_rep :: "'d class_register \<Rightarrow> (string \<Rightarrow> 'd cls option) \<Rightarrow> (string \<Rightarrow> string list) \<Rightarrow> bool" where
  "reg_rep cr C K \<longleftrightarrow>
     name_table (ht cr) \<and> name_table (itab cr) \<and>
     (\<forall>n. name_get (ht cr) n = C (lower n)) \<and>
     (\<forall>n m i. name_get (itab cr) n = Some i \<longrightarrow> name_get (itab cr) m = Some i \<longrightarrow> lower n = lower m) \<and>
     (\<forall>n. name_get (itab cr) n = None \<longrightarrow> K (lower n) = []) \<and>
     (\<forall>n i. name_get (itab cr) n = Some i \<longrightarrow> i < length (lists cr) \<and> list_holds (lists cr ! i) (K (lower n))) \<and>
     (\<forall>g \<in> set (lists cr). fresh_from (brk cr) g)"

text \<open>
  The classes form a forest: a class is filed under its name, its superclass exists, the lists of
  subclasses are the inverse of the superclass relation without repetition, and \<open>rank\<close> decreases from
  a class to its subclasses.
\<close>

definition subclasses :: "(string \<Rightarrow> 'd cls option) \<Rightarrow> string \<Rightarrow> string set" where
  "subclasses C p = {n. \<exists>c q. C n = Some c \<and> cls_super c = Some q \<and> lower q = p}"

definition forest :: "(string \<Rightarrow> nat) \<Rightarrow> (string \<Rightarrow> 'd cls option) \<Rightarrow> (string \<Rightarrow> string list) \<Rightarrow> bool" where
  "forest rank C K \<longleftrightarrow>
     (\<forall>n c. C n = Some c \<longrightarrow> lower (cls_name c) = n) \<and>
     (\<forall>n c p. C n = Some c \<longrightarrow> cls_super c = Some p \<longrightarrow> C (lower p) \<noteq> None \<and> rank n < rank (lower p)) \<and>
     (\<forall>p. distinct (map lower (K p)) \<and> lower ` set (K p) = subclasses C p)"

lemma reg_repD:
  assumes "reg_rep cr C K"
  shows "name_table (ht cr)" "name_table (itab cr)" "getClass cr n = C (lower n)"
    "name_get (itab cr) n = None \<Longrightarrow> K (lower n) = []"
    "name_get (itab cr) n = Some i \<Longrightarrow> i < length (lists cr) \<and> list_holds (lists cr ! i) (K (lower n))"
    "name_get (itab cr) n = Some i \<Longrightarrow> name_get (itab cr) m = Some i \<Longrightarrow> lower n = lower m"
    "g \<in> set (lists cr) \<Longrightarrow> fresh_from (brk cr) g"
  using assms unfolding reg_rep_def getClass_def by metis+

lemma reg_repI:
  assumes "name_table (ht cr)" "name_table (itab cr)" "\<And>n. getClass cr n = C (lower n)"
    "\<And>n m i. name_get (itab cr) n = Some i \<Longrightarrow> name_get (itab cr) m = Some i \<Longrightarrow> lower n = lower m"
    "\<And>n. name_get (itab cr) n = None \<Longrightarrow> K (lower n) = []"
    "\<And>n i. name_get (itab cr) n = Some i \<Longrightarrow> i < length (lists cr) \<and> list_holds (lists cr ! i) (K (lower n))"
    "\<And>g. g \<in> set (lists cr) \<Longrightarrow> fresh_from (brk cr) g"
  shows "reg_rep cr C K"
  unfolding reg_rep_def
  by (intro conjI allI impI ballI; (rule assms(1,2,5,7); assumption?)?)
    (simp_all add: assms(3) [unfolded getClass_def], (rule assms(4); assumption), simp_all add: assms(6))

text \<open>Replacing one list of the register.\<close>

lemma reg_rep_list:
  assumes rep: "reg_rep cr C K" and i: "name_get (itab cr) p = Some i"
    and g: "list_holds g xs" "fresh_from b g" and b: "brk cr \<le> b"
  shows "reg_rep (cr\<lparr>lists := (lists cr)[i := g], brk := b\<rparr>) C (K(lower p := xs))"
proof -
  have il: "i < length (lists cr)" using reg_repD(5) [OF rep i] by simp
  have upd: "j < length (lists cr) \<and> list_holds ((lists cr)[i := g] ! j) ((K(lower p := xs)) (lower n))"
    if j: "name_get (itab cr) n = Some j" for n j
  proof (cases "lower n = lower p")
    case True
    then have "j = i" using name_get_cong [OF reg_repD(2) [OF rep] True] i j by simp
    with True g il show ?thesis by simp
  next
    case False
    then have "j \<noteq> i" using reg_repD(6) [OF rep j, of p] i by auto
    with False reg_repD(5) [OF rep j] show ?thesis by simp
  qed
  have none: "(K(lower p := xs)) (lower n) = []" if "name_get (itab cr) n = None" for n
  proof -
    have "lower n \<noteq> lower p" using name_get_cong [OF reg_repD(2) [OF rep], of n p] i that by auto
    then show ?thesis using reg_repD(4) [OF rep that] by simp
  qed
  have fresh: "fresh_from b h" if "h \<in> set ((lists cr)[i := g])" for h
    using that g(2) fresh_from_mono [OF reg_repD(7) [OF rep] b] set_update_subset_insert [of "lists cr" i g] by blast
  show ?thesis
  proof (rule reg_repI)
    show "lower n = lower m" if "name_get (itab (cr\<lparr>lists := (lists cr)[i := g], brk := b\<rparr>)) n = Some j"
      "name_get (itab (cr\<lparr>lists := (lists cr)[i := g], brk := b\<rparr>)) m = Some j" for n m j
      using reg_repD(6) [OF rep, of n j m] that by simp
  qed (use reg_repD(1,2) [OF rep] reg_repD(3) [OF rep] upd none fresh in \<open>simp_all add: getClass_def\<close>)
qed

lemma add_child_rep:
  assumes rep: "reg_rep cr C K"
  shows "\<exists>cr'. add_child cr p cn = Some cr' \<and> reg_rep cr' C (K(lower p := cn # K (lower p))) \<and>
    ht cr' = ht cr \<and> repfile cr' = repfile cr \<and> assocs cr' = assocs cr \<and> topAssocs cr' = topAssocs cr"
proof -
  have add: ?thesis if rep: "reg_rep cr' C K" and i: "name_get (itab cr') p = Some i"
      and a: "add_child cr p cn = map_option (\<lambda>ul. cr'\<lparr>lists := (lists cr')[i := ul], brk := brk cr' + 1\<rparr>)
        (listPrepend (brk cr') (lists cr' ! i) (Some cn))"
      and s: "ht cr' = ht cr" "repfile cr' = repfile cr" "assocs cr' = assocs cr" "topAssocs cr' = topAssocs cr" for cr' i
  proof -
    have l: "i < length (lists cr')" "list_holds (lists cr' ! i) (K (lower p))" using reg_repD(5) [OF rep i] by auto
    then have f: "fresh_from (brk cr') (lists cr' ! i)" using reg_repD(7) [OF rep] by simp
    then obtain g where g: "listPrepend (brk cr') (lists cr' ! i) (Some cn) = Some g" "list_holds g (cn # K (lower p))"
      using list_add_correct_clauses(3) [OF l(2), of "brk cr'" cn] by (auto simp: fresh_from_def)
    have "reg_rep (cr'\<lparr>lists := (lists cr')[i := g], brk := brk cr' + 1\<rparr>) C (K(lower p := cn # K (lower p)))"
      using reg_rep_list [OF rep i g(2) fresh_from_prepend [OF g(1) f]] by simp
    with a g(1) s show ?thesis by simp
  qed
  show ?thesis
  proof (cases "name_get (itab cr) p")
    case (Some i)
    show ?thesis by (rule add [OF rep Some]) (simp_all add: add_child_def Some)
  next
    case None
    let ?k = "length (lists cr)"
    let ?cr = "cr\<lparr>itab := name_put (itab cr) p ?k, lists := lists cr @ [newList]\<rparr>"
    note t = reg_repD(2) [OF rep]
    have get: "name_get (itab ?cr) n = (if lower n = lower p then Some ?k else name_get (itab cr) n)" for n
      using t by simp
    have small: "i < ?k" if "name_get (itab cr) n = Some i" for n i
      using reg_repD(5) [OF rep that] by simp
    have inj: "lower n = lower m" if "name_get (itab ?cr) n = Some i" "name_get (itab ?cr) m = Some i" for n m i
      using that reg_repD(6) [OF rep, of n i m] small [of n i] small [of m i] unfolding get
      by (cases "lower n = lower p"; cases "lower m = lower p") simp_all
    have none: "K (lower n) = []" if "name_get (itab ?cr) n = None" for n
      using that reg_repD(4) [OF rep, of n] unfolding get by (simp split: if_splits)
    have holds: "i < length (lists ?cr) \<and> list_holds (lists ?cr ! i) (K (lower n))" if "name_get (itab ?cr) n = Some i" for n i
      using that reg_repD(4) [OF rep None] reg_repD(5) [OF rep, of n i] list_add_correct_clauses(1)
      unfolding get by (cases "lower n = lower p") (auto simp: nth_append)
    have fresh: "fresh_from (brk ?cr) g" if "g \<in> set (lists ?cr)" for g
      using that reg_repD(7) [OF rep] fresh_from_new by auto
    have "getClass ?cr n = C (lower n)" for n using reg_repD(3) [OF rep, of n] by (simp add: getClass_def)
    moreover have "name_table (ht ?cr)" "name_table (itab ?cr)" using reg_repD(1) [OF rep] t by simp_all
    ultimately have "reg_rep ?cr C K"
      by (intro reg_repI inj none holds fresh)
    moreover have "name_get (itab ?cr) p = Some ?k" unfolding get by simp
    ultimately show ?thesis by (rule add) (simp_all add: add_child_def None)
  qed
qed

lemma removeChild_rep:
  assumes rep: "reg_rep cr C K"
  shows "\<exists>cr'. removeChild cr pn chd = Some cr' \<and>
    reg_rep cr' C (K(lower pn := takeWhile (\<lambda>c. lower c \<noteq> lower chd) (K (lower pn)) @
      tl (dropWhile (\<lambda>c. lower c \<noteq> lower chd) (K (lower pn))))) \<and>
    ht cr' = ht cr \<and> repfile cr' = repfile cr \<and> assocs cr' = assocs cr \<and> topAssocs cr' = topAssocs cr"
proof (cases "name_get (itab cr) pn")
  case None
  with rep reg_repD(4) [OF rep None] show ?thesis
    by (simp add: removeChild_def fun_upd_idem)
next
  case (Some i)
  have l: "i < length (lists cr)" "list_holds (lists cr ! i) (K (lower pn))" using reg_repD(5) [OF rep Some] by auto
  obtain g where g: "removeChild_from (Some (lists cr ! i)) chd = Some (Some g)"
    "list_holds g (takeWhile (\<lambda>c. lower c \<noteq> lower chd) (K (lower pn)) @ tl (dropWhile (\<lambda>c. lower c \<noteq> lower chd) (K (lower pn))))"
    using removeChild_from_correct_clauses(2) [OF l(2), of chd] by auto
  have "fresh_from (brk cr) g"
    using fresh_from_removeChild [OF l(2) g(1)] reg_repD(7) [OF rep] l(1) by simp
  from reg_rep_list [OF rep Some g(2) this] g(1) show ?thesis
    by (simp add: removeChild_def Some)
qed

text \<open>What the handlers promise, on the map of classes and the lists of subclasses.\<close>

definition merged_class :: "('d \<Rightarrow> 'd \<Rightarrow> 'd) \<Rightarrow> 'd \<Rightarrow> 'd cls \<Rightarrow> 'd cls \<Rightarrow> 'd cls" where
  "merged_class merge body0 pcc cc = \<lparr>cls_name = cls_name cc, cls_super = cls_super cc,
     cls_quals = cls_quals pcc OR cls_quals cc, cls_body = merge (merge body0 (cls_body pcc)) (cls_body cc)\<rparr>"

definition create_spec :: "('d \<Rightarrow> 'd \<Rightarrow> 'd) \<Rightarrow> 'd \<Rightarrow> (string \<Rightarrow> 'd cls option) \<Rightarrow> (string \<Rightarrow> string list) \<Rightarrow> 'd cls \<Rightarrow>
    cmpi_rc \<times> (string \<Rightarrow> 'd cls option) \<times> (string \<Rightarrow> string list) \<times> 'd rep_record list" where
  "create_spec merge body0 C K cc =
     (if C (lower (cls_name cc)) \<noteq> None then (ERR_ALREADY_EXISTS, C, K, [])
      else case cls_super cc of
        None \<Rightarrow> (RC_OK, C(lower (cls_name cc) \<mapsto> cc), K, [ClassRecord cc])
      | Some p \<Rightarrow>
          (case C (lower p) of
             None \<Rightarrow> (ERR_INVALID_SUPERCLASS, C, K, [])
           | Some pcc \<Rightarrow>
               (let c = merged_class merge body0 pcc cc
                in (RC_OK, C(lower (cls_name cc) \<mapsto> c), K(lower p := cls_name cc # K (lower p)), [ClassRecord c]))))"

definition delete_spec :: "(string \<Rightarrow> 'd cls option) \<Rightarrow> (string \<Rightarrow> string list) \<Rightarrow> string \<Rightarrow>
    cmpi_rc \<times> (string \<Rightarrow> 'd cls option) \<times> (string \<Rightarrow> string list)" where
  "delete_spec C K cn =
     (case C (lower cn) of
        None \<Rightarrow> (ERR_NOT_FOUND, C, K)
      | Some c \<Rightarrow>
          if K (lower cn) \<noteq> [] then (ERR_CLASS_HAS_CHILDREN, C, K)
          else (RC_OK, C(lower cn := None),
            case cls_super c of None \<Rightarrow> K
            | Some p \<Rightarrow> K(lower p := filter (\<lambda>x. lower x \<noteq> lower cn) (K (lower p)))))"

text \<open>A class of a new name keeps the forest, and so does the removal of a class without subclasses.\<close>

lemma subclasses_new:
  assumes "C n = None"
  shows "subclasses (C(n \<mapsto> c)) p = subclasses C p \<union> (if map_option lower (cls_super c) = Some p then {n} else {})"
  using assms by (auto simp: subclasses_def)

lemma forest_no_child:
  assumes "forest rank C K" "C n = None"
  shows "subclasses C n = {}" "K n = []"
proof -
  show "subclasses C n = {}" using assms unfolding forest_def subclasses_def by blast
  then show "K n = []" using assms(1) unfolding forest_def by (metis image_is_empty set_empty)
qed

lemma forest_create:
  assumes f: "forest rank C K" and new: "C n = None" and name: "lower (cls_name c) = n"
    and sup: "case cls_super c of None \<Rightarrow> K' = K
      | Some p \<Rightarrow> C (lower p) \<noteq> None \<and> K' = K(lower p := cls_name c # K (lower p))"
  shows "forest (\<lambda>m. if m = n then 0 else Suc (rank m)) (C(n \<mapsto> c)) K'"
proof -
  let ?C = "C(n \<mapsto> c)" and ?rank = "\<lambda>m. if m = n then 0 else Suc (rank m)"
  have d: "distinct (map lower (K p))" "lower ` set (K p) = subclasses C p" for p
    using f by (auto simp: forest_def)
  have "lower (cls_name c') = m" if "?C m = Some c'" for m c'
    using that f name by (auto simp: forest_def split: if_splits)
  moreover have "?C (lower p) \<noteq> None \<and> ?rank m < ?rank (lower p)" if h: "?C m = Some c'" "cls_super c' = Some p" for m c' p
  proof (cases "m = n")
    case True
    with h sup have "C (lower p) \<noteq> None" by auto
    with True new show ?thesis by auto
  next
    case False
    with h f have "C (lower p) \<noteq> None" "rank m < rank (lower p)" by (auto simp: forest_def)
    with False new show ?thesis by auto
  qed
  moreover have "distinct (map lower (K' p)) \<and> lower ` set (K' p) = subclasses ?C p" for p
  proof -
    have new_sub: "n \<notin> subclasses C p" for p using new by (simp add: subclasses_def)
    show ?thesis
      using d [of p] new_sub [of p] sup name unfolding subclasses_new [of C, OF new]
      by (cases "cls_super c") (auto simp flip: set_map)
  qed
  ultimately show ?thesis unfolding forest_def by blast
qed

lemma forest_delete:
  assumes f: "forest rank C K" and c: "C n = Some c" and leaf: "K n = []"
    and K': "K' = (case cls_super c of None \<Rightarrow> K | Some p \<Rightarrow> K(lower p := filter (\<lambda>x. lower x \<noteq> n) (K (lower p))))"
  shows "forest rank (C(n := None)) K'"
proof -
  have d: "distinct (map lower (K p))" "lower ` set (K p) = subclasses C p" for p
    using f by (auto simp: forest_def)
  have none: "subclasses C n = {}" using d(2) [of n] leaf by simp
  have "(C(n := None)) (lower p) \<noteq> None \<and> rank m < rank (lower p)"
    if h: "(C(n := None)) m = Some c'" "cls_super c' = Some p" for m c' p
  proof -
    have "C m = Some c'" using h by (auto split: if_splits)
    then have "lower p \<noteq> n" using none h(2) by (auto simp: subclasses_def)
    with \<open>C m = Some c'\<close> h(2) f show ?thesis by (auto simp: forest_def)
  qed
  moreover have "distinct (map lower (K' p)) \<and> lower ` set (K' p) = subclasses (C(n := None)) p" for p
  proof -
    have s: "subclasses (C(n := None)) p = subclasses C p - {n}" by (auto simp: subclasses_def)
    have f: "lower ` set (filter (\<lambda>x. lower x \<noteq> n) (K p)) = subclasses C p - {n}"
      using d(2) [of p, symmetric] by auto
    have n: "n \<in> subclasses C p \<longleftrightarrow> map_option lower (cls_super c) = Some p"
      using c by (auto simp: subclasses_def)
    show ?thesis
      using d [of p] s f n distinct_map_filter [OF d(1) [of p]] by (cases "cls_super c") (auto simp: K')
  qed
  moreover have "lower (cls_name c') = m" if "(C(n := None)) m = Some c'" for m c'
    using that f by (auto simp: forest_def split: if_splits)
  ultimately show ?thesis unfolding forest_def by blast
qed

text \<open>The handlers refine their specifications.\<close>

lemma reg_rep_ht:
  assumes rep: "reg_rep cr C K" and ht: "name_table (ht cr')" "\<And>n. getClass cr' n = C' (lower n)"
    and same: "itab cr' = itab cr" "lists cr' = lists cr" "brk cr' = brk cr"
  shows "reg_rep cr' C' K"
  by (rule reg_repI [OF ht(1) _ ht(2)])
    (unfold same, fact reg_repD(2) [OF rep], (rule reg_repD(6) [OF rep]; assumption), (rule reg_repD(4,5,7) [OF rep]; assumption)+)

lemma reg_rep_put:
  assumes "reg_rep cr C K" "ht cr' = name_put (ht cr) n c" "itab cr' = itab cr" "lists cr' = lists cr" "brk cr' = brk cr"
  shows "reg_rep cr' (C(lower n \<mapsto> c)) K"
  using reg_repD(1) [OF assms(1)] reg_repD(3) [OF assms(1)] assms(2)
  by (intro reg_rep_ht [OF assms(1) _ _ assms(3-5)]) (simp_all add: getClass_def)

lemma reg_rep_remove:
  assumes "reg_rep cr C K" "ht cr' = name_remove (ht cr) n" "itab cr' = itab cr" "lists cr' = lists cr" "brk cr' = brk cr"
  shows "reg_rep cr' (C(lower n := None)) K"
  using reg_repD(1) [OF assms(1)] reg_repD(3) [OF assms(1)] assms(2)
  by (intro reg_rep_ht [OF assms(1) _ _ assms(3-5)]) (simp_all add: getClass_def)

lemma addClass_rep:
  assumes rep: "reg_rep cr C K" and fl: "repfile cr = Some recs" and p: "cls_super cc = Some p" "C (lower p) = Some pcc"
    and c: "c = merged_class merge body0 pcc cc"
  shows "\<exists>cr'. addClass merge body0 cr cc (cls_name cc) (cls_super cc) = Some (cr', RC_OK) \<and>
    reg_rep cr' (C(lower (cls_name cc) \<mapsto> c)) (K(lower p := cls_name cc # K (lower p))) \<and> repfile cr' = Some (recs @ [ClassRecord c])"
proof -
  let ?cr1 = "cr\<lparr>ht := name_put (ht cr) (cls_name cc) c, repfile := Some (recs @ [ClassRecord c]),
      assocs := assocs cr + (if isAssociation c then 1 else 0),
      topAssocs := topAssocs cr + (if isAssociation c \<and> cls_super cc = None then 1 else 0)\<rparr>"
  have "reg_rep ?cr1 (C(lower (cls_name cc) \<mapsto> c)) K" by (rule reg_rep_put [OF rep]) simp_all
  from add_child_rep [OF this, of p "cls_name cc"] obtain cr' where
    "add_child ?cr1 p (cls_name cc) = Some cr'" "reg_rep cr' (C(lower (cls_name cc) \<mapsto> c)) (K(lower p := cls_name cc # K (lower p)))"
    "repfile cr' = Some (recs @ [ClassRecord c])"
    by auto
  moreover have "mergeParents merge cr \<lparr>cls_name = cls_name cc, cls_super = Some p, cls_quals = 0, cls_body = body0\<rparr> p cc = Some c"
    using p by (simp add: mergeParents_def reg_repD(3) [OF rep] cpyClass_def merged_class_def c)
  ultimately show ?thesis using p fl by (simp add: addClass_def)
qed

lemma addClass_top_rep:
  assumes rep: "reg_rep cr C K" and fl: "repfile cr = Some recs" and p: "cls_super cc = None"
  shows "\<exists>cr'. addClass merge body0 cr cc (cls_name cc) (cls_super cc) = Some (cr', RC_OK) \<and>
    reg_rep cr' (C(lower (cls_name cc) \<mapsto> cc)) K \<and> repfile cr' = Some (recs @ [ClassRecord cc])"
  using p fl by (auto simp: addClass_def intro: reg_rep_put [OF rep])

lemma create_refines:
  assumes rep: "reg_rep cr C K" and f: "forest rank C K" and fl: "repfile cr = Some recs"
    and s: "create_spec merge body0 C K cc = (rc, C', K', out)"
  shows "\<exists>cr' rank'. ClassProviderCreateClass merge body0 cr cc = Some (cr', rc) \<and> reg_rep cr' C' K' \<and>
    forest rank' C' K' \<and> repfile cr' = Some (recs @ out)"
proof -
  let ?n = "lower (cls_name cc)"
  note get = reg_repD(3) [OF rep]
  show ?thesis
  proof (cases "create_check cr (cls_name cc) (cls_super cc) = RC_OK")
    case False
    then have "C' = C" "K' = K" "out = []" "rc = create_check cr (cls_name cc) (cls_super cc)"
      using s by (auto simp: create_spec_def create_check_def get split: if_splits option.splits)
    then show ?thesis using rep f fl False by (auto simp: ClassProviderCreateClass_def)
  next
    case True
    then have new: "C ?n = None" by (auto simp: create_check_def get split: if_splits)
    show ?thesis
    proof (cases "cls_super cc")
      case None
      then have out: "rc = RC_OK" "C' = C(?n \<mapsto> cc)" "K' = K" "out = [ClassRecord cc]"
        using s new by (simp_all add: create_spec_def)
      moreover have "forest (\<lambda>m. if m = ?n then 0 else Suc (rank m)) C' K'"
        using forest_create [OF f new, of cc K] None out by simp
      ultimately show ?thesis
        using addClass_top_rep [OF rep fl None, of merge body0] True by (auto simp: ClassProviderCreateClass_def)
    next
      case (Some p)
      with True obtain pcc where p: "C (lower p) = Some pcc"
        by (auto simp: create_check_def get split: if_splits)
      let ?c = "merged_class merge body0 pcc cc"
      have out: "rc = RC_OK" "C' = C(?n \<mapsto> ?c)" "K' = K(lower p := cls_name cc # K (lower p))" "out = [ClassRecord ?c]"
        using s new Some p by (simp_all add: create_spec_def Let_def)
      moreover have "forest (\<lambda>m. if m = ?n then 0 else Suc (rank m)) C' K'"
        using forest_create [OF f new, of ?c K'] Some p out by (simp add: merged_class_def)
      ultimately show ?thesis
        using addClass_rep [where c = ?c, OF rep fl Some p refl] True by (auto simp: ClassProviderCreateClass_def)
    qed
  qed
qed

lemma remove_first_filter:
  "distinct (map lower xs) \<Longrightarrow>
   takeWhile (\<lambda>c. lower c \<noteq> n) xs @ tl (dropWhile (\<lambda>c. lower c \<noteq> n) xs) = filter (\<lambda>c. lower c \<noteq> n) xs"
proof (induction xs)
  case (Cons x xs)
  show ?case
  proof (cases "lower x = n")
    case True
    with Cons.prems have "\<forall>c \<in> set xs. lower c \<noteq> n" by (auto simp: image_iff)
    then have "filter (\<lambda>c. lower c \<noteq> n) xs = xs" by (simp add: filter_id_conv)
    with True show ?thesis by simp
  qed (use Cons in simp)
qed simp

lemma delete_check_rep:
  assumes rep: "reg_rep cr C K" and small: "length (K (lower cn)) < 2 ^ 32"
  shows "delete_check cr cn =
    (if C (lower cn) = None then ERR_NOT_FOUND else if K (lower cn) = [] then RC_OK else ERR_CLASS_HAS_CHILDREN)"
proof (cases "getChildren cr cn")
  case None
  then show ?thesis using reg_repD(3,4) [OF rep, of cn] by (simp add: getChildren_def delete_check_def)
next
  case (Some i)
  then have "list_holds (lists cr ! i) (K (lower cn))" using reg_repD(5) [OF rep, of cn i] by (simp add: getChildren_def)
  then have "listSize (lists cr ! i) = of_nat (length (K (lower cn)))"
    by (rule list_add_correct_clauses(5) [THEN conjunct1])
  moreover have "unat (of_nat (length (K (lower cn))) :: 32 word) = length (K (lower cn))"
    using small by (simp add: unat_of_nat)
  ultimately have "listSize (lists cr ! i) \<noteq> 0 \<longleftrightarrow> K (lower cn) \<noteq> []" by (auto simp: unat_eq_zero)
  with Some show ?thesis by (simp add: delete_check_def reg_repD(3) [OF rep])
qed

lemma delete_refused:
  assumes "reg_rep cr C K" "length (K (lower cn)) < 2 ^ 32" "C (lower cn) = None \<or> K (lower cn) \<noteq> []"
  shows "ClassProviderDeleteClass cr cn = Some (cr, if C (lower cn) = None then ERR_NOT_FOUND else ERR_CLASS_HAS_CHILDREN)"
  using delete_check_rep [OF assms(1,2)] assms(3) by (auto simp: ClassProviderDeleteClass_def)

lemma delete_leaf:
  assumes rep: "reg_rep cr C K" and fl: "repfile cr = Some recs" and c: "C (lower cn) = Some c" and leaf: "K (lower cn) = []"
    and L: "L = (case cls_super c of None \<Rightarrow> K | Some p \<Rightarrow> K(lower p := takeWhile (\<lambda>x. lower x \<noteq> lower cn) (K (lower p)) @
      tl (dropWhile (\<lambda>x. lower x \<noteq> lower cn) (K (lower p)))))"
  shows "\<exists>cr'. ClassProviderDeleteClass cr cn = Some (cr', RC_OK) \<and> reg_rep cr' (C(lower cn := None)) L \<and>
    repfile cr' = Some (filter (keep_record cn) recs)"
proof -
  obtain cr1 where cr1: "(case cls_super c of None \<Rightarrow> Some cr | Some pn \<Rightarrow> removeChild cr pn cn) = Some cr1"
    "reg_rep cr1 C L" "repfile cr1 = Some recs"
  proof (cases "cls_super c")
    case None
    with that [of cr] rep fl show thesis by (simp add: L)
  next
    case (Some p)
    with removeChild_rep [OF rep, of p cn] that fl show thesis by (auto simp: L)
  qed
  obtain cr2 where cr2: "removeClass cr1 cn = Some cr2" "reg_rep cr2 (C(lower cn := None)) L"
    "repfile cr2 = Some (filter (keep_record cn) recs)"
    using reg_rep_remove [OF cr1(2), of _ cn] cr1(3) by (auto simp: removeClass_def)
  then show ?thesis
    using delete_check_rep [OF rep, of cn] leaf cr1(1) c by (simp add: ClassProviderDeleteClass_def reg_repD(3) [OF rep])
qed

lemma delete_refines:
  assumes rep: "reg_rep cr C K" and f: "forest rank C K" and fl: "repfile cr = Some recs"
    and s: "delete_spec C K cn = (rc, C', K')" and small: "length (K (lower cn)) < 2 ^ 32"
  shows "\<exists>cr'. ClassProviderDeleteClass cr cn = Some (cr', rc) \<and> reg_rep cr' C' K' \<and> forest rank C' K' \<and>
    repfile cr' = Some (if rc = RC_OK then filter (keep_record cn) recs else recs)"
proof (cases "\<exists>c. C (lower cn) = Some c \<and> K (lower cn) = []")
  case False
  then have no: "C (lower cn) = None \<or> K (lower cn) \<noteq> []" by (cases "C (lower cn)") auto
  then have "rc = (if C (lower cn) = None then ERR_NOT_FOUND else ERR_CLASS_HAS_CHILDREN)" "C' = C" "K' = K"
    using s by (auto simp: delete_spec_def split: option.splits)
  with delete_refused [OF rep small no] rep f fl show ?thesis by auto
next
  case True
  then obtain c where c: "C (lower cn) = Some c" and leaf: "K (lower cn) = []" by blast
  define L where "L = (case cls_super c of None \<Rightarrow> K | Some p \<Rightarrow> K(lower p := filter (\<lambda>x. lower x \<noteq> lower cn) (K (lower p))))"
  have out: "rc = RC_OK" "C' = C(lower cn := None)" "K' = L"
    using s c leaf by (simp_all add: delete_spec_def L_def)
  have "distinct (map lower (K q))" for q using f by (simp add: forest_def)
  note first = remove_first_filter [OF this]
  obtain cr' where "ClassProviderDeleteClass cr cn = Some (cr', RC_OK)" "reg_rep cr' (C(lower cn := None)) L"
    "repfile cr' = Some (filter (keep_record cn) recs)"
    using delete_leaf [OF rep fl c leaf, of L] unfolding L_def first by blast
  with out forest_delete [OF f c leaf L_def] show ?thesis by auto
qed

section \<open>Loading a register\<close>

text \<open>
  The classes the class records of a file stand for: the last record of a name counts, dummy classes are left
  out. A file \<open>load_records\<close> accepts is one record that is not counted, then class records.
\<close>

fun file_classes :: "'d cls list \<Rightarrow> (string \<Rightarrow> 'd cls option) \<Rightarrow> string \<Rightarrow> 'd cls option" where
  "file_classes [] C = C"
| "file_classes (c # cs) C = file_classes cs (if take 4 (cls_name c) \<noteq> ''DMY_'' then C(lower (cls_name c) \<mapsto> c) else C)"

definition holds_classes :: "'d rep_record list \<Rightarrow> 'd cls list \<Rightarrow> bool" where
  "holds_classes recs cs \<longleftrightarrow> recs = [] \<and> cs = [] \<or> (\<exists>r. recs = r # map ClassRecord cs \<and> first_record r)"

text \<open>A table of classes in which every key is the name of its class.\<close>

definition keyed :: "(char_key, 'd cls) hash_table \<Rightarrow> bool" where
  "keyed t \<longleftrightarrow> name_table t \<and> (\<forall>n c. name_get t n = Some c \<longrightarrow> lower (cls_name c) = lower n)"

lemma keyed_put: "keyed t \<Longrightarrow> keyed (name_put t (cls_name c) c)"
  by (auto simp: keyed_def split: if_splits)

lemma load_classes_rep:
  "keyed (ht cr) \<Longrightarrow> (\<And>n. getClass cr n = C (lower n)) \<Longrightarrow>
   \<exists>cr'. load_classes (map ClassRecord cs) cr = Some cr' \<and> keyed (ht cr') \<and> (\<forall>n. getClass cr' n = file_classes cs C (lower n)) \<and>
     itab cr' = itab cr \<and> lists cr' = lists cr \<and> brk cr' = brk cr \<and> repfile cr' = repfile cr"
proof (induction cs arbitrary: cr C)
  case (Cons cc cs)
  show ?case
  proof (cases "take 4 (cls_name cc) = ''DMY_''")
    case True
    with Cons show ?thesis by simp
  next
    case False
    let ?cr = "cr\<lparr>ht := name_put (ht cr) (cls_name cc) cc, assocs := assocs cr + (if isAssociation cc then 1 else 0),
      topAssocs := topAssocs cr + (if isAssociation cc \<and> cls_super cc = None then 1 else 0)\<rparr>"
    have "getClass ?cr n = (C(lower (cls_name cc) \<mapsto> cc)) (lower n)" for n
      using Cons.prems by (simp add: getClass_def keyed_def)
    with Cons.IH [of ?cr "C(lower (cls_name cc) \<mapsto> cc)"] False keyed_put [OF Cons.prems(1), of cc] show ?thesis
      by (simp add: fun_upd_def)
  qed
qed simp

lemma load_classes_None: "load_classes rs cr = None \<longleftrightarrow> (\<nexists>cs. rs = map ClassRecord cs)"
  by (induction rs cr rule: load_classes.induct) (auto simp: Cons_eq_map_conv)

lemma load_records_None: "load_records recs cr = None \<longleftrightarrow> (\<nexists>cs. holds_classes recs cs)"
  by (cases recs) (auto simp: load_records_def holds_classes_def load_classes_None)

definition children_in :: "(char_key \<times> 'd cls) list \<Rightarrow> string \<Rightarrow> string list" where
  "children_in ps p = map (\<lambda>kc. cls_name (snd kc)) (filter (\<lambda>kc. map_option lower (cls_super (snd kc)) = Some p) ps)"

lemma build_from_rep:
  "reg_rep cr C K \<Longrightarrow> \<exists>cr'. build_from ps cr = Some cr' \<and> reg_rep cr' C (\<lambda>p. rev (children_in ps p) @ K p) \<and>
     repfile cr' = repfile cr"
proof (induction ps arbitrary: cr K)
  case Nil
  then show ?case by (simp add: children_in_def)
next
  case (Cons kc ps)
  obtain k c where kc: "kc = (k, c)" by (cases kc)
  show ?case
  proof (cases "cls_super c")
    case None
    with Cons kc show ?thesis by (simp add: children_in_def)
  next
    case (Some q)
    obtain cr1 where cr1: "add_child cr q (cls_name c) = Some cr1" "reg_rep cr1 C (K(lower q := cls_name c # K (lower q)))"
      "repfile cr1 = repfile cr"
      using add_child_rep [OF Cons.prems, of q "cls_name c"] by auto
    have "(\<lambda>p. rev (children_in ps p) @ (K(lower q := cls_name c # K (lower q))) p) = (\<lambda>p. rev (children_in (kc # ps) p) @ K p)"
      by (auto simp: children_in_def kc Some)
    with Cons.IH [OF cr1(2)] cr1(1,3) show ?thesis by (simp add: kc Some)
  qed
qed

lemma lower_lower [simp]: "lower (lower n) = lower n"
  by simp

lemma file_classes_name:
  "(\<And>n c. C n = Some c \<Longrightarrow> lower (cls_name c) = n) \<Longrightarrow> file_classes cs C n = Some c \<Longrightarrow> lower (cls_name c) = n"
proof (induction cs C arbitrary: n c rule: file_classes.induct)
  case (2 c' cs C)
  show ?case
    by (rule "2.IH") (use "2.prems" in \<open>auto split: if_splits\<close>)
qed auto

text \<open>The superclasses of a set of classes exist and lead upwards.\<close>

definition well_founded :: "(string \<Rightarrow> nat) \<Rightarrow> (string \<Rightarrow> 'd cls option) \<Rightarrow> bool" where
  "well_founded rank C \<longleftrightarrow>
     (\<forall>n c p. C n = Some c \<longrightarrow> cls_super c = Some p \<longrightarrow> C (lower p) \<noteq> None \<and> rank n < rank (lower p))"

lemma newClassRegister_rep:
  assumes holds: "holds_classes recs cs" and C: "C = file_classes cs Map.empty"
  shows "\<exists>cr K. newClassRegister (Some recs) = Some cr \<and> reg_rep cr C K \<and> repfile cr = Some recs \<and>
    (\<forall>rank. well_founded rank C \<longrightarrow> forest rank C K)"
proof -
  let ?cr0 = "empty_register (Some recs)"
  have "keyed (ht ?cr0)" "\<And>n. getClass ?cr0 n = Map.empty (lower n)"
    by (simp_all add: keyed_def empty_register_def getClass_def)
  from load_classes_rep [OF this, of cs]
  obtain cr1 where load: "load_classes (map ClassRecord cs) ?cr0 = Some cr1" and keyed: "keyed (ht cr1)"
    and get: "\<And>n. getClass cr1 n = C (lower n)" and rest: "lists cr1 = []" "brk cr1 = 0" "repfile cr1 = Some recs"
    by (auto simp: C empty_register_def)
  have load: "load_records recs ?cr0 = Some cr1"
    using holds load by (auto simp: holds_classes_def load_records_def)
  let ?ps = "stored (ht cr1)"
  have t: "name_table (ht cr1)" using keyed by (simp add: keyed_def)
  note stored = name_table_stored [OF t]
  have rep1: "reg_rep (cr1\<lparr>itab := new_name_table 61\<rparr>) C (\<lambda>_. [])"
    by (rule reg_repI) (use t get rest in \<open>simp_all add: getClass_def\<close>)
  obtain cr where cr: "build_from ?ps (cr1\<lparr>itab := new_name_table 61\<rparr>) = Some cr"
    "reg_rep cr C (\<lambda>p. rev (children_in ?ps p))" "repfile cr = Some recs"
    using build_from_rep [OF rep1, of ?ps] rest by auto
  have "newClassRegister (Some recs) = Some cr"
    using cr(1) stored(1) load by (simp add: newClassRegister_def buildInheritanceTable_def)
  moreover have "forest rank C (\<lambda>p. rev (children_in ?ps p))" if wf: "well_founded rank C" for rank
  proof -
    have name: "lower (cls_name c) = lower (key_chars k)" if "(k, c) \<in> set ?ps" for k c
      using keyed stored(3) [of "key_chars k" c] that by (auto simp: keyed_def)
    have C_iff: "C (lower n) = Some c \<longleftrightarrow> (\<exists>k. (k, c) \<in> set ?ps \<and> lower (key_chars k) = lower n)" for n c
      using stored(3) [of n c] get [of n] by (simp add: getClass_def)
    have named: "C n = Some c \<Longrightarrow> lower (cls_name c) = n" for n c
      using file_classes_name [of Map.empty cs n c] by (simp add: C)
    then have low: "C n = Some c \<Longrightarrow> lower n = n" for n c by (metis lower_lower)
    have "map lower (children_in ?ps p) = map (\<lambda>kc. lower (key_chars (fst kc))) (filter (\<lambda>kc. map_option lower (cls_super (snd kc)) = Some p) ?ps)" for p
      using name by (auto simp: children_in_def)
    then have "distinct (map lower (children_in ?ps p))" for p
      using distinct_map_filter [OF stored(2)] by metis
    moreover have "lower ` set (children_in ?ps p) = subclasses C p" for p
    proof (intro set_eqI iffI)
      fix n
      assume "n \<in> lower ` set (children_in ?ps p)"
      then obtain k c where kc: "(k, c) \<in> set ?ps" "map_option lower (cls_super c) = Some p" "n = lower (cls_name c)"
        by (auto simp: children_in_def)
      then have "C n = Some c" using name [OF kc(1)] C_iff [of "cls_name c" c] by auto
      with kc(2) show "n \<in> subclasses C p" by (auto simp: subclasses_def)
    next
      fix n
      assume "n \<in> subclasses C p"
      then obtain c where c: "C n = Some c" "map_option lower (cls_super c) = Some p" by (auto simp: subclasses_def)
      then obtain k where "(k, c) \<in> set ?ps" using C_iff [of n c] low [OF c(1)] by auto
      with c(2) named [OF c(1)] show "n \<in> lower ` set (children_in ?ps p)"
        by (force simp: children_in_def)
    qed
    ultimately show ?thesis using named wf by (simp add: forest_def well_founded_def rev_map [symmetric])
  qed
  ultimately show ?thesis using cr by blast
qed

section \<open>Requests and the repository file\<close>

datatype 'd request = Create "'d cls" | Delete string

text \<open>The handlers run one after the other, each under the write lock; and what they promise together.\<close>

fun serve :: "('d \<Rightarrow> 'd \<Rightarrow> 'd) \<Rightarrow> 'd \<Rightarrow> 'd request list \<Rightarrow> 'd class_register \<Rightarrow> ('d class_register \<times> cmpi_rc list) option" where
  "serve merge body0 [] cr = Some (cr, [])"
| "serve merge body0 (r # rs) cr =
     (case (case r of Create cc \<Rightarrow> ClassProviderCreateClass merge body0 cr cc | Delete cn \<Rightarrow> ClassProviderDeleteClass cr cn) of
        None \<Rightarrow> None
      | Some (cr', rc) \<Rightarrow> map_option (\<lambda>(cr'', rcs). (cr'', rc # rcs)) (serve merge body0 rs cr'))"

fun serve_spec :: "('d \<Rightarrow> 'd \<Rightarrow> 'd) \<Rightarrow> 'd \<Rightarrow> 'd request list \<Rightarrow> (string \<Rightarrow> 'd cls option) \<times> (string \<Rightarrow> string list) \<Rightarrow>
    ((string \<Rightarrow> 'd cls option) \<times> (string \<Rightarrow> string list)) \<times> cmpi_rc list" where
  "serve_spec merge body0 [] CK = (CK, [])"
| "serve_spec merge body0 (Create cc # rs) CK =
     (case create_spec merge body0 (fst CK) (snd CK) cc of (rc, C', K', _) \<Rightarrow>
        (case serve_spec merge body0 rs (C', K') of (CK', rcs) \<Rightarrow> (CK', rc # rcs)))"
| "serve_spec merge body0 (Delete cn # rs) CK =
     (case delete_spec (fst CK) (snd CK) cn of (rc, C', K') \<Rightarrow>
        (case serve_spec merge body0 rs (C', K') of (CK', rcs) \<Rightarrow> (CK', rc # rcs)))"

lemma file_classes_snoc:
  "file_classes (cs @ [c]) C =
     (if take 4 (cls_name c) \<noteq> ''DMY_'' then (file_classes cs C)(lower (cls_name c) \<mapsto> c) else file_classes cs C)"
  by (induction cs C rule: file_classes.induct) auto

lemma file_classes_filter:
  "file_classes (filter (\<lambda>c. lower (cls_name c) \<noteq> lower cn) cs) (C(lower cn := None)) = (file_classes cs C)(lower cn := None)"
proof (induction cs C rule: file_classes.induct)
  case (2 c cs C)
  show ?case
  proof (cases "lower (cls_name c) = lower cn")
    case True
    then have "(if take 4 (cls_name c) \<noteq> ''DMY_'' then C(lower (cls_name c) \<mapsto> c) else C)(lower cn := None) = C(lower cn := None)"
      by simp
    then show ?thesis using 2 True by (simp del: fun_upd_apply)
  next
    case False
    then have "(if take 4 (cls_name c) \<noteq> ''DMY_'' then C(lower (cls_name c) \<mapsto> c) else C)(lower cn := None) =
        (if take 4 (cls_name c) \<noteq> ''DMY_'' then (C(lower cn := None))(lower (cls_name c) \<mapsto> c) else C(lower cn := None))"
      by (simp add: fun_upd_twist)
    then show ?thesis using 2 False by (simp del: fun_upd_apply)
  qed
qed simp

lemma file_classes_dom: "dom (file_classes cs C) \<subseteq> dom C \<union> (\<lambda>c. lower (cls_name c)) ` set cs"
  by (induction cs C rule: file_classes.induct) (force split: if_splits)+

text \<open>A repository file with its version record.\<close>

definition rep_file :: "'d cls list \<Rightarrow> 'd rep_record list" where
  "rep_file cs = VersionRecord ''sfcb-rep'' ClCurrentObjImplLevel # map ClassRecord cs"

lemma rep_file_holds: "holds_classes (rep_file cs) cs"
  by (simp add: holds_classes_def rep_file_def first_record_def ClVerifyObjImplLevel_def)

lemma rep_file_add: "rep_file cs @ [ClassRecord c] = rep_file (cs @ [c])"
  by (simp add: rep_file_def)

lemma rep_file_remove:
  fixes cs :: "'d cls list"
  shows "filter (keep_record cn) (rep_file cs) = rep_file (filter (\<lambda>c. lower (cls_name c) \<noteq> lower cn) cs)"
proof -
  have c: "keep_record cn (ClassRecord c) \<longleftrightarrow> lower (cls_name c) \<noteq> lower cn" for c :: "'d cls"
    by (auto simp: keep_record_def)
  have v: "keep_record cn (VersionRecord v l :: 'd rep_record)" for v l by (simp add: keep_record_def)
  show ?thesis by (simp add: rep_file_def filter_map comp_def c v)
qed

lemma children_le_file:
  assumes "forest rank (file_classes cs Map.empty) K"
  shows "length (K p) \<le> length cs"
proof -
  let ?C = "file_classes cs Map.empty"
  have "length (K p) = card (lower ` set (K p))"
    using assms distinct_card [of "map lower (K p)"] by (simp add: forest_def)
  also have "\<dots> = card (subclasses ?C p)"
    using assms by (simp add: forest_def)
  also have "\<dots> \<le> card ((\<lambda>c. lower (cls_name c)) ` set cs)"
    using file_classes_dom [of cs Map.empty] by (intro card_mono) (auto simp: subclasses_def)
  also have "\<dots> \<le> length cs"
    by (rule order.trans [OF card_image_le card_length]) simp
  finally show ?thesis .
qed

text \<open>The register, the map it stands for and the repository file agree.\<close>

definition in_step :: "'d class_register \<Rightarrow> (string \<Rightarrow> 'd cls option) \<Rightarrow> (string \<Rightarrow> string list) \<Rightarrow> 'd cls list \<Rightarrow> bool" where
  "in_step cr C K cs \<longleftrightarrow> reg_rep cr C K \<and> (\<exists>rank. forest rank C K) \<and> repfile cr = Some (rep_file cs) \<and> C = file_classes cs Map.empty"

lemma merged_class_name [simp]: "cls_name (merged_class merge body0 pcc cc) = cls_name cc"
  by (simp add: merged_class_def)

lemma create_spec_cases:
  assumes "create_spec merge body0 C K cc = (rc, C', K', out)"
  obtains "rc \<noteq> RC_OK" "C' = C" "out = []"
  | c where "rc = RC_OK" "cls_name c = cls_name cc" "C' = C(lower (cls_name cc) \<mapsto> c)" "out = [ClassRecord c]"
  using assms unfolding create_spec_def Let_def
  by (auto split: if_splits option.splits intro: that(2) [OF _ merged_class_name])

lemma create_in_step:
  assumes "in_step cr C K cs" "take 4 (cls_name cc) \<noteq> ''DMY_''" "create_spec merge body0 C K cc = (rc, C', K', out)"
  shows "\<exists>cr' cs'. ClassProviderCreateClass merge body0 cr cc = Some (cr', rc) \<and> in_step cr' C' K' cs' \<and>
    length cs' \<le> length cs + 1"
proof -
  obtain rank where r: "reg_rep cr C K" "forest rank C K" "repfile cr = Some (rep_file cs)" and C: "C = file_classes cs Map.empty"
    using assms(1) by (auto simp: in_step_def)
  obtain cr' rank' where cr': "ClassProviderCreateClass merge body0 cr cc = Some (cr', rc)" "reg_rep cr' C' K'"
    "forest rank' C' K'" "repfile cr' = Some (rep_file cs @ out)"
    using create_refines [OF r assms(3)] by blast
  from assms(3) have "\<exists>cs'. repfile cr' = Some (rep_file cs') \<and> C' = file_classes cs' Map.empty \<and> length cs' \<le> length cs + 1"
  proof (cases rule: create_spec_cases)
    case 1
    with cr'(4) C show ?thesis by (auto intro: exI [of _ cs])
  next
    case (2 c)
    with cr'(4) C assms(2) show ?thesis
      by (auto simp: rep_file_add file_classes_snoc intro!: exI [of _ "cs @ [c]"])
  qed
  with cr' show ?thesis unfolding in_step_def by blast
qed

lemma delete_in_step:
  assumes "in_step cr C K cs" "length cs < 2 ^ 32" "delete_spec C K cn = (rc, C', K')"
  shows "\<exists>cr' cs'. ClassProviderDeleteClass cr cn = Some (cr', rc) \<and> in_step cr' C' K' cs' \<and>
    length cs' \<le> length cs"
proof -
  obtain rank where r: "reg_rep cr C K" "forest rank C K" "repfile cr = Some (rep_file cs)" and C: "C = file_classes cs Map.empty"
    using assms(1) by (auto simp: in_step_def)
  have "length (K (lower cn)) < 2 ^ 32"
    using children_le_file [of rank cs K "lower cn"] r(2) C assms(2) by simp
  then obtain cr' where cr': "ClassProviderDeleteClass cr cn = Some (cr', rc)" "reg_rep cr' C' K'" "forest rank C' K'"
    "repfile cr' = Some (if rc = RC_OK then filter (keep_record cn) (rep_file cs) else rep_file cs)"
    using delete_refines [OF r assms(3)] by blast
  let ?cs = "if rc = RC_OK then filter (\<lambda>c. lower (cls_name c) \<noteq> lower cn) cs else cs"
  have "C' = (if rc = RC_OK then C(lower cn := None) else C)"
    using assms(3) by (auto simp: delete_spec_def split: option.splits if_splits)
  then have "C' = file_classes ?cs Map.empty"
    using file_classes_filter [of cn cs Map.empty] C by simp
  moreover have "repfile cr' = Some (rep_file ?cs)" using cr'(4) by (simp add: rep_file_remove)
  moreover have "length ?cs \<le> length cs" by simp
  ultimately show ?thesis using cr' unfolding in_step_def by blast
qed

lemma serve_in_step:
  "in_step cr C K cs \<Longrightarrow> \<forall>cc. Create cc \<in> set rs \<longrightarrow> take 4 (cls_name cc) \<noteq> ''DMY_'' \<Longrightarrow> length cs + length rs < 2 ^ 32 \<Longrightarrow>
   serve_spec merge body0 rs (C, K) = ((C', K'), rcs) \<Longrightarrow>
   \<exists>cr' cs'. serve merge body0 rs cr = Some (cr', rcs) \<and> in_step cr' C' K' cs'"
proof (induction rs arbitrary: cr C K cs rcs)
  case (Cons r rs)
  show ?case
  proof (cases r)
    case (Create cc)
    obtain rc C1 K1 out where s: "create_spec merge body0 C K cc = (rc, C1, K1, out)" by (metis prod.collapse)
    obtain cr1 cs1 where 1: "ClassProviderCreateClass merge body0 cr cc = Some (cr1, rc)" "in_step cr1 C1 K1 cs1"
      "length cs1 \<le> length cs + 1"
      using create_in_step [OF Cons.prems(1) _ s] Cons.prems(2) Create by auto
    obtain rcs' where "serve_spec merge body0 rs (C1, K1) = ((C', K'), rcs')" "rcs = rc # rcs'"
      using Cons.prems(4) Create s by (auto split: prod.splits)
    with Cons.IH [OF 1(2)] Cons.prems(2,3) 1 Create show ?thesis by fastforce
  next
    case (Delete cn)
    obtain rc C1 K1 where s: "delete_spec C K cn = (rc, C1, K1)" by (metis prod.collapse)
    obtain cr1 cs1 where 1: "ClassProviderDeleteClass cr cn = Some (cr1, rc)" "in_step cr1 C1 K1 cs1"
      "length cs1 \<le> length cs"
      using delete_in_step [OF Cons.prems(1) _ s] Cons.prems(3) by auto
    obtain rcs' where "serve_spec merge body0 rs (C1, K1) = ((C', K'), rcs')" "rcs = rc # rcs'"
      using Cons.prems(4) Delete s by (auto split: prod.splits)
    with Cons.IH [OF 1(2)] Cons.prems(2,3) 1 Delete show ?thesis by fastforce
  qed
qed auto

section \<open>Loops over the subclasses\<close>

subsection \<open>The subclasses of a class in a forest\<close>

definition sub_rel :: "(string \<Rightarrow> 'd cls option) \<Rightarrow> (string \<times> string) set" where
  "sub_rel C = {(m, p). m \<in> subclasses C p}"

definition below :: "(string \<Rightarrow> 'd cls option) \<Rightarrow> string \<Rightarrow> string set" where
  "below C n = {m. (m, n) \<in> (sub_rel C)\<^sup>+}"

text \<open>The order of the loops: a subclass, then what is below it, then the next one. \<open>d\<close> bounds the depth.\<close>

fun desc :: "nat \<Rightarrow> (string \<Rightarrow> string list) \<Rightarrow> string \<Rightarrow> string list" where
  "desc 0 K p = []"
| "desc (Suc d) K p = concat (map (\<lambda>c. c # desc d K (lower c)) (K p))"

lemma below_iff: "m \<in> below C n \<longleftrightarrow> (\<exists>c \<in> subclasses C n. m = c \<or> m \<in> below C c)"
proof
  assume "m \<in> below C n"
  then have "(m, n) \<in> (sub_rel C)\<^sup>+" by (simp add: below_def)
  then show "\<exists>c \<in> subclasses C n. m = c \<or> m \<in> below C c"
    by (cases rule: trancl.cases) (auto simp: sub_rel_def below_def)
next
  assume "\<exists>c \<in> subclasses C n. m = c \<or> m \<in> below C c"
  then show "m \<in> below C n" unfolding below_def sub_rel_def
    by (auto intro: trancl_into_trancl)
qed

lemma forestD:
  assumes "forest rank C K"
  shows "lower ` set (K p) = subclasses C p" "distinct (map lower (K p))" "m \<in> subclasses C p \<Longrightarrow> rank m < rank p"
  using assms by (auto simp: forest_def subclasses_def)

lemma child_rank:
  assumes "forest rank C K" "c \<in> set (K p)"
  shows "lower c \<in> subclasses C p" "rank (lower c) < rank p"
proof -
  show s: "lower c \<in> subclasses C p" using forestD(1) [OF assms(1), of p] assms(2) by blast
  then show "rank (lower c) < rank p" by (rule forestD(3) [OF assms(1)])
qed

lemma desc_stable:
  assumes f: "forest rank C K"
  shows "rank p < d \<Longrightarrow> rank p < d' \<Longrightarrow> desc d K p = desc d' K p"
proof (induction d arbitrary: d' p)
  case (Suc d)
  then obtain e where e: "d' = Suc e" by (cases d') auto
  have "desc d K (lower c) = desc e K (lower c)" if "c \<in> set (K p)" for c
  proof (rule Suc.IH)
    show "rank (lower c) < d" "rank (lower c) < e" using Suc.prems child_rank [OF f that] e by auto
  qed
  then show ?case by (auto simp: e intro!: arg_cong [where f = concat])
qed simp

lemma desc_set:
  assumes f: "forest rank C K"
  shows "rank p < d \<Longrightarrow> lower ` set (desc d K p) = below C p"
proof (induction d arbitrary: p)
  case (Suc d)
  have "lower ` set (desc (Suc d) K p) = (\<Union>c \<in> set (K p). insert (lower c) (lower ` set (desc d K (lower c))))"
    by auto
  also have "\<dots> = (\<Union>c \<in> set (K p). insert (lower c) (below C (lower c)))"
  proof (rule SUP_cong [OF refl])
    fix c
    assume "c \<in> set (K p)"
    with Suc.prems child_rank [OF f this] have "rank (lower c) < d" by simp
    with Suc.IH show "insert (lower c) (lower ` set (desc d K (lower c))) = insert (lower c) (below C (lower c))" by simp
  qed
  also have "\<dots> = (\<Union>c \<in> subclasses C p. insert c (below C c))"
    unfolding forestD(1) [OF f, of p, symmetric] by simp
  also have "\<dots> = below C p" using below_iff [of _ C p] by auto
  finally show ?case .
qed simp

text \<open>A class has one superclass, so what is below two subclasses of one class is disjoint.\<close>

lemma sub_rel_rank:
  assumes f: "forest rank C K" and r: "(m, p) \<in> (sub_rel C)\<^sup>*"
  shows "m = p \<or> rank m < rank p"
  using r
proof (induction rule: rtrancl_induct)
  case (step y z)
  then have "rank y < rank z" using forestD(3) [OF f, of y z] by (simp add: sub_rel_def)
  with step show ?case by auto
qed simp

lemma sub_rel_single: "single_valued (sub_rel C)"
  by (auto simp: single_valued_def sub_rel_def subclasses_def)

lemma siblings_disjoint:
  assumes f: "forest rank C K" and sub: "a \<in> subclasses C p" "b \<in> subclasses C p"
    and m: "m \<in> insert a (below C a)" "m \<in> insert b (below C b)"
  shows "a = b"
proof -
  have r: "(m, a) \<in> (sub_rel C)\<^sup>*" "(m, b) \<in> (sub_rel C)\<^sup>*"
    using m by (auto simp: below_def dest: trancl_into_rtrancl)
  have up: "x = y" if h: "(x, y) \<in> (sub_rel C)\<^sup>*" "x \<in> subclasses C p" "y \<in> subclasses C p" for x y
  proof (rule ccontr)
    assume "x \<noteq> y"
    with h(1) obtain z where z: "(x, z) \<in> sub_rel C" "(z, y) \<in> (sub_rel C)\<^sup>*" by (meson converse_rtranclE)
    have "(x, p) \<in> sub_rel C" using h(2) by (simp add: sub_rel_def)
    with z(1) sub_rel_single have "z = p" by (metis single_valuedD)
    with z(2) sub_rel_rank [OF f, of p y] have "rank p \<le> rank y" by auto
    moreover have "rank y < rank p" by (rule forestD(3) [OF f h(3)])
    ultimately show False by simp
  qed
  show ?thesis
    using single_valued_confluent [OF sub_rel_single r] up [of a b] up [of b a] sub by auto
qed

lemma not_below_self: "forest rank C K \<Longrightarrow> a \<notin> below C a"
proof
  assume f: "forest rank C K" and "a \<in> below C a"
  then obtain z where "(a, z) \<in> sub_rel C" "(z, a) \<in> (sub_rel C)\<^sup>*"
    unfolding below_def by (metis mem_Collect_eq tranclD)
  with sub_rel_rank [OF f, of z a] forestD(3) [OF f, of a z] show False by (auto simp: sub_rel_def)
qed

lemma desc_distinct:
  assumes f: "forest rank C K"
  shows "rank p < d \<Longrightarrow> distinct (map lower (desc d K p))"
proof (induction d arbitrary: p)
  case (Suc d)
  have small: "rank (lower c) < d" if "c \<in> set (K p)" for c
    using Suc.prems child_rank [OF f that] by simp
  have sets: "set (map lower (c # desc d K (lower c))) = insert (lower c) (below C (lower c))" if "c \<in> set (K p)" for c
    using desc_set [OF f small [OF that]] by simp
  have one: "distinct (map lower (c # desc d K (lower c)))" if "c \<in> set (K p)" for c
    using Suc.IH [OF small [OF that]] desc_set [OF f small [OF that]] not_below_self [OF f, of "lower c"]
    by (simp del: map_map)
  have "distinct (map lower (concat (map (\<lambda>c. c # desc d K (lower c)) xs)))"
    if "distinct (map lower xs)" "set xs \<subseteq> set (K p)" for xs
    using that
  proof (induction xs)
    case (Cons c xs)
    have "set (map lower (c # desc d K (lower c))) \<inter> set (map lower (concat (map (\<lambda>c. c # desc d K (lower c)) xs))) = {}"
    proof -
      have "set (map lower (c # desc d K (lower c))) \<inter> set (map lower (b # desc d K (lower b))) = {}" if b: "b \<in> set xs" for b
      proof -
        have "lower b \<noteq> lower c" using b Cons.prems(1) by (metis distinct.simps(2) image_eqI list.set_map list.simps(9))
        moreover have "lower b \<in> subclasses C p" "lower c \<in> subclasses C p"
          using child_rank [OF f] b Cons.prems(2) by auto
        ultimately show ?thesis
          using sets [of b] sets [of c] b Cons.prems(2) siblings_disjoint [OF f, of "lower b" p "lower c"] by auto
      qed
      moreover have "set (map lower (concat (map (\<lambda>c. c # desc d K (lower c)) xs))) =
          (\<Union>b \<in> set xs. set (map lower (b # desc d K (lower b))))"
        by (induction xs) auto
      ultimately show ?thesis by (metis (no_types, lifting) Int_UN_distrib UN_constant SUP_cong empty_is_image SUP_bot)
    qed
    moreover have "distinct (map lower (concat (map (\<lambda>c. c # desc d K (lower c)) xs)))"
      using Cons by simp
    ultimately show ?case using one [of c] Cons.prems(2) by (simp del: map_map)
  qed simp
  from this [of "K p"] forestD(2) [OF f, of p] show ?case by simp
qed simp

subsection \<open>The loops move only cursors\<close>

text \<open>Two registers that differ at most in the cursors of lists.\<close>

definition moved :: "'d class_register \<Rightarrow> 'd class_register \<Rightarrow> bool" where
  "moved cr cr' \<longleftrightarrow> (\<exists>ls. cr' = cr\<lparr>lists := ls\<rparr> \<and> length ls = length (lists cr) \<and>
     (\<forall>i < length ls. \<exists>c. ls ! i = (lists cr ! i)\<lparr>current := c\<rparr>))"

lemma same_cursor: "\<exists>c. g = g\<lparr>current := c\<rparr>"
  by (metis glist.surjective glist.update_convs(2))

lemma moved_refl: "moved cr cr"
  unfolding moved_def by (rule exI [of _ "lists cr"]) (simp add: same_cursor)

lemma moved_trans:
  assumes "moved a b" "moved b c"
  shows "moved a c"
proof -
  obtain ls ls' where l: "b = a\<lparr>lists := ls\<rparr>" "length ls = length (lists a)" "c = b\<lparr>lists := ls'\<rparr>" "length ls' = length ls"
    and c: "\<And>i. i < length ls \<Longrightarrow> \<exists>c. ls ! i = (lists a ! i)\<lparr>current := c\<rparr>" "\<And>i. i < length ls \<Longrightarrow> \<exists>c. ls' ! i = (ls ! i)\<lparr>current := c\<rparr>"
    using assms by (auto simp: moved_def)
  have "\<exists>c. ls' ! i = (lists a ! i)\<lparr>current := c\<rparr>" if i: "i < length ls" for i
    using c(1) [OF i] c(2) [OF i] by auto
  with l show ?thesis unfolding moved_def by auto
qed

lemma moved_fields:
  assumes "moved cr cr'"
  shows "ht cr' = ht cr" "itab cr' = itab cr" "brk cr' = brk cr" "repfile cr' = repfile cr"
    "length (lists cr') = length (lists cr)" "i < length (lists cr) \<Longrightarrow> \<exists>c. lists cr' ! i = (lists cr ! i)\<lparr>current := c\<rparr>"
    "getClass cr' = getClass cr" "getChildren cr' = getChildren cr"
  using assms unfolding moved_def by (auto simp: getClass_def getChildren_def fun_eq_iff)

lemma moved_update:
  assumes "i < length (lists cr)" "g' = (lists cr ! i)\<lparr>current := c\<rparr>"
  shows "moved cr (cr\<lparr>lists := (lists cr)[i := g']\<rparr>)"
  unfolding moved_def using assms same_cursor
  by (intro exI [of _ "(lists cr)[i := g']"]) (auto simp: nth_list_update)

lemma moved_rep:
  assumes m: "moved cr cr'" and rep: "reg_rep cr C K"
  shows "reg_rep cr' C K"
proof (rule reg_repI)
  note f = moved_fields [OF m]
  have h: "list_holds (lists cr' ! i) xs = list_holds (lists cr ! i) xs" if i: "i < length (lists cr)" for i xs
    using f(6) [OF i] by (auto simp: list_holds_def)
  show "i < length (lists cr') \<and> list_holds (lists cr' ! i) (K (lower n))" if "name_get (itab cr') n = Some i" for n i
    using reg_repD(5) [OF rep, of n i] that h unfolding f by simp
  show "fresh_from (brk cr') g" if g: "g \<in> set (lists cr')" for g
  proof -
    from g obtain i where i: "i < length (lists cr)" "g = lists cr' ! i" unfolding in_set_conv_nth f(5) by blast
    then have "fresh_from (brk cr) (lists cr ! i)" using reg_repD(7) [OF rep] by simp
    with f(6) [OF i(1)] i(2) show ?thesis unfolding f by (auto simp: fresh_from_def)
  qed
  show "lower n = lower m" if "name_get (itab cr') n = Some i" "name_get (itab cr') m = Some i" for n m i
    using reg_repD(6) [OF rep, of n i m] that unfolding f by simp
  show "K (lower n) = []" if "name_get (itab cr') n = None" for n
    using reg_repD(4) [OF rep, of n] that unfolding f by simp
qed (use reg_repD(1,2) [OF rep] reg_repD(3) [OF rep] moved_fields [OF m] in simp_all)

text \<open>One step of a loop.\<close>

lemma move_to_current: "move_to g p = Some (g', x) \<Longrightarrow> \<exists>c. g' = g\<lparr>current := c\<rparr>"
  by (auto simp: move_to_def)

lemma cursor_only:
  "listGetFirst g = Some (g', x) \<Longrightarrow> \<exists>c. g' = g\<lparr>current := c\<rparr>"
  "listGetNext g = Some (g', x) \<Longrightarrow> \<exists>c. g' = g\<lparr>current := c\<rparr>"
  by (auto simp: listGetFirst_def first_in_list_def listGetNext_def next_in_list_def bind_eq_Some_conv
      reset_to_beginning_def dest!: move_to_current)

lemma first_child_step:
  assumes "i < length (lists cr)" "list_holds (lists cr ! i) xs"
  shows "\<exists>cr'. first_child cr i = Some (cr', case xs of [] \<Rightarrow> None | x # _ \<Rightarrow> Some x) \<and> moved cr cr' \<and>
    (\<forall>j. j \<noteq> i \<longrightarrow> lists cr' ! j = lists cr ! j) \<and> (case xs of [] \<Rightarrow> True | x # ys \<Rightarrow> list_on (lists cr' ! i) [] x ys)"
proof -
  obtain g where g: "listGetFirst (lists cr ! i) = Some (g, case xs of [] \<Rightarrow> None | x # _ \<Rightarrow> Some x)"
    "case xs of [] \<Rightarrow> True | x # ys \<Rightarrow> list_on g [] x ys"
    using ul.first_Nil ul.first_Cons assms(2) by (cases xs) fastforce+
  with cursor_only(1) [OF g(1)] moved_update [OF assms(1), of g] assms(1) show ?thesis
    by (auto simp: first_child_def split: list.splits)
qed

lemma next_child_step:
  assumes "i < length (lists cr)" "list_on (lists cr ! i) xs x ys"
  shows "\<exists>cr'. next_child cr i = Some (cr', case ys of [] \<Rightarrow> None | y # _ \<Rightarrow> Some y) \<and> moved cr cr' \<and>
    (\<forall>j. j \<noteq> i \<longrightarrow> lists cr' ! j = lists cr ! j) \<and> (case ys of [] \<Rightarrow> True | y # zs \<Rightarrow> list_on (lists cr' ! i) (xs @ [x]) y zs)"
proof -
  obtain g where g: "listGetNext (lists cr ! i) = Some (g, case ys of [] \<Rightarrow> None | y # _ \<Rightarrow> Some y)"
    "case ys of [] \<Rightarrow> True | y # zs \<Rightarrow> list_on g (xs @ [x]) y zs"
    using ul.next_Nil ul.next_Cons assms(2) by (cases ys) fastforce+
  with cursor_only(2) [OF g(1)] moved_update [OF assms(1), of g] assms(1) show ?thesis
    by (auto simp: next_child_def split: list.splits)
qed

text \<open>A loop below a class leaves alone the lists of all classes of higher rank.\<close>

definition keeps_above :: "(string \<Rightarrow> nat) \<Rightarrow> nat \<Rightarrow> 'd class_register \<Rightarrow> 'd class_register \<Rightarrow> bool" where
  "keeps_above rank r cr cr' \<longleftrightarrow>
     (\<forall>m j. getChildren cr m = Some j \<longrightarrow> r < rank (lower m) \<longrightarrow> lists cr' ! j = lists cr ! j)"

lemma keeps_above_refl: "keeps_above rank r cr cr"
  by (simp add: keeps_above_def)

lemma keeps_above_trans:
  "keeps_above rank r a b \<Longrightarrow> keeps_above rank r b c \<Longrightarrow> moved a b \<Longrightarrow> keeps_above rank r a c"
  unfolding keeps_above_def by (simp add: moved_fields(8))

lemma keeps_above_mono: "keeps_above rank r a b \<Longrightarrow> r \<le> s \<Longrightarrow> keeps_above rank s a b"
  unfolding keeps_above_def by auto

lemma keeps_above_one:
  assumes rep: "reg_rep cr C K" and i: "getChildren cr cn = Some i" and o: "\<forall>j. j \<noteq> i \<longrightarrow> lists cr' ! j = lists cr ! j"
    and r: "rank (lower cn) \<le> r"
  shows "keeps_above rank r cr cr'"
  unfolding keeps_above_def
proof (intro allI impI)
  fix m j
  assume h: "getChildren cr m = Some j" "r < rank (lower m)"
  have "j \<noteq> i" using reg_repD(6) [OF rep, of m j cn] h i r by (auto simp: getChildren_def)
  with o show "lists cr' ! j = lists cr ! j" by simp
qed

text \<open>Going down into a subclass and on to the next one, in the middle of a list.\<close>

lemma child_step:
  assumes f: "forest rank C K" and rep: "reg_rep cr C K" and i: "getChildren cr cn = Some i"
    and K: "K (lower cn) = xs @ x # ys" and on: "list_on (lists cr ! i) xs x ys"
    and down: "moved cr cr2" "keeps_above rank (rank (lower x)) cr cr2"
  shows "\<exists>cr3. next_child cr2 i = Some (cr3, case ys of [] \<Rightarrow> None | y # _ \<Rightarrow> Some y) \<and> moved cr cr3 \<and>
    keeps_above rank (rank (lower cn)) cr cr3 \<and> (case ys of [] \<Rightarrow> True | y # zs \<Rightarrow> list_on (lists cr3 ! i) (xs @ [x]) y zs)"
proof -
  have low: "rank (lower x) < rank (lower cn)" using child_rank [OF f, of x "lower cn"] K by simp
  have l: "i < length (lists cr)" using reg_repD(5) [OF rep, of cn i] i by (simp add: getChildren_def)
  have "lists cr2 ! i = lists cr ! i" using down(2) i low by (auto simp: keeps_above_def)
  with on have on2: "list_on (lists cr2 ! i) xs x ys" by simp
  have l2: "i < length (lists cr2)" using l moved_fields(5) [OF down(1)] by simp
  obtain cr3 where cr3: "next_child cr2 i = Some (cr3, case ys of [] \<Rightarrow> None | y # _ \<Rightarrow> Some y)" "moved cr2 cr3"
    "\<forall>j. j \<noteq> i \<longrightarrow> lists cr3 ! j = lists cr2 ! j" "case ys of [] \<Rightarrow> True | y # zs \<Rightarrow> list_on (lists cr3 ! i) (xs @ [x]) y zs"
    using next_child_step [OF l2 on2] by blast
  have "keeps_above rank (rank (lower cn)) cr2 cr3"
    using keeps_above_one [OF moved_rep [OF down(1) rep], of cn i cr3] i cr3(3) moved_fields(8) [OF down(1)] by simp
  with keeps_above_mono [OF down(2) less_imp_le [OF low]] have "keeps_above rank (rank (lower cn)) cr cr3"
    using keeps_above_trans down(1) by blast
  with cr3 moved_trans [OF down(1) cr3(2)] show ?thesis by blast
qed

lemma enter_children:
  assumes rep: "reg_rep cr C K" and i: "getChildren cr cn = Some i"
  shows "\<exists>cr1. first_child cr i = Some (cr1, case K (lower cn) of [] \<Rightarrow> None | x # _ \<Rightarrow> Some x) \<and> moved cr cr1 \<and>
    keeps_above rank (rank (lower cn)) cr cr1 \<and> (case K (lower cn) of [] \<Rightarrow> True | x # ys \<Rightarrow> list_on (lists cr1 ! i) [] x ys)"
proof -
  have l: "i < length (lists cr)" "list_holds (lists cr ! i) (K (lower cn))"
    using reg_repD(5) [OF rep, of cn i] i by (auto simp: getChildren_def)
  show ?thesis
    using first_child_step [OF l] keeps_above_one [OF rep i, of _ rank] by blast
qed

lemma loop_children_ok:
  assumes f: "forest rank C K"
    and act: "\<And>cr c. reg_rep cr C K \<Longrightarrow> C (lower c) \<noteq> None \<Longrightarrow> f cr c = Some (F c)"
    and IH: "\<And>cr c. reg_rep cr C K \<Longrightarrow> c \<in> set (K (lower cn)) \<Longrightarrow>
      \<exists>cr'. loop_on f cr c = Some (cr', concat (map F (desc d K (lower c)))) \<and> moved cr cr' \<and> keeps_above rank (rank (lower c)) cr cr'"
    and prems: "reg_rep cr C K" "getChildren cr cn = Some i" "K (lower cn) = xs @ x # ys" "list_on (lists cr ! i) xs x ys"
  shows "\<exists>cr'. loop_children f cr i (Some x) = Some (cr', concat (map F (concat (map (\<lambda>c. c # desc d K (lower c)) (x # ys))))) \<and>
      moved cr cr' \<and> keeps_above rank (rank (lower cn)) cr cr'"
  using prems
proof (induction ys arbitrary: cr xs x)
  case (Nil cr xs x)
  have act_x: "f cr x = Some (F x)"
    using act [OF Nil(1)] child_rank(1) [OF f, of x "lower cn"] Nil(3) by (auto simp: subclasses_def)
  obtain cr2 where down: "loop_on f cr x = Some (cr2, concat (map F (desc d K (lower x))))" "moved cr cr2"
    "keeps_above rank (rank (lower x)) cr cr2"
    using IH [OF Nil(1), of x] Nil(3) by auto
  obtain cr3 where s: "next_child cr2 i = Some (cr3, None)" "moved cr cr3" "keeps_above rank (rank (lower cn)) cr cr3"
    using child_step [OF f Nil down(2,3)] by auto
  have "loop_children f cr3 i None = Some (cr3, [])" by (simp add: loop_children.simps)
  then have "loop_children f cr i (Some x) = Some (cr3, F x @ concat (map F (desc d K (lower x))))"
    using s(1) down(1) act_x by (simp add: loop_children.simps [of f cr] loop_on_def [symmetric])
  with s(2,3) show ?case by simp
next
  case (Cons y ys cr xs x)
  have act_x: "f cr x = Some (F x)"
    using act [OF Cons.prems(1)] child_rank(1) [OF f, of x "lower cn"] Cons.prems(3) by (auto simp: subclasses_def)
  obtain cr2 where down: "loop_on f cr x = Some (cr2, concat (map F (desc d K (lower x))))" "moved cr cr2"
    "keeps_above rank (rank (lower x)) cr cr2"
    using IH [OF Cons.prems(1), of x] Cons.prems(3) by auto
  obtain cr3 where s: "next_child cr2 i = Some (cr3, Some y)" "moved cr cr3" "keeps_above rank (rank (lower cn)) cr cr3"
    "list_on (lists cr3 ! i) (xs @ [x]) y ys"
    using child_step [OF f Cons.prems down(2,3)] by auto
  obtain cr4 where t: "loop_children f cr3 i (Some y) = Some (cr4, concat (map F (concat (map (\<lambda>c. c # desc d K (lower c)) (y # ys)))))"
    "moved cr3 cr4" "keeps_above rank (rank (lower cn)) cr3 cr4"
    using Cons.IH [OF moved_rep [OF s(2) Cons.prems(1)] _ _ s(4)] Cons.prems(2,3) moved_fields(8) [OF s(2)] by auto
  have "loop_children f cr i (Some x) = Some (cr4, F x @ concat (map F (desc d K (lower x))) @
      concat (map F (concat (map (\<lambda>c. c # desc d K (lower c)) (y # ys)))))"
    using s(1) down(1) t(1) act_x by (simp add: loop_children.simps [of f cr] loop_on_def [symmetric])
  with moved_trans [OF s(2) t(2)] keeps_above_trans [OF s(3) t(3) s(2)] show ?case by simp
qed

lemma loop_on_ok:
  assumes f: "forest rank C K"
    and act: "\<And>cr c. reg_rep cr C K \<Longrightarrow> C (lower c) \<noteq> None \<Longrightarrow> f cr c = Some (F c)"
  shows "reg_rep cr C K \<Longrightarrow> rank (lower cn) < d \<Longrightarrow>
    \<exists>cr'. loop_on f cr cn = Some (cr', concat (map F (desc d K (lower cn)))) \<and> moved cr cr' \<and>
      keeps_above rank (rank (lower cn)) cr cr'"
proof (induction d arbitrary: cr cn)
  case (Suc d)
  have IH: "\<exists>cr'. loop_on f cr c = Some (cr', concat (map F (desc d K (lower c)))) \<and> moved cr cr' \<and> keeps_above rank (rank (lower c)) cr cr'"
    if "reg_rep cr C K" "c \<in> set (K (lower cn))" for cr c
    using Suc.IH [OF that(1), of c] child_rank(2) [OF f that(2)] Suc.prems(2) by simp
  show ?case
  proof (cases "getChildren cr cn")
    case None
    then have "K (lower cn) = []" using reg_repD(4) [OF Suc.prems(1), of cn] by (simp add: getChildren_def)
    with None show ?thesis by (simp add: loop_on_def moved_refl keeps_above_refl)
  next
    case (Some i)
    obtain cr1 where first: "first_child cr i = Some (cr1, case K (lower cn) of [] \<Rightarrow> None | x # _ \<Rightarrow> Some x)" "moved cr cr1"
      and k1: "keeps_above rank (rank (lower cn)) cr cr1"
      and on: "case K (lower cn) of [] \<Rightarrow> True | x # ys \<Rightarrow> list_on (lists cr1 ! i) [] x ys"
      using enter_children [OF Suc.prems(1) Some, of rank] by blast
    show ?thesis
    proof (cases "K (lower cn)")
      case Nil
      with first k1 Some show ?thesis by (simp add: loop_on_def loop_children.simps)
    next
      case (Cons x ys)
      obtain cr2 where c: "loop_children f cr1 i (Some x) = Some (cr2, concat (map F (concat (map (\<lambda>c. c # desc d K (lower c)) (x # ys)))))"
        "moved cr1 cr2" "keeps_above rank (rank (lower cn)) cr1 cr2"
        using loop_children_ok [OF f act IH moved_rep [OF first(2) Suc.prems(1)], where i = i and xs = "[]" and x = x and ys = ys] Cons Some on
          moved_fields(8) [OF first(2)] by auto
      have "loop_on f cr cn = Some (cr2, concat (map F (desc (Suc d) K (lower cn))))"
        using c(1) first(1) Some Cons by (simp add: loop_on_def)
      with moved_trans [OF first(2) c(2)] keeps_above_trans [OF k1 c(3) first(2)] show ?thesis by blast
    qed
  qed
qed simp

definition traverse_in :: "'d class_register \<Rightarrow> string \<Rightarrow> string \<Rightarrow> ('d class_register \<times> bool) option" where
  "traverse_in cr cn chldn =
     (case getChildren cr cn of
        None \<Rightarrow> Some (cr, False)
      | Some j \<Rightarrow> Option.bind (first_child cr j) (\<lambda>(cr1, c1). traverse_from cr1 j c1 chldn))"

lemma traverseChildren_in:
  "traverseChildren cr cn chldn = map_option (\<lambda>(cr', found). (cr', if found then RC_OK else ERR_FAILED)) (traverse_in cr cn chldn)"
  by (simp add: traverseChildren_def traverse_in_def map_option_bind case_prod_unfold comp_def split: option.split)

lemma traverse_from_ok:
  assumes f: "forest rank C K"
    and IH: "\<And>cr c. reg_rep cr C K \<Longrightarrow> c \<in> set (K (lower cn)) \<Longrightarrow>
      \<exists>cr'. traverse_in cr c chldn = Some (cr', lower chldn \<in> below C (lower c)) \<and> moved cr cr' \<and> keeps_above rank (rank (lower c)) cr cr'"
    and prems: "reg_rep cr C K" "getChildren cr cn = Some i" "K (lower cn) = xs @ x # ys" "list_on (lists cr ! i) xs x ys"
  shows "\<exists>cr'. traverse_from cr i (Some x) chldn =
      Some (cr', \<exists>c \<in> set (x # ys). lower chldn = lower c \<or> lower chldn \<in> below C (lower c)) \<and>
    moved cr cr' \<and> keeps_above rank (rank (lower cn)) cr cr'"
  using prems
proof (induction ys arbitrary: cr xs x)
  case (Nil cr xs x)
  show ?case
  proof (cases "lower chldn = lower x")
    case True
    then show ?thesis by (simp add: traverse_from.simps [of cr] moved_refl keeps_above_refl)
  next
    case False
    obtain cr2 where down: "traverse_in cr x chldn = Some (cr2, lower chldn \<in> below C (lower x))" "moved cr cr2"
      "keeps_above rank (rank (lower x)) cr cr2"
      using IH [OF Nil(1), of x] Nil(3) by auto
    obtain cr3 where s: "next_child cr2 i = Some (cr3, None)" "moved cr cr3" "keeps_above rank (rank (lower cn)) cr cr3"
      using child_step [OF f Nil down(2,3)] by auto
    have "keeps_above rank (rank (lower cn)) cr cr2"
      using keeps_above_mono [OF down(3)] child_rank(2) [OF f, of x "lower cn"] Nil(3) by simp
    moreover have "traverse_from cr3 i None chldn = Some (cr3, False)" by (simp add: traverse_from.simps)
    ultimately show ?thesis
      using s down False by (cases "lower chldn \<in> below C (lower x)")
        (auto simp: traverse_from.simps [of cr] traverse_in_def [symmetric])
  qed
next
  case (Cons y ys cr xs x)
  show ?case
  proof (cases "lower chldn = lower x")
    case True
    then show ?thesis by (simp add: traverse_from.simps [of cr] moved_refl keeps_above_refl)
  next
    case False
    obtain cr2 where down: "traverse_in cr x chldn = Some (cr2, lower chldn \<in> below C (lower x))" "moved cr cr2"
      "keeps_above rank (rank (lower x)) cr cr2"
      using IH [OF Cons.prems(1), of x] Cons.prems(3) by auto
    show ?thesis
    proof (cases "lower chldn \<in> below C (lower x)")
      case found: True
      have "keeps_above rank (rank (lower cn)) cr cr2"
        using keeps_above_mono [OF down(3)] child_rank(2) [OF f, of x "lower cn"] Cons.prems(3) by simp
      with found down False show ?thesis by (auto simp: traverse_from.simps [of cr] traverse_in_def [symmetric])
    next
      case nf: False
      obtain cr3 where s: "next_child cr2 i = Some (cr3, Some y)" "moved cr cr3" "keeps_above rank (rank (lower cn)) cr cr3"
        "list_on (lists cr3 ! i) (xs @ [x]) y ys"
        using child_step [OF f Cons.prems down(2,3)] by auto
      obtain cr4 where t: "traverse_from cr3 i (Some y) chldn =
          Some (cr4, \<exists>c \<in> set (y # ys). lower chldn = lower c \<or> lower chldn \<in> below C (lower c))"
        "moved cr3 cr4" "keeps_above rank (rank (lower cn)) cr3 cr4"
        using Cons.IH [OF moved_rep [OF s(2) Cons.prems(1)] _ _ s(4)] Cons.prems(2,3) moved_fields(8) [OF s(2)] by auto
      have "traverse_from cr i (Some x) chldn =
          Some (cr4, \<exists>c \<in> set (x # y # ys). lower chldn = lower c \<or> lower chldn \<in> below C (lower c))"
        using s(1) down(1) t(1) nf False by (simp add: traverse_from.simps [of cr] traverse_in_def [symmetric])
      with moved_trans [OF s(2) t(2)] keeps_above_trans [OF s(3) t(3) s(2)] show ?thesis by blast
    qed
  qed
qed

lemma traverse_in_ok:
  assumes f: "forest rank C K"
  shows "reg_rep cr C K \<Longrightarrow> rank (lower cn) < d \<Longrightarrow>
    \<exists>cr'. traverse_in cr cn chldn = Some (cr', lower chldn \<in> below C (lower cn)) \<and> moved cr cr' \<and>
      keeps_above rank (rank (lower cn)) cr cr'"
proof (induction d arbitrary: cr cn)
  case (Suc d)
  have IH: "\<exists>cr'. traverse_in cr c chldn = Some (cr', lower chldn \<in> below C (lower c)) \<and> moved cr cr' \<and> keeps_above rank (rank (lower c)) cr cr'"
    if "reg_rep cr C K" "c \<in> set (K (lower cn))" for cr c
    using Suc.IH [OF that(1), of c] child_rank(2) [OF f that(2)] Suc.prems(2) by simp
  have bel: "lower chldn \<in> below C (lower cn) \<longleftrightarrow> (\<exists>c \<in> set (K (lower cn)). lower chldn = lower c \<or> lower chldn \<in> below C (lower c))"
    unfolding below_iff [of _ C "lower cn"] forestD(1) [OF f, of "lower cn", symmetric] by auto
  show ?case
  proof (cases "getChildren cr cn")
    case None
    then have "K (lower cn) = []" using reg_repD(4) [OF Suc.prems(1), of cn] by (simp add: getChildren_def)
    with None bel show ?thesis by (simp add: traverse_in_def moved_refl keeps_above_refl)
  next
    case (Some i)
    obtain cr1 where first: "first_child cr i = Some (cr1, case K (lower cn) of [] \<Rightarrow> None | x # _ \<Rightarrow> Some x)" "moved cr cr1"
      and k1: "keeps_above rank (rank (lower cn)) cr cr1"
      and on: "case K (lower cn) of [] \<Rightarrow> True | x # ys \<Rightarrow> list_on (lists cr1 ! i) [] x ys"
      using enter_children [OF Suc.prems(1) Some, of rank] by blast
    show ?thesis
    proof (cases "K (lower cn)")
      case Nil
      with first k1 Some bel show ?thesis by (simp add: traverse_in_def traverse_from.simps)
    next
      case (Cons x ys)
      obtain cr2 where c: "traverse_from cr1 i (Some x) chldn =
          Some (cr2, \<exists>c \<in> set (x # ys). lower chldn = lower c \<or> lower chldn \<in> below C (lower c))"
        "moved cr1 cr2" "keeps_above rank (rank (lower cn)) cr1 cr2"
        using traverse_from_ok [OF f IH moved_rep [OF first(2) Suc.prems(1)], where i = i and xs = "[]" and x = x and ys = ys]
          Cons Some on moved_fields(8) [OF first(2)] by auto
      have "traverse_in cr cn chldn = Some (cr2, lower chldn \<in> below C (lower cn))"
        using c(1) first(1) Some Cons bel by (simp add: traverse_in_def)
      with moved_trans [OF first(2) c(2)] keeps_above_trans [OF k1 c(3) first(2)] show ?thesis by blast
    qed
  qed
qed simp

section \<open>Properties\<close>

lemma get_class_rep:
  assumes "reg_rep cr C K"
  shows "ClassProviderGetClass cr cn = (C (lower cn), if C (lower cn) = None then ERR_NOT_FOUND else RC_OK)"
  using reg_repD(3) [OF assms, of cn] by (simp add: ClassProviderGetClass_def split: option.split)


lemma empty_file_rep:
  "\<exists>(cr :: 'd class_register) K. newClassRegister (Some (rep_file [])) = Some cr \<and> reg_rep cr Map.empty K \<and>
    forest (\<lambda>_. 0) (Map.empty :: string \<Rightarrow> 'd cls option) K \<and> repfile cr = Some (rep_file [])"
  using newClassRegister_rep [OF rep_file_holds [of "[] :: 'd cls list"] refl] by (fastforce simp: well_founded_def)

definition sample_class :: "unit cls" where
  "sample_class = \<lparr>cls_name = ''CIM_A'', cls_super = None, cls_quals = 1, cls_body = ()\<rparr>"


lemma same_children:
  assumes "forest rank C K" "forest rank' C K'"
  shows "mset (map lower (K p)) = mset (map lower (K' p))"
  using forestD(1,2) [OF assms(1), of p] forestD(1,2) [OF assms(2), of p]
  by (subst set_eq_iff_mset_eq_distinct [symmetric]) simp_all

lemma in_step_reload:
  assumes "in_step cr C K cs"
  shows "\<exists>cr' K'. newClassRegister (repfile cr) = Some cr' \<and> reg_rep cr' C K' \<and>
    (\<forall>p. mset (map lower (K' p)) = mset (map lower (K p)))"
proof -
  obtain rank where r: "reg_rep cr C K" "forest rank C K" "repfile cr = Some (rep_file cs)" "C = file_classes cs Map.empty"
    using assms by (auto simp: in_step_def)
  have wf: "well_founded rank C" using r(2) by (simp add: forest_def well_founded_def)
  with newClassRegister_rep [OF rep_file_holds r(4)] r(2,3) same_children show ?thesis by metis
qed



subsection \<open>Candidates for the repository\<close>

lemma reg_rep_finite:
  assumes rep: "reg_rep cr C K" and f: "forest rank C K"
  shows "finite (dom C)"
proof (rule finite_subset)
  show "dom C \<subseteq> (\<lambda>kc. lower (key_chars (fst kc))) ` set (stored (ht cr))"
  proof
    fix n
    assume "n \<in> dom C"
    then obtain c where c: "C n = Some c" by blast
    with f have n: "lower n = n" unfolding forest_def by (metis lower_lower)
    have "name_get (ht cr) n = Some c" using reg_repD(3) [OF rep, of n] c n by (simp add: getClass_def)
    then obtain k where "(k, c) \<in> set (stored (ht cr))" "lower (key_chars k) = lower n"
      using name_table_stored(3) [OF reg_repD(1) [OF rep]] by blast
    with n show "n \<in> (\<lambda>kc. lower (key_chars (fst kc))) ` set (stored (ht cr))" by force
  qed
qed simp

text \<open>\<open>above C n m\<close>: \<open>m\<close> is \<open>n\<close> or a direct or indirect superclass of it.\<close>

abbreviation above :: "(string \<Rightarrow> 'd cls option) \<Rightarrow> string \<Rightarrow> string \<Rightarrow> bool" where
  "above C n m \<equiv> (n, m) \<in> (sub_rel C)\<^sup>*"

lemma above_step:
  assumes "C n = Some cl" "lower n = n"
  shows "above C n m \<longleftrightarrow> m = n \<or> (\<exists>p. cls_super cl = Some p \<and> above C (lower p) m)"
proof -
  have "(n, q) \<in> sub_rel C \<longleftrightarrow> (\<exists>p. cls_super cl = Some p \<and> lower p = q)" for q
    using assms by (auto simp: sub_rel_def subclasses_def)
  then show ?thesis by (metis converse_rtranclE converse_rtrancl_into_rtrancl rtrancl.rtrancl_refl)
qed

definition same_ignoring_case :: "(string \<Rightarrow> bool) \<Rightarrow> bool" where
  "same_ignoring_case h \<longleftrightarrow> (\<forall>n m. lower n = lower m \<longrightarrow> h n = h m)"

lemma provider_above_ok:
  assumes rep: "reg_rep cr C K" and f: "forest rank C K" and h: "same_ignoring_case h"
  shows "C (lower cn) = Some cl \<Longrightarrow> provider_above h cr cn cl = Some (\<exists>m. above C (lower cn) m \<and> h m)"
proof (induction "Max (rank ` dom C) - rank (lower cn)" arbitrary: cn cl rule: less_induct)
  case less
  have bound: "rank n \<le> Max (rank ` dom C)" if "C n \<noteq> None" for n
    using reg_rep_finite [OF rep f] that by (intro Max_ge) auto
  have here: "h cn = h (lower cn)" using h unfolding same_ignoring_case_def by (metis lower_lower)
  note step = above_step [of C, OF less.prems lower_lower]
  show ?case
  proof (cases "cls_super cl")
    case None
    with here step show ?thesis by (subst provider_above.simps) auto
  next
    case (Some p)
    obtain pcl where p: "C (lower p) = Some pcl" "rank (lower cn) < rank (lower p)"
      using f less.prems Some unfolding forest_def by blast
    have "provider_above h cr p pcl = Some (\<exists>m. above C (lower p) m \<and> h m)"
      using less.hyps [OF _ p(1)] p(2) bound [of "lower p"] p(1) by fastforce
    moreover have "getClass cr p = Some pcl" using reg_repD(3) [OF rep, of p] p(1) by simp
    ultimately show ?thesis using here step Some by (subst provider_above.simps) auto
  qed
qed

text \<open>A class whose instances the repository holds: not abstract, and without an instance provider of its own or above it.\<close>

definition rep_class :: "(string \<Rightarrow> bool) \<Rightarrow> (string \<Rightarrow> 'd cls option) \<Rightarrow> string \<Rightarrow> bool" where
  "rep_class h C cn \<longleftrightarrow> (\<exists>cl. C (lower cn) = Some cl \<and> \<not> isAbstract cl) \<and>
     strcasecmp cn ''cim_indicationfilter'' \<noteq> 0 \<and> strcasecmp cn ''cim_indicationsubscription'' \<noteq> 0 \<and>
     \<not> (\<exists>m. above C (lower cn) m \<and> h m)"

lemma repCandidate_ok:
  assumes rep: "reg_rep cr C K" and f: "forest rank C K" and h: "same_ignoring_case h" and cn: "C (lower cn) \<noteq> None"
  shows "repCandidate h cr cn = Some (rep_class h C cn)"
proof -
  obtain cl where cl: "C (lower cn) = Some cl" using cn by blast
  show ?thesis
    using reg_repD(3) [OF rep, of cn] cl provider_above_ok [OF rep f h cl]
    by (simp add: repCandidate_def rep_class_def)
qed

lemma candidate_ok:
  assumes "reg_rep cr C K" "forest rank C K" "same_ignoring_case h" "C (lower c) \<noteq> None"
  shows "candidate h ign cr c = Some (if ign \<or> rep_class h C c then [c] else [])"
  using repCandidate_ok [OF assms] by (simp add: candidate_def)

lemma concat_map_if: "concat (map (\<lambda>c. if P c then [c] else []) xs) = filter P xs"
  by (induction xs) auto

lemma concat_map_one: "concat (map (\<lambda>c. [g c]) xs) = map g xs"
  by (induction xs) auto

lemma loop_candidates:
  assumes rep: "reg_rep cr C K" and f: "forest rank C K" and h: "same_ignoring_case h" and d: "rank (lower cn) < d"
  shows "\<exists>cr'. loop_on (candidate h ign) cr cn = Some (cr', filter (\<lambda>c. ign \<or> rep_class h C c) (desc d K (lower cn))) \<and> moved cr cr'"
proof -
  have "candidate h ign cr c = Some (if ign \<or> rep_class h C c then [c] else [])"
    if "reg_rep cr C K" "C (lower c) \<noteq> None" for cr c
    using candidate_ok [OF that(1) f h that(2)] .
  from loop_on_ok [OF f, of "candidate h ign", OF this rep d] show ?thesis by (auto simp: concat_map_if)
qed

lemma loop_names:
  assumes rep: "reg_rep cr C K" and f: "forest rank C K" and d: "rank (lower cn) < d"
  shows "\<exists>cr'. loopOnChildNames cr cn = Some (cr', desc d K (lower cn)) \<and> moved cr cr'"
    "\<exists>cr'. loopOnChildren cr cn = Some (cr', map (\<lambda>c. C (lower c)) (desc d K (lower cn))) \<and> moved cr cr'"
proof -
  show "\<exists>cr'. loopOnChildNames cr cn = Some (cr', desc d K (lower cn)) \<and> moved cr cr'"
    using loop_on_ok [OF f _ rep d, of "\<lambda>cr c. Some [c]" "\<lambda>c. [c]"] concat_map_one [of "\<lambda>c. c"] by (auto simp: loopOnChildNames_def)
  show "\<exists>cr'. loopOnChildren cr cn = Some (cr', map (\<lambda>c. C (lower c)) (desc d K (lower cn))) \<and> moved cr cr'"
    using loop_on_ok [OF f, of "\<lambda>cr c. Some [getClass cr c]" "\<lambda>c. [C (lower c)]", OF _ rep d, simplified reg_repD(3)]
    by (auto simp: loopOnChildren_def concat_map_one)
qed

text \<open>
  C32. The recursive loops over the subclasses end: \<open>loopOnChildNames\<close> returns every class below \<open>cn\<close> exactly once,
  \<open>loopOnChildren\<close> the class of each in the same order, \<open>loopOnChildChars\<close> those among them whose instances the
  repository holds (all of them when providers are ignored), \<open>loopOnChildCount\<close> their number; and
  \<open>traverseChildren\<close> says whether a class is below \<open>cn\<close>. Of the register they move the list cursors only.
\<close>

theorem subclass_loops:
  assumes "reg_rep cr C K" "forest rank C K" "same_ignoring_case h"
  shows "\<exists>ns. lower ` set ns = below C (lower cn) \<and> distinct (map lower ns) \<and>
    (\<exists>cr'. loopOnChildNames cr cn = Some (cr', ns) \<and> moved cr cr') \<and>
    (\<exists>cr'. loopOnChildren cr cn = Some (cr', map (\<lambda>c. C (lower c)) ns) \<and> moved cr cr') \<and>
    (\<forall>ign. \<exists>cr'. loopOnChildChars h ign cr cn = Some (cr', filter (\<lambda>c. ign \<or> rep_class h C c) ns) \<and> moved cr cr') \<and>
    (\<forall>ign. \<exists>cr'. loopOnChildCount h ign cr cn = Some (cr', length (filter (\<lambda>c. ign \<or> rep_class h C c) ns)) \<and> moved cr cr') \<and>
    (\<forall>ch. \<exists>cr'. traverseChildren cr cn ch = Some (cr', if lower ch \<in> below C (lower cn) then RC_OK else ERR_FAILED) \<and> moved cr cr')"
proof -
  let ?d = "Suc (rank (lower cn))"
  let ?ns = "desc ?d K (lower cn)"
  have d: "rank (lower cn) < ?d" by simp
  have "\<exists>cr'. loopOnChildChars h ign cr cn = Some (cr', filter (\<lambda>c. ign \<or> rep_class h C c) ?ns) \<and> moved cr cr'"
    and "\<exists>cr'. loopOnChildCount h ign cr cn = Some (cr', length (filter (\<lambda>c. ign \<or> rep_class h C c) ?ns)) \<and> moved cr cr'" for ign
    using loop_candidates [OF assms d, of ign] unfolding loopOnChildChars_def loopOnChildCount_def by fastforce+
  moreover have "\<exists>cr'. traverseChildren cr cn ch = Some (cr', if lower ch \<in> below C (lower cn) then RC_OK else ERR_FAILED) \<and> moved cr cr'" for ch
    using traverse_in_ok [OF assms(2,1) d, of ch] unfolding traverseChildren_in by fastforce
  ultimately show ?thesis
    by (intro exI [of _ ?ns] conjI allI desc_set [OF assms(2) d] desc_distinct [OF assms(2) d] loop_names [OF assms(1,2) d])
qed

theorem subclass_loops_witness:
  "\<exists>(cr :: unit class_register) cr'. newClassRegister (Some (rep_file [])) = Some cr \<and> loopOnChildNames cr ''CIM_A'' = Some (cr', [])"
proof -
  obtain cr K where cr: "newClassRegister (Some (rep_file [])) = Some (cr :: unit class_register)"
    "reg_rep cr Map.empty K" "forest (\<lambda>_. 0) (Map.empty :: string \<Rightarrow> unit cls option) K"
    using empty_file_rep by blast
  have none: "below (Map.empty :: string \<Rightarrow> unit cls option) n = {}" for n
    by (auto simp: below_def sub_rel_def subclasses_def elim: converse_tranclE)
  have "same_ignoring_case (\<lambda>_. False)" by (simp add: same_ignoring_case_def)
  from subclass_loops [OF cr(2,3) this, of "''CIM_A''"] obtain ns cr' where
    "lower ` set ns = below (Map.empty :: string \<Rightarrow> unit cls option) (lower ''CIM_A'')" "loopOnChildNames cr ''CIM_A'' = Some (cr', ns)"
    by blast
  then show ?thesis using cr(1) none by auto
qed

subsection \<open>What the lock does not exclude\<close>

text \<open>
  Two threads create the class \<open>cc\<close>: both make their checks, then each adds it. The name is then twice in the list of
  its superclass and twice in the file. When the class is deleted again, once is left in the list, of a class that does
  not exist; the superclass cannot be deleted any more.
\<close>

lemma create_race:
  assumes rep: "reg_rep cr C K" and f: "forest rank C K" and fl: "repfile cr = Some recs"
    and new: "C (lower (cls_name cc)) = None" and p: "cls_super cc = Some p" "C (lower p) = Some pcc"
    and small: "length (K (lower p)) + 2 < 2 ^ 32"
  shows "create_check cr (cls_name cc) (cls_super cc) = RC_OK \<and>
    (\<exists>cr1 cr2 cr3. addClass merge body0 cr cc (cls_name cc) (cls_super cc) = Some (cr1, RC_OK) \<and>
      addClass merge body0 cr1 cc (cls_name cc) (cls_super cc) = Some (cr2, RC_OK) \<and>
      ClassProviderDeleteClass cr2 (cls_name cc) = Some (cr3, RC_OK) \<and>
      getClass cr3 (cls_name cc) = None \<and> ClassProviderDeleteClass cr3 p = Some (cr3, ERR_CLASS_HAS_CHILDREN))"
proof -
  let ?n = "lower (cls_name cc)" and ?c = "merged_class merge body0 pcc cc" and ?k = "cls_name cc # K (lower p)"
  have np: "lower p \<noteq> ?n" using new p by auto
  obtain cr1 where cr1: "addClass merge body0 cr cc (cls_name cc) (cls_super cc) = Some (cr1, RC_OK)"
    "reg_rep cr1 (C(?n \<mapsto> ?c)) (K(lower p := ?k))" "repfile cr1 = Some (recs @ [ClassRecord ?c])"
    using addClass_rep [where c = ?c, OF rep fl p refl] by blast
  obtain cr2 recs2 where cr2: "addClass merge body0 cr1 cc (cls_name cc) (cls_super cc) = Some (cr2, RC_OK)"
    "reg_rep cr2 (C(?n \<mapsto> ?c)) (K(lower p := cls_name cc # ?k))" "repfile cr2 = Some recs2"
    using addClass_rep [where c = ?c and pcc = pcc, OF cr1(2,3) p(1) _ refl] np p(2) by auto
  have c: "(C(?n \<mapsto> ?c)) ?n = Some ?c" "(K(lower p := cls_name cc # ?k)) ?n = []" "cls_super ?c = Some p"
    using forest_no_child [OF f new] np p(1) by (simp_all add: merged_class_def)
  obtain cr3 where cr3: "ClassProviderDeleteClass cr2 (cls_name cc) = Some (cr3, RC_OK)"
    "reg_rep cr3 (C(?n := None)) (K(lower p := ?k))"
    using delete_leaf [OF cr2(2,3) c(1,2), of "K(lower p := ?k)", unfolded fun_upd_upd] c(3) by auto
  have "ClassProviderDeleteClass cr3 p = Some (cr3, ERR_CLASS_HAS_CHILDREN)"
    using delete_refused [OF cr3(2), of p] np p(2) small by auto
  with cr1 cr2 cr3 new p reg_repD(3) [OF cr3(2), of "cls_name cc"] show ?thesis
    by (auto simp: create_check_def reg_repD(3) [OF rep])
qed

text \<open>Two threads loop over one list of subclasses, both under the read lock: the second misses \<open>y\<close>.\<close>

lemma cursor_race:
  assumes l: "i < length (lists cr)" "list_holds (lists cr ! i) (x # y # ys)"
  shows "\<exists>cr1 cr2 cr3 cr4. first_child cr i = Some (cr1, Some x) \<and> first_child cr1 i = Some (cr2, Some x) \<and>
    next_child cr2 i = Some (cr3, Some y) \<and> next_child cr3 i = Some (cr4, case ys of [] \<Rightarrow> None | z # _ \<Rightarrow> Some z)"
proof -
  obtain cr1 where 1: "first_child cr i = Some (cr1, Some x)" "moved cr cr1"
    using first_child_step [OF l] by auto
  then have l1: "i < length (lists cr1)" "list_holds (lists cr1 ! i) (x # y # ys)"
    using l moved_fields(5) [OF 1(2)] moved_fields(6) [OF 1(2), of i] by (auto simp: list_holds_def)
  obtain cr2 where 2: "first_child cr1 i = Some (cr2, Some x)" "moved cr1 cr2" "list_on (lists cr2 ! i) [] x (y # ys)"
    using first_child_step [OF l1] by auto
  have "i < length (lists cr2)" using l1 moved_fields(5) [OF 2(2)] by simp
  from next_child_step [OF this 2(3)]
  obtain cr3 where 3: "next_child cr2 i = Some (cr3, Some y)" "moved cr2 cr3" "list_on (lists cr3 ! i) [x] y ys"
    by auto
  have "i < length (lists cr3)" using \<open>i < length (lists cr2)\<close> moved_fields(5) [OF 3(2)] by simp
  from next_child_step [OF this 3(3)] 1(1) 2(1) 3(1) show ?thesis by blast
qed

text \<open>
  C33. The checks of the handlers are made before the write lock is taken and a list of subclasses has one cursor for all
  readers. So two creations of one class may both succeed, after which its superclass cannot be deleted any more; and of
  two readers of one list, taking turns, one misses a subclass.
\<close>

theorem class_register_races:
  assumes "reg_rep cr C K" "forest rank C K" "repfile cr = Some recs"
    "C (lower (cls_name cc)) = None" "cls_super cc = Some p" "C (lower p) = Some pcc" "length (K (lower p)) + 2 < 2 ^ 32"
  shows "create_check cr (cls_name cc) (cls_super cc) = RC_OK \<and>
    (\<exists>cr1 cr2 cr3. addClass merge body0 cr cc (cls_name cc) (cls_super cc) = Some (cr1, RC_OK) \<and>
      addClass merge body0 cr1 cc (cls_name cc) (cls_super cc) = Some (cr2, RC_OK) \<and>
      ClassProviderDeleteClass cr2 (cls_name cc) = Some (cr3, RC_OK) \<and>
      getClass cr3 (cls_name cc) = None \<and> ClassProviderDeleteClass cr3 p = Some (cr3, ERR_CLASS_HAS_CHILDREN)) \<and>
    (\<forall>i n x y ys. getChildren cr n = Some i \<and> K (lower n) = x # y # ys \<longrightarrow>
      (\<exists>cr1 cr2 cr3 cr4. first_child cr i = Some (cr1, Some x) \<and> first_child cr1 i = Some (cr2, Some x) \<and>
        next_child cr2 i = Some (cr3, Some y) \<and> next_child cr3 i = Some (cr4, case ys of [] \<Rightarrow> None | z # _ \<Rightarrow> Some z)))"
  using create_race [OF assms, of merge body0] cursor_race [of _ cr] reg_repD(5) [OF assms(1)] unfolding getChildren_def
  by metis

theorem class_register_races_witness:
  "\<exists>(cr :: unit class_register) cr0 cr1 cr2 cr3 cc. newClassRegister (Some (rep_file [])) = Some cr \<and>
    ClassProviderCreateClass (\<lambda>a b. b) () cr sample_class = Some (cr0, RC_OK) \<and> cls_name cc = ''CIM_B'' \<and>
    addClass (\<lambda>a b. b) () cr0 cc (cls_name cc) (cls_super cc) = Some (cr1, RC_OK) \<and>
    addClass (\<lambda>a b. b) () cr1 cc (cls_name cc) (cls_super cc) = Some (cr2, RC_OK) \<and>
    ClassProviderDeleteClass cr2 ''CIM_B'' = Some (cr3, RC_OK) \<and>
    ClassProviderDeleteClass cr3 ''CIM_A'' = Some (cr3, ERR_CLASS_HAS_CHILDREN)"
proof -
  obtain cr K where cr: "newClassRegister (Some (rep_file [])) = Some (cr :: unit class_register)"
    "reg_rep cr Map.empty K" "forest (\<lambda>_. 0) (Map.empty :: string \<Rightarrow> unit cls option) K" "repfile cr = Some (rep_file [])"
    using empty_file_rep by blast
  have s: "create_spec (\<lambda>a b. b) () Map.empty K sample_class =
      (RC_OK, [lower ''CIM_A'' \<mapsto> sample_class], K, [ClassRecord sample_class])"
    by (simp add: create_spec_def sample_class_def)
  obtain cr0 rank recs where cr0: "ClassProviderCreateClass (\<lambda>a b. b) () cr sample_class = Some (cr0, RC_OK)"
    "reg_rep cr0 [lower ''CIM_A'' \<mapsto> sample_class] K" "forest rank [lower ''CIM_A'' \<mapsto> sample_class] K" "repfile cr0 = Some recs"
    using create_refines [OF cr(2-4) s] by blast
  define cc where "cc = \<lparr>cls_name = ''CIM_B'', cls_super = Some ''CIM_A'', cls_quals = 0, cls_body = ()\<rparr>"
  have cc: "[lower ''CIM_A'' \<mapsto> sample_class] (lower (cls_name cc)) = None" "cls_super cc = Some ''CIM_A''"
    "[lower ''CIM_A'' \<mapsto> sample_class] (lower ''CIM_A'') = Some sample_class"
    by (simp_all add: cc_def tolower_chars)
  have "K (lower ''CIM_A'') = []"
    using forest_no_child(2) [OF cr(3), of "lower ''CIM_A''"] by simp
  then have "length (K (lower ''CIM_A'')) + 2 < 2 ^ 32" by simp
  from class_register_races [OF cr0(2-4) cc this, of "\<lambda>a b. b" "()"] obtain cr1 cr2 cr3 where
    "addClass (\<lambda>a b. b) () cr0 cc (cls_name cc) (cls_super cc) = Some (cr1, RC_OK)"
    "addClass (\<lambda>a b. b) () cr1 cc (cls_name cc) (cls_super cc) = Some (cr2, RC_OK)"
    "ClassProviderDeleteClass cr2 (cls_name cc) = Some (cr3, RC_OK)"
    "ClassProviderDeleteClass cr3 ''CIM_A'' = Some (cr3, ERR_CLASS_HAS_CHILDREN)"
    by blast
  moreover have "cls_name cc = ''CIM_B''" by (simp add: cc_def)
  ultimately show ?thesis using cr(1) cr0(1) by metis
qed

end
