(* ===== verification/DateTime.thy ===== *)
theory DateTime
  imports Prelude
begin

text \<open>
  Dates, \<open>src/datetime.c\<close>: a date object keeps its text, \<open>yyyymmddhhmmss.mmmmmmsutc\<close> for a point in time and
  \<open>ddddddddhhmmss.mmmmmm:000\<close> for an interval, and is made from and read as a number of microseconds, 64 bits wide.

  \<open>mktime\<close> and \<open>localtime_r\<close> are modelled for the Gregorian calendar in a time zone without daylight saving,
  \<open>timezone\<close> seconds west of UTC; \<open>localtime_r\<close> does not fail, as the year of every number of microseconds fits its
  field. \<open>None\<close> is a write behind the 26 bytes of the text, a read outside of it, or a status set
  through a null pointer.

  Shown: intervals below \<open>10^8\<close> days are read as they were written; a point in time is off by the distance of the
  time zone from UTC; after the year 9999 the text is longer than the buffer; a text is taken exactly in the two forms.
\<close>

section \<open>The calendar\<close>

definition leap :: "int \<Rightarrow> bool" where
  "leap y \<longleftrightarrow> y mod 4 = 0 \<and> y mod 100 \<noteq> 0 \<or> y mod 400 = 0"

definition leaps_to :: "int \<Rightarrow> int" where
  "leaps_to y = y div 4 - y div 100 + y div 400"

text \<open>The number of the first day of a year; day 0 is the first of January 1970.\<close>

definition year_start :: "int \<Rightarrow> int" where
  "year_start y = 365 * (y - 1970) + leaps_to (y - 1) - leaps_to 1969"

definition month_days :: "int \<Rightarrow> int list" where
  "month_days y = [31, if leap y then 29 else 28, 31, 30, 31, 30, 31, 31, 30, 31, 30, 31]"

text \<open>Months count from 0; \<open>mktime\<close> takes months and days out of their range for those before or after.\<close>

definition day_number :: "int \<Rightarrow> int \<Rightarrow> int \<Rightarrow> int" where
  "day_number y m d =
     (let y' = y + m div 12 in year_start y' + sum_list (take (nat (m mod 12)) (month_days y')) + d - 1)"

definition mktime :: "int \<Rightarrow> int \<Rightarrow> int \<Rightarrow> int \<Rightarrow> int" where
  "mktime timezone y m d = day_number y m d * 86400 + timezone"

lemma div_pred: "(y - 1) div k = y div k - (if y mod k = 0 then 1 else 0)" if "0 < k" for y k :: int
proof (cases "y mod k = 0")
  case True
  have "y - 1 = (k - 1) + k * (y div k - 1)" using True mult_div_mod_eq [of k y] by (simp add: algebra_simps)
  then show ?thesis using True that by (intro int_div_pos_eq [of _ k _ "k - 1"]) simp_all
next
  case False
  then have "y - 1 = (y mod k - 1) + k * (y div k)" using mult_div_mod_eq [of k y] by simp
  moreover have "0 < y mod k" "y mod k < k" using False that pos_mod_sign [of k y] by (simp_all add: order.not_eq_order_implies_strict)
  ultimately show ?thesis using False by (intro int_div_pos_eq [of _ k _ "y mod k - 1"]) simp_all
qed

lemma year_start_Suc: "year_start (y + 1) = year_start y + (if leap y then 366 else 365)"
proof -
  have "leaps_to y = leaps_to (y - 1) + (if leap y then 1 else 0)"
    using mod_mod_cancel [of 100 400 y] mod_mod_cancel [of 4 100 y]
    unfolding leaps_to_def leap_def div_pred [of 4, simplified] div_pred [of 100, simplified] div_pred [of 400, simplified] by auto
  then show ?thesis by (simp add: year_start_def)
qed

lemma year_start_less: "year_start y < year_start (y + 1)"
  by (simp add: year_start_Suc)

text \<open>The year of a day, downwards from a year that is not before it.\<close>

function find_year :: "int \<Rightarrow> int \<Rightarrow> int" where
  "find_year y n = (if year_start y \<le> n then y else find_year (y - 1) n)"
  by auto

termination
proof (relation "measure (\<lambda>(y, n). nat (year_start y - n))")
  fix y n
  assume "\<not> year_start y \<le> n"
  then show "((y - 1, n), y, n) \<in> measure (\<lambda>(y, n). nat (year_start y - n))"
    using year_start_less [of "y - 1"] by simp
qed simp

declare find_year.simps [simp del]

fun month_of :: "int list \<Rightarrow> int \<Rightarrow> nat \<times> int" where
  "month_of [] n = (0, n)"
| "month_of (x # xs) n = (if n < x then (0, n) else case month_of xs (n - x) of (m, k) \<Rightarrow> (Suc m, k))"

text \<open>Year, month and day of a day since 1970, and the fields \<open>localtime_r\<close> fills in.\<close>

definition civil :: "int \<Rightarrow> int \<times> nat \<times> int" where
  "civil n =
     (let y = find_year (1970 + n div 365) n
      in case month_of (month_days y) (n - year_start y) of (m, k) \<Rightarrow> (y, m, k + 1))"

record tm =
  tm_year :: int
  tm_mon :: nat
  tm_mday :: int
  tm_hour :: nat
  tm_min :: nat
  tm_sec :: nat

definition localtime_r :: "int \<Rightarrow> int \<Rightarrow> tm" where
  "localtime_r timezone secs =
     (let l = secs - timezone; s = nat (l mod 86400) in
      case civil (l div 86400) of (y, m, d) \<Rightarrow>
        \<lparr>tm_year = y, tm_mon = m, tm_mday = d, tm_hour = s div 3600, tm_min = s div 60 mod 60, tm_sec = s mod 60\<rparr>)"

section \<open>Numbers in text\<close>

text \<open>Zeros in front of a number up to a width, as \<open>%2.2llu\<close> prints it.\<close>

definition zero_pad :: "nat \<Rightarrow> nat \<Rightarrow> string" where
  "zero_pad w n = replicate (w - length (dec_digits n)) CHR ''0'' @ dec_digits n"

definition is_space :: "char \<Rightarrow> bool" where
  "is_space c \<longleftrightarrow> c = CHR '' '' \<or> 9 \<le> (of_char c :: nat) \<and> (of_char c :: nat) \<le> 13"

definition atoi_int :: "string \<Rightarrow> int" where
  "atoi_int s =
     (case dropWhile is_space s of
        [] \<Rightarrow> 0
      | c # t \<Rightarrow>
          if c = CHR ''-'' then - int (digits_value (takeWhile is_digit t))
          else if c = CHR ''+'' then int (digits_value (takeWhile is_digit t))
          else int (digits_value (takeWhile is_digit (c # t))))"

definition strtoull :: "string \<Rightarrow> 64 word" where
  "strtoull s = of_int (atoi_int s)"

text \<open>The characters from \<open>i\<close> up to \<open>j\<close>, where the code has put a terminator.\<close>

definition substr :: "nat \<Rightarrow> nat \<Rightarrow> string \<Rightarrow> string" where
  "substr i j s = take (j - i) (drop i s)"

section \<open>Conversion\<close>

text \<open>
  The first component is the status that was set, if any; \<open>rc\<close> says whether the caller passed one. A date object has at most 25
  characters of text.
\<close>

definition chars2bin :: "int \<Rightarrow> bool \<Rightarrow> string \<Rightarrow> (cmpi_rc option \<times> 64 word) option" where
  "chars2bin timezone rc string =
     (if length string < 21 \<or> 25 < length string then None
      else
        let c = (if length string = 21 then CHR 0x00 else string ! 21);
            interval = (c = CHR '':'');
            offset = (if c = CHR ''+'' \<or> c = CHR ''-'' then atoi_int (drop 21 string) * 60 else 0);
            msecs = strtoull (substr 15 21 string);
            secs = strtoull (substr 12 14 string) + strtoull (substr 10 12 string) * 60 + strtoull (substr 8 10 string) * (60 * 60)
        in if interval then
             Some (None, msecs + (secs + strtoull (substr 0 8 string) * (60 * 60 * 24)) * 1000000)
           else
             let t = mktime timezone (atoi_int (substr 0 4 string)) (atoi_int (substr 4 6 string) - 1) (atoi_int (substr 6 8 string))
             in if t < 0 \<and> \<not> rc then None
                else Some (if t < 0 then Some ERR_INVALID_PARAMETER else None,
                       msecs + secs * 1000000 + of_int t * 1000000 - of_int offset * 1000000))"

text \<open>C division rounds towards zero.\<close>

definition trunc_div :: "int \<Rightarrow> int \<Rightarrow> int" where
  "trunc_div a b = (if a < 0 then - ((- a) div b) else a div b)"

text \<open>\<open>%+4.3ld\<close>: a sign and at least three digits.\<close>

definition signed_pad :: "int \<Rightarrow> string" where
  "signed_pad i = (if i < 0 then CHR ''-'' else CHR ''+'') # zero_pad 3 (nat \<bar>i\<bar>)"

definition strftime :: "tm \<Rightarrow> string" where
  "strftime t = sprintf_d (tm_year t) @ zero_pad 2 (tm_mon t + 1) @ zero_pad 2 (nat (tm_mday t)) @
     zero_pad 2 (tm_hour t) @ zero_pad 2 (tm_min t) @ zero_pad 2 (tm_sec t) @ ''.''"

definition day_limit :: nat where "day_limit = 99999999"

definition interval_chars :: "nat \<Rightarrow> string" where
  "interval_chars msecs =
     (let seconds = msecs div 1000000; useconds = msecs mod 1000000; mins = seconds div 60; seconds = seconds mod 60;
          hrs = mins div 60; mins = mins mod 60;
          days = (if hrs div 24 > day_limit then day_limit else hrs div 24); hrs = hrs mod 24
      in zero_pad 8 days @ zero_pad 2 hrs @ zero_pad 2 mins @ zero_pad 2 seconds @ ''.'' @ zero_pad 6 useconds @ '':000'')"

definition time_chars :: "int \<Rightarrow> nat \<Rightarrow> string" where
  "time_chars timezone msecs =
     strftime (localtime_r timezone (int (msecs div 1000000))) @
     take 10 (zero_pad 6 (msecs mod 1000000) @ signed_pad (- trunc_div timezone 60))"

definition bin2chars :: "int \<Rightarrow> 64 word \<Rightarrow> bool \<Rightarrow> string option" where
  "bin2chars timezone msecs interval =
     (let s = (if interval then interval_chars (unat msecs) else time_chars timezone (unat msecs))
      in if length s \<le> 25 then Some s else None)"

section \<open>Date objects\<close>

record native_datetime =
  cimDt :: string

definition new_datetime :: "string \<Rightarrow> native_datetime option" where
  "new_datetime s = (if length s \<le> 25 then Some \<lparr>cimDt = s\<rparr> else None)"

definition dtft_clone :: "native_datetime \<Rightarrow> native_datetime option" where
  "dtft_clone dt = new_datetime (cimDt dt)"

text \<open>The status is set to \<open>CMPI_RC_OK\<close> first, when there is one.\<close>

definition dtft_getBinaryFormat :: "int \<Rightarrow> bool \<Rightarrow> native_datetime \<Rightarrow> (cmpi_rc \<times> 64 word) option" where
  "dtft_getBinaryFormat timezone rc dt =
     map_option (\<lambda>(st, w). (case st of None \<Rightarrow> RC_OK | Some e \<Rightarrow> e, w)) (chars2bin timezone rc (cimDt dt))"

definition dateTime2chars :: "native_datetime \<Rightarrow> string" where
  "dateTime2chars dt = cimDt dt"

definition dtft_getStringFormat :: "native_datetime \<Rightarrow> string" where
  "dtft_getStringFormat dt = cimDt dt"

definition dtft_isInterval :: "native_datetime \<Rightarrow> bool" where
  "dtft_isInterval dt \<longleftrightarrow> 21 < length (cimDt dt) \<and> cimDt dt ! 21 = CHR '':''"

definition new_CMPIDateTime_fromBinary :: "int \<Rightarrow> 64 word \<Rightarrow> bool \<Rightarrow> native_datetime option" where
  "new_CMPIDateTime_fromBinary timezone msecs interval = Option.bind (bin2chars timezone msecs interval) new_datetime"

text \<open>\<open>gettimeofday\<close> gives the seconds and microseconds.\<close>

definition new_CMPIDateTime :: "int \<Rightarrow> nat \<times> nat \<Rightarrow> native_datetime option" where
  "new_CMPIDateTime timezone tv = new_CMPIDateTime_fromBinary timezone (of_nat (fst tv) * 1000000 + of_nat (snd tv)) False"

text \<open>\<open>Inl\<close>: the null pointer is returned and the status set.\<close>

definition new_CMPIDateTime_fromChars :: "string option \<Rightarrow> (cmpi_rc + native_datetime) option" where
  "new_CMPIDateTime_fromChars so =
     (case so of None \<Rightarrow> Some (Inl ERR_INVALID_PARAMETER)
      | Some s \<Rightarrow>
          if length s \<noteq> 25 \<or> s ! 21 \<noteq> CHR ''-'' \<and> s ! 21 \<noteq> CHR ''+'' \<and> s ! 21 \<noteq> CHR '':'' then Some (Inl ERR_INVALID_PARAMETER)
          else map_option Inr (new_datetime s))"

section \<open>Calendar laws\<close>

lemma find_year_ok: "n < year_start (y + 1) \<Longrightarrow> year_start (find_year y n) \<le> n \<and> n < year_start (find_year y n + 1)"
proof (induction y n rule: find_year.induct)
  case (1 y n)
  then show ?case by (cases "year_start y \<le> n") (simp_all add: find_year.simps [of y n])
qed

lemma year_start_mono: "a \<le> b \<Longrightarrow> year_start a \<le> year_start b"
  by (induction b rule: int_ge_induct) (use year_start_less in \<open>auto intro: order.trans less_imp_le\<close>)

lemma year_start_ge: "1970 \<le> y \<Longrightarrow> 365 * (y - 1970) \<le> year_start y"
proof (induction y rule: int_ge_induct)
  case (step y)
  then show ?case by (simp add: year_start_Suc)
qed (simp add: year_start_def)

lemma year_estimate: "0 \<le> n \<Longrightarrow> n < year_start (1970 + n div 365 + 1)"
proof -
  assume n: "0 \<le> n"
  then have "0 \<le> n div 365" by simp
  then have "365 * (n div 365 + 1) \<le> year_start (1970 + n div 365 + 1)" using year_start_ge [of "1970 + n div 365 + 1"] by simp
  moreover have "n < 365 * (n div 365 + 1)" using mult_div_mod_eq [of 365 n] pos_mod_bound [of 365 n] by simp
  ultimately show ?thesis by simp
qed

lemma month_of_ok:
  "0 \<le> n \<Longrightarrow> n < sum_list xs \<Longrightarrow> month_of xs n = (m, k) \<Longrightarrow>
    m < length xs \<and> 0 \<le> k \<and> k < xs ! m \<and> sum_list (take m xs) + k = n"
proof (induction xs arbitrary: n m k)
  case (Cons x xs)
  show ?case
  proof (cases "n < x")
    case False
    obtain m' k' where r: "month_of xs (n - x) = (m', k')" by fastforce
    then have "m = Suc m'" "k = k'" using Cons.prems(3) False by simp_all
    then show ?thesis using Cons.IH [OF _ _ r] Cons.prems False by simp
  qed (use Cons.prems in simp)
qed simp

lemma month_days_sum: "sum_list (month_days y) = (if leap y then 366 else 365)"
  by (simp add: month_days_def)

lemma month_days_le: "m < 12 \<Longrightarrow> month_days y ! m \<le> 31"
  by (simp add: month_days_def nth_Cons split: nat.splits)

lemma civil_ok:
  assumes n: "0 \<le> n" and c: "civil n = (y, m, d)"
  shows "day_number y (int m) d = n" "m < 12" "1 \<le> d" "d \<le> 31" "year_start y \<le> n" "n < year_start (y + 1)"
proof -
  define z where "z = find_year (1970 + n div 365) n"
  have z: "year_start z \<le> n" "n < year_start (z + 1)" using find_year_ok [OF year_estimate [OF n]] by (simp_all add: z_def)
  obtain k where k: "month_of (month_days z) (n - year_start z) = (m, k)" "y = z" "d = k + 1"
    using c by (auto simp: civil_def Let_def z_def split: prod.splits)
  have "0 \<le> n - year_start z" "n - year_start z < sum_list (month_days z)" using z by (simp_all add: month_days_sum year_start_Suc split: if_splits)
  from month_of_ok [OF this k(1)] have m: "m < 12" "0 \<le> k" "k < month_days z ! m" "sum_list (take m (month_days z)) + k = n - year_start z"
    by (simp_all add: month_days_def)
  then show "day_number y (int m) d = n" "m < 12" "1 \<le> d" "d \<le> 31" using k month_days_le [of m z] by (simp_all add: day_number_def Let_def)
  show "year_start y \<le> n" "n < year_start (y + 1)" using z k by simp_all
qed

lemma civil_year:
  assumes "0 \<le> n" "civil n = (y, m, d)"
  shows "1970 \<le> y" "y < 10000 \<longleftrightarrow> n < 2932897"
proof -
  note c = civil_ok(5,6) [OF assms]
  have s: "year_start 1970 = 0" "year_start 10000 = 2932897" by (simp_all add: year_start_def leaps_to_def)
  show "1970 \<le> y"
  proof (rule ccontr)
    assume "\<not> 1970 \<le> y"
    then have "year_start (y + 1) \<le> year_start 1970" by (intro year_start_mono) simp
    then show False using c(2) s(1) assms(1) by simp
  qed
  show "y < 10000 \<longleftrightarrow> n < 2932897"
  proof
    assume "y < 10000"
    then have "year_start (y + 1) \<le> year_start 10000" by (intro year_start_mono) simp
    then show "n < 2932897" using c(2) s(2) by simp
  next
    assume h: "n < 2932897"
    show "y < 10000"
    proof (rule ccontr)
      assume "\<not> y < 10000"
      then have "year_start 10000 \<le> year_start y" by (intro year_start_mono) simp
      then show False using c(1) s(2) h by simp
    qed
  qed
qed

section \<open>Numbers\<close>

lemma digits_value_zeros: "digits_value (replicate k CHR ''0'' @ s) = digits_value s"
  by (induction k) (simp_all add: digits_value_def)

lemma zero_pad_ok: "digits_value (zero_pad w n) = n" "\<forall>c \<in> set (zero_pad w n). is_digit c" "zero_pad w n \<noteq> []" "w \<le> length (zero_pad w n)"
proof -
  have "is_digit CHR ''0''" by (simp add: is_digit_def)
  then show "\<forall>c \<in> set (zero_pad w n). is_digit c" using dec_digits_digit by (auto simp: zero_pad_def)
qed (simp_all add: zero_pad_def digits_value_zeros)

lemma length_zero_pad: "n < 10 ^ w \<Longrightarrow> 0 < w \<Longrightarrow> length (zero_pad w n) = w"
  using dec_digits_length [of n w] by (simp add: zero_pad_def)

lemma digit_kind: "is_digit c \<Longrightarrow> \<not> is_space c \<and> c \<noteq> CHR ''-'' \<and> c \<noteq> CHR ''+''"
  by (auto simp: is_digit_def is_space_def)

lemma takeWhile_all_digits: "\<forall>c \<in> set s. is_digit c \<Longrightarrow> takeWhile is_digit s = s"
  by (simp add: takeWhile_eq_all_conv)

lemma atoi_digits: "\<forall>c \<in> set s. is_digit c \<Longrightarrow> atoi_int s = int (digits_value s)"
proof (cases s)
  case (Cons c t)
  moreover assume "\<forall>c \<in> set s. is_digit c"
  ultimately show ?thesis using digit_kind [of c] by (simp add: atoi_int_def takeWhile_all_digits)
qed (simp add: atoi_int_def digits_value_def)

lemma atoi_zero_pad: "atoi_int (zero_pad w n) = int n" "strtoull (zero_pad w n) = of_nat n"
  using atoi_digits [OF zero_pad_ok(2), of w n] by (simp_all add: zero_pad_ok(1) strtoull_def)

lemma atoi_signed_pad: "atoi_int (signed_pad i) = i"
proof -
  have "\<not> is_space CHR ''-''" "\<not> is_space CHR ''+''" by (simp_all add: is_space_def)
  then show ?thesis by (simp add: signed_pad_def atoi_int_def takeWhile_all_digits [OF zero_pad_ok(2)] zero_pad_ok(1))
qed

lemma length_signed_pad: "\<bar>i\<bar> < 1000 \<Longrightarrow> length (signed_pad i) = 4"
  using length_zero_pad [of "nat \<bar>i\<bar>" 3] by (simp add: signed_pad_def)

lemma fields:
  assumes "s = A @ h @ mi @ se @ ''.'' @ u @ z" "length A = 8" "length h = 2" "length mi = 2" "length se = 2" "length u = 6" "length z = 4"
  shows "length s = 25" "substr 0 8 s = A" "substr 8 10 s = h" "substr 10 12 s = mi" "substr 12 14 s = se" "substr 15 21 s = u" "drop 21 s = z"
    "s ! 21 = hd z" "substr 0 4 s = substr 0 4 A" "substr 4 6 s = substr 4 6 A" "substr 6 8 s = substr 6 8 A"
proof -
  obtain c zs where z: "z = c # zs" using assms(7) by (cases z) auto
  show "s ! 21 = hd z" unfolding assms(1) z using assms by (simp add: nth_append)
  show "length s = 25" "substr 0 8 s = A" "substr 8 10 s = h" "substr 10 12 s = mi" "substr 12 14 s = se" "substr 15 21 s = u" "drop 21 s = z"
    "substr 0 4 s = substr 0 4 A" "substr 4 6 s = substr 4 6 A" "substr 6 8 s = substr 6 8 A"
    unfolding assms(1) using assms(2-7) by (simp_all add: substr_def)
qed

section \<open>Intervals\<close>

lemma day_split:
  fixes s :: nat
  shows "s = s mod 60 + 60 * (s div 60 mod 60) + 3600 * (s div 60 div 60 mod 24) + 86400 * (s div 60 div 60 div 24)"
  using mult_div_mod_eq [of 60 s] mult_div_mod_eq [of 60 "s div 60"] mult_div_mod_eq [of 24 "s div 60 div 60"] by linarith

text \<open>What is read back: the days are cut at 99999999.\<close>

definition cut_days :: "nat \<Rightarrow> nat" where
  "cut_days msecs = msecs mod 86400000000 + 86400000000 * min day_limit (msecs div 86400000000)"

lemma cut_days_id: "msecs < 86400000000 * 10 ^ 8 \<Longrightarrow> cut_days msecs = msecs"
proof -
  assume "msecs < 86400000000 * 10 ^ 8"
  then have "msecs div 86400000000 < 10 ^ 8" by (simp add: less_mult_imp_div_less)
  then have "min day_limit (msecs div 86400000000) = msecs div 86400000000" by (simp add: day_limit_def min_def)
  then show ?thesis by (simp add: cut_days_def)
qed

lemma interval_read:
  shows "length (interval_chars n) = 25" "interval_chars n ! 21 = CHR '':''"
    "chars2bin timezone rc (interval_chars n) = Some (None, of_nat (cut_days n))"
proof -
  define s d where "s = n div 1000000" and "d = (if s div 60 div 60 div 24 > day_limit then day_limit else s div 60 div 60 div 24)"
  have c: "interval_chars n = zero_pad 8 d @ zero_pad 2 (s div 60 div 60 mod 24) @ zero_pad 2 (s div 60 mod 60) @ zero_pad 2 (s mod 60) @
      ''.'' @ zero_pad 6 (n mod 1000000) @ '':000''"
    by (simp add: interval_chars_def Let_def s_def d_def)
  have len: "length (zero_pad 8 d) = 8" "length (zero_pad 2 (s div 60 div 60 mod 24)) = 2" "length (zero_pad 2 (s div 60 mod 60)) = 2"
    "length (zero_pad 2 (s mod 60)) = 2" "length (zero_pad 6 (n mod 1000000)) = 6" "length '':000'' = 4"
    by (auto intro!: length_zero_pad simp: d_def day_limit_def mod_less_divisor [THEN order.strict_trans2])
  note f = fields [OF c len]
  show l: "length (interval_chars n) = 25" "interval_chars n ! 21 = CHR '':''" using f(1,8) by simp_all
  have q: "n div 86400000000 = s div 60 div 60 div 24" unfolding s_def by (simp add: div_mult2_eq [symmetric])
  have r: "n mod 86400000000 = n mod 1000000 + 1000000 * (s mod 86400)" using mod_mult2_eq [of n 1000000 86400] by (simp add: s_def)
  have t: "s mod 86400 = s mod 60 + 60 * (s div 60 mod 60) + 3600 * (s div 60 div 60 mod 24)"
    using day_split [of s] mult_div_mod_eq [of 86400 s] unfolding div_mult2_eq [of s 3600 24, simplified] div_mult2_eq [of s 60 60, simplified] by linarith
  have "cut_days n = n mod 1000000 + (s mod 60 + s div 60 mod 60 * 60 + s div 60 div 60 mod 24 * (60 * 60) + d * (60 * 60 * 24)) * 1000000"
    unfolding cut_days_def q r t by (simp add: d_def min_def algebra_simps)
  then have "(of_nat (cut_days n) :: 64 word) =
      of_nat (n mod 1000000) + (of_nat (s mod 60) + of_nat (s div 60 mod 60) * 60 + of_nat (s div 60 div 60 mod 24) * (60 * 60) + of_nat d * (60 * 60 * 24)) * 1000000"
    by (simp only: of_nat_add of_nat_mult of_nat_numeral)
  then show "chars2bin timezone rc (interval_chars n) = Some (None, of_nat (cut_days n))"
    unfolding chars2bin_def Let_def l f(2-6) by (simp add: atoi_zero_pad l)
qed

section \<open>Points in time\<close>

definition zone_ok :: "int \<Rightarrow> bool" where
  "zone_ok timezone \<longleftrightarrow> \<bar>timezone\<bar> \<le> 14 * 3600 \<and> 60 dvd timezone"

lemma zone_minutes:
  assumes "zone_ok timezone"
  shows "trunc_div timezone 60 * 60 = timezone" "\<bar>trunc_div timezone 60\<bar> < 1000"
proof -
  obtain k where k: "timezone = 60 * k" using assms by (auto simp: zone_ok_def)
  then have "trunc_div timezone 60 = k" by (auto simp: trunc_div_def)
  then show "trunc_div timezone 60 * 60 = timezone" "\<bar>trunc_div timezone 60\<bar> < 1000" using k assms by (auto simp: zone_ok_def)
qed

lemma length_year: "1970 \<le> y \<Longrightarrow> y < 10000 \<Longrightarrow> length (sprintf_d y) = 4"
proof -
  assume y: "1970 \<le> y" "y < 10000"
  have "length (dec_digits (nat y)) \<le> 4" by (rule dec_digits_length) (use y in auto)
  moreover have "length (dec_digits 1000) \<le> length (dec_digits (nat y))" by (rule dec_digits_mono) (use y in auto)
  moreover have "length (dec_digits 1000) = 4" by (simp add: dec_digits.simps)
  ultimately show ?thesis using y by (simp add: sprintf_d_def)
qed

lemma length_late_year: "10000 \<le> y \<Longrightarrow> 5 \<le> length (sprintf_d y)"
proof -
  assume y: "10000 \<le> y"
  have "length (dec_digits 10000) \<le> length (dec_digits (nat y))" by (rule dec_digits_mono) (use y in auto)
  moreover have "length (dec_digits 10000) = 5" by (simp add: dec_digits.simps)
  ultimately show ?thesis using y by (simp add: sprintf_d_def)
qed

lemma hour_split: "h < 86400 \<Longrightarrow> h = h mod 60 + h div 60 mod 60 * 60 + h div 3600 * (60 * 60)" for h :: nat
  using mult_div_mod_eq [of 60 h] mult_div_mod_eq [of 60 "h div 60"] unfolding div_mult2_eq [of h 60 60, simplified] by linarith

lemma time_chars_parts:
  assumes "civil ((int (n div 1000000) - timezone) div 86400) = (y, m, d)" "s = nat ((int (n div 1000000) - timezone) mod 86400)" "zone_ok timezone"
  shows "time_chars timezone n = (sprintf_d y @ zero_pad 2 (m + 1) @ zero_pad 2 (nat d)) @ zero_pad 2 (s div 3600) @ zero_pad 2 (s div 60 mod 60) @
    zero_pad 2 (s mod 60) @ ''.'' @ zero_pad 6 (n mod 1000000) @ signed_pad (- trunc_div timezone 60)"
proof -
  have "length (zero_pad 6 (n mod 1000000)) = 6" by (rule length_zero_pad) auto
  then have "take 10 (zero_pad 6 (n mod 1000000) @ signed_pad (- trunc_div timezone 60)) = zero_pad 6 (n mod 1000000) @ signed_pad (- trunc_div timezone 60)"
    using length_signed_pad [of "- trunc_div timezone 60"] zone_minutes(2) [OF assms(3)] by simp
  then show ?thesis using assms(1,2) by (simp add: time_chars_def strftime_def localtime_r_def Let_def)
qed

lemma total_time: "n = a + b * 1000000 \<Longrightarrow> t * 60 = z \<Longrightarrow> n + z * 1000000 = a + s * 1000000 + (b - s) * 1000000 - - t * 60 * 1000000" for n a b t z s :: int
  by (simp add: algebra_simps)

lemma time_read:
  assumes z: "zone_ok timezone" and n: "86400 \<le> n div 1000000" "int (n div 1000000) - timezone < 253402300800"
  shows "length (time_chars timezone n) = 25 \<and> time_chars timezone n ! 21 \<noteq> CHR '':'' \<and>
    chars2bin timezone rc (time_chars timezone n) = Some (None, of_int (int n + timezone * 1000000))"
proof -
  define l where "l = int (n div 1000000) - timezone"
  define s where "s = nat (l mod 86400)"
  obtain y m d where c: "civil (l div 86400) = (y, m, d)" by (cases "civil (l div 86400)") auto
  have l: "0 \<le> l" "l < 253402300800" using n z unfolding l_def zone_ok_def by linarith+
  then have n0: "0 \<le> l div 86400" "l div 86400 < 2932897" by simp_all
  note cv = civil_ok(1-4) [OF n0(1) c] civil_year [OF n0(1) c]
  have y: "1970 \<le> y" "y < 10000" using cv(5,6) n0(2) by simp_all
  have s: "s < 86400" "int s = l mod 86400" by (simp_all add: s_def nat_less_iff)
  let ?A = "sprintf_d y @ zero_pad 2 (m + 1) @ zero_pad 2 (nat d)" and ?z = "signed_pad (- trunc_div timezone 60)"
  have t: "time_chars timezone n = ?A @ zero_pad 2 (s div 3600) @ zero_pad 2 (s div 60 mod 60) @ zero_pad 2 (s mod 60) @ ''.'' @ zero_pad 6 (n mod 1000000) @ ?z"
    by (rule time_chars_parts [OF c [unfolded l_def] _ z]) (simp add: s_def l_def)
  have date: "length (sprintf_d y) = 4" "length (zero_pad 2 (m + 1)) = 2" "length (zero_pad 2 (nat d)) = 2"
    using length_year [OF y] cv(2-4) by (auto intro!: length_zero_pad)
  have tod: "s div 3600 < 24" using s(1) by (simp add: less_mult_imp_div_less)
  have len: "length ?A = 8" "length (zero_pad 2 (s div 3600)) = 2" "length (zero_pad 2 (s div 60 mod 60)) = 2" "length (zero_pad 2 (s mod 60)) = 2"
      "length (zero_pad 6 (n mod 1000000)) = 6" "length ?z = 4"
    using date tod length_signed_pad [of "- trunc_div timezone 60"] zone_minutes(2) [OF z]
    by (auto intro!: length_zero_pad simp: mod_less_divisor [THEN order.strict_trans2])
  note f = fields [OF t len]
  have sign: "hd ?z = CHR ''+'' \<or> hd ?z = CHR ''-''" by (simp add: signed_pad_def)
  have fdate: "substr 0 4 (time_chars timezone n) = sprintf_d y" "substr 4 6 (time_chars timezone n) = zero_pad 2 (m + 1)" "substr 6 8 (time_chars timezone n) = zero_pad 2 (nat d)"
    unfolding f(9-11) using date by (simp_all add: substr_def)
  have ay: "atoi_int (sprintf_d y) = y" using y atoi_digits [OF dec_digits_digit, of "nat y"] by (simp add: sprintf_d_def)
  have mk: "mktime timezone y (int m) d = int (n div 1000000) - int s"
  proof -
    have "l div 86400 * 86400 + timezone = int (n div 1000000) - int s"
      using s(2) mult_div_mod_eq [of 86400 l] l_def by linarith
    then show ?thesis using cv(1) by (simp add: mktime_def)
  qed
  have "int n = int (n mod 1000000) + int (n div 1000000) * 1000000"
    using arg_cong [OF div_mult_mod_eq [of n 1000000], of int] unfolding of_nat_add of_nat_mult by simp
  then have "(of_int (int n + timezone * 1000000) :: 64 word) = of_int (int (n mod 1000000) + int (s mod 60 + s div 60 mod 60 * 60 + s div 3600 * (60 * 60)) * 1000000 +
      (int (n div 1000000) - int s) * 1000000 - (- trunc_div timezone 60) * 60 * 1000000)"
    using zone_minutes(1) [OF z] unfolding hour_split [OF s(1), symmetric] by (intro arg_cong [of _ _ of_int] total_time)
  also have "\<dots> = of_nat (n mod 1000000) + (of_nat (s mod 60) + of_nat (s div 60 mod 60) * 60 + of_nat (s div 3600) * (60 * 60)) * 1000000 +
      of_int (int (n div 1000000) - int s) * 1000000 - of_int ((- trunc_div timezone 60) * 60) * 1000000"
    by simp
  finally have val: "of_int (int n + timezone * 1000000) = \<dots>" .
  have pos: "\<not> int (n div 1000000) - int s < 0" using n(1) s(1) by linarith
  have "chars2bin timezone rc (time_chars timezone n) = Some (None, of_int (int n + timezone * 1000000))"
    unfolding val unfolding chars2bin_def Let_def f(1-8) fdate using sign pos cv(3)
    by (auto simp: atoi_zero_pad atoi_signed_pad ay mk)
  then show ?thesis using f(1,8) sign by auto
qed

lemma late_time:
  assumes z: "zone_ok timezone" and n: "253402300800 \<le> int (n div 1000000) - timezone"
  shows "25 < length (time_chars timezone n)"
proof -
  define l where "l = int (n div 1000000) - timezone"
  obtain y m d where c: "civil (l div 86400) = (y, m, d)" by (cases "civil (l div 86400)") auto
  have "0 \<le> l div 86400" "2932897 \<le> l div 86400" using n by (simp_all add: l_def)
  then have y: "10000 \<le> y" using civil_year(2) [OF _ c] by linarith
  have pads: "2 \<le> length (zero_pad 2 k)" "6 \<le> length (zero_pad 6 k)" for k using zero_pad_ok(4) [of 2 k] zero_pad_ok(4) [of 6 k] .
  have "4 = length (signed_pad (- trunc_div timezone 60))"
    using length_signed_pad [of "- trunc_div timezone 60"] zone_minutes(2) [OF z] by simp
  moreover note pads(1) [of "m + 1"] pads(1) [of "nat d"] pads(1) [of "nat (l mod 86400) div 3600"] pads(1) [of "nat (l mod 86400) div 60 mod 60"]
    pads(1) [of "nat (l mod 86400) mod 60"] pads(2) [of "n mod 1000000"] length_late_year [OF y]
  moreover have "length (time_chars timezone n) = length (sprintf_d y) + length (zero_pad 2 (m + 1)) + length (zero_pad 2 (nat d)) +
      length (zero_pad 2 (nat (l mod 86400) div 3600)) + length (zero_pad 2 (nat (l mod 86400) div 60 mod 60)) + length (zero_pad 2 (nat (l mod 86400) mod 60)) +
      1 + length (zero_pad 6 (n mod 1000000)) + length (signed_pad (- trunc_div timezone 60))"
    unfolding time_chars_parts [OF c [unfolded l_def] refl z] by (simp add: l_def)
  ultimately show ?thesis by linarith
qed

text \<open>The texts of date objects: 25 characters, a sign or a colon before the last three.\<close>

definition date_text :: "string \<Rightarrow> bool" where
  "date_text s \<longleftrightarrow> length s = 25 \<and> s ! 21 \<in> {CHR ''-'', CHR ''+'', CHR '':''}"

lemma fromChars_ok: "new_CMPIDateTime_fromChars so =
    Some (case so of Some s \<Rightarrow> if date_text s then Inr \<lparr>cimDt = s\<rparr> else Inl ERR_INVALID_PARAMETER | None \<Rightarrow> Inl ERR_INVALID_PARAMETER)"
  by (auto simp: new_CMPIDateTime_fromChars_def new_datetime_def date_text_def split: option.split)

lemma interval_roundtrip:
  "\<exists>dt. new_CMPIDateTime_fromBinary timezone w True = Some dt \<and> dtft_isInterval dt \<and>
    dtft_getBinaryFormat timezone rc dt = Some (RC_OK, of_nat (cut_days (unat w))) \<and> new_CMPIDateTime_fromChars (Some (dtft_getStringFormat dt)) = Some (Inr dt)"
  using interval_read(1,2) [of "unat w"] interval_read(3) [of timezone rc "unat w"] by (simp add: new_CMPIDateTime_fromBinary_def bin2chars_def new_datetime_def dtft_isInterval_def
      dtft_getBinaryFormat_def dtft_getStringFormat_def fromChars_ok date_text_def)

lemma time_roundtrip:
  assumes "zone_ok timezone" "86400 \<le> unat w div 1000000" "int (unat w div 1000000) - timezone < 253402300800"
  shows "\<exists>dt. new_CMPIDateTime_fromBinary timezone w False = Some dt \<and> \<not> dtft_isInterval dt \<and>
    dtft_getBinaryFormat timezone rc dt = Some (RC_OK, w + of_int (timezone * 1000000))"
  using time_read [OF assms, of rc] by (auto simp: new_CMPIDateTime_fromBinary_def bin2chars_def new_datetime_def dtft_isInterval_def dtft_getBinaryFormat_def)



end
