(* ===== verification/ProviderRegister.thy ===== *)
theory ProviderRegister
  imports Control
begin

unbundle bit_operations_syntax

text \<open>
  The provider register, \<open>src/providerRegister.c\<close>: which provider serves a class, read from the file \<open>providerRegister\<close>
  with the scanner of the theory \<open>Control\<close> into a table of \<open>HashTable\<close>. A value of the table points to the first provider of a class,
  from which the others are linked by \<open>nextInRegister\<close>; here the value is the index of that chain in \<open>pr_chains\<close>. The number \<open>pi_id\<close>
  of a provider, which is the number of its section, stands for the pointer to it.

  \<open>None\<close> is a null pointer followed or an overrun buffer, \<open>Abort\<close> the end of the broker by \<open>exit\<close>. \<open>getpwnam\<close> is an argument; the log messages are left out.

  Shown: the operations of the register refine a map from class names without case to lists of providers; a file of sections is read into the
  register it describes; which section becomes the class, default, interoperability and qualifier provider, and that the order of the
  sections decides whether they are found at all.
\<close>

section \<open>State\<close>

record provider_info =
  pi_className :: string
  pi_type :: "64 word"
  pi_providerName :: "string option"
  pi_location :: "string option"
  pi_parms :: "string option"
  pi_group :: "string option"
  pi_user :: "string option"
  pi_uid :: int
  pi_ns :: "string list option"
  pi_id :: nat
  pi_pid :: int
  pi_unload :: int

record provider_base =
  pr_ht :: "(char_key, nat) hash_table"
  pr_chains :: "provider_info list list"

definition INSTANCE_PROVIDER :: "64 word" where "INSTANCE_PROVIDER = 1"
definition ASSOCIATION_PROVIDER :: "64 word" where "ASSOCIATION_PROVIDER = 2"
definition INDICATION_PROVIDER :: "64 word" where "INDICATION_PROVIDER = 4"
definition METHOD_PROVIDER :: "64 word" where "METHOD_PROVIDER = 8"
definition PROPERTY_PROVIDER :: "64 word" where "PROPERTY_PROVIDER = 16"
definition CLASS_PROVIDER :: "64 word" where "CLASS_PROVIDER = 32"
definition QUALIFIER_PROVIDER :: "64 word" where "QUALIFIER_PROVIDER = 64"

section \<open>Operations of the register\<close>

text \<open>The flag of the result: the registrations conflict.\<close>

definition addProviderToHT :: "provider_info \<Rightarrow> provider_base \<Rightarrow> (provider_base \<times> bool) option" where
  "addProviderToHT info pr =
     (case name_get (pr_ht pr) (pi_className info) of
        None \<Rightarrow> Some (pr\<lparr>pr_ht := name_put (pr_ht pr) (pi_className info) (length (pr_chains pr)), pr_chains := pr_chains pr @ [[info]]\<rparr>, False)
      | Some i \<Rightarrow>
          (case pr_chains pr ! i of [] \<Rightarrow> None
           | checkDummy # rest \<Rightarrow>
               (case (pi_providerName checkDummy, pi_providerName info) of
                  (Some a, Some b) \<Rightarrow>
                    if strcmp a b = 0 then
                      if pi_type checkDummy \<noteq> pi_type info then Some (pr, True)
                      else (case (pi_ns checkDummy, pi_ns info) of
                          (Some ns, Some (n # _)) \<Rightarrow>
                            if n \<in> set ns then Some (pr, False)
                            else Some (pr\<lparr>pr_chains := (pr_chains pr)[i := checkDummy\<lparr>pi_ns := Some (ns @ [n])\<rparr> # rest]\<rparr>, False)
                        | _ \<Rightarrow> None)
                    else Some (pr\<lparr>pr_chains := (pr_chains pr)[i := checkDummy # info # rest]\<rparr>, False)
                | _ \<Rightarrow> None)))"

definition putProvider :: "provider_base \<Rightarrow> string \<Rightarrow> nat \<Rightarrow> provider_base" where
  "putProvider pr clsName i = pr\<lparr>pr_ht := name_put (pr_ht pr) clsName i\<rparr>"

definition removeProvider :: "provider_base \<Rightarrow> string \<Rightarrow> provider_base" where
  "removeProvider pr clsName = pr\<lparr>pr_ht := name_remove (pr_ht pr) clsName\<rparr>"

text \<open>The null pointer as the inner \<open>None\<close>.\<close>

definition getProvider :: "provider_base \<Rightarrow> string \<Rightarrow> 64 word \<Rightarrow> provider_info option option" where
  "getProvider pr clsName t =
     (case name_get (pr_ht pr) clsName of
        None \<Rightarrow> Some None
      | Some i \<Rightarrow> (case pr_chains pr ! i of [] \<Rightarrow> None
          | info # _ \<Rightarrow> Some (if pi_type info AND t \<noteq> 0 then Some info else None)))"

text \<open>The loops over the table: all chains in the order of the iteration.\<close>

definition table_chains :: "provider_base \<Rightarrow> nat list option" where
  "table_chains pr = map_option (map snd) (iterate (length (stored (pr_ht pr))) (pr_ht pr) (hashTableGetFirst (pr_ht pr)))"

fun locate_in :: "provider_base \<Rightarrow> string \<Rightarrow> nat list \<Rightarrow> provider_info option option" where
  "locate_in pr provName [] = Some None"
| "locate_in pr provName (i # is) =
     (case pr_chains pr ! i of [] \<Rightarrow> None
      | info # _ \<Rightarrow>
          (case pi_providerName info of None \<Rightarrow> None
           | Some n \<Rightarrow> if strcasecmp n provName = 0 then Some (Some info) else locate_in pr provName is))"

definition locateProvider :: "provider_base \<Rightarrow> string \<Rightarrow> provider_info option option" where
  "locateProvider pr provName = Option.bind (table_chains pr) (locate_in pr provName)"

definition reset_pid :: "int \<Rightarrow> provider_info \<Rightarrow> provider_info" where
  "reset_pid pid info = (if pi_pid info = pid then info\<lparr>pi_pid := 0\<rparr> else info)"

definition resetProvider :: "provider_base \<Rightarrow> int \<Rightarrow> provider_base option" where
  "resetProvider pr pid =
     map_option (\<lambda>is. pr\<lparr>pr_chains := fold (\<lambda>i cs. cs[i := map (reset_pid pid) (cs ! i)]) is (pr_chains pr)\<rparr>) (table_chains pr)"

text \<open>Releasing a register frees the providers of each chain, the last first; the numbers of the providers freed, in that order.\<close>

fun freeInfoPtr :: "provider_info list \<Rightarrow> nat list" where
  "freeInfoPtr [] = []"
| "freeInfoPtr (info # next) = freeInfoPtr next @ [pi_id info]"

definition pRelease :: "provider_base \<Rightarrow> nat list option" where
  "pRelease pr = map_option (\<lambda>is. concat (map (\<lambda>i. freeInfoPtr (pr_chains pr ! i)) is)) (table_chains pr)"

section \<open>Reading the file\<close>

text \<open>The default user of providers: whether it is that of the broker, its name and number.\<close>

record prov_user =
  pu_provSFCB :: bool
  pu_provuser :: "string option"
  pu_provuid :: int

text \<open>
  The variables of \<open>newProviderRegister\<close>, with the global pointers to the special providers. In the pointer to the interoperability provider 0 is
  \<open>forceNotFound\<close>.
\<close>

record reading =
  rd_base :: provider_base
  rd_info :: "provider_info option"
  rd_id :: nat
  rd_class :: "nat option"
  rd_default :: "nat option"
  rd_interOp :: "nat option"
  rd_quali :: "nat option"
  rd_interopFound :: bool
  rd_err :: bool
  rd_rv :: cntl_vals

definition note_special :: "bool \<Rightarrow> provider_info \<Rightarrow> reading \<Rightarrow> reading" where
  "note_special ex2 info rd =
     (if rd_class rd = None then
        if pi_className info = ''$ClassProvider$'' then rd\<lparr>rd_class := Some (pi_id info)\<rparr> else rd
      else if rd_default rd = None then
        if pi_className info = ''$DefaultProvider$'' then rd\<lparr>rd_default := Some (pi_id info)\<rparr> else rd
      else if rd_interOp rd = None then
        if pi_className info = ''$InterOpProvider$'' then
          if ex2 then rd\<lparr>rd_interOp := Some (pi_id info)\<rparr> else rd\<lparr>rd_interopFound := True\<rparr>
        else rd
      else if rd_quali rd = None then
        if pi_className info = ''$QualifierProvider$'' then rd\<lparr>rd_quali := Some (pi_id info)\<rparr> else rd
      else rd)"

definition new_info :: "prov_user \<Rightarrow> nat \<Rightarrow> string \<Rightarrow> provider_info option" where
  "new_info u n cn =
     (if \<not> pu_provSFCB u \<and> pu_provuser u = None then None
      else Some \<lparr>pi_className = cn, pi_type = 0, pi_providerName = None, pi_location = None, pi_parms = None, pi_group = None,
        pi_user = (if pu_provSFCB u then None else pu_provuser u), pi_uid = pu_provuid u, pi_ns = None, pi_id = n, pi_pid = 0, pi_unload = 0\<rparr>)"

definition end_section :: "bool \<Rightarrow> reading \<Rightarrow> reading option" where
  "end_section ex2 rd =
     (case rd_info rd of None \<Rightarrow> Some rd
      | Some info \<Rightarrow>
          (case addProviderToHT info (rd_base rd) of None \<Rightarrow> None
           | Some (pr, err) \<Rightarrow> Some ((note_special ex2 info rd)\<lparr>rd_base := pr, rd_err := err\<rparr>)))"

definition start_section :: "bool \<Rightarrow> prov_user \<Rightarrow> string \<Rightarrow> reading \<Rightarrow> reading option" where
  "start_section ex2 u cn rd =
     (case end_section ex2 rd of None \<Rightarrow> None
      | Some rd \<Rightarrow>
          if rd_info rd \<noteq> None \<and> rd_err rd then Some rd
          else map_option (\<lambda>info. rd\<lparr>rd_info := Some info, rd_id := rd_id rd + 1\<rparr>) (new_info u (rd_id rd + 1) cn))"

text \<open>The loop \<open>while ((t = cntlGetVal(&rv)) != NULL)\<close>: all values of a statement.\<close>

lemma cntlGetVal_shorter: "cntlGetVal rv = (rv', Some v) \<Longrightarrow>
  (case cv_val rv' of None \<Rightarrow> 0 | Some s \<Rightarrow> Suc (length s)) < (case cv_val rv of None \<Rightarrow> 0 | Some s \<Rightarrow> Suc (length s))"
proof -
  assume h: "cntlGetVal rv = (rv', Some v)"
  then obtain s where s: "cv_val rv = Some s" by (auto simp: cntlGetVal_def split: option.splits)
  have "length (dropWhile P t) \<le> length t" for P and t :: string by (rule length_dropWhile_le)
  then have "length p < length s" if "dropWhile P (cntlSkipws s) = c # p" for P c p
    using that unfolding cntlSkipws_def by (metis Suc_le_lessD length_Cons order_trans)
  then show ?thesis using h s by (auto simp: cntlGetVal_def strpbrk_def split: list.splits if_splits)
qed

function get_vals :: "cntl_vals \<Rightarrow> string list" where
  "get_vals rv = (case cntlGetVal rv of (rv', None) \<Rightarrow> [] | (rv', Some v) \<Rightarrow> v # get_vals rv')"
  by pat_completeness auto

termination
proof (relation "measure (\<lambda>rv. case cv_val rv of None \<Rightarrow> 0 | Some s \<Rightarrow> Suc (length s))")
  fix rv rv' :: cntl_vals and v x o'
  assume "(rv', o') = cntlGetVal rv" "o' = Some v"
  then show "(rv', rv) \<in> measure (\<lambda>rv. case cv_val rv of None \<Rightarrow> 0 | Some s \<Rightarrow> Suc (length s))"
    using cntlGetVal_shorter [of rv rv' v] by simp
qed simp

declare get_vals.simps [simp del]

definition type_bit :: "string \<Rightarrow> 64 word option" where
  "type_bit t =
     (if t = ''instance'' then Some INSTANCE_PROVIDER
      else if t = ''association'' then Some ASSOCIATION_PROVIDER
      else if t = ''method'' then Some METHOD_PROVIDER
      else if t = ''indication'' then Some INDICATION_PROVIDER
      else if t = ''class'' then Some CLASS_PROVIDER
      else if t = ''property'' then Some PROPERTY_PROVIDER
      else if t = ''qualifier'' then Some QUALIFIER_PROVIDER
      else None)"

fun add_types :: "string list \<Rightarrow> 64 word \<Rightarrow> bool \<Rightarrow> 64 word \<times> bool" where
  "add_types [] w err = (w, err)"
| "add_types (t # ts) w err = (case type_bit t of Some b \<Rightarrow> add_types ts (w OR b) err | None \<Rightarrow> add_types ts w True)"

text \<open>\<open>for (i = strlen(parms); i > 0 && parms[i] <= ' '; i--) parms[i] = 0;\<close>\<close>

definition trim_parms :: "string \<Rightarrow> string" where
  "trim_parms s = take 1 s @ rev (dropWhile blank (rev (drop 1 s)))"

text \<open>
  The statements of a section: \<open>rv\<close> holds the text behind the colon. A value that is missing is a null pointer for \<open>strdup\<close>; a
  list of namespaces without a value is left uninitialised.
\<close>

definition set_field :: "(string \<Rightarrow> int option) \<Rightarrow> string \<Rightarrow> cntl_vals \<Rightarrow> provider_info \<Rightarrow> (provider_info \<times> bool) option" where
  "set_field getpwnam nm rv info =
     (let v = snd (cntlGetVal rv); vs = get_vals rv in
      if nm = ''provider'' then map_option (\<lambda>v. (info\<lparr>pi_providerName := Some v\<rparr>, False)) v
      else if nm = ''location'' then map_option (\<lambda>v. (info\<lparr>pi_location := Some v\<rparr>, False)) v
      else if nm = ''parameters'' then map_option (\<lambda>s. (info\<lparr>pi_parms := Some (trim_parms s)\<rparr>, False)) (snd (cntlGetStr rv))
      else if nm = ''user'' then
        map_option (\<lambda>v. case getpwnam v of Some uid \<Rightarrow> (info\<lparr>pi_user := Some v, pi_uid := uid\<rparr>, False)
          | None \<Rightarrow> (info\<lparr>pi_user := Some v\<rparr>, True)) v
      else if nm = ''group'' then map_option (\<lambda>v. (info\<lparr>pi_group := Some v\<rparr>, False)) v
      else if nm = ''unload'' then Some (info\<lparr>pi_unload := (if ''never'' \<in> set vs then - 1 else 0)\<rparr>, list_ex (\<lambda>u. u \<noteq> ''never'') vs)
      else if nm = ''type'' then (case add_types vs 0 False of (w, err) \<Rightarrow> Some (info\<lparr>pi_type := w\<rparr>, err))
      else if nm = ''namespace'' then (if vs = [] then None else Some (info\<lparr>pi_ns := Some vs\<rparr>, False))
      else Some (info, True))"

text \<open>Before the first section there is no provider to set.\<close>

definition set_statement :: "(string \<Rightarrow> int option) \<Rightarrow> cntl_vals \<Rightarrow> reading \<Rightarrow> reading option" where
  "set_statement getpwnam rv rd =
     (case cv_id rv of None \<Rightarrow> None
      | Some nm \<Rightarrow>
          if nm \<notin> {''provider'', ''location'', ''parameters'', ''user'', ''group'', ''unload'', ''type'', ''namespace''}
          then Some (rd\<lparr>rd_err := True\<rparr>)
          else case rd_info rd of None \<Rightarrow> None
            | Some info \<Rightarrow> map_option (\<lambda>(info', err). rd\<lparr>rd_info := Some info', rd_err := rd_err rd \<or> err\<rparr>) (set_field getpwnam nm rv info))"

definition read_line :: "bool \<Rightarrow> prov_user \<Rightarrow> (string \<Rightarrow> int option) \<Rightarrow> string \<Rightarrow> reading \<Rightarrow> reading option" where
  "read_line ex2 u getpwnam fin rd =
     (case cntlParseStmt fin (rd_rv rd) of None \<Rightarrow> None
      | Some rv \<Rightarrow>
          (let rd = rd\<lparr>rd_rv := rv\<rparr> in
           if cv_type rv = 0 then Some (rd\<lparr>rd_err := True\<rparr>)
           else if cv_type rv = 1 then Option.bind (cv_id rv) (\<lambda>cn. start_section ex2 u cn rd)
           else if cv_type rv = 2 then set_statement getpwnam rv rd
           else Some rd))"

function read_lines :: "bool \<Rightarrow> prov_user \<Rightarrow> (string \<Rightarrow> int option) \<Rightarrow> string \<Rightarrow> reading \<Rightarrow> reading option" where
  "read_lines ex2 u getpwnam file rd =
     (case fgets 1024 file of None \<Rightarrow> Some rd
      | Some (fin, rest) \<Rightarrow>
          (case read_line ex2 u getpwnam (c_string fin) rd of None \<Rightarrow> None
           | Some rd' \<Rightarrow> if rd_err rd' then Some rd' else read_lines ex2 u getpwnam rest rd'))"
  by pat_completeness auto
termination
  by (relation "measure (\<lambda>(ex2, u, g, file, rd). length file)") (auto simp: fgets_shorter)

declare read_lines.simps [simp del]

definition start_reading :: "bool \<Rightarrow> reading" where
  "start_reading err = \<lparr>rd_base = \<lparr>pr_ht = new_name_table 61, pr_chains = []\<rparr>, rd_info = None, rd_id = 0, rd_class = None, rd_default = None,
     rd_interOp = None, rd_quali = None, rd_interopFound = False, rd_err = err, rd_rv = \<lparr>cv_type = 0, cv_id = None, cv_val = None\<rparr>\<rparr>"

text \<open>The last section is added at the end of the file, without the test for the special providers.\<close>

definition add_last :: "reading \<Rightarrow> reading option" where
  "add_last rd =
     (case rd_info rd of None \<Rightarrow> Some rd
      | Some info \<Rightarrow>
          if rd_err rd then Some rd
          else map_option (\<lambda>(pr, err). rd\<lparr>rd_base := pr, rd_err := err\<rparr>) (addProviderToHT info (rd_base rd)))"

definition read_register :: "bool \<Rightarrow> prov_user \<Rightarrow> (string \<Rightarrow> int option) \<Rightarrow> string \<Rightarrow> bool \<Rightarrow> reading option" where
  "read_register ex2 u getpwnam file err = Option.bind (read_lines ex2 u getpwnam file (start_reading err)) add_last"

text \<open>The end of \<open>newProviderRegister\<close>; without a file (\<open>None\<close>) there is no class provider.\<close>

definition finish_register :: "reading option \<Rightarrow> reading outcome" where
  "finish_register r =
     (case r of None \<Rightarrow> Crash
      | Some rd \<Rightarrow>
          if rd_err rd \<or> rd_class rd = None then Abort
          else Return (if rd_interOp rd = None then rd\<lparr>rd_interOp := Some 0\<rparr> else rd))"

definition newProviderRegister ::
  "build \<Rightarrow> (string \<Rightarrow> string option) \<Rightarrow> string option \<Rightarrow> (string \<Rightarrow> int option) \<Rightarrow> bool \<Rightarrow> control_state \<Rightarrow> (control_state \<times> reading) outcome" where
  "newProviderRegister b files configfile getpwnam ex2 st =
     (case setupControl b files configfile st of Abort \<Rightarrow> Abort | Crash \<Rightarrow> Crash
      | Return (st, _) \<Rightarrow>
     (case getControlBool st ''providerDefaultUserSFCB'' of Abort \<Rightarrow> Abort | Crash \<Rightarrow> Crash
      | Return (rc, v) \<Rightarrow>
     (let provSFCB = (if rc \<noteq> 0 then True else v) in
      case (if provSFCB then Return (st, 0, None) else getControlChars b files configfile st ''providerDefaultUser'') of Abort \<Rightarrow> Abort | Crash \<Rightarrow> Crash
      | Return (st, rc, provuser) \<Rightarrow>
     (let uid = (if provSFCB \<or> rc \<noteq> 0 then Some (- 1) else case provuser of None \<Rightarrow> None | Some p \<Rightarrow> getpwnam p);
          u = \<lparr>pu_provSFCB = provSFCB, pu_provuser = provuser, pu_provuid = (case uid of Some i \<Rightarrow> i | None \<Rightarrow> - 1)\<rparr> in
      case getControlChars b files configfile st ''registrationDir'' of Abort \<Rightarrow> Abort | Crash \<Rightarrow> Crash
      | Return (st, rc, dir) \<Rightarrow>
     (case (if rc \<noteq> 0 then Some ''/var/lib/sfcb/registration'' else dir) of None \<Rightarrow> Crash
      | Some dir \<Rightarrow>
     if 1024 \<le> length (dir @ ''/providerRegister'') then Crash
     else case files (dir @ ''/providerRegister'') of
         None \<Rightarrow> Abort
       | Some txt \<Rightarrow>
          (case finish_register (read_register ex2 u getpwnam txt (uid = None)) of Abort \<Rightarrow> Abort | Crash \<Rightarrow> Crash
           | Return rd \<Rightarrow> Return (st, rd)))))))"

section \<open>The register as a map\<close>

text \<open>
  A register stands for a map from class names without case to the providers of the class. Two names never share a chain, so that a
  change of one class leaves the others alone.
\<close>

type_synonym provider_map = "string \<Rightarrow> provider_info list option"

definition prov_rep :: "provider_base \<Rightarrow> provider_map \<Rightarrow> bool" where
  "prov_rep pr M \<longleftrightarrow> name_table (pr_ht pr) \<and>
     (\<forall>n. case name_get (pr_ht pr) n of None \<Rightarrow> M (lower n) = None
        | Some i \<Rightarrow> i < length (pr_chains pr) \<and> pr_chains pr ! i \<noteq> [] \<and> M (lower n) = Some (pr_chains pr ! i)) \<and>
     (\<forall>n m i. name_get (pr_ht pr) n = Some i \<longrightarrow> name_get (pr_ht pr) m = Some i \<longrightarrow> lower n = lower m)"

text \<open>Adding a provider to the list of its class; the flag is the conflict.\<close>

definition join :: "provider_info \<Rightarrow> provider_info list \<Rightarrow> (provider_info list \<times> bool) option" where
  "join info ps =
     (case ps of [] \<Rightarrow> Some ([info], False)
      | p # qs \<Rightarrow>
          if pi_providerName p = None \<or> pi_providerName info = None then None
          else if pi_providerName p \<noteq> pi_providerName info then Some (p # info # qs, False)
          else if pi_type p \<noteq> pi_type info then Some (ps, True)
          else (case (pi_ns p, pi_ns info) of
              (Some ns, Some (n # _)) \<Rightarrow> Some (p\<lparr>pi_ns := Some (if n \<in> set ns then ns else ns @ [n])\<rparr> # qs, False)
            | _ \<Rightarrow> None))"

lemma prov_repI:
  assumes "name_table (pr_ht pr)" "\<And>n. name_get (pr_ht pr) n = None \<Longrightarrow> M (lower n) = None"
    "\<And>n i. name_get (pr_ht pr) n = Some i \<Longrightarrow> i < length (pr_chains pr) \<and> pr_chains pr ! i \<noteq> [] \<and> M (lower n) = Some (pr_chains pr ! i)"
    "\<And>n m i. name_get (pr_ht pr) n = Some i \<Longrightarrow> name_get (pr_ht pr) m = Some i \<Longrightarrow> lower n = lower m"
  shows "prov_rep pr M"
proof -
  have "case name_get (pr_ht pr) n of None \<Rightarrow> M (lower n) = None
        | Some i \<Rightarrow> i < length (pr_chains pr) \<and> pr_chains pr ! i \<noteq> [] \<and> M (lower n) = Some (pr_chains pr ! i)" for n
    using assms(2) [of n] assms(3) [of n] by (cases "name_get (pr_ht pr) n") simp_all
  then show ?thesis using assms(1,4) unfolding prov_rep_def by blast
qed

lemma prov_repD:
  assumes "prov_rep pr M"
  shows "name_table (pr_ht pr)" "name_get (pr_ht pr) n = None \<longleftrightarrow> M (lower n) = None"
    "name_get (pr_ht pr) n = Some i \<Longrightarrow> i < length (pr_chains pr) \<and> pr_chains pr ! i \<noteq> [] \<and> M (lower n) = Some (pr_chains pr ! i)"
    "name_get (pr_ht pr) n = Some i \<Longrightarrow> name_get (pr_ht pr) m = Some i \<Longrightarrow> lower n = lower m"
proof -
  have t: "name_table (pr_ht pr)" using assms by (simp add: prov_rep_def)
  have g: "case name_get (pr_ht pr) n of None \<Rightarrow> M (lower n) = None
        | Some i \<Rightarrow> i < length (pr_chains pr) \<and> pr_chains pr ! i \<noteq> [] \<and> M (lower n) = Some (pr_chains pr ! i)" for n
    using assms unfolding prov_rep_def by blast
  show "name_table (pr_ht pr)" by (rule t)
  show "name_get (pr_ht pr) n = None \<longleftrightarrow> M (lower n) = None" using g [of n] by (auto split: option.splits)
  show "name_get (pr_ht pr) n = Some i \<Longrightarrow> i < length (pr_chains pr) \<and> pr_chains pr ! i \<noteq> [] \<and> M (lower n) = Some (pr_chains pr ! i)"
    using g [of n] by simp
  show "name_get (pr_ht pr) n = Some i \<Longrightarrow> name_get (pr_ht pr) m = Some i \<Longrightarrow> lower n = lower m"
    using assms unfolding prov_rep_def by blast
qed

lemma new_register_rep: "prov_rep \<lparr>pr_ht = new_name_table 61, pr_chains = []\<rparr> (\<lambda>_. None)"
  by (rule prov_repI) simp_all

lemma put_chain_rep:
  assumes rep: "prov_rep pr M" and c: "c \<noteq> []"
  shows "prov_rep (pr\<lparr>pr_ht := name_put (pr_ht pr) n (length (pr_chains pr)), pr_chains := pr_chains pr @ [c]\<rparr>) (M(lower n \<mapsto> c))"
proof (rule prov_repI)
  note old = prov_repD [OF rep]
  let ?pr = "pr\<lparr>pr_ht := name_put (pr_ht pr) n (length (pr_chains pr)), pr_chains := pr_chains pr @ [c]\<rparr>"
  have get: "name_get (pr_ht ?pr) m = (if lower m = lower n then Some (length (pr_chains pr)) else name_get (pr_ht pr) m)" for m
    using old(1) by simp
  show "name_table (pr_ht ?pr)" using old(1) by simp
  show "name_get (pr_ht ?pr) m = None \<Longrightarrow> (M(lower n \<mapsto> c)) (lower m) = None" for m
    using old(2) [of m] unfolding get by (simp split: if_splits)
  show "name_get (pr_ht ?pr) m = Some i \<Longrightarrow>
      i < length (pr_chains ?pr) \<and> pr_chains ?pr ! i \<noteq> [] \<and> (M(lower n \<mapsto> c)) (lower m) = Some (pr_chains ?pr ! i)" for m i
    using old(3) [of m i] c unfolding get by (simp add: nth_append split: if_splits)
  show "name_get (pr_ht ?pr) m = Some i \<Longrightarrow> name_get (pr_ht ?pr) k = Some i \<Longrightarrow> lower m = lower k" for m k i
    using old(3) [of m i] old(3) [of k i] old(4) [of m i k] unfolding get by (simp split: if_splits)
qed

lemma update_chain_rep:
  assumes rep: "prov_rep pr M" and n: "name_get (pr_ht pr) n = Some i" and c: "c \<noteq> []"
  shows "prov_rep (pr\<lparr>pr_chains := (pr_chains pr)[i := c]\<rparr>) (M(lower n \<mapsto> c))"
proof (rule prov_repI)
  note old = prov_repD [OF rep]
  let ?pr = "pr\<lparr>pr_chains := (pr_chains pr)[i := c]\<rparr>"
  show "name_table (pr_ht ?pr)" using old(1) by simp
  show "name_get (pr_ht ?pr) m = None \<Longrightarrow> (M(lower n \<mapsto> c)) (lower m) = None" for m
    using old(2) [of m] n name_get_cong [OF old(1), of m n] by (cases "lower m = lower n") simp_all
  show "name_get (pr_ht ?pr) m = Some j \<Longrightarrow>
      j < length (pr_chains ?pr) \<and> pr_chains ?pr ! j \<noteq> [] \<and> (M(lower n \<mapsto> c)) (lower m) = Some (pr_chains ?pr ! j)" for m j
  proof (cases "lower m = lower n")
    case True
    assume "name_get (pr_ht ?pr) m = Some j"
    then have "j = i" using name_get_cong [OF old(1) True] n by simp
    then show ?thesis using old(3) [OF n] c True by simp
  next
    case False
    assume m: "name_get (pr_ht ?pr) m = Some j"
    then have "j \<noteq> i" using old(4) [OF n, of m] False by auto
    then show ?thesis using old(3) [of m j] m False by simp
  qed
  show "name_get (pr_ht ?pr) m = Some j \<Longrightarrow> name_get (pr_ht ?pr) k = Some j \<Longrightarrow> lower m = lower k" for m k j
    using old(4) [of m j k] by simp
qed

definition added :: "provider_info \<Rightarrow> provider_map \<Rightarrow> (provider_map \<times> bool) option" where
  "added info M =
     map_option (\<lambda>(ps, err). (M(lower (pi_className info) \<mapsto> ps), err))
       (join info (case M (lower (pi_className info)) of None \<Rightarrow> [] | Some ps \<Rightarrow> ps))"

lemma addProviderToHT_rep:
  assumes rep: "prov_rep pr M"
  shows "rel_option (\<lambda>(pr', err) (M', err'). prov_rep pr' M' \<and> err = err') (addProviderToHT info pr) (added info M)"
proof (cases "name_get (pr_ht pr) (pi_className info)")
  case None
  then have "M (lower (pi_className info)) = None" using prov_repD(2) [OF rep] by blast
  then show ?thesis using None put_chain_rep [OF rep, of "[info]" "pi_className info"]
    by (simp add: addProviderToHT_def added_def join_def)
next
  case (Some i)
  let ?k = "lower (pi_className info)"
  from prov_repD(3) [OF rep Some] obtain p qs where ch: "pr_chains pr ! i = p # qs" and M: "M ?k = Some (p # qs)"
    by (metis neq_Nil_conv)
  have same: "M(?k \<mapsto> p # qs) = M" using M by (simp add: fun_upd_idem)
  have upd: "prov_rep (pr\<lparr>pr_chains := (pr_chains pr)[i := q # rs]\<rparr>) (M(?k \<mapsto> q # rs))" for q rs
    using update_chain_rep [OF rep Some, of "q # rs"] by simp
  have keep: "prov_rep pr (M(?k \<mapsto> p\<lparr>pi_ns := Some ns\<rparr> # qs))" if "pi_ns p = Some ns" for ns
  proof -
    from that have "p\<lparr>pi_ns := Some ns\<rparr> = p" by (cases p) simp
    then show ?thesis using rep same by simp
  qed
  show ?thesis
    using Some ch M rep same upd keep
    by (auto simp: addProviderToHT_def added_def join_def split: option.split list.split)
qed

lemma putProvider_rep:
  assumes rep: "prov_rep pr M" and i: "i < length (pr_chains pr)" "pr_chains pr ! i \<noteq> []"
    and fresh: "\<And>m. name_get (pr_ht pr) m = Some i \<Longrightarrow> lower m = lower n"
  shows "prov_rep (putProvider pr n i) (M(lower n \<mapsto> pr_chains pr ! i))"
proof (rule prov_repI)
  note old = prov_repD [OF rep]
  let ?pr = "putProvider pr n i"
  have get: "name_get (pr_ht ?pr) m = (if lower m = lower n then Some i else name_get (pr_ht pr) m)" for m
    using old(1) by (simp add: putProvider_def)
  have ch: "pr_chains ?pr = pr_chains pr" by (simp add: putProvider_def)
  show "name_table (pr_ht ?pr)" using old(1) by (simp add: putProvider_def)
  show "name_get (pr_ht ?pr) m = None \<Longrightarrow> (M(lower n \<mapsto> pr_chains pr ! i)) (lower m) = None" for m
    using old(2) [of m] unfolding get by (simp split: if_splits)
  show "name_get (pr_ht ?pr) m = Some j \<Longrightarrow>
      j < length (pr_chains ?pr) \<and> pr_chains ?pr ! j \<noteq> [] \<and> (M(lower n \<mapsto> pr_chains pr ! i)) (lower m) = Some (pr_chains ?pr ! j)" for m j
    using old(3) [of m j] i unfolding get ch by (simp split: if_splits)
  show "name_get (pr_ht ?pr) m = Some j \<Longrightarrow> name_get (pr_ht ?pr) k = Some j \<Longrightarrow> lower m = lower k" for m k j
    using fresh [of m] fresh [of k] old(4) [of m j k] unfolding get by (simp split: if_splits)
qed

lemma removeProvider_rep:
  assumes rep: "prov_rep pr M"
  shows "prov_rep (removeProvider pr n) (M(lower n := None))"
proof (rule prov_repI)
  note old = prov_repD [OF rep]
  let ?pr = "removeProvider pr n"
  have get: "name_get (pr_ht ?pr) m = (if lower m = lower n then None else name_get (pr_ht pr) m)" for m
    using old(1) by (simp add: removeProvider_def)
  have ch: "pr_chains ?pr = pr_chains pr" by (simp add: removeProvider_def)
  show "name_table (pr_ht ?pr)" using old(1) by (simp add: removeProvider_def)
  show "name_get (pr_ht ?pr) m = None \<Longrightarrow> (M(lower n := None)) (lower m) = None" for m
    using old(2) [of m] unfolding get by (simp split: if_splits)
  show "name_get (pr_ht ?pr) m = Some j \<Longrightarrow>
      j < length (pr_chains ?pr) \<and> pr_chains ?pr ! j \<noteq> [] \<and> (M(lower n := None)) (lower m) = Some (pr_chains ?pr ! j)" for m j
    using old(3) [of m j] unfolding get ch by (simp split: if_splits)
  show "name_get (pr_ht ?pr) m = Some j \<Longrightarrow> name_get (pr_ht ?pr) k = Some j \<Longrightarrow> lower m = lower k" for m k j
    using old(4) [of m j k] unfolding get by (simp split: if_splits)
qed

lemma getProvider_rep:
  assumes rep: "prov_rep pr M"
  shows "getProvider pr n t = Some (case M (lower n) of None \<Rightarrow> None | Some ps \<Rightarrow> if pi_type (hd ps) AND t \<noteq> 0 then Some (hd ps) else None)"
proof (cases "name_get (pr_ht pr) n")
  case None
  then show ?thesis using prov_repD(2) [OF rep, of n] by (simp add: getProvider_def)
next
  case (Some i)
  then show ?thesis using prov_repD(3) [OF rep Some] by (cases "pr_chains pr ! i") (simp_all add: getProvider_def)
qed

text \<open>The iteration visits the chain of every class once.\<close>

lemma table_chains_rep:
  assumes rep: "prov_rep pr M"
  obtains ks "is" where "distinct ks" "\<And>k. k \<in> set ks \<longleftrightarrow> (\<exists>n. k = lower n \<and> M (lower n) \<noteq> None)"
    "table_chains pr = Some is" "distinct is" "map (\<lambda>i. Some (pr_chains pr ! i)) is = map M ks" "\<And>i. i \<in> set is \<longleftrightarrow> (\<exists>n. name_get (pr_ht pr) n = Some i)"
proof -
  let ?st = "stored (pr_ht pr)" and ?k = "\<lambda>p. lower (key_chars (fst p))"
  note old = prov_repD [OF rep] and t = name_table_stored [OF prov_repD(1) [OF rep]]
  have get: "name_get (pr_ht pr) (key_chars (fst p)) = Some (snd p)" if "p \<in> set ?st" for p
    using t(3) [of "key_chars (fst p)" "snd p"] that by (metis prod.collapse)
  have ks: "k \<in> set (map ?k ?st) \<longleftrightarrow> (\<exists>n. k = lower n \<and> M (lower n) \<noteq> None)" for k
  proof
    assume "k \<in> set (map ?k ?st)"
    then obtain p where "p \<in> set ?st" "k = lower (key_chars (fst p))" by auto
    then show "\<exists>n. k = lower n \<and> M (lower n) \<noteq> None"
      using get [of p] old(2) [of "key_chars (fst p)"] by (intro exI [of _ "key_chars (fst p)"]) simp
  next
    assume "\<exists>n. k = lower n \<and> M (lower n) \<noteq> None"
    then obtain n i where n: "k = lower n" "name_get (pr_ht pr) n = Some i" using old(2) by fastforce
    then obtain kk where "(kk, i) \<in> set ?st" "lower (key_chars kk) = lower n" using t(3) [of n i] by blast
    then show "k \<in> set (map ?k ?st)" using n(1) by force
  qed
  have "inj_on snd (set ?st)"
  proof (rule inj_onI)
    fix p q assume pq: "p \<in> set ?st" "q \<in> set ?st" "snd p = snd q"
    have "?k p = ?k q" using old(4) [OF get [OF pq(1)]] get [OF pq(2)] pq(3) by metis
    then show "p = q" using t(2) pq by (metis distinct_map inj_onD)
  qed
  then have d: "distinct (map snd ?st)" using t(2) by (simp add: distinct_map)
  have m: "map (\<lambda>i. Some (pr_chains pr ! i)) (map snd ?st) = map M (map ?k ?st)"
  proof -
    have "Some (pr_chains pr ! snd p) = M (?k p)" if "p \<in> set ?st" for p using old(3) [OF get [OF that]] by simp
    then show ?thesis by simp
  qed
  have "i \<in> set (map snd ?st) \<longleftrightarrow> (\<exists>n. name_get (pr_ht pr) n = Some i)" for i
    using t(3) [of _ i] by force
  moreover have "table_chains pr = Some (map snd ?st)" using t(1) by (simp add: table_chains_def)
  ultimately show ?thesis using that [OF t(2) ks _ d m] by blast
qed

lemma locate_in_find:
  assumes "\<forall>i \<in> set is. pr_chains pr ! i \<noteq> [] \<and> pi_providerName (hd (pr_chains pr ! i)) \<noteq> None"
  shows "locate_in pr nm is = Some (List.find (\<lambda>p. map_option lower (pi_providerName p) = Some (lower nm)) (map (\<lambda>i. hd (pr_chains pr ! i)) is))"
  using assms
proof (induction "is")
  case (Cons i "is")
  then obtain info rest n where "pr_chains pr ! i = info # rest" "pi_providerName info = Some n"
    by (metis list.set_intros(1) list.sel(1) neq_Nil_conv not_None_eq)
  then show ?case using Cons by simp
qed simp

lemma locateProvider_rep:
  assumes rep: "prov_rep pr M" and named: "\<And>n ps. M (lower n) = Some ps \<Longrightarrow> pi_providerName (hd ps) \<noteq> None"
  shows "\<exists>r. locateProvider pr nm = Some r \<and>
    (case r of None \<Rightarrow> \<forall>n ps. M (lower n) = Some ps \<longrightarrow> map_option lower (pi_providerName (hd ps)) \<noteq> Some (lower nm)
     | Some p \<Rightarrow> map_option lower (pi_providerName p) = Some (lower nm) \<and> (\<exists>n ps. M (lower n) = Some ps \<and> p = hd ps))"
proof -
  obtain ks "is" where t: "distinct ks" "\<And>k. k \<in> set ks \<longleftrightarrow> (\<exists>n. k = lower n \<and> M (lower n) \<noteq> None)"
    "table_chains pr = Some is" "distinct is" "map (\<lambda>i. Some (pr_chains pr ! i)) is = map M ks" "\<And>i. i \<in> set is \<longleftrightarrow> (\<exists>n. name_get (pr_ht pr) n = Some i)"
    by (rule table_chains_rep [OF rep]) (rule that, assumption+)
  have i: "\<exists>n. M (lower n) = Some (pr_chains pr ! i) \<and> pr_chains pr ! i \<noteq> []" if "i \<in> set is" for i
    using t(6) [of i] that prov_repD(3) [OF rep] by blast
  let ?P = "\<lambda>p. map_option lower (pi_providerName p) = Some (lower nm)"
  let ?r = "List.find ?P (map (\<lambda>i. hd (pr_chains pr ! i)) is)"
  have "\<forall>i \<in> set is. pr_chains pr ! i \<noteq> [] \<and> pi_providerName (hd (pr_chains pr ! i)) \<noteq> None"
    using i named by blast
  then have r: "locateProvider pr nm = Some ?r" using locate_in_find t(3) by (simp add: locateProvider_def)
  show ?thesis
  proof (cases ?r)
    case None
    have "\<not> ?P (hd ps)" if n: "M (lower n) = Some ps" for n ps
    proof -
      obtain j where j: "name_get (pr_ht pr) n = Some j" using prov_repD(2) [OF rep, of n] n by (cases "name_get (pr_ht pr) n") auto
      then have "j \<in> set is" "pr_chains pr ! j = ps" using t(6) prov_repD(3) [OF rep j] n by auto
      then show ?thesis using None by (auto simp: find_None_iff)
    qed
    then show ?thesis using r None by auto
  next
    case (Some p)
    then obtain j where "j \<in> set is" "p = hd (pr_chains pr ! j)" "?P p"
      unfolding find_Some_iff by (metis length_map nth_map nth_mem)
    then show ?thesis using r Some i [of j] by auto
  qed
qed

lemma fold_update:
  "distinct is \<Longrightarrow> length (fold (\<lambda>i cs. cs[i := f (cs ! i)]) is cs) = length cs \<and>
    (\<forall>j < length cs. fold (\<lambda>i cs. cs[i := f (cs ! i)]) is cs ! j = (if j \<in> set is then f (cs ! j) else cs ! j))"
proof (induction "is" arbitrary: cs)
  case (Cons i "is")
  have "cs[i := f (cs ! i)] ! j = (if j = i then f (cs ! i) else cs ! j)" if "j < length cs" for j using that by simp
  then show ?case using Cons.IH [of "cs[i := f (cs ! i)]"] Cons.prems by simp
qed simp

lemma resetProvider_rep:
  assumes rep: "prov_rep pr M"
  shows "\<exists>pr'. resetProvider pr pid = Some pr' \<and> prov_rep pr' (\<lambda>k. map_option (map (reset_pid pid)) (M k))"
proof -
  obtain ks "is" where t: "distinct ks" "\<And>k. k \<in> set ks \<longleftrightarrow> (\<exists>n. k = lower n \<and> M (lower n) \<noteq> None)"
    "table_chains pr = Some is" "distinct is" "map (\<lambda>i. Some (pr_chains pr ! i)) is = map M ks" "\<And>i. i \<in> set is \<longleftrightarrow> (\<exists>n. name_get (pr_ht pr) n = Some i)"
    by (rule table_chains_rep [OF rep]) (rule that, assumption+)
  let ?pr = "pr\<lparr>pr_chains := fold (\<lambda>i cs. cs[i := map (reset_pid pid) (cs ! i)]) is (pr_chains pr)\<rparr>"
  note old = prov_repD [OF rep] and f = fold_update [OF t(4), of "map (reset_pid pid)" "pr_chains pr"]
  have "prov_rep ?pr (\<lambda>k. map_option (map (reset_pid pid)) (M k))"
  proof (rule prov_repI)
    show "name_table (pr_ht ?pr)" using old(1) by simp
    show "name_get (pr_ht ?pr) m = None \<Longrightarrow> map_option (map (reset_pid pid)) (M (lower m)) = None" for m
      using old(2) [of m] by simp
    fix m i assume "name_get (pr_ht ?pr) m = Some i"
    then have m: "name_get (pr_ht pr) m = Some i" by simp
    with t(6) have "i \<in> set is" by blast
    then show "i < length (pr_chains ?pr) \<and> pr_chains ?pr ! i \<noteq> [] \<and> map_option (map (reset_pid pid)) (M (lower m)) = Some (pr_chains ?pr ! i)"
      using f old(3) [OF m] by auto
  next
    show "name_get (pr_ht ?pr) m = Some i \<Longrightarrow> name_get (pr_ht ?pr) k = Some i \<Longrightarrow> lower m = lower k" for m k i
      using old(4) [of m i k] by simp
  qed
  then show ?thesis using t(3) by (simp add: resetProvider_def)
qed

lemma freeInfoPtr_ids: "freeInfoPtr ps = rev (map pi_id ps)"
  by (induction ps) auto

lemma pRelease_rep:
  assumes rep: "prov_rep pr M"
  shows "\<exists>ks. distinct ks \<and> (\<forall>k. k \<in> set ks \<longleftrightarrow> (\<exists>n. k = lower n \<and> M (lower n) \<noteq> None)) \<and>
    pRelease pr = Some (concat (map (\<lambda>k. rev (map pi_id (the (M k)))) ks))"
proof -
  obtain ks "is" where t: "distinct ks" "\<And>k. k \<in> set ks \<longleftrightarrow> (\<exists>n. k = lower n \<and> M (lower n) \<noteq> None)"
    "table_chains pr = Some is" "distinct is" "map (\<lambda>i. Some (pr_chains pr ! i)) is = map M ks" "\<And>i. i \<in> set is \<longleftrightarrow> (\<exists>n. name_get (pr_ht pr) n = Some i)"
    by (rule table_chains_rep [OF rep]) (rule that, assumption+)
  have "map (\<lambda>i. freeInfoPtr (pr_chains pr ! i)) is = map (\<lambda>c. freeInfoPtr (the c)) (map (\<lambda>i. Some (pr_chains pr ! i)) is)" by simp
  also have "\<dots> = map (\<lambda>k. rev (map pi_id (the (M k)))) ks" unfolding t(5) by (simp add: freeInfoPtr_ids)
  finally show ?thesis using t(1-3) by (intro exI [of _ ks]) (simp add: pRelease_def)
qed

section \<open>Registering all providers\<close>

text \<open>
  The register of a list of providers in closed form: the first provider of a class keeps its place and takes over the first namespace of
  every later registration under its name; the others follow, the last one first. Registrations of the first provider must agree in the type.
\<close>

definition collate :: "string list \<Rightarrow> string list \<Rightarrow> string list" where
  "collate ns xs = fold (\<lambda>n ns. if n \<in> set ns then ns else ns @ [n]) xs ns"

definition of_class :: "provider_info list \<Rightarrow> string \<Rightarrow> provider_info list" where
  "of_class ps k = filter (\<lambda>p. lower (pi_className p) = k) ps"

definition registered :: "provider_info list \<Rightarrow> provider_map" where
  "registered ps k =
     (case of_class ps k of [] \<Rightarrow> None
      | p # qs \<Rightarrow> Some (p\<lparr>pi_ns := Some (collate (the (pi_ns p)) (map (\<lambda>q. hd (the (pi_ns q))) (filter (\<lambda>q. pi_providerName q = pi_providerName p) qs)))\<rparr>
          # rev (filter (\<lambda>q. pi_providerName q \<noteq> pi_providerName p) qs)))"

definition consistent :: "provider_info list \<Rightarrow> bool" where
  "consistent ps \<longleftrightarrow>
     (\<forall>k p qs. of_class ps k = p # qs \<longrightarrow> (\<forall>q \<in> set qs. pi_providerName q = pi_providerName p \<longrightarrow> pi_type q = pi_type p))"

definition complete :: "provider_info \<Rightarrow> bool" where
  "complete p \<longleftrightarrow> pi_providerName p \<noteq> None \<and> (\<exists>n ns. pi_ns p = Some (n # ns))"

lemma of_class_append: "of_class (ps @ qs) k = of_class ps k @ of_class qs k"
  by (simp add: of_class_def)

lemma consistent_prefix: "consistent (ps @ qs) \<Longrightarrow> consistent ps"
  unfolding consistent_def of_class_append by (metis UnCI append_Cons set_append)

lemma of_class_other: "k \<noteq> lower (pi_className q) \<Longrightarrow> of_class (ps @ [q]) k = of_class ps k"
  by (simp add: of_class_def)

lemma of_class_same: "of_class (ps @ [q]) (lower (pi_className q)) = of_class ps (lower (pi_className q)) @ [q]"
  by (simp add: of_class_def)

lemma consistent_snoc:
  "consistent (ps @ [q]) \<longleftrightarrow> consistent ps \<and>
     (case of_class ps (lower (pi_className q)) of [] \<Rightarrow> True | p # _ \<Rightarrow> pi_providerName q = pi_providerName p \<longrightarrow> pi_type q = pi_type p)"
  (is "_ \<longleftrightarrow> _ \<and> ?new")
proof (intro iffI conjI)
  assume c: "consistent (ps @ [q])"
  then show "consistent ps" by (rule consistent_prefix)
  show ?new
  proof (cases "of_class ps (lower (pi_className q))")
    case (Cons p rs)
    then have "of_class (ps @ [q]) (lower (pi_className q)) = p # rs @ [q]" by (simp add: of_class_same)
    with c have "\<forall>q \<in> set (rs @ [q]). pi_providerName q = pi_providerName p \<longrightarrow> pi_type q = pi_type p"
      unfolding consistent_def by blast
    then show ?thesis using Cons by simp
  qed simp
next
  assume c: "consistent ps \<and> ?new"
  show "consistent (ps @ [q])" unfolding consistent_def
  proof (intro allI impI)
    fix k p qs assume k: "of_class (ps @ [q]) k = p # qs"
    show "\<forall>q \<in> set qs. pi_providerName q = pi_providerName p \<longrightarrow> pi_type q = pi_type p"
    proof (cases "k = lower (pi_className q)")
      case False
      then show ?thesis using c k unfolding consistent_def by (metis of_class_other)
    next
      case True
      show ?thesis
      proof (cases "of_class ps k")
        case Nil
        then show ?thesis using k unfolding True of_class_same by simp
      next
        case (Cons p' rs)
        then have "p' = p" "qs = rs @ [q]" using k unfolding True of_class_same by simp_all
        moreover have "\<forall>q \<in> set rs. pi_providerName q = pi_providerName p' \<longrightarrow> pi_type q = pi_type p'"
          using c Cons unfolding consistent_def by blast
        ultimately show ?thesis using c Cons unfolding True by simp
      qed
    qed
  qed
qed

lemma collate_snoc: "collate ns (xs @ [x]) = (if x \<in> set (collate ns xs) then collate ns xs else collate ns xs @ [x])"
  by (simp add: collate_def)

lemma registered_other: "k \<noteq> lower (pi_className q) \<Longrightarrow> registered (ps @ [q]) k = registered ps k"
  by (simp add: registered_def of_class_other)

lemma added_registered:
  assumes q: "complete q" and ps: "\<And>p. p \<in> set ps \<Longrightarrow> complete p" and c: "consistent ps"
  shows "added q (registered ps) = Some (if consistent (ps @ [q]) then registered (ps @ [q]) else registered ps, \<not> consistent (ps @ [q]))"
proof -
  let ?k = "lower (pi_className q)"
  have upd: "(registered ps)(?k \<mapsto> c) = registered (ps @ [q])" if "registered (ps @ [q]) ?k = Some c" for c
    using that registered_other [of _ q ps] by (auto simp: fun_eq_iff)
  obtain b n ns where q': "pi_providerName q = Some b" "pi_ns q = Some (n # ns)" using q by (auto simp: complete_def)
  show ?thesis
  proof (cases "of_class ps ?k")
    case Nil
    then have r: "registered (ps @ [q]) ?k = Some [q\<lparr>pi_ns := Some (the (pi_ns q))\<rparr>]" and "registered ps ?k = None"
      by (simp_all add: registered_def of_class_same collate_def)
    moreover have "q\<lparr>pi_ns := Some (the (pi_ns q))\<rparr> = q" using q'(2) by (cases q) simp
    moreover have "consistent (ps @ [q])" using Nil c by (simp add: consistent_snoc)
    ultimately show ?thesis using upd by (simp add: added_def join_def)
  next
    case (Cons p rs)
    then have "p \<in> set (of_class ps ?k)" by simp
    then have "p \<in> set ps" by (simp add: of_class_def)
    then obtain a m ms where p: "pi_providerName p = Some a" "pi_ns p = Some (m # ms)" using ps [of p] by (auto simp: complete_def)
    show ?thesis
      using Cons c p q' upd
      by (auto simp: added_def join_def registered_def of_class_same consistent_snoc collate_snoc fun_upd_idem)
  qed
qed

section \<open>The special providers\<close>

text \<open>
  The pointers to the special providers in closed form: each is looked for in the sections behind the one before, the interoperability
  provider only with the flag.
\<close>

definition seek :: "string \<Rightarrow> provider_info list \<Rightarrow> nat option \<times> provider_info list" where
  "seek nm ps = (case dropWhile (\<lambda>p. pi_className p \<noteq> nm) ps of [] \<Rightarrow> (None, []) | p # qs \<Rightarrow> (Some (pi_id p), qs))"

definition specials :: "bool \<Rightarrow> provider_info list \<Rightarrow> nat option list" where
  "specials ex2 ps =
     (let (c, ps) = seek ''$ClassProvider$'' ps;
          (d, ps) = seek ''$DefaultProvider$'' ps;
          (i, ps) = (if ex2 then seek ''$InterOpProvider$'' ps else (None, []));
          (q, ps) = seek ''$QualifierProvider$'' ps in [c, d, i, q])"

definition pointers :: "reading \<Rightarrow> nat option list" where
  "pointers rd = [rd_class rd, rd_default rd, rd_interOp rd, rd_quali rd]"

lemma seek_Nil [simp]: "seek nm [] = (None, [])"
  by (simp add: seek_def)

lemma seek_snoc:
  "seek nm (ps @ [p]) =
     (case seek nm ps of (None, _) \<Rightarrow> if pi_className p = nm then (Some (pi_id p), []) else (None, []) | (Some i, qs) \<Rightarrow> (Some i, qs @ [p]))"
proof (cases "\<exists>q \<in> set ps. pi_className q = nm")
  case True
  then have "dropWhile (\<lambda>p. pi_className p \<noteq> nm) ps \<noteq> []" by (auto simp: dropWhile_eq_Nil_conv)
  then obtain q qs where "dropWhile (\<lambda>p. pi_className p \<noteq> nm) ps = q # qs" by (meson neq_Nil_conv)
  moreover from True have "dropWhile (\<lambda>p. pi_className p \<noteq> nm) (ps @ [p]) = dropWhile (\<lambda>p. pi_className p \<noteq> nm) ps @ [p]" by auto
  ultimately show ?thesis by (simp add: seek_def)
next
  case False
  then have none: "dropWhile (\<lambda>p. pi_className p \<noteq> nm) ps = []" by (simp add: dropWhile_eq_Nil_conv)
  from False have "dropWhile (\<lambda>p. pi_className p \<noteq> nm) (ps @ [p]) = dropWhile (\<lambda>p. pi_className p \<noteq> nm) [p]"
    by (intro dropWhile_append2) auto
  then show ?thesis unfolding seek_def none by simp
qed

lemma seek_None_rest: "fst (seek nm ps) = None \<Longrightarrow> snd (seek nm ps) = []"
  by (cases "dropWhile (\<lambda>p. pi_className p \<noteq> nm) ps") (simp_all only: seek_def list.case fst_conv snd_conv option.distinct)

lemma note_special_pointers: "pointers rd = specials ex2 ps \<Longrightarrow> pointers (note_special ex2 p rd) = specials ex2 (ps @ [p])"
proof -
  assume a: "pointers rd = specials ex2 ps"
  obtain c ps1 where c: "seek ''$ClassProvider$'' ps = (c, ps1)" by (meson surj_pair)
  obtain d ps2 where d: "seek ''$DefaultProvider$'' ps1 = (d, ps2)" by (meson surj_pair)
  obtain i ps3 where i: "seek ''$InterOpProvider$'' ps2 = (i, ps3)" by (meson surj_pair)
  obtain q ps4 where q: "seek ''$QualifierProvider$'' ps3 = (q, ps4)" by (meson surj_pair)
  have "c = None \<Longrightarrow> ps1 = []" "d = None \<Longrightarrow> ps2 = []" "i = None \<Longrightarrow> ps3 = []"
    using seek_None_rest [of "''$ClassProvider$''" ps] seek_None_rest [of "''$DefaultProvider$''" ps1]
      seek_None_rest [of "''$InterOpProvider$''" ps2] c d i by simp_all
  with a show ?thesis
    using c d i q
    by (cases c; cases d; cases i; cases q; cases ex2) (auto simp: pointers_def specials_def note_special_def seek_snoc)
qed

section \<open>The text of a register\<close>

text \<open>The statements of a section, what each sets, and how it is written.\<close>

datatype statement = Provider string | Location string | Parameters string | User string | Group string | Unload_never
  | Types "string list" | Namespaces "string list"

fun words_text :: "string list \<Rightarrow> string" where
  "words_text [] = []"
| "words_text [w] = w"
| "words_text (w # ws) = w @ CHR '' '' # words_text ws"

fun setting :: "statement \<Rightarrow> string \<times> string" where
  "setting (Provider v) = (''provider'', v)"
| "setting (Location v) = (''location'', v)"
| "setting (Parameters v) = (''parameters'', v)"
| "setting (User v) = (''user'', v)"
| "setting (Group v) = (''group'', v)"
| "setting Unload_never = (''unload'', ''never'')"
| "setting (Types vs) = (''type'', words_text vs)"
| "setting (Namespaces vs) = (''namespace'', words_text vs)"

fun apply_statement :: "(string \<Rightarrow> int option) \<Rightarrow> statement \<Rightarrow> provider_info \<Rightarrow> provider_info" where
  "apply_statement g (Provider v) info = info\<lparr>pi_providerName := Some v\<rparr>"
| "apply_statement g (Location v) info = info\<lparr>pi_location := Some v\<rparr>"
| "apply_statement g (Parameters v) info = info\<lparr>pi_parms := Some v\<rparr>"
| "apply_statement g (User v) info = info\<lparr>pi_user := Some v, pi_uid := the (g v)\<rparr>"
| "apply_statement g (Group v) info = info\<lparr>pi_group := Some v\<rparr>"
| "apply_statement g Unload_never info = info\<lparr>pi_unload := - 1\<rparr>"
| "apply_statement g (Types vs) info = info\<lparr>pi_type := fold (\<lambda>v w. w OR the (type_bit v)) vs 0\<rparr>"
| "apply_statement g (Namespaces vs) info = info\<lparr>pi_ns := Some vs\<rparr>"

definition word_ok :: "string \<Rightarrow> bool" where
  "word_ok w \<longleftrightarrow> w \<noteq> [] \<and> \<not> blank (hd w) \<and> (\<forall>c \<in> set w. c \<notin> {CHR '' '', tab, newline, CHR 0x00})"

fun statement_ok :: "(string \<Rightarrow> int option) \<Rightarrow> statement \<Rightarrow> bool" where
  "statement_ok g (Provider v) \<longleftrightarrow> word_ok v \<and> length v \<le> 1000"
| "statement_ok g (Location v) \<longleftrightarrow> word_ok v \<and> length v \<le> 1000"
| "statement_ok g (Parameters v) \<longleftrightarrow> v \<noteq> [] \<and> \<not> blank (hd v) \<and> \<not> blank (last v) \<and> (\<forall>c \<in> set v. c \<notin> {newline, CHR 0x00}) \<and> length v \<le> 1000"
| "statement_ok g (User v) \<longleftrightarrow> word_ok v \<and> length v \<le> 1000 \<and> g v \<noteq> None"
| "statement_ok g (Group v) \<longleftrightarrow> word_ok v \<and> length v \<le> 1000"
| "statement_ok g Unload_never \<longleftrightarrow> True"
| "statement_ok g (Types vs) \<longleftrightarrow> vs \<noteq> [] \<and> length (words_text vs) \<le> 1000 \<and> (\<forall>v \<in> set vs. type_bit v \<noteq> None)"
| "statement_ok g (Namespaces vs) \<longleftrightarrow> vs \<noteq> [] \<and> length (words_text vs) \<le> 1000 \<and> (\<forall>v \<in> set vs. word_ok v)"

lemma type_word: "type_bit v \<noteq> None \<Longrightarrow> word_ok v"
  by (auto simp: type_bit_def word_ok_def blank_def tab_def newline_def split: if_splits)

lemma words_text_ok:
  assumes "vs \<noteq> []" "\<forall>v \<in> set vs. word_ok v"
  shows "words_text vs \<noteq> []" "\<not> blank (hd (words_text vs))" "\<forall>c \<in> set (words_text vs). c \<notin> {newline, CHR 0x00}"
proof -
  show "words_text vs \<noteq> []" using assms by (cases vs rule: words_text.cases) (simp_all add: word_ok_def)
  show "\<not> blank (hd (words_text vs))" using assms by (cases vs rule: words_text.cases) (simp_all add: word_ok_def)
  show "\<forall>c \<in> set (words_text vs). c \<notin> {newline, CHR 0x00}" using assms
  proof (induction vs rule: words_text.induct)
    case (3 w v vs)
    then have "\<forall>c \<in> set (words_text (v # vs)). c \<notin> {newline, CHR 0x00}" "word_ok w" by simp_all
    then show ?case unfolding word_ok_def words_text.simps by (simp add: newline_def ball_Un)
  qed (simp_all add: word_ok_def)
qed

lemma setting_ok_statement: "statement_ok g st \<Longrightarrow> setting_ok (setting st)"
proof (cases st)
  case (Types vs)
  assume "statement_ok g st"
  then show ?thesis using words_text_ok [of vs] type_word Types
    by (auto simp: setting_ok_def blank_def newline_def tab_def)
next
  case (Namespaces vs)
  assume "statement_ok g st"
  then show ?thesis using words_text_ok [of vs] Namespaces by (auto simp: setting_ok_def blank_def newline_def tab_def)
qed (auto simp: setting_ok_def word_ok_def blank_def newline_def tab_def)

lemma word_span:
  assumes "word_ok w" "c \<in> {CHR '' '', tab, newline}"
  shows "cntlSkipws (w @ c # r) = w @ c # r" "strpbrk (w @ c # r) [CHR '' '', tab, newline] = (w, c # r)"
proof -
  show "cntlSkipws (w @ c # r) = w @ c # r"
    unfolding cntlSkipws_def using assms(1) by (intro dropWhile_hd) (auto simp: word_ok_def)
  show "strpbrk (w @ c # r) [CHR '' '', tab, newline] = (w, c # r)"
    using span_append [of w "\<lambda>c. c \<notin> set [CHR '' '', tab, newline]" c r] assms by (auto simp: strpbrk_def word_ok_def)
qed

lemma get_word:
  assumes "word_ok w"
  shows "cntlGetVal (rv\<lparr>cv_val := Some (w @ CHR '' '' # r)\<rparr>) = (rv\<lparr>cv_val := Some r\<rparr>, Some w)"
    "cntlGetVal (rv\<lparr>cv_val := Some (w @ newline # r)\<rparr>) = (rv\<lparr>cv_val := None\<rparr>, Some w)"
  using word_span [OF assms, of "CHR '' ''" r] word_span [OF assms, of newline r]
  by (simp_all add: cntlGetVal_def newline_def)

lemma get_vals_words:
  "vs \<noteq> [] \<Longrightarrow> \<forall>v \<in> set vs. word_ok v \<Longrightarrow> get_vals (rv\<lparr>cv_val := Some (words_text vs @ [newline])\<rparr>) = vs"
proof (induction vs rule: words_text.induct)
  case (2 w)
  have "get_vals (rv\<lparr>cv_val := None\<rparr>) = []" by (subst get_vals.simps) (simp add: cntlGetVal_def)
  then show ?case using 2 get_word(2) [of w "[]" rv] by (subst get_vals.simps) simp
next
  case (3 w v vs)
  then have "get_vals (rv\<lparr>cv_val := Some (words_text (v # vs) @ [newline])\<rparr>) = v # vs" by simp
  then show ?case using 3 get_word(1) [of w "words_text (v # vs) @ [newline]" rv] by (subst get_vals.simps) simp
qed simp

lemma add_types_fold: "\<forall>v \<in> set vs. type_bit v \<noteq> None \<Longrightarrow> add_types vs w err = (fold (\<lambda>v w. w OR the (type_bit v)) vs w, err)"
  by (induction vs w err rule: add_types.induct) auto

lemma trim_parms_line: "v \<noteq> [] \<Longrightarrow> \<not> blank (last v) \<Longrightarrow> trim_parms (v @ [newline]) = v"
proof -
  assume v: "v \<noteq> []" "\<not> blank (last v)"
  have n: "blank newline" by (simp add: blank_def newline_def)
  show ?thesis
  proof (cases v)
    case (Cons a r)
    show ?thesis
    proof (cases r rule: rev_cases)
      case Nil
      then show ?thesis using Cons n by (simp add: trim_parms_def)
    next
      case (snoc s b)
      then show ?thesis using Cons n v by (simp add: trim_parms_def)
    qed
  qed (use v in simp)
qed

lemma set_field_statement:
  assumes ok: "statement_ok g st"
  shows "set_field g (fst (setting st)) (rv\<lparr>cv_val := Some (snd (setting st) @ [newline])\<rparr>) info = Some (apply_statement g st info, False)"
proof -
  have one: "snd (cntlGetVal (rv\<lparr>cv_val := Some (v @ [newline])\<rparr>)) = Some v" if "word_ok v" for v
    using get_word(2) [OF that, of "[]" rv] by simp
  have vals: "get_vals (rv\<lparr>cv_val := Some (words_text vs @ [newline])\<rparr>) = vs" if "vs \<noteq> []" "\<forall>v \<in> set vs. word_ok v" for vs
    using get_vals_words [OF that] .
  show ?thesis
  proof (cases st)
    case (Parameters v)
    with ok have v: "v \<noteq> []" "\<not> blank (hd v)" "\<not> blank (last v)" by simp_all
    have "snd (cntlGetStr (rv\<lparr>cv_val := Some (v @ [newline])\<rparr>)) = Some (v @ [newline])"
      using dropWhile_hd [of v "\<lambda>c. blank c \<and> c \<noteq> newline" "[newline]"] v by (simp add: cntlGetStr_def cntlSkipws_def)
    then show ?thesis using Parameters trim_parms_line [OF v(1,3)] by (simp add: set_field_def)
  next
    case Unload_never
    then show ?thesis using vals [of "[''never'']"] by (simp add: set_field_def word_ok_def blank_def tab_def newline_def)
  next
    case (Types vs)
    with ok have "\<forall>v \<in> set vs. type_bit v \<noteq> None" "vs \<noteq> []" by simp_all
    then show ?thesis using vals [of vs] type_word Types add_types_fold [of vs 0 False] by (simp add: set_field_def)
  next
    case (Namespaces vs)
    then show ?thesis using vals [of vs] ok by (simp add: set_field_def)
  qed (use ok one in \<open>auto simp: set_field_def\<close>)
qed

lemma read_line_statement:
  assumes ok: "statement_ok g st" and rd: "rd_info rd = Some info" "\<not> rd_err rd"
  shows "\<exists>rv. read_line ex2 u g (setting_line (setting st)) rd = Some (rd\<lparr>rd_info := Some (apply_statement g st info), rd_rv := rv\<rparr>)"
proof -
  obtain i v where iv: "setting st = (i, v)" by (meson surj_pair)
  let ?rv = "(rd_rv rd)\<lparr>cv_type := 2, cv_id := Some i, cv_val := Some (v @ [newline])\<rparr>"
  have p: "cntlParseStmt (setting_line (i, v)) (rd_rv rd) = Some ?rv"
    using parse_setting [of i v "rd_rv rd"] setting_ok_statement [OF ok] iv by simp
  have i: "i \<in> {''provider'', ''location'', ''parameters'', ''user'', ''group'', ''unload'', ''type'', ''namespace''}"
    using iv by (cases st) auto
  have "set_field g i ?rv info = Some (apply_statement g st info, False)"
    using set_field_statement [OF ok, of ?rv info] iv by simp
  then have "set_statement g ?rv (rd\<lparr>rd_rv := ?rv\<rparr>) = Some (rd\<lparr>rd_rv := ?rv, rd_info := Some (apply_statement g st info), rd_err := False\<rparr>)"
    unfolding set_statement_def using i rd by simp
  then have "read_line ex2 u g (setting_line (setting st)) rd = Some (rd\<lparr>rd_rv := ?rv, rd_info := Some (apply_statement g st info), rd_err := False\<rparr>)"
    unfolding read_line_def iv p by simp
  moreover have "rd\<lparr>rd_rv := ?rv, rd_info := Some (apply_statement g st info), rd_err := False\<rparr>
    = rd\<lparr>rd_info := Some (apply_statement g st info), rd_rv := ?rv\<rparr>" using rd(2) by (cases rd) simp
  ultimately show ?thesis by (intro exI [of _ ?rv]) simp
qed

lemma read_lines_statements:
  assumes "\<forall>st \<in> set sts. statement_ok g st" "rd_info rd = Some info" "\<not> rd_err rd"
  shows "\<exists>rv. read_lines ex2 u g (concat (map (\<lambda>st. setting_line (setting st)) sts) @ rest) rd =
    read_lines ex2 u g rest (rd\<lparr>rd_info := Some (fold (apply_statement g) sts info), rd_rv := rv\<rparr>)"
  using assms
proof (induction sts arbitrary: rd info)
  case Nil
  then have "rd\<lparr>rd_info := Some info, rd_rv := rd_rv rd\<rparr> = rd" by (cases rd) simp
  then show ?case by (metis concat.simps(1) append_Nil fold_simps(1) list.simps(8))
next
  case (Cons st sts)
  let ?r = "concat (map (\<lambda>st. setting_line (setting st)) sts) @ rest"
  obtain i v where iv: "setting st = (i, v)" by (meson surj_pair)
  have st: "statement_ok g st" using Cons.prems(1) by simp
  then have ok: "setting_ok (i, v)" using setting_ok_statement [of g st] iv by simp
  obtain rv where rv: "read_line ex2 u g (setting_line (setting st)) rd = Some (rd\<lparr>rd_info := Some (apply_statement g st info), rd_rv := rv\<rparr>)"
    using read_line_statement [OF st Cons.prems(2,3)] by blast
  let ?rd = "rd\<lparr>rd_info := Some (apply_statement g st info), rd_rv := rv\<rparr>"
  have "read_lines ex2 u g (setting_line (setting st) @ ?r) rd = read_lines ex2 u g ?r ?rd"
    using fgets_setting [OF ok] rv Cons.prems(3) iv by (subst read_lines.simps) simp
  moreover obtain rv' where "read_lines ex2 u g ?r ?rd = read_lines ex2 u g rest
      (?rd\<lparr>rd_info := Some (fold (apply_statement g) sts (apply_statement g st info)), rd_rv := rv'\<rparr>)"
    using Cons.IH [of ?rd "apply_statement g st info"] Cons.prems by auto
  ultimately show ?case by (intro exI [of _ rv']) simp
qed

text \<open>A section: the name of the class and its statements.\<close>

definition header_line :: "string \<Rightarrow> string" where
  "header_line cn = CHR ''['' # cn @ [CHR '']'', newline]"

definition header_ok :: "string \<Rightarrow> bool" where
  "header_ok cn \<longleftrightarrow> (\<forall>c \<in> set cn. c \<notin> {CHR '']'', CHR '' '', tab, newline, CHR 0x00}) \<and> length cn \<le> 1000"

definition section_text :: "string \<times> statement list \<Rightarrow> string" where
  "section_text s = header_line (fst s) @ concat (map (\<lambda>st. setting_line (setting st)) (snd s))"

definition section_ok :: "(string \<Rightarrow> int option) \<Rightarrow> string \<times> statement list \<Rightarrow> bool" where
  "section_ok g s \<longleftrightarrow> header_ok (fst s) \<and> (\<forall>st \<in> set (snd s). statement_ok g st) \<and>
     (\<exists>v. Provider v \<in> set (snd s)) \<and> (\<exists>vs. Namespaces vs \<in> set (snd s))"

definition section_info :: "prov_user \<Rightarrow> (string \<Rightarrow> int option) \<Rightarrow> nat \<Rightarrow> string \<times> statement list \<Rightarrow> provider_info" where
  "section_info u g n s = fold (apply_statement g) (snd s) (the (new_info u n (fst s)))"

fun section_infos :: "prov_user \<Rightarrow> (string \<Rightarrow> int option) \<Rightarrow> nat \<Rightarrow> (string \<times> statement list) list \<Rightarrow> provider_info list" where
  "section_infos u g n [] = []"
| "section_infos u g n (s # ss) = section_info u g (n + 1) s # section_infos u g (n + 1) ss"

lemma apply_statement_sel [simp]:
  "pi_className (apply_statement g st info) = pi_className info" "pi_id (apply_statement g st info) = pi_id info"
  by (cases st; simp)+

lemma fold_apply_sel [simp]:
  "pi_className (fold (apply_statement g) sts info) = pi_className info" "pi_id (fold (apply_statement g) sts info) = pi_id info"
  by (induction sts arbitrary: info) simp_all

lemma fold_apply_kept:
  assumes ok: "\<forall>st \<in> set sts. statement_ok g st"
  shows "pi_providerName info \<noteq> None \<or> (\<exists>v. Provider v \<in> set sts) \<Longrightarrow> pi_providerName (fold (apply_statement g) sts info) \<noteq> None"
    "(\<exists>n ns. pi_ns info = Some (n # ns)) \<or> (\<exists>vs. Namespaces vs \<in> set sts) \<Longrightarrow> \<exists>n ns. pi_ns (fold (apply_statement g) sts info) = Some (n # ns)"
  using ok
proof (induction sts arbitrary: info)
  case (Cons st sts)
  {
    case 1
    then show ?case using Cons.IH(1) [of "apply_statement g st info"] by (cases st) auto
  next
    case 2
    then show ?case using Cons.IH(2) [of "apply_statement g st info"] by (cases st) (auto simp: neq_Nil_conv)
  }
qed simp_all

lemma section_info_complete: "section_ok g s \<Longrightarrow> complete (section_info u g n s)"
  using fold_apply_kept [of "snd s" g "the (new_info u n (fst s))"] by (auto simp: section_ok_def complete_def section_info_def)

lemma section_infos_complete: "\<forall>s \<in> set ss. section_ok g s \<Longrightarrow> p \<in> set (section_infos u g n ss) \<Longrightarrow> complete p"
  by (induction ss arbitrary: n) (auto simp: section_info_complete)

lemma parse_header:
  assumes "header_ok cn"
  shows "cntlParseStmt (header_line cn) rv = Some (rv\<lparr>cv_type := 1, cv_id := Some cn\<rparr>)"
proof -
  have "cntlSkipws (header_line cn) = header_line cn" by (simp add: header_line_def cntlSkipws_def blank_def)
  moreover have "strpbrk (cn @ [CHR '']'', newline]) [CHR '']'', CHR '' '', tab, newline] = (cn, [CHR '']'', newline])"
    using span_append [of cn "\<lambda>c. c \<notin> set [CHR '']'', CHR '' '', tab, newline]" "CHR '']''" "[newline]"] assms
    by (simp add: strpbrk_def header_ok_def)
  ultimately show ?thesis by (simp add: cntlParseStmt_def header_line_def Let_def newline_def)
qed

lemma fgets_header:
  assumes "header_ok cn"
  shows "fgets 1024 (header_line cn @ rest) = Some (header_line cn, rest)" "c_string (header_line cn) = header_line cn"
proof -
  have c: "\<forall>c \<in> set cn. c \<noteq> newline \<and> c \<noteq> CHR 0x00" and l: "length cn \<le> 1000" using assms by (auto simp: header_ok_def)
  have "takeWhile (\<lambda>c. c \<noteq> newline) ((CHR ''['' # cn @ [CHR '']'']) @ newline # rest) = CHR ''['' # cn @ [CHR '']'']"
    using c by (intro span_append [THEN conjunct1]) (auto simp: newline_def)
  then have "length (takeWhile (\<lambda>c. c \<noteq> newline) (header_line cn @ rest)) = length cn + 2" by (simp add: header_line_def)
  with l have "min 1023 (length (takeWhile (\<lambda>c. c \<noteq> newline) (header_line cn @ rest)) + 1) = length (header_line cn)"
    by (simp add: header_line_def)
  then show "fgets 1024 (header_line cn @ rest) = Some (header_line cn, rest)"
    by (simp add: fgets_def Let_def header_line_def)
  show "c_string (header_line cn) = header_line cn"
    unfolding c_string_def takeWhile_eq_all_conv using c by (auto simp: header_line_def newline_def)
qed

section \<open>Reading a register\<close>

text \<open>The state of the reading inside the section of \<open>p\<close>, behind the sections of \<open>ps\<close>.\<close>

definition reading_at :: "bool \<Rightarrow> provider_info list \<Rightarrow> provider_info \<Rightarrow> reading \<Rightarrow> bool" where
  "reading_at ex2 ps p rd \<longleftrightarrow>
     rd_info rd = Some p \<and> \<not> rd_err rd \<and> prov_rep (rd_base rd) (registered ps) \<and> pointers rd = specials ex2 ps \<and>
     complete p \<and> (\<forall>q \<in> set ps. complete q) \<and> consistent ps"

lemma note_special_sel [simp]:
  "rd_info (note_special ex2 p rd) = rd_info rd" "rd_id (note_special ex2 p rd) = rd_id rd" "rd_rv (note_special ex2 p rd) = rd_rv rd"
  "rd_base (note_special ex2 p rd) = rd_base rd" "rd_err (note_special ex2 p rd) = rd_err rd"
  by (simp_all add: note_special_def)

lemma pointers_cong [simp]:
  "pointers (rd\<lparr>rd_base := b\<rparr>) = pointers rd" "pointers (rd\<lparr>rd_err := e\<rparr>) = pointers rd"
  "pointers (rd\<lparr>rd_info := i\<rparr>) = pointers rd" "pointers (rd\<lparr>rd_id := n\<rparr>) = pointers rd" "pointers (rd\<lparr>rd_rv := v\<rparr>) = pointers rd"
  by (simp_all add: pointers_def)

lemma add_provider_registered:
  assumes at: "reading_at ex2 ps p rd"
  shows "\<exists>pr. addProviderToHT p (rd_base rd) = Some (pr, \<not> consistent (ps @ [p])) \<and>
    (consistent (ps @ [p]) \<longrightarrow> prov_rep pr (registered (ps @ [p])))"
proof -
  have "added p (registered ps) = Some (if consistent (ps @ [p]) then registered (ps @ [p]) else registered ps, \<not> consistent (ps @ [p]))"
    using at by (intro added_registered) (auto simp: reading_at_def)
  moreover have "rel_option (\<lambda>(pr', err) (M', err'). prov_rep pr' M' \<and> err = err') (addProviderToHT p (rd_base rd)) (added p (registered ps))"
    using at by (intro addProviderToHT_rep) (simp add: reading_at_def)
  ultimately show ?thesis by (auto simp: option_rel_Some2)
qed

lemma end_section_at:
  assumes at: "reading_at ex2 ps p rd"
  shows "\<exists>rd'. end_section ex2 rd = Some rd' \<and> rd_err rd' = (\<not> consistent (ps @ [p])) \<and> rd_id rd' = rd_id rd \<and> rd_info rd' = Some p \<and>
    pointers rd' = specials ex2 (ps @ [p]) \<and> (consistent (ps @ [p]) \<longrightarrow> prov_rep (rd_base rd') (registered (ps @ [p])))"
proof -
  obtain pr where pr: "addProviderToHT p (rd_base rd) = Some (pr, \<not> consistent (ps @ [p]))"
    "consistent (ps @ [p]) \<longrightarrow> prov_rep pr (registered (ps @ [p]))"
    using add_provider_registered [OF at] by blast
  have rd: "rd_info rd = Some p" "pointers rd = specials ex2 ps" using at by (simp_all add: reading_at_def)
  show ?thesis using pr rd note_special_pointers [OF rd(2), of p] by (simp add: end_section_def)
qed

lemma read_line_header:
  assumes ok: "header_ok cn"
  shows "\<exists>rv. read_line ex2 u g (header_line cn) rd = start_section ex2 u cn (rd\<lparr>rd_rv := rv\<rparr>)"
  using parse_header [OF ok, of "rd_rv rd"] by (intro exI) (simp add: read_line_def Let_def)

text \<open>One section: in the state inside the section before, or at the beginning.\<close>

lemma read_section:
  assumes u: "pu_provSFCB u \<or> pu_provuser u \<noteq> None" and ok: "section_ok g s"
    and e: "\<And>rv. \<exists>rd'. end_section ex2 (rd\<lparr>rd_rv := rv\<rparr>) = Some rd' \<and> rd_err rd' = err \<and> (err \<longrightarrow> rd_info rd' \<noteq> None) \<and> (\<not> err \<longrightarrow>
      prov_rep (rd_base rd') (registered ps) \<and> pointers rd' = specials ex2 ps \<and> rd_id rd' = n)"
    and ps: "\<not> err \<longrightarrow> (\<forall>q \<in> set ps. complete q) \<and> consistent ps"
  shows "if err then \<exists>rd'. read_lines ex2 u g (section_text s @ rest) rd = Some rd' \<and> rd_err rd'
    else \<exists>rd'. read_lines ex2 u g (section_text s @ rest) rd = read_lines ex2 u g rest rd' \<and>
      reading_at ex2 ps (section_info u g (n + 1) s) rd' \<and> rd_id rd' = n + 1"
proof -
  have ok': "header_ok (fst s)" "\<forall>st \<in> set (snd s). statement_ok g st" using ok by (simp_all add: section_ok_def)
  let ?rest = "concat (map (\<lambda>st. setting_line (setting st)) (snd s)) @ rest"
  obtain rv where rv: "read_line ex2 u g (header_line (fst s)) rd = start_section ex2 u (fst s) (rd\<lparr>rd_rv := rv\<rparr>)"
    using read_line_header [OF ok'(1)] by blast
  obtain rd1 where rd1: "end_section ex2 (rd\<lparr>rd_rv := rv\<rparr>) = Some rd1" "rd_err rd1 = err" "err \<Longrightarrow> rd_info rd1 \<noteq> None"
    "\<not> err \<Longrightarrow> prov_rep (rd_base rd1) (registered ps) \<and> pointers rd1 = specials ex2 ps \<and> rd_id rd1 = n"
    using e [of rv] by blast
  obtain p where p: "new_info u (n + 1) (fst s) = Some p" using u by (auto simp: new_info_def)
  have t: "section_text s @ rest = header_line (fst s) @ ?rest" by (simp add: section_text_def)
  show ?thesis
  proof (cases err)
    case True
    then have "read_lines ex2 u g (section_text s @ rest) rd = Some rd1"
      unfolding t using fgets_header [OF ok'(1)] rv rd1 by (subst read_lines.simps) (simp add: start_section_def)
    then show ?thesis using True rd1(2) by simp
  next
    case False
    let ?rd = "rd1\<lparr>rd_info := Some p, rd_id := n + 1\<rparr>"
    have "read_lines ex2 u g (section_text s @ rest) rd = read_lines ex2 u g ?rest ?rd"
      unfolding t using fgets_header [OF ok'(1)] rv rd1 False p
      by (subst read_lines.simps) (simp add: start_section_def)
    moreover obtain rv' where "read_lines ex2 u g ?rest ?rd = read_lines ex2 u g rest (?rd\<lparr>rd_info := Some (section_info u g (n + 1) s), rd_rv := rv'\<rparr>)"
      using read_lines_statements [OF ok'(2), of ?rd p ex2 u rest] rd1 False p by (auto simp: section_info_def)
    moreover have "reading_at ex2 ps (section_info u g (n + 1) s) (?rd\<lparr>rd_info := Some (section_info u g (n + 1) s), rd_rv := rv'\<rparr>)"
      using rd1 False ps section_info_complete [OF ok] by (simp add: reading_at_def)
    moreover have "rd_id (?rd\<lparr>rd_info := Some (section_info u g (n + 1) s), rd_rv := rv'\<rparr>) = n + 1" by simp
    ultimately show ?thesis unfolding if_not_P [OF False] by metis
  qed
qed

definition read_result :: "bool \<Rightarrow> provider_info list \<Rightarrow> reading \<Rightarrow> bool" where
  "read_result ex2 ps rd \<longleftrightarrow>
     (if consistent ps then \<not> rd_err rd \<and> prov_rep (rd_base rd) (registered ps) \<and> pointers rd = specials ex2 (butlast ps) else rd_err rd)"

lemma add_last_at:
  assumes at: "reading_at ex2 ps p rd"
  shows "\<exists>rd'. add_last rd = Some rd' \<and> read_result ex2 (ps @ [p]) rd'"
proof -
  obtain pr where pr: "addProviderToHT p (rd_base rd) = Some (pr, \<not> consistent (ps @ [p]))"
    "consistent (ps @ [p]) \<longrightarrow> prov_rep pr (registered (ps @ [p]))"
    using add_provider_registered [OF at] by blast
  then show ?thesis using at by (simp add: reading_at_def read_result_def add_last_def)
qed

lemma add_last_err: "rd_err rd \<Longrightarrow> add_last rd = Some rd"
  by (simp add: add_last_def split: option.split)

lemma reading_at_rv: "reading_at ex2 ps p (rd\<lparr>rd_rv := rv\<rparr>) = reading_at ex2 ps p rd"
  by (simp add: reading_at_def)

lemma read_sections:
  assumes u: "pu_provSFCB u \<or> pu_provuser u \<noteq> None" and ok: "\<forall>s \<in> set ss. section_ok g s"
    and at: "reading_at ex2 ps p rd"
  shows "\<exists>rd'. Option.bind (read_lines ex2 u g (concat (map section_text ss)) rd) add_last = Some rd' \<and>
    read_result ex2 (ps @ p # section_infos u g (rd_id rd) ss) rd'"
  using ok at
proof (induction ss arbitrary: ps p rd)
  case Nil
  have "read_lines ex2 u g [] rd = Some rd" by (subst read_lines.simps) (simp add: fgets_def)
  then show ?case using add_last_at [OF Nil.prems(2)] by simp
next
  case (Cons s ss)
  let ?c = "consistent (ps @ [p])" and ?rest = "concat (map section_text ss)" and ?q = "section_info u g (rd_id rd + 1) s"
  have "\<exists>rd'. end_section ex2 (rd\<lparr>rd_rv := rv\<rparr>) = Some rd' \<and> rd_err rd' = (\<not> ?c) \<and> (\<not> ?c \<longrightarrow> rd_info rd' \<noteq> None) \<and> (\<not> \<not> ?c \<longrightarrow>
      prov_rep (rd_base rd') (registered (ps @ [p])) \<and> pointers rd' = specials ex2 (ps @ [p]) \<and> rd_id rd' = rd_id rd)" for rv
    using end_section_at [of ex2 ps p "rd\<lparr>rd_rv := rv\<rparr>"] Cons.prems(2) unfolding reading_at_rv by auto
  moreover have "\<forall>q \<in> set (ps @ [p]). complete q" using Cons.prems(2) by (simp add: reading_at_def)
  ultimately have r: "if \<not> ?c then \<exists>rd'. read_lines ex2 u g (section_text s @ ?rest) rd = Some rd' \<and> rd_err rd'
    else \<exists>rd'. read_lines ex2 u g (section_text s @ ?rest) rd = read_lines ex2 u g ?rest rd' \<and>
      reading_at ex2 (ps @ [p]) ?q rd' \<and> rd_id rd' = rd_id rd + 1"
    using Cons.prems(1) by (intro read_section [OF u]) auto
  show ?case
  proof (cases ?c)
    case False
    then have "\<not> consistent (ps @ p # section_infos u g (rd_id rd) (s # ss))"
      using consistent_prefix [of "ps @ [p]" "section_infos u g (rd_id rd) (s # ss)"] by auto
    moreover obtain rd' where "read_lines ex2 u g (section_text s @ ?rest) rd = Some rd'" "rd_err rd'" using r False by auto
    ultimately show ?thesis by (simp add: add_last_err read_result_def)
  next
    case True
    then obtain rd' where rd': "read_lines ex2 u g (section_text s @ ?rest) rd = read_lines ex2 u g ?rest rd'"
      "reading_at ex2 (ps @ [p]) ?q rd'" "rd_id rd' = rd_id rd + 1" using r by auto
    then show ?thesis using Cons.IH [OF _ rd'(2)] Cons.prems(1) by simp
  qed
qed

lemma read_register_sections:
  assumes u: "pu_provSFCB u \<or> pu_provuser u \<noteq> None" and ok: "\<forall>s \<in> set ss. section_ok g s"
  shows "\<exists>rd. read_register ex2 u g (concat (map section_text ss)) False = Some rd \<and> read_result ex2 (section_infos u g 0 ss) rd"
proof (cases ss)
  case Nil
  have "read_lines ex2 u g [] (start_reading False) = Some (start_reading False)" by (subst read_lines.simps) (simp add: fgets_def)
  then show ?thesis using Nil new_register_rep
    by (simp add: read_register_def add_last_def start_reading_def read_result_def consistent_def of_class_def registered_def [abs_def]
        pointers_def specials_def)
next
  case (Cons s ss')
  let ?rest = "concat (map section_text ss')"
  have "\<exists>rd'. end_section ex2 ((start_reading False)\<lparr>rd_rv := rv\<rparr>) = Some rd' \<and> rd_err rd' = False \<and> (False \<longrightarrow> rd_info rd' \<noteq> None) \<and> (\<not> False \<longrightarrow>
      prov_rep (rd_base rd') (registered []) \<and> pointers rd' = specials ex2 [] \<and> rd_id rd' = 0)" for rv
    using new_register_rep
    by (simp add: end_section_def start_reading_def pointers_def specials_def registered_def [abs_def] of_class_def)
  then have "if False then \<exists>rd'. read_lines ex2 u g (section_text s @ ?rest) (start_reading False) = Some rd' \<and> rd_err rd'
    else \<exists>rd'. read_lines ex2 u g (section_text s @ ?rest) (start_reading False) = read_lines ex2 u g ?rest rd' \<and>
      reading_at ex2 [] (section_info u g (0 + 1) s) rd' \<and> rd_id rd' = 0 + 1"
    using ok Cons by (intro read_section [OF u]) (auto simp: consistent_def of_class_def)
  then obtain rd' where "read_lines ex2 u g (section_text s @ ?rest) (start_reading False) = read_lines ex2 u g ?rest rd'"
    "reading_at ex2 [] (section_info u g 1 s) rd'" "rd_id rd' = 1" by auto
  then show ?thesis using read_sections [OF u, of ss' g ex2 "[]" "section_info u g 1 s" rd'] ok Cons
    by (simp add: read_register_def)
qed

section \<open>The special providers of any file\<close>

definition special_inv :: "bool \<Rightarrow> reading \<Rightarrow> bool" where
  "special_inv ex2 rd \<longleftrightarrow>
     (case rd_info rd of None \<Rightarrow> rd_id rd = 0 | Some p \<Rightarrow> 0 < rd_id rd \<and> pi_id p = rd_id rd) \<and>
     (\<exists>ps. pointers rd = specials ex2 ps \<and> sorted_wrt (<) (map pi_id ps) \<and> (\<forall>p \<in> set ps. 0 < pi_id p \<and> pi_id p \<le> rd_id rd) \<and>
        (\<not> rd_err rd \<longrightarrow> (\<forall>p \<in> set ps. pi_id p < rd_id rd)))"

lemma special_invI:
  assumes "case rd_info rd of None \<Rightarrow> rd_id rd = 0 | Some p \<Rightarrow> 0 < rd_id rd \<and> pi_id p = rd_id rd"
    "pointers rd = specials ex2 ps" "sorted_wrt (<) (map pi_id ps)" "\<forall>p \<in> set ps. 0 < pi_id p \<and> pi_id p \<le> rd_id rd"
    "\<not> rd_err rd \<longrightarrow> (\<forall>p \<in> set ps. pi_id p < rd_id rd)"
  shows "special_inv ex2 rd"
  using assms unfolding special_inv_def by blast

lemma set_field_id: "set_field g nm rv info = Some (info', err) \<Longrightarrow> pi_id info' = pi_id info"
  by (auto simp: set_field_def Let_def split: if_splits option.splits prod.splits)

lemma special_inv_statement:
  assumes i: "special_inv ex2 rd" and e: "\<not> rd_err rd" and r: "set_statement g rv (rd\<lparr>rd_rv := rv\<rparr>) = Some rd'"
  shows "special_inv ex2 rd'"
proof -
  obtain ps where ps: "pointers rd = specials ex2 ps" "sorted_wrt (<) (map pi_id ps)" "\<forall>p \<in> set ps. 0 < pi_id p \<and> pi_id p \<le> rd_id rd"
    "\<forall>p \<in> set ps. pi_id p < rd_id rd" using i e unfolding special_inv_def by blast
  have n: "case rd_info rd of None \<Rightarrow> rd_id rd = 0 | Some p \<Rightarrow> 0 < rd_id rd \<and> pi_id p = rd_id rd" using i by (simp add: special_inv_def)
  from r consider "rd' = rd\<lparr>rd_rv := rv, rd_err := True\<rparr>"
    | nm info info' err where "rd_info rd = Some info" "set_field g nm rv info = Some (info', err)" "rd' = rd\<lparr>rd_rv := rv, rd_info := Some info', rd_err := rd_err rd \<or> err\<rparr>"
    unfolding set_statement_def by (auto split: option.splits if_splits)
  then show ?thesis
  proof cases
    case 1
    then show ?thesis using ps n by (intro special_invI [of _ _ ps]) (simp_all cong: option.case_cong)
  next
    case 2
    then show ?thesis using ps n set_field_id [OF 2(2)] by (intro special_invI [of _ _ ps]) simp_all
  qed
qed

lemma special_inv_end:
  assumes i: "special_inv ex2 rd" and e: "\<not> rd_err rd" and r: "end_section ex2 rd = Some rd'"
  obtains ps where "pointers rd' = specials ex2 ps" "sorted_wrt (<) (map pi_id ps)" "\<forall>p \<in> set ps. 0 < pi_id p \<and> pi_id p \<le> rd_id rd'"
    "rd_id rd' = rd_id rd" "rd_info rd' = rd_info rd" "rd_info rd = None \<longrightarrow> rd' = rd"
proof -
  obtain ps where ps: "pointers rd = specials ex2 ps" "sorted_wrt (<) (map pi_id ps)" "\<forall>p \<in> set ps. 0 < pi_id p \<and> pi_id p \<le> rd_id rd"
    "\<forall>p \<in> set ps. pi_id p < rd_id rd" using i e unfolding special_inv_def by blast
  show thesis
  proof (cases "rd_info rd")
    case None
    then show thesis using that [of ps] r ps by (simp add: end_section_def)
  next
    case (Some p)
    then have p: "0 < rd_id rd" "pi_id p = rd_id rd" using i by (simp_all add: special_inv_def)
    have rd': "\<exists>pr err. rd' = (note_special ex2 p rd)\<lparr>rd_base := pr, rd_err := err\<rparr>"
      using r Some by (auto simp: end_section_def split: option.splits)
    have "sorted_wrt (<) (map pi_id (ps @ [p]))" using ps p by (simp add: sorted_wrt_append)
    then show thesis using that [of "ps @ [p]"] note_special_pointers [OF ps(1), of p] rd' ps p Some by auto
  qed
qed

lemma special_inv_start:
  assumes i: "special_inv ex2 rd" and e: "\<not> rd_err rd" and r: "start_section ex2 u cn rd = Some rd'"
  shows "special_inv ex2 rd'"
proof -
  have n: "case rd_info rd of None \<Rightarrow> rd_id rd = 0 | Some p \<Rightarrow> 0 < rd_id rd \<and> pi_id p = rd_id rd" using i by (simp add: special_inv_def)
  obtain rd1 where rd1: "end_section ex2 rd = Some rd1" using r by (auto simp: start_section_def split: option.splits)
  obtain ps where ps: "pointers rd1 = specials ex2 ps" "sorted_wrt (<) (map pi_id ps)" "\<forall>p \<in> set ps. 0 < pi_id p \<and> pi_id p \<le> rd_id rd1"
    "rd_id rd1 = rd_id rd" "rd_info rd1 = rd_info rd" "rd_info rd = None \<longrightarrow> rd1 = rd"
    by (rule special_inv_end [OF i e rd1]) (rule that, assumption+)
  show ?thesis
  proof (cases "rd_err rd1")
    case True
    then have "rd_info rd1 \<noteq> None" using ps e by auto
    with True have "rd' = rd1" using r rd1 by (simp add: start_section_def)
    then show ?thesis using True ps n by (intro special_invI [of _ _ ps]) (simp_all cong: option.case_cong)
  next
    case False
    then obtain info where "new_info u (rd_id rd1 + 1) cn = Some info" "rd' = rd1\<lparr>rd_info := Some info, rd_id := rd_id rd1 + 1\<rparr>"
      using r rd1 by (auto simp: start_section_def)
    then show ?thesis using ps by (intro special_invI [of _ _ ps]) (auto simp: new_info_def split: if_splits)
  qed
qed

lemma special_inv_cong: "special_inv ex2 (rd\<lparr>rd_rv := rv\<rparr>) = special_inv ex2 rd"
  by (simp add: special_inv_def cong: option.case_cong)

lemma special_inv_err: "special_inv ex2 rd \<Longrightarrow> special_inv ex2 (rd\<lparr>rd_err := True\<rparr>)"
  by (auto simp: special_inv_def cong: option.case_cong)

lemma special_inv_line:
  assumes i: "special_inv ex2 rd" and e: "\<not> rd_err rd" and r: "read_line ex2 u g l rd = Some rd'"
  shows "special_inv ex2 rd'"
proof -
  obtain rv where rv: "cntlParseStmt l (rd_rv rd) = Some rv" using r by (auto simp: read_line_def split: option.splits)
  have i': "special_inv ex2 (rd\<lparr>rd_rv := rv\<rparr>)" "\<not> rd_err (rd\<lparr>rd_rv := rv\<rparr>)" using i e by (simp_all add: special_inv_cong)
  have r': "(if cv_type rv = 0 then Some (rd\<lparr>rd_rv := rv, rd_err := True\<rparr>)
      else if cv_type rv = 1 then Option.bind (cv_id rv) (\<lambda>cn. start_section ex2 u cn (rd\<lparr>rd_rv := rv\<rparr>))
      else if cv_type rv = 2 then set_statement g rv (rd\<lparr>rd_rv := rv\<rparr>) else Some (rd\<lparr>rd_rv := rv\<rparr>)) = Some rd'"
    using r rv by (simp add: read_line_def Let_def)
  consider "cv_type rv = 0" | "cv_type rv = 1" | "cv_type rv = 2" | "cv_type rv \<notin> {0, 1, 2}" by auto
  then show ?thesis
  proof cases
    case 1
    then show ?thesis using r' special_inv_err [OF i'(1)] by auto
  next
    case 2
    then obtain cn where "start_section ex2 u cn (rd\<lparr>rd_rv := rv\<rparr>) = Some rd'" using r' by (cases "cv_id rv") simp_all
    then show ?thesis by (rule special_inv_start [OF i'])
  next
    case 3
    then have "set_statement g rv (rd\<lparr>rd_rv := rv\<rparr>) = Some rd'" using r' by simp
    then show ?thesis by (rule special_inv_statement [OF i e])
  next
    case 4
    then show ?thesis using i'(1) r' by auto
  qed
qed

lemma special_inv_lines: "special_inv ex2 rd \<Longrightarrow> \<not> rd_err rd \<Longrightarrow> read_lines ex2 u g file' rd = Some rd' \<Longrightarrow> special_inv ex2 rd'"
proof (induction ex2 u g file' rd rule: read_lines.induct)
  case (1 ex2 u g file' rd)
  show ?case
  proof (cases "fgets 1024 file'")
    case None
    then show ?thesis using 1 by (simp add: read_lines.simps [of ex2 u g file'])
  next
    case (Some p)
    obtain l rest where p: "p = (l, rest)" by (cases p)
    then obtain rd1 where rd1: "read_line ex2 u g (c_string l) rd = Some rd1" using Some 1(4)
      by (auto simp: read_lines.simps [of ex2 u g file'] split: option.splits)
    have i: "special_inv ex2 rd1" by (rule special_inv_line [OF 1(2,3) rd1])
    show ?thesis
    proof (cases "rd_err rd1")
      case True
      then show ?thesis using i Some p rd1 1(4) by (simp add: read_lines.simps [of ex2 u g file'])
    next
      case False
      then have "read_lines ex2 u g rest rd1 = Some rd'" using Some p rd1 1(4) by (simp add: read_lines.simps [of ex2 u g file'])
      then show ?thesis using 1(1) [OF Some p [symmetric] rd1 False i False] by simp
    qed
  qed
qed

lemma seek_Some: "fst (seek nm ps) = Some i \<Longrightarrow> \<exists>as p. ps = as @ p # snd (seek nm ps) \<and> pi_id p = i \<and> pi_className p = nm"
proof -
  assume a: "fst (seek nm ps) = Some i"
  then obtain p qs where d: "dropWhile (\<lambda>p. pi_className p \<noteq> nm) ps = p # qs" "i = pi_id p" "snd (seek nm ps) = qs"
    by (cases "dropWhile (\<lambda>p. pi_className p \<noteq> nm) ps") (simp_all only: seek_def list.case fst_conv snd_conv option.distinct option.inject)
  then have "pi_className p = nm" using hd_dropWhile [of "\<lambda>p. pi_className p \<noteq> nm" ps] by simp
  moreover have "ps = takeWhile (\<lambda>p. pi_className p \<noteq> nm) ps @ p # qs" using takeWhile_dropWhile_id [of "\<lambda>p. pi_className p \<noteq> nm" ps] d(1) by simp
  ultimately show ?thesis using d by blast
qed

lemma seek_order:
  assumes s: "sorted_wrt (<) (map pi_id ps)" and i: "fst (seek nm ps) = Some i"
  shows "sorted_wrt (<) (map pi_id (snd (seek nm ps)))" "\<forall>p \<in> set (snd (seek nm ps)). p \<in> set ps \<and> i < pi_id p" "\<exists>p \<in> set ps. pi_id p = i"
proof -
  obtain as p where p: "ps = as @ p # snd (seek nm ps)" "pi_id p = i" using seek_Some [OF i] by blast
  have "sorted_wrt (<) (map pi_id (as @ p # snd (seek nm ps)))" using s p(1) by simp
  then have "sorted_wrt (<) (map pi_id (snd (seek nm ps)))" "\<forall>q \<in> set (snd (seek nm ps)). pi_id p < pi_id q"
    unfolding map_append list.map sorted_wrt_append sorted_wrt.simps by auto
  moreover have "set (snd (seek nm ps)) \<subseteq> set ps" "p \<in> set ps" using p(1) by (metis in_set_conv_decomp set_ConsD set_append subsetI Un_iff list.set_intros(2), metis in_set_conv_decomp)
  ultimately show "sorted_wrt (<) (map pi_id (snd (seek nm ps)))" "\<forall>p \<in> set (snd (seek nm ps)). p \<in> set ps \<and> i < pi_id p" "\<exists>p \<in> set ps. pi_id p = i"
    using p(2) by auto
qed

definition in_order :: "bool \<Rightarrow> nat \<Rightarrow> nat option list \<Rightarrow> bool" where
  "in_order ex2 n l \<longleftrightarrow>
     (case l of [c, d, i, q] \<Rightarrow>
        (\<forall>x. c = Some x \<longrightarrow> 0 < x \<and> x < n) \<and>
        (\<forall>y. d = Some y \<longrightarrow> (\<exists>x. c = Some x \<and> x < y) \<and> y < n) \<and>
        (\<forall>z. i = Some z \<longrightarrow> ex2 \<and> (\<exists>y. d = Some y \<and> y < z) \<and> z < n) \<and>
        (\<forall>w. q = Some w \<longrightarrow> (\<exists>z. i = Some z \<and> z < w) \<and> w < n)
      | _ \<Rightarrow> False)"

lemma specials_in_order:
  assumes s: "sorted_wrt (<) (map pi_id ps)" and n: "\<forall>p \<in> set ps. 0 < pi_id p \<and> pi_id p < n"
  shows "in_order ex2 n (specials ex2 ps)"
proof -
  obtain c ps1 where c: "seek ''$ClassProvider$'' ps = (c, ps1)" by (meson surj_pair)
  obtain d ps2 where d: "seek ''$DefaultProvider$'' ps1 = (d, ps2)" by (meson surj_pair)
  obtain i ps3 where i: "(if ex2 then seek ''$InterOpProvider$'' ps2 else (None, [])) = (i, ps3)" by (meson surj_pair)
  obtain q ps4 where q: "seek ''$QualifierProvider$'' ps3 = (q, ps4)" by (meson surj_pair)
  have L: "specials ex2 ps = [c, d, i, q]" using c d i q by (simp add: specials_def)
  have e: "c = None \<Longrightarrow> ps1 = []" "d = None \<Longrightarrow> ps2 = []" "i = None \<Longrightarrow> ps3 = []"
    using seek_None_rest [of "''$ClassProvider$''" ps] seek_None_rest [of "''$DefaultProvider$''" ps1]
      seek_None_rest [of "''$InterOpProvider$''" ps2] c d i by (auto split: if_splits)
  have c': "sorted_wrt (<) (map pi_id ps1) \<and> (\<forall>p \<in> set ps1. p \<in> set ps \<and> x < pi_id p) \<and> 0 < x \<and> x < n" if "c = Some x" for x
    using seek_order [OF s, of "''$ClassProvider$''" x] c that n by auto
  have s1: "sorted_wrt (<) (map pi_id ps1)" "\<forall>p \<in> set ps1. p \<in> set ps" using c' e(1) by (cases c; simp)+
  have d': "sorted_wrt (<) (map pi_id ps2) \<and> (\<forall>p \<in> set ps2. p \<in> set ps \<and> y < pi_id p) \<and> (\<exists>p \<in> set ps1. pi_id p = y)" if "d = Some y" for y
    using seek_order [OF s1(1), of "''$DefaultProvider$''" y] d that s1(2) by auto
  have s2: "sorted_wrt (<) (map pi_id ps2)" "\<forall>p \<in> set ps2. p \<in> set ps" using d' e(2) by (cases d; simp)+
  have i': "sorted_wrt (<) (map pi_id ps3) \<and> (\<forall>p \<in> set ps3. p \<in> set ps \<and> z < pi_id p) \<and> (\<exists>p \<in> set ps2. pi_id p = z) \<and> ex2" if "i = Some z" for z
    using seek_order [OF s2(1), of "''$InterOpProvider$''" z] i that s2(2) by (auto split: if_splits)
  have s3: "sorted_wrt (<) (map pi_id ps3)" "\<forall>p \<in> set ps3. p \<in> set ps" using i' e(3) by (cases i; simp)+
  have q': "\<exists>p \<in> set ps3. pi_id p = w" if "q = Some w" for w
    using seek_order(3) [OF s3(1), of "''$QualifierProvider$''" w] q that by auto
  have "(\<exists>x. c = Some x \<and> x < y) \<and> y < n" if "d = Some y" for y
    using d' [OF that] c' e(1) s1(2) n by (cases c) auto
  moreover have "ex2 \<and> (\<exists>y. d = Some y \<and> y < z) \<and> z < n" if "i = Some z" for z
    using i' [OF that] d' e(2) s2(2) n by (cases d) auto
  moreover have "(\<exists>z. i = Some z \<and> z < w) \<and> w < n" if "q = Some w" for w
    using q' [OF that] i' e(3) s3(2) n by (cases i) auto
  ultimately show ?thesis unfolding L in_order_def using c' by simp
qed

lemma read_register_in_order:
  assumes r: "read_register ex2 u g file' False = Some rd" and e: "\<not> rd_err rd"
  shows "in_order ex2 (rd_id rd) (pointers rd)"
proof -
  obtain rd1 where rd1: "read_lines ex2 u g file' (start_reading False) = Some rd1" "add_last rd1 = Some rd"
    using r by (auto simp: read_register_def bind_eq_Some_conv)
  have "special_inv ex2 (start_reading False)"
    by (rule special_invI [of _ _ "[]"]) (simp_all add: start_reading_def pointers_def specials_def)
  then have i: "special_inv ex2 rd1" using special_inv_lines [OF _ _ rd1(1)] by (simp add: start_reading_def)
  have same: "pointers rd = pointers rd1" "rd_id rd = rd_id rd1" "\<not> rd_err rd1"
    using rd1(2) e by (auto simp: add_last_def split: option.splits if_splits)
  then obtain ps where "pointers rd1 = specials ex2 ps" "sorted_wrt (<) (map pi_id ps)" "\<forall>p \<in> set ps. 0 < pi_id p \<and> pi_id p \<le> rd_id rd1"
    "\<forall>p \<in> set ps. pi_id p < rd_id rd1" using i unfolding special_inv_def by blast
  then show ?thesis using specials_in_order [of ps "rd_id rd1" ex2] same by simp
qed

text \<open>An unknown default user: the first line is still read, and the error stays.\<close>

lemma read_line_keeps_err:
  assumes "rd_info rd = None" "rd_err rd" "read_line ex2 u g l rd = Some rd'"
  shows "rd_err rd'"
  using assms
  by (auto simp: read_line_def start_section_def end_section_def set_statement_def Let_def bind_eq_Some_conv split: option.splits if_splits)

lemma read_register_unknown_user:
  assumes "read_register ex2 u g file' True = Some rd"
  shows "rd_err rd"
proof -
  obtain rd1 where rd1: "read_lines ex2 u g file' (start_reading True) = Some rd1" "add_last rd1 = Some rd"
    using assms by (auto simp: read_register_def bind_eq_Some_conv)
  have s: "rd_info (start_reading True) = None" "rd_err (start_reading True)" by (simp_all add: start_reading_def)
  have "rd_err rd1"
    using rd1(1) s read_line_keeps_err [OF s]
    by (subst (asm) read_lines.simps) (auto split: option.splits if_splits)
  then show ?thesis using rd1(2) add_last_err by auto
qed

lemma finish_register_Return:
  "finish_register r = Return rd \<longleftrightarrow>
     (\<exists>rd0. r = Some rd0 \<and> \<not> rd_err rd0 \<and> rd_class rd0 \<noteq> None \<and> rd = (if rd_interOp rd0 = None then rd0\<lparr>rd_interOp := Some 0\<rparr> else rd0))"
  by (auto simp: finish_register_def split: option.splits if_splits)

section \<open>Examples\<close>

definition sample_user :: prov_user where
  "sample_user = \<lparr>pu_provSFCB = True, pu_provuser = None, pu_provuid = - 1\<rparr>"

definition sample_section :: "string \<Rightarrow> string \<times> statement list" where
  "sample_section cn = (cn, [Provider ''P'', Namespaces [''a'', ''b''], Types [''instance'', ''method'']])"

lemma sample_section_ok: "header_ok cn \<Longrightarrow> section_ok g (sample_section cn)"
  by (simp add: section_ok_def sample_section_def word_ok_def blank_def tab_def newline_def type_bit_def)

definition sample_info :: "nat \<Rightarrow> string \<Rightarrow> provider_info" where
  "sample_info n cn = \<lparr>pi_className = cn, pi_type = 9, pi_providerName = Some ''P'', pi_location = None, pi_parms = None, pi_group = None,
     pi_user = None, pi_uid = - 1, pi_ns = Some [''a'', ''b''], pi_id = n, pi_pid = 0, pi_unload = 0\<rparr>"

lemma sample_section_info: "section_info sample_user g n (sample_section cn) = sample_info n cn"
  by (simp add: section_info_def sample_section_def sample_user_def new_info_def sample_info_def type_bit_def INSTANCE_PROVIDER_def
      METHOD_PROVIDER_def)

lemma sample_headers: "header_ok ''$ClassProvider$''" "header_ok ''$DefaultProvider$''" "header_ok ''Foo''"
  by (simp_all add: header_ok_def tab_def newline_def)

lemma sample_consistent: "consistent (map (\<lambda>(n, cn). sample_info n cn) ncs)"
proof -
  have t: "pi_type p = 9" if "p \<in> set (of_class (map (\<lambda>(n, cn). sample_info n cn) ncs) k)" for p k
    using that by (auto simp: of_class_def sample_info_def)
  show ?thesis unfolding consistent_def using t by (metis list.set_intros)
qed

text \<open>
  A second registration of the default provider, behind the class provider: the pointer to it is kept, and the provider itself is freed as a
  duplicate of the first. Number 3 is not in the register.
\<close>

lemma default_provider_freed:
  "\<exists>rd M. read_register True sample_user g
      (concat (map section_text (map sample_section [''$DefaultProvider$'', ''$ClassProvider$'', ''$DefaultProvider$'', ''Foo'']))) False = Some rd \<and>
    \<not> rd_err rd \<and> rd_default rd = Some 3 \<and> prov_rep (rd_base rd) M \<and> (\<forall>k ps. M k = Some ps \<longrightarrow> 3 \<notin> pi_id ` set ps)"
proof -
  let ?ss = "map sample_section [''$DefaultProvider$'', ''$ClassProvider$'', ''$DefaultProvider$'', ''Foo'']"
  let ?ps = "section_infos sample_user g 0 ?ss"
  have ps: "?ps = map (\<lambda>(n, cn). sample_info n cn) [(1, ''$DefaultProvider$''), (2, ''$ClassProvider$''), (3, ''$DefaultProvider$''), (4, ''Foo'')]"
    by (simp add: sample_section_info eval_nat_numeral)
  have "pu_provSFCB sample_user \<or> pu_provuser sample_user \<noteq> None" by (simp add: sample_user_def)
  moreover have "\<forall>s \<in> set ?ss. section_ok g s" using sample_section_ok sample_headers by simp
  ultimately obtain rd where rd: "read_register True sample_user g (concat (map section_text ?ss)) False = Some rd" "read_result True ?ps rd"
    using read_register_sections by blast
  have "consistent ?ps" unfolding ps by (rule sample_consistent)
  then have r: "\<not> rd_err rd" "prov_rep (rd_base rd) (registered ?ps)" "pointers rd = specials True (butlast ?ps)"
    using rd(2) unfolding read_result_def by presburger+
  have "rd_default rd = Some 3" using r(3) unfolding ps by (simp add: pointers_def specials_def seek_def sample_info_def)
  moreover have "\<forall>k l. registered ?ps k = Some l \<longrightarrow> 3 \<notin> pi_id ` set l"
    unfolding ps by (auto simp: registered_def of_class_def sample_info_def tolower_def split: if_splits)
  ultimately show ?thesis using rd(1) r by blast
qed

definition sample_register :: provider_base where
  "sample_register = \<lparr>pr_ht = name_put (new_name_table 61) ''Foo'' 0, pr_chains = [[sample_info 1 ''Foo'']]\<rparr>"

lemma sample_register_rep: "prov_rep sample_register [lower ''Foo'' \<mapsto> [sample_info 1 ''Foo'']]"
  using put_chain_rep [OF new_register_rep, of "[sample_info 1 ''Foo'']" "''Foo''"] by (simp add: sample_register_def)

lemma sample_entries:
  "entry (ctls sample_state) ''providerDefaultUserSFCB'' = Some (control ''providerDefaultUserSFCB'' 2 ''true'')"
  "entry (ctls sample_state) ''registrationDir'' = Some (control ''registrationDir'' 0 ''/registration'')"
  by (simp_all add: sample_state_def entry_assigned)
    (simp_all add: entry_def init_def sample_build_def options_only_def tolower_chars assigned_def)

lemma sample_newProviderRegister:
  assumes "files ''/registration/providerRegister'' = Some f" and "finish_register (read_register ex2 sample_user g f False) = Return rd"
  shows "newProviderRegister sample_build files None g ex2 sample_state = Return (sample_state, rd)"
proof -
  note find = find_control_entry [OF setupControl_ok [OF sample_setup, THEN conjunct1]]
  have ct: "ct sample_state \<noteq> None" by (simp add: sample_state_def)
  have "getControlBool sample_state ''providerDefaultUserSFCB'' = Return (0, True)"
    by (simp add: getControlBool_def find sample_entries control_def)
  moreover have "getControlChars sample_build files None sample_state ''registrationDir'' = Return (sample_state, 0, Some ''/registration'')"
    using ct by (auto simp: getControlChars_def find sample_entries control_def)
  moreover have "setupControl sample_build files None sample_state = Return (sample_state, 0)"
    using ct by (simp add: setupControl_def)
  ultimately show ?thesis using assms by (simp add: newProviderRegister_def Let_def sample_user_def)
qed

section \<open>Properties\<close>

text \<open>
  C35. The operations of the register refine a map from class names without case to lists of providers: adding a provider is \<open>join\<close> on the
  list of its class, with the conflict reported and a crash only where \<open>join\<close> has none; a lookup answers with the first provider of the list and only
  if it has the type; removing and putting change one class; \<open>locateProvider\<close> answers with the first provider of some class that has the name
  without case, or there is none; \<open>resetProvider\<close> clears the process of all providers that run in it; releasing the register frees every
  provider of every class once.
\<close>

theorem provider_register_refines:
  assumes "prov_rep pr M"
  shows "rel_option (\<lambda>(pr', err) (M', err'). prov_rep pr' M' \<and> err = err') (addProviderToHT info pr) (added info M) \<and>
    getProvider pr n t = Some (case M (lower n) of None \<Rightarrow> None | Some ps \<Rightarrow> if pi_type (hd ps) AND t \<noteq> 0 then Some (hd ps) else None) \<and>
    prov_rep (removeProvider pr n) (M(lower n := None)) \<and>
    (i < length (pr_chains pr) \<and> pr_chains pr ! i \<noteq> [] \<and> (\<forall>m. name_get (pr_ht pr) m = Some i \<longrightarrow> lower m = lower n) \<longrightarrow>
      prov_rep (putProvider pr n i) (M(lower n \<mapsto> pr_chains pr ! i))) \<and>
    ((\<forall>m ps. M (lower m) = Some ps \<longrightarrow> pi_providerName (hd ps) \<noteq> None) \<longrightarrow>
      (\<exists>r. locateProvider pr nm = Some r \<and>
        (case r of None \<Rightarrow> \<forall>m ps. M (lower m) = Some ps \<longrightarrow> map_option lower (pi_providerName (hd ps)) \<noteq> Some (lower nm)
         | Some p \<Rightarrow> map_option lower (pi_providerName p) = Some (lower nm) \<and> (\<exists>m ps. M (lower m) = Some ps \<and> p = hd ps)))) \<and>
    (\<exists>pr'. resetProvider pr pid = Some pr' \<and> prov_rep pr' (\<lambda>k. map_option (map (reset_pid pid)) (M k))) \<and>
    (\<exists>ks. distinct ks \<and> (\<forall>k. k \<in> set ks \<longleftrightarrow> (\<exists>m. k = lower m \<and> M (lower m) \<noteq> None)) \<and>
      pRelease pr = Some (concat (map (\<lambda>k. rev (map pi_id (the (M k)))) ks)))"
proof (intro conjI impI)
  show "rel_option (\<lambda>(pr', err) (M', err'). prov_rep pr' M' \<and> err = err') (addProviderToHT info pr) (added info M)"
    by (rule addProviderToHT_rep [OF assms])
  show "getProvider pr n t = Some (case M (lower n) of None \<Rightarrow> None | Some ps \<Rightarrow> if pi_type (hd ps) AND t \<noteq> 0 then Some (hd ps) else None)"
    by (rule getProvider_rep [OF assms])
  show "prov_rep (removeProvider pr n) (M(lower n := None))" by (rule removeProvider_rep [OF assms])
  show "prov_rep (putProvider pr n i) (M(lower n \<mapsto> pr_chains pr ! i))"
    if "i < length (pr_chains pr) \<and> pr_chains pr ! i \<noteq> [] \<and> (\<forall>m. name_get (pr_ht pr) m = Some i \<longrightarrow> lower m = lower n)"
    by (rule putProvider_rep [OF assms]) (use that in blast)+
  show "\<exists>r. locateProvider pr nm = Some r \<and>
      (case r of None \<Rightarrow> \<forall>m ps. M (lower m) = Some ps \<longrightarrow> map_option lower (pi_providerName (hd ps)) \<noteq> Some (lower nm)
       | Some p \<Rightarrow> map_option lower (pi_providerName p) = Some (lower nm) \<and> (\<exists>m ps. M (lower m) = Some ps \<and> p = hd ps))"
    if "\<forall>m ps. M (lower m) = Some ps \<longrightarrow> pi_providerName (hd ps) \<noteq> None"
    by (rule locateProvider_rep [OF assms]) (use that in blast)
  show "\<exists>pr'. resetProvider pr pid = Some pr' \<and> prov_rep pr' (\<lambda>k. map_option (map (reset_pid pid)) (M k))"
    by (rule resetProvider_rep [OF assms])
  show "\<exists>ks. distinct ks \<and> (\<forall>k. k \<in> set ks \<longleftrightarrow> (\<exists>m. k = lower m \<and> M (lower m) \<noteq> None)) \<and>
      pRelease pr = Some (concat (map (\<lambda>k. rev (map pi_id (the (M k)))) ks))"
    by (rule pRelease_rep [OF assms])
qed

lemma provider_register_refines_witness:
  "prov_rep sample_register [lower ''Foo'' \<mapsto> [sample_info 1 ''Foo'']] \<and>
   getProvider sample_register ''FOO'' INSTANCE_PROVIDER = Some (Some (sample_info 1 ''Foo'')) \<and>
   getProvider sample_register ''FOO'' CLASS_PROVIDER = Some None \<and>
   (\<exists>pr'. addProviderToHT ((sample_info 2 ''foo'')\<lparr>pi_ns := Some [''c'', ''d'']\<rparr>) sample_register = Some (pr', False) \<and>
      prov_rep pr' [lower ''Foo'' \<mapsto> [(sample_info 1 ''Foo'')\<lparr>pi_ns := Some [''a'', ''b'', ''c'']\<rparr>]]) \<and>
   (\<exists>r. locateProvider sample_register ''p'' = Some r \<and> map_option pi_id r = Some 1)"
proof (intro conjI)
  let ?M = "[lower ''Foo'' \<mapsto> [sample_info 1 ''Foo'']]" and ?new = "(sample_info 2 ''foo'')\<lparr>pi_ns := Some [''c'', ''d'']\<rparr>"
  show "prov_rep sample_register ?M" by (rule sample_register_rep)
  have l: "lower ''FOO'' = lower ''Foo''" "lower ''foo'' = lower ''Foo''" "lower ''p'' = lower ''P''" by code_simp+
  show "getProvider sample_register ''FOO'' INSTANCE_PROVIDER = Some (Some (sample_info 1 ''Foo''))"
    using provider_register_refines [OF sample_register_rep, THEN conjunct2, THEN conjunct1, of "''FOO''" INSTANCE_PROVIDER]
    unfolding l by (simp add: sample_info_def INSTANCE_PROVIDER_def)
  show "getProvider sample_register ''FOO'' CLASS_PROVIDER = Some None"
    using provider_register_refines [OF sample_register_rep, THEN conjunct2, THEN conjunct1, of "''FOO''" CLASS_PROVIDER]
    unfolding l by (simp add: sample_info_def CLASS_PROVIDER_def)
  have "added ?new ?M = Some (?M(lower ''Foo'' \<mapsto> [(sample_info 1 ''Foo'')\<lparr>pi_ns := Some [''a'', ''b'', ''c'']\<rparr>]), False)"
    using l(2) by (simp add: added_def join_def sample_info_def)
  then show "\<exists>pr'. addProviderToHT ?new sample_register = Some (pr', False) \<and>
      prov_rep pr' [lower ''Foo'' \<mapsto> [(sample_info 1 ''Foo'')\<lparr>pi_ns := Some [''a'', ''b'', ''c'']\<rparr>]]"
    using provider_register_refines [OF sample_register_rep, THEN conjunct1, of ?new] by (auto simp: option_rel_Some2)
  have M: "ps = [sample_info 1 ''Foo'']" if "?M (lower m) = Some ps" for m ps using that by (simp split: if_splits)
  have n: "pi_providerName (hd [sample_info 1 ''Foo'']) = Some ''P''" "pi_id (hd [sample_info 1 ''Foo'']) = 1" by (simp_all add: sample_info_def)
  have "\<forall>m ps. ?M (lower m) = Some ps \<longrightarrow> pi_providerName (hd ps) \<noteq> None" using M n by fastforce
  then obtain r where r: "locateProvider sample_register ''p'' = Some r"
    "case r of None \<Rightarrow> \<forall>m ps. ?M (lower m) = Some ps \<longrightarrow> map_option lower (pi_providerName (hd ps)) \<noteq> Some (lower ''p'')
     | Some p \<Rightarrow> map_option lower (pi_providerName p) = Some (lower ''p'') \<and> (\<exists>m ps. ?M (lower m) = Some ps \<and> p = hd ps)"
    using provider_register_refines [OF sample_register_rep, THEN conjunct2, THEN conjunct2, THEN conjunct2, THEN conjunct2, THEN conjunct1, of "''p''"]
    by blast
  have foo: "?M (lower ''Foo'') = Some [sample_info 1 ''Foo'']" by simp
  show "\<exists>r. locateProvider sample_register ''p'' = Some r \<and> map_option pi_id r = Some 1"
  proof (cases r)
    case None
    then have "\<forall>m ps. ?M (lower m) = Some ps \<longrightarrow> map_option lower (pi_providerName (hd ps)) \<noteq> Some (lower ''p'')"
      using r(2) by (simp only: option.case)
    from this [rule_format, OF foo] show ?thesis unfolding n(1) l(3) by simp
  next
    case (Some p)
    then obtain m ps where m: "?M (lower m) = Some ps" and p: "p = hd ps" using r(2) by (auto simp only: option.case)
    have "pi_id p = 1" unfolding p M [OF m] by (rule n(2))
    then show ?thesis using r(1) Some by simp
  qed
qed

text \<open>
  C36. A file of complete sections is read into the register of its providers: of a class the first provider, with the first namespace of every
  later registration under its name, then the others, the last first. Two registrations under one name with different types end the broker.
  The special providers are looked for in one order, each behind the one before and never in the last section; without a class
  provider the broker ends, and without an interoperability provider none is ever started.
\<close>

theorem provider_register_read:
  assumes "pu_provSFCB u \<or> pu_provuser u \<noteq> None" and "\<forall>s \<in> set ss. section_ok g s"
  shows "\<exists>rd. read_register ex2 u g (concat (map section_text ss)) False = Some rd \<and>
    (let ps = section_infos u g 0 ss; sp = specials ex2 (butlast ps) in
     (if consistent ps then \<not> rd_err rd \<and> prov_rep (rd_base rd) (registered ps) \<and> pointers rd = sp else rd_err rd) \<and>
     finish_register (Some rd) =
       (if \<not> consistent ps \<or> sp ! 0 = None then Abort else Return (rd\<lparr>rd_interOp := (if sp ! 2 = None then Some 0 else sp ! 2)\<rparr>)))"
proof -
  let ?ps = "section_infos u g 0 ss"
  let ?sp = "specials ex2 (butlast ?ps)"
  obtain rd where rd: "read_register ex2 u g (concat (map section_text ss)) False = Some rd" "read_result ex2 ?ps rd"
    using read_register_sections [OF assms] by blast
  have same: "rd\<lparr>rd_interOp := rd_interOp rd\<rparr> = rd" by (cases rd) simp
  have "finish_register (Some rd) = (if \<not> consistent ?ps \<or> ?sp ! 0 = None then Abort
      else Return (rd\<lparr>rd_interOp := (if ?sp ! 2 = None then Some 0 else ?sp ! 2)\<rparr>))"
  proof (cases "consistent ?ps")
    case True
    then have "\<not> rd_err rd" "?sp = pointers rd" using rd(2) by (simp_all add: read_result_def)
    then show ?thesis using True same by (simp add: finish_register_def pointers_def)
  next
    case False
    then have "rd_err rd" using rd(2) by (simp add: read_result_def)
    then show ?thesis using False by (simp add: finish_register_def)
  qed
  then show ?thesis using rd unfolding read_result_def Let_def by blast
qed

lemma provider_register_read_witness:
  "\<exists>rd. finish_register (read_register True sample_user (\<lambda>_. None)
      (concat (map section_text (map sample_section [''$ClassProvider$'', ''Foo'']))) False) = Return rd \<and>
    rd_class rd = Some 1 \<and> prov_rep (rd_base rd) (registered [sample_info 1 ''$ClassProvider$'', sample_info 2 ''Foo''])"
proof -
  let ?ss = "map sample_section [''$ClassProvider$'', ''Foo'']" and ?g = "\<lambda>_ :: string. None :: int option"
  have u: "pu_provSFCB sample_user \<or> pu_provuser sample_user \<noteq> None" by (simp add: sample_user_def)
  have ok: "\<forall>s \<in> set ?ss. section_ok ?g s" using sample_section_ok sample_headers by simp
  have ps: "section_infos sample_user ?g 0 ?ss = [sample_info 1 ''$ClassProvider$'', sample_info 2 ''Foo'']"
    by (simp add: sample_section_info eval_nat_numeral)
  have c: "consistent [sample_info 1 ''$ClassProvider$'', sample_info 2 ''Foo'']"
    using sample_consistent [of "[(1, ''$ClassProvider$''), (2, ''Foo'')]"] by simp
  have sp: "specials True [sample_info 1 ''$ClassProvider$''] = [Some 1, None, None, None]"
    by (simp add: specials_def seek_def sample_info_def)
  show ?thesis
    using provider_register_read [OF u ok, of True] c unfolding ps Let_def by (auto simp: sp [simplified] pointers_def)
qed

lemma newProviderRegister_file:
  assumes "newProviderRegister b files cf g ex2 st = Return (st', rd)"
  shows "\<exists>dir u file' err. files (dir @ ''/providerRegister'') = Some file' \<and> finish_register (read_register ex2 u g file' err) = Return rd"
  using assms unfolding newProviderRegister_def Let_def
  by (simp split: outcome.splits prod.splits option.splits if_splits) blast+

text \<open>
  C37. Whatever the files hold, if \<open>newProviderRegister\<close> returns then the register was read from a file, the default user was known, there is a class provider, and
  the special providers stand in the order class, default, interoperability, qualifier provider in sections before the last. Without
  the flag of the interoperability namespace there is no qualifier provider either.
\<close>

theorem special_providers_ordered:
  assumes "newProviderRegister b files cf g ex2 st = Return (st', rd)"
  shows "(\<exists>dir u file'. files (dir @ ''/providerRegister'') = Some file' \<and> finish_register (read_register ex2 u g file' False) = Return rd) \<and>
    (\<exists>c. rd_class rd = Some c \<and> 0 < c \<and> c < rd_id rd) \<and>
    (\<forall>d. rd_default rd = Some d \<longrightarrow> the (rd_class rd) < d \<and> d < rd_id rd) \<and>
    (\<exists>i. rd_interOp rd = Some i \<and> (i = 0 \<or> ex2 \<and> (\<exists>d. rd_default rd = Some d \<and> d < i) \<and> i < rd_id rd)) \<and>
    (\<forall>q. rd_quali rd = Some q \<longrightarrow> 0 < the (rd_interOp rd) \<and> the (rd_interOp rd) < q \<and> q < rd_id rd) \<and>
    (\<not> ex2 \<longrightarrow> rd_interOp rd = Some 0 \<and> rd_quali rd = None)"
proof (rule conjI)
  obtain dir u file' err where f: "files (dir @ ''/providerRegister'') = Some file'"
    and r: "finish_register (read_register ex2 u g file' err) = Return rd"
    using newProviderRegister_file [OF assms] by blast
  obtain rd0 where rd0: "read_register ex2 u g file' err = Some rd0" "\<not> rd_err rd0" "rd_class rd0 \<noteq> None"
    "rd = (if rd_interOp rd0 = None then rd0\<lparr>rd_interOp := Some 0\<rparr> else rd0)"
    using r unfolding finish_register_Return by blast
  have err: "\<not> err" using read_register_unknown_user rd0(1,2) by (cases err) auto
  then show "\<exists>dir u file'. files (dir @ ''/providerRegister'') = Some file' \<and> finish_register (read_register ex2 u g file' False) = Return rd"
    using f r by auto
  have o: "in_order ex2 (rd_id rd0) (pointers rd0)" using read_register_in_order [of ex2 u g file' rd0] rd0 err by simp
  obtain c where c: "rd_class rd0 = Some c" using rd0(3) by blast
  show "(\<exists>c. rd_class rd = Some c \<and> 0 < c \<and> c < rd_id rd) \<and>
    (\<forall>d. rd_default rd = Some d \<longrightarrow> the (rd_class rd) < d \<and> d < rd_id rd) \<and>
    (\<exists>i. rd_interOp rd = Some i \<and> (i = 0 \<or> ex2 \<and> (\<exists>d. rd_default rd = Some d \<and> d < i) \<and> i < rd_id rd)) \<and>
    (\<forall>q. rd_quali rd = Some q \<longrightarrow> 0 < the (rd_interOp rd) \<and> the (rd_interOp rd) < q \<and> q < rd_id rd) \<and>
    (\<not> ex2 \<longrightarrow> rd_interOp rd = Some 0 \<and> rd_quali rd = None)"
    using o c unfolding rd0(4) in_order_def pointers_def
    by (cases "rd_default rd0"; cases "rd_interOp rd0"; cases "rd_quali rd0") auto
qed

lemma special_providers_ordered_witness:
  "\<exists>rd. newProviderRegister sample_build
      [''/registration/providerRegister'' \<mapsto> concat (map section_text (map sample_section [''$ClassProvider$'', ''Foo'']))] None (\<lambda>_. None) False sample_state
      = Return (sample_state, rd) \<and>
    rd_class rd \<noteq> None \<and> rd_interOp rd = Some 0 \<and> rd_quali rd = None"
proof -
  let ?ss = "map sample_section [''$ClassProvider$'', ''Foo'']" and ?g = "\<lambda>_ :: string. None :: int option"
  let ?ps = "[sample_info 1 ''$ClassProvider$'', sample_info 2 ''Foo'']" and ?files = "[''/registration/providerRegister'' \<mapsto> concat (map section_text ?ss)]"
  have "pu_provSFCB sample_user \<or> pu_provuser sample_user \<noteq> None" "\<forall>s \<in> set ?ss. section_ok ?g s"
    using sample_section_ok sample_headers by (simp_all add: sample_user_def)
  then obtain rd where rd: "read_register False sample_user ?g (concat (map section_text ?ss)) False = Some rd"
    "read_result False (section_infos sample_user ?g 0 ?ss) rd"
    using read_register_sections [of sample_user ?ss ?g False] by blast
  have "consistent ?ps" using sample_consistent [of "[(1, ''$ClassProvider$''), (2, ''Foo'')]"] by simp
  moreover have "specials False [sample_info 1 ''$ClassProvider$''] = [Some 1, None, None, None]"
    by (simp add: specials_def seek_def sample_info_def)
  moreover have "section_infos sample_user ?g 0 ?ss = ?ps" by (simp add: sample_section_info eval_nat_numeral)
  ultimately have "\<not> rd_err rd" "rd_class rd \<noteq> None"
    using rd(2) by (simp_all add: read_result_def pointers_def)
  then obtain rd' where rd': "finish_register (read_register False sample_user ?g (concat (map section_text ?ss)) False) = Return rd'"
    unfolding finish_register_Return using rd(1) by blast
  have "newProviderRegister sample_build ?files None ?g False sample_state = Return (sample_state, rd')"
    by (rule sample_newProviderRegister [OF _ rd']) simp
  then show ?thesis using special_providers_ordered [of sample_build ?files None ?g False sample_state sample_state] by blast
qed

end
