(* ===== verification/Memory.thy ===== *)
theory Memory
  imports Prelude
begin

text \<open>
  The memory management per thread, \<open>src/support.c\<close>, and the string objects of \<open>src/string.c\<close> that live in it. A thread keeps a heap control with two
  arrays, one of plain areas and one of objects; an object knows its number in the second array. \<open>markHeap\<close> puts the heap control aside and
  starts an empty one, \<open>releaseHeap\<close> frees all that was added since and puts the old one back.

  An address is a number, never given out twice; \<open>strs\<close> and \<open>areas\<close> are the objects and areas that are allocated. The arrays are blocks of
  \<open>memSize\<close> cells, with \<open>None\<close> for a null pointer and in cells that are not yet set. \<open>None\<close> as a result is an access outside of a block or to freed memory. The only
  objects are strings, which have a function table; \<open>localClientMode\<close> is the argument \<open>local\<close>.

  Shown: the arrays are never exceeded; a scope between \<open>markHeap\<close> and \<open>releaseHeap\<close> frees each of its objects exactly once, nests, and leaves the others alone,
  if objects are released in the scope they belong to; an object released in an inner scope takes another one out of the management and is
  released a second time later.
\<close>

section \<open>State\<close>

definition MEM_NOT_TRACKED :: int where "MEM_NOT_TRACKED = - 2"
definition MEM_TRACKED :: int where "MEM_TRACKED = 1"
definition MEM_RELEASED :: int where "MEM_RELEASED = - 1"
definition MT_SIZE_STEP :: nat where "MT_SIZE_STEP = 100"

record heap_control =
  memSize :: nat
  memUsed :: nat
  memObjs :: "nat option list"
  memEncUsed :: nat
  memEncSize :: nat
  memEncObjs :: "nat option list"

record managed_thread =
  mt_broker :: "nat option"
  mt_ctx :: "nat option"
  hc :: heap_control

record native_string =
  hdl :: "string option"
  refCount :: int
  mem_state :: int

record memory =
  mt :: "managed_thread option"
  strs :: "nat \<Rightarrow> native_string option"
  areas :: "nat set"
  fresh :: nat

section \<open>Heaps of a thread\<close>

definition empty_heap :: heap_control where
  "empty_heap = \<lparr>memSize = MT_SIZE_STEP, memUsed = 0, memObjs = replicate MT_SIZE_STEP None, memEncUsed = 0, memEncSize = MT_SIZE_STEP,
     memEncObjs = replicate MT_SIZE_STEP None\<rparr>"

definition init_mt :: "memory \<Rightarrow> memory \<times> managed_thread" where
  "init_mt m = (let t = \<lparr>mt_broker = None, mt_ctx = None, hc = empty_heap\<rparr> in (m\<lparr>mt := Some t\<rparr>, t))"

definition memInit :: "bool \<Rightarrow> memory \<Rightarrow> memory \<times> managed_thread option" where
  "memInit dontforce m =
     (case mt m of Some t \<Rightarrow> (m, Some t)
      | None \<Rightarrow> if dontforce then (m, None) else (case init_mt m of (m, t) \<Rightarrow> (m, Some t)))"

text \<open>A thread for which \<open>__memInit(0)\<close> was called.\<close>

definition thread :: "memory \<Rightarrow> managed_thread" where
  "thread m = the (snd (memInit False m))"

definition set_hc :: "memory \<Rightarrow> heap_control \<Rightarrow> memory" where
  "set_hc m h = (case memInit False m of (m', t) \<Rightarrow> m'\<lparr>mt := map_option (\<lambda>t. t\<lparr>hc := h\<rparr>) t\<rparr>)"

text \<open>The number stored through \<open>memId\<close>; \<open>None\<close> where nothing is stored.\<close>

definition memAdd :: "bool \<Rightarrow> nat \<Rightarrow> memory \<Rightarrow> (memory \<times> int option) option" where
  "memAdd local ptr m =
     (if local then Some (m, None)
      else let h = hc (thread m) in
        if memUsed h < length (memObjs h) then
          let h = h\<lparr>memObjs := (memObjs h)[memUsed h := Some ptr], memUsed := memUsed h + 1\<rparr>;
              h' = (if memUsed h = memSize h
                then h\<lparr>memSize := memSize h + MT_SIZE_STEP, memObjs := memObjs h @ replicate MT_SIZE_STEP None\<rparr> else h) in
          Some (set_hc m h', Some (int (memUsed h)))
        else None)"

definition memAlloc :: "bool \<Rightarrow> int \<Rightarrow> memory \<Rightarrow> (memory \<times> nat) option" where
  "memAlloc local add m =
     (let result = fresh m; m = m\<lparr>fresh := result + 1, areas := insert result (areas m)\<rparr> in
      if add \<noteq> MEM_TRACKED then map_option (\<lambda>(m, _). (m, result)) (memAdd local result m) else Some (m, result))"

text \<open>The common part of \<open>memAddEncObj\<close> and \<open>memLinkEncObj\<close>.\<close>

definition link_enc :: "nat \<Rightarrow> memory \<Rightarrow> (memory \<times> int) option" where
  "link_enc object m =
     (let h = hc (thread m) in
      if memEncUsed h < length (memEncObjs h) then
        let h = h\<lparr>memEncObjs := (memEncObjs h)[memEncUsed h := Some object], memEncUsed := memEncUsed h + 1\<rparr>;
            h' = (if memEncUsed h = memEncSize h
              then h\<lparr>memEncSize := memEncSize h + MT_SIZE_STEP, memEncObjs := memEncObjs h @ replicate MT_SIZE_STEP None\<rparr> else h) in
        Some (set_hc m h', int (memEncUsed h))
      else None)"

definition memAddEncObj :: "bool \<Rightarrow> int \<Rightarrow> native_string \<Rightarrow> memory \<Rightarrow> (memory \<times> nat \<times> int) option" where
  "memAddEncObj local mode ptr m =
     (let object = fresh m; m = m\<lparr>fresh := object + 1, strs := (strs m)(object \<mapsto> ptr)\<rparr> in
      if local \<or> mode \<noteq> MEM_TRACKED then Some (m, object, MEM_NOT_TRACKED)
      else map_option (\<lambda>(m, memId). (m, object, memId)) (link_enc object m))"

definition memLinkEncObj :: "bool \<Rightarrow> nat \<Rightarrow> memory \<Rightarrow> (memory \<times> int option) option" where
  "memLinkEncObj local object m = (if local then Some (m, None) else map_option (\<lambda>(m, memId). (m, Some memId)) (link_enc object m))"

definition memUnlinkEncObj :: "bool \<Rightarrow> int \<Rightarrow> memory \<Rightarrow> memory option" where
  "memUnlinkEncObj local memId m =
     (if local then Some m
      else case memInit True m of
        (m, None) \<Rightarrow> Some m
      | (m, Some t) \<Rightarrow>
          if memId \<noteq> MEM_RELEASED \<and> memId \<noteq> MEM_NOT_TRACKED then
            if 1 \<le> memId \<and> nat (memId - 1) < length (memEncObjs (hc t))
            then Some (set_hc m ((hc t)\<lparr>memEncObjs := (memEncObjs (hc t))[nat (memId - 1) := None]\<rparr>))
            else None
          else Some m)"

section \<open>String objects\<close>

definition new_string :: "bool \<Rightarrow> int \<Rightarrow> string option \<Rightarrow> int \<Rightarrow> memory \<Rightarrow> (memory \<times> nat) option" where
  "new_string local mm_add ptr reown m =
     map_option (\<lambda>(m, a, state).
        (m\<lparr>strs := (strs m)(a \<mapsto> \<lparr>hdl = ptr, refCount = (if reown = 0 then 0 else reown - 1), mem_state = state\<rparr>)\<rparr>, a))
      (memAddEncObj local mm_add \<lparr>hdl = None, refCount = 0, mem_state = 0\<rparr> m)"

definition sft_release :: "bool \<Rightarrow> nat \<Rightarrow> memory \<Rightarrow> (memory \<times> cmpi_rc) option" where
  "sft_release local a m =
     (case strs m a of None \<Rightarrow> None
      | Some s \<Rightarrow>
          if mem_state s \<noteq> 0 \<and> mem_state s \<noteq> MEM_RELEASED
          then map_option (\<lambda>m. (m\<lparr>strs := (strs m)(a := None)\<rparr>, RC_OK)) (memUnlinkEncObj local (mem_state s) m)
          else Some (m, ERR_FAILED))"

definition sft_getCharPtr :: "nat \<Rightarrow> memory \<Rightarrow> string option option" where
  "sft_getCharPtr a m = map_option hdl (strs m a)"

definition sft_clone :: "bool \<Rightarrow> nat \<Rightarrow> memory \<Rightarrow> (memory \<times> nat) option" where
  "sft_clone local a m = Option.bind (sft_getCharPtr a m) (\<lambda>t. new_string local MEM_NOT_TRACKED t 0 m)"

definition native_new_CMPIString :: "bool \<Rightarrow> string option \<Rightarrow> int \<Rightarrow> memory \<Rightarrow> (memory \<times> nat) option" where
  "native_new_CMPIString local ptr reown m = new_string local MEM_TRACKED ptr reown m"

definition NewCMPIString :: "bool \<Rightarrow> string option \<Rightarrow> memory \<Rightarrow> (memory \<times> nat) option" where
  "NewCMPIString local ptr m = new_string local MEM_NOT_TRACKED ptr 0 m"

section \<open>Releasing\<close>

text \<open>The two loops of \<open>__flush_mt\<close>, with the number of entries that are left.\<close>

fun flush_objs :: "nat \<Rightarrow> memory \<Rightarrow> memory option" where
  "flush_objs 0 m = Some m"
| "flush_objs (Suc n) m =
     (let h = hc (thread m) in
      if n < length (memObjs h) then
        case memObjs h ! n of
          None \<Rightarrow> flush_objs n (set_hc m (h\<lparr>memUsed := n\<rparr>))
        | Some p \<Rightarrow>
            if p \<in> areas m then flush_objs n ((set_hc m (h\<lparr>memUsed := n, memObjs := (memObjs h)[n := None]\<rparr>))\<lparr>areas := areas m - {p}\<rparr>)
            else None
      else None)"

fun flush_enc :: "bool \<Rightarrow> nat \<Rightarrow> memory \<Rightarrow> memory option" where
  "flush_enc local 0 m = Some m"
| "flush_enc local (Suc n) m =
     (let h = hc (thread m); m = set_hc m (h\<lparr>memEncUsed := n\<rparr>) in
      if n < length (memEncObjs h) then
        case memEncObjs h ! n of
          None \<Rightarrow> flush_enc local n m
        | Some a \<Rightarrow>
            (case sft_release local a m of None \<Rightarrow> None
             | Some (m, _) \<Rightarrow>
                 let h = hc (thread m) in flush_enc local n (set_hc m (h\<lparr>memEncObjs := (memEncObjs h)[n := None]\<rparr>)))
      else None)"

definition flush_mt :: "bool \<Rightarrow> memory \<Rightarrow> memory option" where
  "flush_mt local m =
     Option.bind (flush_objs (memUsed (hc (thread m))) m) (\<lambda>m. flush_enc local (memEncUsed (hc (thread m))) m)"

definition cleanup_mt :: "bool \<Rightarrow> memory \<Rightarrow> memory option" where
  "cleanup_mt local m = (case mt m of None \<Rightarrow> Some m | Some t \<Rightarrow> map_option (\<lambda>m. m\<lparr>mt := None\<rparr>) (flush_mt local m))"

definition uninitGarbageCollector :: "bool \<Rightarrow> memory \<Rightarrow> memory option" where
  "uninitGarbageCollector local m = (case memInit True m of (m, None) \<Rightarrow> Some m | (m, Some t) \<Rightarrow> cleanup_mt local m)"

definition tool_mm_flush :: "bool \<Rightarrow> memory \<Rightarrow> memory option" where
  "tool_mm_flush local m = (case mt m of None \<Rightarrow> Some m | Some t \<Rightarrow> flush_mt local m)"

definition tool_mm_set_broker :: "nat option \<Rightarrow> nat option \<Rightarrow> memory \<Rightarrow> memory" where
  "tool_mm_set_broker broker ctx m = (case memInit False m of (m', t) \<Rightarrow> m'\<lparr>mt := map_option (\<lambda>t. t\<lparr>mt_broker := broker, mt_ctx := ctx\<rparr>) t\<rparr>)"

definition tool_mm_get_broker :: "memory \<Rightarrow> memory \<times> nat option \<times> nat option" where
  "tool_mm_get_broker m = (fst (memInit False m), mt_broker (thread m), mt_ctx (thread m))"

definition markHeap :: "bool \<Rightarrow> memory \<Rightarrow> memory \<times> heap_control option" where
  "markHeap local m = (if local then (m, None) else (set_hc m empty_heap, Some (hc (thread m))))"

definition releaseHeap :: "bool \<Rightarrow> heap_control option \<Rightarrow> memory \<Rightarrow> memory option" where
  "releaseHeap local saved m =
     (if local then Some m
      else case saved of None \<Rightarrow> None
        | Some h \<Rightarrow> map_option (\<lambda>m. set_hc m h) (flush_mt local (fst (memInit False m))))"

section \<open>Bounds of the arrays\<close>

lemma set_hc_sel [simp]:
  "strs (set_hc m h) = strs m" "areas (set_hc m h) = areas m" "fresh (set_hc m h) = fresh m" "thread (set_hc m h) = (thread m)\<lparr>hc := h\<rparr>"
  by (simp_all add: set_hc_def memInit_def init_mt_def thread_def Let_def split: option.split)

lemma set_hc_set_hc [simp]: "set_hc (set_hc m h) h' = set_hc m h'"
  by (simp add: set_hc_def memInit_def init_mt_def Let_def split: option.split)

lemma thread_cong [simp]:
  "thread (m\<lparr>strs := s\<rparr>) = thread m" "thread (m\<lparr>areas := r\<rparr>) = thread m" "thread (m\<lparr>fresh := n\<rparr>) = thread m"
  by (simp_all add: memInit_def init_mt_def thread_def Let_def split: option.split)

lemma memInit_sel [simp]:
  "strs (fst (memInit b m)) = strs m" "areas (fst (memInit b m)) = areas m" "fresh (fst (memInit b m)) = fresh m"
  "thread (fst (memInit b m)) = thread m"
  by (simp_all add: memInit_def init_mt_def thread_def Let_def split: option.split)

definition heap_ok :: "heap_control \<Rightarrow> bool" where
  "heap_ok h \<longleftrightarrow> memUsed h < memSize h \<and> length (memObjs h) = memSize h \<and> memEncUsed h < memEncSize h \<and> length (memEncObjs h) = memEncSize h"

lemma empty_heap_ok: "heap_ok empty_heap"
  by (simp add: heap_ok_def empty_heap_def MT_SIZE_STEP_def)

lemma memAdd_cells:
  assumes "heap_ok (hc (thread m))"
  obtains m' where "memAdd False p m = Some (m', Some (int (memUsed (hc (thread m))) + 1))" "heap_ok (hc (thread m'))"
    "strs m' = strs m" "areas m' = areas m" "fresh m' = fresh m" "memUsed (hc (thread m')) = memUsed (hc (thread m)) + 1"
    "\<And>i. i < memUsed (hc (thread m)) \<Longrightarrow> memObjs (hc (thread m')) ! i = memObjs (hc (thread m)) ! i"
    "memObjs (hc (thread m')) ! memUsed (hc (thread m)) = Some p"
    "memEncUsed (hc (thread m')) = memEncUsed (hc (thread m))" "memEncObjs (hc (thread m')) = memEncObjs (hc (thread m))"
  using assms by (auto simp: memAdd_def Let_def heap_ok_def nth_append MT_SIZE_STEP_def split: if_splits)

lemma link_enc_cells:
  assumes "heap_ok (hc (thread m))"
  obtains m' where "link_enc a m = Some (m', int (memEncUsed (hc (thread m))) + 1)" "heap_ok (hc (thread m'))"
    "strs m' = strs m" "areas m' = areas m" "fresh m' = fresh m" "memEncUsed (hc (thread m')) = memEncUsed (hc (thread m)) + 1"
    "\<And>i. i < memEncUsed (hc (thread m)) \<Longrightarrow> memEncObjs (hc (thread m')) ! i = memEncObjs (hc (thread m)) ! i"
    "memEncObjs (hc (thread m')) ! memEncUsed (hc (thread m)) = Some a"
    "memUsed (hc (thread m')) = memUsed (hc (thread m))" "memObjs (hc (thread m')) = memObjs (hc (thread m))"
  using assms by (auto simp: link_enc_def Let_def heap_ok_def nth_append MT_SIZE_STEP_def split: if_splits)

lemma memAdd_ok: "heap_ok (hc (thread m)) \<Longrightarrow> \<exists>m' i. memAdd local p m = Some (m', i) \<and> heap_ok (hc (thread m'))"
  by (simp add: memAdd_def Let_def heap_ok_def MT_SIZE_STEP_def)

lemma link_enc_ok: "heap_ok (hc (thread m)) \<Longrightarrow> \<exists>m' i. link_enc a m = Some (m', i) \<and> heap_ok (hc (thread m'))"
  by (simp add: link_enc_def Let_def heap_ok_def MT_SIZE_STEP_def)

lemma memUnlinkEncObj_ok:
  assumes "heap_ok (hc (thread m))" "memUnlinkEncObj local i m = Some m'"
  shows "heap_ok (hc (thread m')) \<and> memEncUsed (hc (thread m')) = memEncUsed (hc (thread m)) \<and> memUsed (hc (thread m')) = memUsed (hc (thread m)) \<and>
    length (memEncObjs (hc (thread m'))) = length (memEncObjs (hc (thread m)))"
proof (cases "mt m")
  case None
  then show ?thesis using assms by (auto simp: memUnlinkEncObj_def memInit_def split: if_splits)
next
  case (Some t)
  then have "thread m = t" by (simp add: thread_def memInit_def)
  then show ?thesis using assms Some by (auto simp: memUnlinkEncObj_def memInit_def heap_ok_def split: if_splits)
qed

lemma sft_release_ok:
  assumes "heap_ok (hc (thread m))" "sft_release local a m = Some (m', rc)"
  shows "heap_ok (hc (thread m')) \<and> memEncUsed (hc (thread m')) = memEncUsed (hc (thread m))"
  using assms memUnlinkEncObj_ok [OF assms(1)] by (auto simp: sft_release_def split: option.splits if_splits)

lemma flush_objs_ok: "heap_ok (hc (thread m)) \<Longrightarrow> n \<le> memUsed (hc (thread m)) \<Longrightarrow> flush_objs n m = Some m' \<Longrightarrow> heap_ok (hc (thread m'))"
proof (induction n m rule: flush_objs.induct)
  case (2 n m)
  let ?h = "hc (thread m)"
  show ?case
  proof (cases "memObjs ?h ! n")
    case None
    then show ?thesis using 2(1) [OF refl _ None] 2(3-) by (auto simp: heap_ok_def Let_def split: if_splits)
  next
    case (Some p)
    then show ?thesis using 2(2) [OF refl _ Some] 2(3-) by (auto simp: heap_ok_def Let_def split: if_splits)
  qed
qed simp

lemma flush_enc_ok: "heap_ok (hc (thread m)) \<Longrightarrow> n \<le> memEncUsed (hc (thread m)) \<Longrightarrow> flush_enc local n m = Some m' \<Longrightarrow> heap_ok (hc (thread m'))"
proof (induction local n m rule: flush_enc.induct)
  case (2 local n m)
  let ?h = "hc (thread m)"
  let ?m = "set_hc m (?h\<lparr>memEncUsed := n\<rparr>)"
  have ok: "heap_ok (hc (thread ?m))" and n: "n < length (memEncObjs ?h)" using 2(3,4) by (simp_all add: heap_ok_def)
  show ?case
  proof (cases "memEncObjs ?h ! n")
    case None
    then show ?thesis using 2(1) [OF refl refl n None] ok 2(5) n by (simp add: Let_def)
  next
    case (Some a)
    then obtain m1 rc where m1: "sft_release local a ?m = Some (m1, rc)" using 2(5) n by (auto simp: Let_def split: option.splits)
    let ?m1 = "set_hc m1 ((hc (thread m1))\<lparr>memEncObjs := (memEncObjs (hc (thread m1)))[n := None]\<rparr>)"
    have "heap_ok (hc (thread m1)) \<and> memEncUsed (hc (thread m1)) = n" using sft_release_ok [OF ok m1] by simp
    then have "heap_ok (hc (thread ?m1))" "n \<le> memEncUsed (hc (thread ?m1))" by (simp_all add: heap_ok_def)
    moreover have "flush_enc local n ?m1 = Some m'" using 2(5) n Some m1 by (simp add: Let_def)
    ultimately show ?thesis using 2(2) [OF refl refl n Some m1 refl refl] by simp
  qed
qed simp

lemma flush_mt_ok: "heap_ok (hc (thread m)) \<Longrightarrow> flush_mt local m = Some m' \<Longrightarrow> heap_ok (hc (thread m'))"
proof -
  assume ok: "heap_ok (hc (thread m))" and "flush_mt local m = Some m'"
  then obtain m1 where m1: "flush_objs (memUsed (hc (thread m))) m = Some m1" "flush_enc local (memEncUsed (hc (thread m1))) m1 = Some m'"
    by (auto simp: flush_mt_def bind_eq_Some_conv)
  show ?thesis using flush_enc_ok [OF flush_objs_ok [OF ok order_refl m1(1)] order_refl m1(2)] .
qed

section \<open>Scopes\<close>

text \<open>
  The state inside a scope that began when the next address was \<open>base\<close>: the objects made since then that are tracked are exactly those in the array, each
  under its number, and the areas made since then are those in the other array, each once.
\<close>

definition enc_ok :: "nat \<Rightarrow> nat \<Rightarrow> nat option list \<Rightarrow> (nat \<Rightarrow> native_string option) \<Rightarrow> bool" where
  "enc_ok base n cells st \<longleftrightarrow>
     (\<forall>i < n. \<forall>a. cells ! i = Some a \<longrightarrow> base \<le> a \<and> (\<exists>s. st a = Some s \<and> mem_state s = int i + 1)) \<and>
     (\<forall>a s. base \<le> a \<longrightarrow> st a = Some s \<longrightarrow> mem_state s \<noteq> MEM_NOT_TRACKED \<longrightarrow> (\<exists>i < n. mem_state s = int i + 1 \<and> cells ! i = Some a))"

definition areas_ok :: "nat \<Rightarrow> nat \<Rightarrow> nat option list \<Rightarrow> nat set \<Rightarrow> bool" where
  "areas_ok base n cells ps \<longleftrightarrow>
     distinct (take n cells) \<and> (\<forall>i < n. cells ! i \<noteq> None) \<and> (\<forall>p. Some p \<in> set (take n cells) \<longleftrightarrow> base \<le> p \<and> p \<in> ps)"

definition scope :: "nat \<Rightarrow> memory \<Rightarrow> bool" where
  "scope base m \<longleftrightarrow>
     base \<le> fresh m \<and> (\<forall>a. strs m a \<noteq> None \<longrightarrow> a < fresh m) \<and> (\<forall>p \<in> areas m. p < fresh m) \<and> heap_ok (hc (thread m)) \<and>
     enc_ok base (memEncUsed (hc (thread m))) (memEncObjs (hc (thread m))) (strs m) \<and>
     areas_ok base (memUsed (hc (thread m))) (memObjs (hc (thread m))) (areas m)"

text \<open>What a scope leaves alone: all that was there before, except for untracked strings.\<close>

definition frame :: "nat \<Rightarrow> memory \<Rightarrow> memory \<Rightarrow> bool" where
  "frame base m m' \<longleftrightarrow>
     fresh m \<le> fresh m' \<and> (\<forall>p < base. p \<in> areas m' \<longleftrightarrow> p \<in> areas m) \<and>
     (\<forall>a < base. strs m' a = strs m a \<or> (strs m' a = None \<and> (\<exists>s. strs m a = Some s \<and> mem_state s = MEM_NOT_TRACKED)))"

lemma frame_refl [simp]: "frame base m m"
  by (simp add: frame_def)

lemma frame_trans: "frame base m1 m2 \<Longrightarrow> frame base m2 m3 \<Longrightarrow> frame base m1 m3"
  unfolding frame_def by (smt (verit) le_trans option.distinct(1))

lemma enc_okI:
  assumes "\<And>i a. i < n \<Longrightarrow> cells ! i = Some a \<Longrightarrow> base \<le> a \<and> (\<exists>s. st a = Some s \<and> mem_state s = int i + 1)"
    "\<And>a s. base \<le> a \<Longrightarrow> st a = Some s \<Longrightarrow> mem_state s \<noteq> MEM_NOT_TRACKED \<Longrightarrow> \<exists>i < n. mem_state s = int i + 1 \<and> cells ! i = Some a"
  shows "enc_ok base n cells st"
  using assms unfolding enc_ok_def by blast

lemma enc_okD:
  assumes "enc_ok base n cells st"
  shows "i < n \<Longrightarrow> cells ! i = Some a \<Longrightarrow> base \<le> a \<and> (\<exists>s. st a = Some s \<and> mem_state s = int i + 1)"
    "base \<le> a \<Longrightarrow> st a = Some s \<Longrightarrow> mem_state s \<noteq> MEM_NOT_TRACKED \<Longrightarrow> \<exists>i < n. mem_state s = int i + 1 \<and> cells ! i = Some a"
  using assms unfolding enc_ok_def by blast+

lemma enc_ok_untracked:
  assumes enc: "enc_ok base n cells st" and "st a = None" "mem_state s = MEM_NOT_TRACKED"
  shows "enc_ok base n cells (st(a \<mapsto> s))"
  using enc_okD [OF enc] assms(2,3) by (intro enc_okI) (fastforce split: if_splits)+

lemma enc_ok_link:
  assumes enc: "enc_ok base n cells st" and a: "st a = None" "base \<le> a" and s: "mem_state s = int n + 1"
    and cells: "\<And>i. i < n \<Longrightarrow> cells' ! i = cells ! i" "cells' ! n = Some a"
  shows "enc_ok base (n + 1) cells' (st(a \<mapsto> s))"
proof (rule enc_okI)
  fix i b assume i: "i < n + 1" "cells' ! i = Some b"
  show "base \<le> b \<and> (\<exists>s'. (st(a \<mapsto> s)) b = Some s' \<and> mem_state s' = int i + 1)"
  proof (cases "i = n")
    case True
    then show ?thesis using i cells(2) a s by simp
  next
    case False
    then have "base \<le> b \<and> (\<exists>s'. st b = Some s' \<and> mem_state s' = int i + 1)" using enc_okD(1) [OF enc, of i b] i cells(1) by simp
    then show ?thesis using a(1) by auto
  qed
next
  fix b s' assume b: "base \<le> b" "(st(a \<mapsto> s)) b = Some s'" "mem_state s' \<noteq> MEM_NOT_TRACKED"
  show "\<exists>i < n + 1. mem_state s' = int i + 1 \<and> cells' ! i = Some b"
  proof (cases "b = a")
    case True
    then show ?thesis using b cells(2) s by (intro exI [of _ n]) auto
  next
    case False
    then obtain i where "i < n" "mem_state s' = int i + 1" "cells ! i = Some b" using enc_okD(2) [OF enc b(1), of s'] b by auto
    then show ?thesis using cells(1) [of i] by (intro exI [of _ i]) simp
  qed
qed

lemma new_string_scope:
  assumes sc: "scope base m"
  shows "\<exists>m'. new_string False mode t reown m = Some (m', fresh m) \<and> scope base m' \<and> frame base m m' \<and> sft_getCharPtr (fresh m) m' = Some t"
proof -
  let ?a = "fresh m" and ?s = "\<lambda>i. \<lparr>hdl = t, refCount = (if reown = 0 then 0 else reown - 1), mem_state = i\<rparr>"
  let ?m = "m\<lparr>fresh := ?a + 1, strs := (strs m)(?a \<mapsto> \<lparr>hdl = None, refCount = 0, mem_state = 0\<rparr>)\<rparr>"
  have sc': "base \<le> ?a" "\<forall>a. strs m a \<noteq> None \<longrightarrow> a < ?a" "\<forall>p \<in> areas m. p < ?a" "heap_ok (hc (thread m))"
    "areas_ok base (memUsed (hc (thread m))) (memObjs (hc (thread m))) (areas m)" using sc by (simp_all add: scope_def)
  have enc: "enc_ok base (memEncUsed (hc (thread m))) (memEncObjs (hc (thread m))) (strs m)" using sc by (simp add: scope_def)
  have new: "strs m ?a = None" using sc'(2) by (metis less_irrefl)
  have fr: "frame base m m'" if "strs m' = (strs m)(?a \<mapsto> s)" "areas m' = areas m" "fresh m' = ?a + 1" for m' s
    using that sc'(1) by (auto simp: frame_def)
  have bounds: "\<forall>a. ((strs m)(?a \<mapsto> s)) a \<noteq> None \<longrightarrow> a < ?a + 1" "\<forall>p \<in> areas m. p < ?a + 1" for s
    using sc'(2,3) by (auto simp: less_Suc_eq)
  show ?thesis
  proof (cases "mode = MEM_TRACKED")
    case False
    let ?m' = "?m\<lparr>strs := (strs m)(?a \<mapsto> ?s MEM_NOT_TRACKED)\<rparr>"
    have r: "new_string False mode t reown m = Some (?m', ?a)" using False by (simp add: new_string_def memAddEncObj_def Let_def)
    have "scope base ?m'" using sc' bounds enc_ok_untracked [OF enc new] by (simp add: scope_def)
    then show ?thesis using r fr [of ?m' "?s MEM_NOT_TRACKED"] by (intro exI [of _ ?m']) (simp add: sft_getCharPtr_def)
  next
    case True
    let ?n = "memEncUsed (hc (thread m))"
    obtain m1 where m1: "link_enc ?a ?m = Some (m1, int ?n + 1)" "heap_ok (hc (thread m1))"
      "strs m1 = strs ?m" "areas m1 = areas ?m" "fresh m1 = fresh ?m" "memEncUsed (hc (thread m1)) = ?n + 1"
      "\<And>i. i < ?n \<Longrightarrow> memEncObjs (hc (thread m1)) ! i = memEncObjs (hc (thread m)) ! i"
      "memEncObjs (hc (thread m1)) ! ?n = Some ?a"
      "memUsed (hc (thread m1)) = memUsed (hc (thread m))" "memObjs (hc (thread m1)) = memObjs (hc (thread m))"
      using link_enc_cells [of ?m ?a] sc'(4) by auto
    let ?m' = "m1\<lparr>strs := (strs m)(?a \<mapsto> ?s (int ?n + 1))\<rparr>"
    have r: "new_string False mode t reown m = Some (?m', ?a)"
      using True m1(1,3) by (simp add: new_string_def memAddEncObj_def Let_def)
    have "enc_ok base (?n + 1) (memEncObjs (hc (thread m1))) ((strs m)(?a \<mapsto> ?s (int ?n + 1)))"
      using m1(7,8) by (intro enc_ok_link [OF enc new sc'(1)]) simp_all
    then have "scope base ?m'" using sc' bounds m1(2,4-6,9,10) by (simp add: scope_def)
    then show ?thesis using r fr [of ?m' "?s (int ?n + 1)"] m1(4,5) by (intro exI [of _ ?m']) (simp add: sft_getCharPtr_def)
  qed
qed

lemma enc_ok_unlink:
  assumes enc: "enc_ok base n cells st" and len: "n \<le> length cells" and a: "st a = Some s" and s: "mem_state s = int i + 1" "i < n" "cells ! i = Some a"
  shows "enc_ok base n (cells[i := None]) (st(a := None))"
proof (rule enc_okI)
  fix j b assume j: "j < n" "(cells[i := None]) ! j = Some b"
  then have "j \<noteq> i" "cells ! j = Some b" using s len by (auto simp: nth_list_update split: if_splits)
  then obtain s' where "base \<le> b" "st b = Some s'" "mem_state s' = int j + 1" using enc_okD(1) [OF enc j(1)] by blast
  moreover from this have "b \<noteq> a" using a s \<open>j \<noteq> i\<close> by auto
  ultimately show "base \<le> b \<and> (\<exists>s'. (st(a := None)) b = Some s' \<and> mem_state s' = int j + 1)" by simp
next
  fix b s' assume b: "base \<le> b" "(st(a := None)) b = Some s'" "mem_state s' \<noteq> MEM_NOT_TRACKED"
  then have "b \<noteq> a" "st b = Some s'" by (simp_all split: if_splits)
  then obtain j where "j < n" "mem_state s' = int j + 1" "cells ! j = Some b" using enc_okD(2) [OF enc b(1) _ b(3)] by blast
  moreover from this have "j \<noteq> i" using s \<open>b \<noteq> a\<close> by auto
  ultimately show "\<exists>j < n. mem_state s' = int j + 1 \<and> (cells[i := None]) ! j = Some b" by (intro exI [of _ j]) simp
qed

lemma enc_ok_less:
  assumes enc: "enc_ok base (Suc n) cells st" and n: "cells ! n = None"
  shows "enc_ok base n cells st"
proof (rule enc_okI)
  show "i < n \<Longrightarrow> cells ! i = Some a \<Longrightarrow> base \<le> a \<and> (\<exists>s. st a = Some s \<and> mem_state s = int i + 1)" for i a
    using enc_okD(1) [OF enc, of i a] by simp
  fix a s assume "base \<le> a" "st a = Some s" "mem_state s \<noteq> MEM_NOT_TRACKED"
  then obtain i where "i < Suc n" "mem_state s = int i + 1" "cells ! i = Some a" using enc_okD(2) [OF enc] by blast
  moreover from this have "i \<noteq> n" using n by auto
  ultimately show "\<exists>i < n. mem_state s = int i + 1 \<and> cells ! i = Some a" by (intro exI [of _ i]) simp
qed

lemma enc_ok_drop_untracked:
  assumes enc: "enc_ok base n cells st" and a: "st a = Some s" "mem_state s = MEM_NOT_TRACKED"
  shows "enc_ok base n cells (st(a := None))"
proof (rule enc_okI)
  fix i b assume "i < n" "cells ! i = Some b"
  then obtain s' where "base \<le> b" "st b = Some s'" "mem_state s' = int i + 1" using enc_okD(1) [OF enc] by blast
  moreover from this have "b \<noteq> a" using a by (auto simp: MEM_NOT_TRACKED_def)
  ultimately show "base \<le> b \<and> (\<exists>s'. (st(a := None)) b = Some s' \<and> mem_state s' = int i + 1)" by simp
next
  fix b s' assume "base \<le> b" "(st(a := None)) b = Some s'" "mem_state s' \<noteq> MEM_NOT_TRACKED"
  then show "\<exists>i < n. mem_state s' = int i + 1 \<and> cells ! i = Some b" using enc_okD(2) [OF enc] by (auto split: if_splits)
qed

text \<open>The release of a tracked object clears its cell, that of an untracked object no cell.\<close>

lemma sft_release_tracked:
  assumes "strs m a = Some s" "mem_state s = int i + 1" "i < length (memEncObjs (hc (thread m)))" "mt m \<noteq> None"
  shows "sft_release False a m = Some ((set_hc m ((hc (thread m))\<lparr>memEncObjs := (memEncObjs (hc (thread m)))[i := None]\<rparr>))\<lparr>strs := (strs m)(a := None)\<rparr>, RC_OK)"
  using assms by (auto simp: sft_release_def memUnlinkEncObj_def memInit_def thread_def MEM_RELEASED_def MEM_NOT_TRACKED_def)

lemma sft_release_untracked:
  assumes "strs m a = Some s" "mem_state s = MEM_NOT_TRACKED"
  shows "sft_release False a m = Some (m\<lparr>strs := (strs m)(a := None)\<rparr>, RC_OK)"
  using assms by (auto simp: sft_release_def memUnlinkEncObj_def memInit_def MEM_RELEASED_def MEM_NOT_TRACKED_def split: option.split)

lemma no_thread: "mt m = None \<Longrightarrow> memEncUsed (hc (thread m)) = 0 \<and> memUsed (hc (thread m)) = 0"
  by (simp add: thread_def memInit_def init_mt_def empty_heap_def Let_def)

lemma release_scope:
  assumes sc: "scope base m" and a: "strs m a = Some s" and own: "base \<le> a \<or> mem_state s = MEM_NOT_TRACKED"
  shows "\<exists>m'. sft_release False a m = Some (m', RC_OK) \<and> scope base m' \<and> frame base m m' \<and> strs m' = (strs m)(a := None)"
proof -
  let ?h = "hc (thread m)"
  have ok: "heap_ok ?h" and enc: "enc_ok base (memEncUsed ?h) (memEncObjs ?h) (strs m)" using sc by (simp_all add: scope_def)
  show ?thesis
  proof (cases "mem_state s = MEM_NOT_TRACKED")
    case True
    let ?m' = "m\<lparr>strs := (strs m)(a := None)\<rparr>"
    have "frame base m ?m'" using a True by (simp add: frame_def)
    moreover have "scope base ?m'" using sc enc_ok_drop_untracked [OF enc a True] by (simp add: scope_def)
    ultimately show ?thesis using sft_release_untracked [OF a True] by simp
  next
    case False
    then have b: "base \<le> a" using own by blast
    obtain i where i: "i < memEncUsed ?h" "mem_state s = int i + 1" "memEncObjs ?h ! i = Some a" using enc_okD(2) [OF enc b a False] by blast
    then have "mt m \<noteq> None" using no_thread [of m] by auto
    let ?m' = "(set_hc m (?h\<lparr>memEncObjs := (memEncObjs ?h)[i := None]\<rparr>))\<lparr>strs := (strs m)(a := None)\<rparr>"
    have r: "sft_release False a m = Some (?m', RC_OK)"
      using sft_release_tracked [OF a i(2) _ \<open>mt m \<noteq> None\<close>] i(1) ok by (simp add: heap_ok_def)
    have "enc_ok base (memEncUsed ?h) ((memEncObjs ?h)[i := None]) ((strs m)(a := None))"
      using ok by (intro enc_ok_unlink [OF enc _ a i(2,1,3)]) (simp add: heap_ok_def)
    then have "scope base ?m'" using sc by (simp add: scope_def heap_ok_def)
    moreover have "frame base m ?m'" using b by (simp add: frame_def)
    ultimately show ?thesis using r by simp
  qed
qed

lemma areas_ok_add:
  assumes ok: "areas_ok base n cells ps" and p: "p \<notin> ps" "base \<le> p" and n: "n \<le> length cells" "n < length cells'"
    and cells: "\<And>i. i < n \<Longrightarrow> cells' ! i = cells ! i" "cells' ! n = Some p"
  shows "areas_ok base (n + 1) cells' (insert p ps)"
proof -
  have same: "take n cells' = take n cells" using n cells(1) by (intro nth_equalityI) simp_all
  have t: "take (n + 1) cells' = take n cells @ [Some p]" using n(2) cells(2) same by (simp add: take_Suc_conv_app_nth)
  have o: "distinct (take n cells)" "\<forall>i < n. cells ! i \<noteq> None" "\<And>q. Some q \<in> set (take n cells) \<longleftrightarrow> base \<le> q \<and> q \<in> ps"
    using ok by (simp_all add: areas_ok_def)
  have "Some p \<notin> set (take n cells)" using o(3) p by blast
  then show ?thesis unfolding areas_ok_def t using o p cells by (auto simp: less_Suc_eq)
qed

lemma areas_ok_remove:
  assumes ok: "areas_ok base (Suc n) cells ps" and n: "n < length cells"
  obtains p where "cells ! n = Some p" "p \<in> ps" "base \<le> p" "areas_ok base n (cells[n := None]) (ps - {p})"
proof -
  have o: "distinct (take (Suc n) cells)" "\<forall>i < Suc n. cells ! i \<noteq> None" "\<And>q. Some q \<in> set (take (Suc n) cells) \<longleftrightarrow> base \<le> q \<and> q \<in> ps"
    using ok by (simp_all add: areas_ok_def)
  from o(2) obtain p where p: "cells ! n = Some p" by auto
  have t: "take (Suc n) cells = take n cells @ [Some p]" using n p by (simp add: take_Suc_conv_app_nth)
  have q: "q \<noteq> p \<Longrightarrow> Some q \<in> set (take n cells) \<longleftrightarrow> base \<le> q \<and> q \<in> ps" for q using o(3) [of q] unfolding t by auto
  have np: "Some p \<notin> set (take n cells)" "distinct (take n cells)" using o(1) unfolding t by simp_all
  have "areas_ok base n (cells[n := None]) (ps - {p})"
    unfolding areas_ok_def
  proof (intro conjI allI impI)
    show "distinct (take n (cells[n := None]))" using np by simp
    show "i < n \<Longrightarrow> cells[n := None] ! i \<noteq> None" for i using o(2) by simp
    show "Some q \<in> set (take n (cells[n := None])) \<longleftrightarrow> base \<le> q \<and> q \<in> ps - {p}" for q using q [of q] np(1) by (cases "q = p") simp_all
  qed
  moreover have "base \<le> p \<and> p \<in> ps" using o(3) [of p] unfolding t by simp
  ultimately show thesis using that p by blast
qed

lemma memAlloc_scope:
  assumes sc: "scope base m" and add: "add \<noteq> MEM_TRACKED"
  shows "\<exists>m'. memAlloc False add m = Some (m', fresh m) \<and> scope base m' \<and> frame base m m' \<and> areas m' = insert (fresh m) (areas m) \<and> strs m' = strs m"
proof -
  let ?p = "fresh m" and ?h = "hc (thread m)"
  let ?m = "m\<lparr>fresh := ?p + 1, areas := insert ?p (areas m)\<rparr>"
  have sc': "base \<le> ?p" "\<forall>a. strs m a \<noteq> None \<longrightarrow> a < ?p" "\<forall>p \<in> areas m. p < ?p" "heap_ok ?h"
    "enc_ok base (memEncUsed ?h) (memEncObjs ?h) (strs m)" "areas_ok base (memUsed ?h) (memObjs ?h) (areas m)" using sc by (simp_all add: scope_def)
  obtain m' where m': "memAdd False ?p ?m = Some (m', Some (int (memUsed ?h) + 1))" "heap_ok (hc (thread m'))"
    "strs m' = strs m" "areas m' = insert ?p (areas m)" "fresh m' = ?p + 1" "memUsed (hc (thread m')) = memUsed ?h + 1"
    "\<And>i. i < memUsed ?h \<Longrightarrow> memObjs (hc (thread m')) ! i = memObjs ?h ! i" "memObjs (hc (thread m')) ! memUsed ?h = Some ?p"
    "memEncUsed (hc (thread m')) = memEncUsed ?h" "memEncObjs (hc (thread m')) = memEncObjs ?h"
    using memAdd_cells [of ?m ?p] sc'(4) by auto
  have "areas_ok base (memUsed ?h + 1) (memObjs (hc (thread m'))) (insert ?p (areas m))"
    using sc'(1,3,4) m'(2,6,7,8) by (intro areas_ok_add [OF sc'(6)]) (auto simp: heap_ok_def)
  then have "scope base m'" using sc' m' by (auto simp: scope_def)
  moreover have "frame base m m'" using m' sc'(1) by (auto simp: frame_def)
  ultimately show ?thesis using m' add by (simp add: memAlloc_def Let_def)
qed

text \<open>The two loops free what the arrays hold.\<close>

lemma flush_objs_scope:
  assumes "areas_ok base n (memObjs (hc (thread m))) (areas m)" "n \<le> length (memObjs (hc (thread m)))" "n \<le> memUsed (hc (thread m))"
  shows "\<exists>m'. flush_objs n m = Some m' \<and> areas m' = {p \<in> areas m. p < base} \<and> strs m' = strs m \<and> fresh m' = fresh m \<and>
    (mt m \<noteq> None \<longrightarrow> mt m' \<noteq> None) \<and> (heap_ok (hc (thread m)) \<longrightarrow> heap_ok (hc (thread m'))) \<and>
    memEncUsed (hc (thread m')) = memEncUsed (hc (thread m)) \<and> memEncObjs (hc (thread m')) = memEncObjs (hc (thread m))"
  using assms
proof (induction n arbitrary: m)
  case 0
  then have "areas m = {p \<in> areas m. p < base}" by (auto simp: areas_ok_def not_le)
  then show ?case by simp
next
  case (Suc n)
  let ?h = "hc (thread m)"
  have n: "n < length (memObjs ?h)" using Suc.prems(2) by simp
  obtain p where p: "memObjs ?h ! n = Some p" "p \<in> areas m" "base \<le> p" "areas_ok base n ((memObjs ?h)[n := None]) (areas m - {p})"
    using areas_ok_remove [OF Suc.prems(1) n] by blast
  let ?m = "(set_hc m (?h\<lparr>memUsed := n, memObjs := (memObjs ?h)[n := None]\<rparr>))\<lparr>areas := areas m - {p}\<rparr>"
  have r: "flush_objs (Suc n) m = flush_objs n ?m" using n p by (simp add: Let_def)
  have ok: "heap_ok ?h \<Longrightarrow> heap_ok (hc (thread ?m))" using Suc.prems(3) by (simp add: heap_ok_def)
  have mt: "mt m \<noteq> None \<Longrightarrow> mt ?m \<noteq> None" by (auto simp: set_hc_def memInit_def)
  have h: "areas_ok base n (memObjs (hc (thread ?m))) (areas ?m)" "n \<le> length (memObjs (hc (thread ?m)))" "n \<le> memUsed (hc (thread ?m))"
    using p(4) n by simp_all
  obtain m' where m': "flush_objs n ?m = Some m'" "areas m' = {q \<in> areas ?m. q < base}" "strs m' = strs ?m" "fresh m' = fresh ?m"
    "mt ?m \<noteq> None \<longrightarrow> mt m' \<noteq> None" "heap_ok (hc (thread ?m)) \<longrightarrow> heap_ok (hc (thread m'))"
    "memEncUsed (hc (thread m')) = memEncUsed (hc (thread ?m))" "memEncObjs (hc (thread m')) = memEncObjs (hc (thread ?m))"
    using Suc.IH [of ?m, OF h] by blast
  have "areas m' = {q \<in> areas m. q < base}" unfolding m'(2) using p(3) by auto
  moreover have "strs m' = strs m" "fresh m' = fresh m" "memEncUsed (hc (thread m')) = memEncUsed ?h" "memEncObjs (hc (thread m')) = memEncObjs ?h"
    using m'(3,4,7,8) by simp_all
  ultimately show ?case using r m'(1,5,6) ok mt by simp
qed

definition without_tracked :: "nat \<Rightarrow> (nat \<Rightarrow> native_string option) \<Rightarrow> nat \<Rightarrow> native_string option" where
  "without_tracked base st a = (if base \<le> a \<and> (\<exists>s. st a = Some s \<and> mem_state s \<noteq> MEM_NOT_TRACKED) then None else st a)"

lemma without_tracked_remove:
  "base \<le> a \<Longrightarrow> st a = Some s \<Longrightarrow> mem_state s \<noteq> MEM_NOT_TRACKED \<Longrightarrow> without_tracked base (st(a := None)) = without_tracked base st"
  by (auto simp: without_tracked_def fun_eq_iff)

lemma flush_enc_scope:
  assumes "enc_ok base n (memEncObjs (hc (thread m))) (strs m)" "n \<le> length (memEncObjs (hc (thread m)))" "mt m \<noteq> None"
  shows "\<exists>m'. flush_enc False n m = Some m' \<and> areas m' = areas m \<and> fresh m' = fresh m \<and> strs m' = without_tracked base (strs m)"
  using assms
proof (induction n arbitrary: m)
  case 0
  then have "without_tracked base (strs m) = strs m" by (auto simp: enc_ok_def without_tracked_def fun_eq_iff)
  then show ?case by simp
next
  case (Suc n)
  let ?h = "hc (thread m)"
  let ?m = "set_hc m (?h\<lparr>memEncUsed := n\<rparr>)"
  have n: "n < length (memEncObjs ?h)" using Suc.prems(2) by simp
  have mt: "mt ?m \<noteq> None" using Suc.prems(3) by (auto simp: set_hc_def memInit_def)
  show ?case
  proof (cases "memEncObjs ?h ! n")
    case None
    have "enc_ok base n (memEncObjs ?h) (strs m)" by (rule enc_ok_less [OF Suc.prems(1) None])
    then show ?thesis using Suc.IH [of ?m] n mt None by (simp add: Let_def)
  next
    case (Some a)
    obtain s where a: "base \<le> a" "strs m a = Some s" "mem_state s = int n + 1" using enc_okD(1) [OF Suc.prems(1) _ Some] by auto
    let ?m1 = "(set_hc m (?h\<lparr>memEncUsed := n, memEncObjs := (memEncObjs ?h)[n := None]\<rparr>))\<lparr>strs := (strs m)(a := None)\<rparr>"
    have "sft_release False a ?m = Some (?m1, RC_OK)" using sft_release_tracked [of ?m a s n] a n mt by simp
    moreover have "set_hc ?m1 (hc (thread ?m1)) = ?m1" using Suc.prems(3) by (auto simp: set_hc_def memInit_def thread_def)
    ultimately have r: "flush_enc False (Suc n) m = flush_enc False n ?m1" using n Some by (simp add: Let_def)
    have e: "enc_ok base (Suc n) ((memEncObjs ?h)[n := None]) ((strs m)(a := None))"
      using n by (intro enc_ok_unlink [OF Suc.prems(1) _ a(2,3) _ Some]) simp_all
    have "enc_ok base n ((memEncObjs ?h)[n := None]) ((strs m)(a := None))" using n by (intro enc_ok_less [OF e]) simp
    then have "enc_ok base n (memEncObjs (hc (thread ?m1))) (strs ?m1)" by simp
    moreover have "mt ?m1 \<noteq> None" using Suc.prems(3) by (auto simp: set_hc_def memInit_def)
    moreover have "n \<le> length (memEncObjs (hc (thread ?m1)))" using n by simp
    ultimately have "\<exists>m'. flush_enc False n ?m1 = Some m' \<and> areas m' = areas ?m1 \<and> fresh m' = fresh ?m1 \<and> strs m' = without_tracked base (strs ?m1)"
      using Suc.IH [of ?m1] by blast
    moreover have "without_tracked base (strs ?m1) = without_tracked base (strs m)"
      using without_tracked_remove [of base a "strs m" s] a by (simp add: MEM_NOT_TRACKED_def)
    ultimately show ?thesis using r by simp
  qed
qed

lemma flush_mt_scope:
  assumes sc: "scope base m" and mt: "mt m \<noteq> None"
  shows "\<exists>m'. flush_mt False m = Some m' \<and> areas m' = {p \<in> areas m. p < base} \<and> fresh m' = fresh m \<and> strs m' = without_tracked base (strs m)"
proof -
  let ?h = "hc (thread m)"
  have sc': "heap_ok ?h" "enc_ok base (memEncUsed ?h) (memEncObjs ?h) (strs m)" "areas_ok base (memUsed ?h) (memObjs ?h) (areas m)"
    using sc by (simp_all add: scope_def)
  then have len: "memUsed ?h \<le> length (memObjs ?h)" "memEncUsed ?h \<le> length (memEncObjs ?h)" by (simp_all add: heap_ok_def)
  obtain m1 where m1: "flush_objs (memUsed ?h) m = Some m1" "areas m1 = {p \<in> areas m. p < base}" "strs m1 = strs m" "fresh m1 = fresh m"
    "mt m1 \<noteq> None" "memEncUsed (hc (thread m1)) = memEncUsed ?h" "memEncObjs (hc (thread m1)) = memEncObjs ?h"
    using flush_objs_scope [OF sc'(3) len(1) order_refl] mt by blast
  have "enc_ok base (memEncUsed ?h) (memEncObjs (hc (thread m1))) (strs m1)" "memEncUsed ?h \<le> length (memEncObjs (hc (thread m1)))"
    using sc'(2) len(2) m1(3,7) by simp_all
  from flush_enc_scope [OF this m1(5)] show ?thesis using m1 by (simp add: flush_mt_def)
qed

lemma markHeap_scope:
  assumes "scope base m"
  shows "\<exists>m1. markHeap False m = (m1, Some (hc (thread m))) \<and> scope (fresh m) m1 \<and> mt m1 \<noteq> None \<and>
    strs m1 = strs m \<and> areas m1 = areas m \<and> fresh m1 = fresh m"
proof -
  let ?m = "set_hc m empty_heap"
  have b: "\<forall>a. strs m a \<noteq> None \<longrightarrow> a < fresh m" "\<forall>p \<in> areas m. p < fresh m" using assms by (simp_all add: scope_def)
  have "enc_ok (fresh m) 0 (memEncObjs empty_heap) (strs m)" using b(1) by (intro enc_okI) (auto simp: not_le)
  moreover have "areas_ok (fresh m) 0 (memObjs empty_heap) (areas m)" using b(2) by (auto simp: areas_ok_def)
  moreover have u: "memEncUsed empty_heap = 0" "memUsed empty_heap = 0" by (simp_all add: empty_heap_def)
  ultimately have "scope (fresh m) ?m" using b empty_heap_ok by (simp add: scope_def u)
  moreover have "mt ?m \<noteq> None" by (auto simp: set_hc_def memInit_def init_mt_def Let_def split: option.split)
  ultimately show ?thesis by (simp add: markHeap_def)
qed

text \<open>The end of an inner scope, in the scope around it.\<close>

lemma releaseHeap_scope:
  assumes outer: "scope base m" and inner: "scope (fresh m) m2" "frame (fresh m) m m2" "mt m2 \<noteq> None"
  shows "\<exists>m'. releaseHeap False (Some (hc (thread m))) m2 = Some m' \<and> scope base m' \<and> frame base m m' \<and>
    hc (thread m') = hc (thread m) \<and> areas m' = areas m \<and> strs m' = without_tracked (fresh m) (strs m2)"
proof -
  have m2: "fst (memInit False m2) = m2" using inner(3) by (auto simp: memInit_def)
  obtain m3 where m3: "flush_mt False m2 = Some m3" "areas m3 = {p \<in> areas m2. p < fresh m}" "fresh m3 = fresh m2"
    "strs m3 = without_tracked (fresh m) (strs m2)" using flush_mt_scope [OF inner(1,3)] by blast
  let ?m' = "set_hc m3 (hc (thread m))" and ?h = "hc (thread m)"
  have r: "releaseHeap False (Some ?h) m2 = Some ?m'" using m3(1) m2 by (simp add: releaseHeap_def)
  have o: "base \<le> fresh m" "\<forall>a. strs m a \<noteq> None \<longrightarrow> a < fresh m" "\<forall>p \<in> areas m. p < fresh m" "heap_ok ?h"
    "enc_ok base (memEncUsed ?h) (memEncObjs ?h) (strs m)" "areas_ok base (memUsed ?h) (memObjs ?h) (areas m)"
    using outer by (simp_all add: scope_def)
  have fr: "fresh m \<le> fresh m2" "\<forall>p < fresh m. p \<in> areas m2 \<longleftrightarrow> p \<in> areas m"
    "\<forall>a < fresh m. strs m2 a = strs m a \<or> (strs m2 a = None \<and> (\<exists>s. strs m a = Some s \<and> mem_state s = MEM_NOT_TRACKED))"
    using inner(2) unfolding frame_def by blast+
  have ar: "areas m3 = areas m" using m3(2) fr(2) o(3) by auto
  have low: "strs m3 a = strs m2 a" if "a < fresh m" for a using that m3(4) by (simp add: without_tracked_def)
  have high: "mem_state s = MEM_NOT_TRACKED" if "fresh m \<le> a" "strs m3 a = Some s" for a s
    using that unfolding m3(4) without_tracked_def by (auto split: if_splits)
  have enc: "enc_ok base (memEncUsed ?h) (memEncObjs ?h) (strs m3)"
  proof (rule enc_okI)
    fix i a assume "i < memEncUsed ?h" "memEncObjs ?h ! i = Some a"
    then obtain s where s: "base \<le> a" "strs m a = Some s" "mem_state s = int i + 1" using enc_okD(1) [OF o(5)] by blast
    then have "a < fresh m" using o(2) by auto
    then have "strs m3 a = Some s" using low fr(3) s by (auto simp: MEM_NOT_TRACKED_def)
    then show "base \<le> a \<and> (\<exists>s. strs m3 a = Some s \<and> mem_state s = int i + 1)" using s by blast
  next
    fix a s assume a: "base \<le> a" "strs m3 a = Some s" "mem_state s \<noteq> MEM_NOT_TRACKED"
    then have "a < fresh m" using high [of a s] by (meson not_le)
    then have "strs m a = Some s" using low fr(3) a(2) by auto
    then show "\<exists>i < memEncUsed ?h. mem_state s = int i + 1 \<and> memEncObjs ?h ! i = Some a" using enc_okD(2) [OF o(5) a(1) _ a(3)] by blast
  qed
  have "\<forall>a. strs m3 a \<noteq> None \<longrightarrow> a < fresh m2"
    using inner(1) unfolding scope_def m3(4) without_tracked_def by auto
  then have "scope base ?m'" using o ar enc m3(3) fr(1) by (auto simp: scope_def)
  moreover have "frame base m ?m'" using o(1) ar low fr m3(3) by (simp add: frame_def)
  ultimately show ?thesis using r ar m3(4) by simp
qed

section \<open>Programs with scopes\<close>

datatype step = New int "string option" | Release nat | Alloc int | Scope "step list"

fun run :: "step list \<Rightarrow> memory \<Rightarrow> memory option" where
  "run [] m = Some m"
| "run (New mode t # ss) m = (case new_string False mode t 0 m of None \<Rightarrow> None | Some (m', _) \<Rightarrow> run ss m')"
| "run (Release a # ss) m = (case sft_release False a m of None \<Rightarrow> None | Some (m', _) \<Rightarrow> run ss m')"
| "run (Alloc add # ss) m = (case memAlloc False add m of None \<Rightarrow> None | Some (m', _) \<Rightarrow> run ss m')"
| "run (Scope inner # ss) m =
     (case markHeap False m of (m1, saved) \<Rightarrow>
        (case run inner m1 of None \<Rightarrow> None
         | Some m2 \<Rightarrow> (case releaseHeap False saved m2 of None \<Rightarrow> None | Some m' \<Rightarrow> run ss m')))"

text \<open>
  The discipline of a scope that began at \<open>base\<close>: a string that is released is there, and made since the scope began or not tracked. Areas are asked
  for with another mode than \<open>MEM_TRACKED\<close>.
\<close>

fun legal :: "nat \<Rightarrow> step list \<Rightarrow> memory \<Rightarrow> bool" where
  "legal base [] m \<longleftrightarrow> True"
| "legal base (New mode t # ss) m \<longleftrightarrow> (case new_string False mode t 0 m of None \<Rightarrow> True | Some (m', _) \<Rightarrow> legal base ss m')"
| "legal base (Release a # ss) m \<longleftrightarrow>
     (case strs m a of None \<Rightarrow> False | Some s \<Rightarrow> base \<le> a \<or> mem_state s = MEM_NOT_TRACKED) \<and>
     (case sft_release False a m of None \<Rightarrow> True | Some (m', _) \<Rightarrow> legal base ss m')"
| "legal base (Alloc add # ss) m \<longleftrightarrow>
     add \<noteq> MEM_TRACKED \<and> (case memAlloc False add m of None \<Rightarrow> True | Some (m', _) \<Rightarrow> legal base ss m')"
| "legal base (Scope inner # ss) m \<longleftrightarrow>
     (case markHeap False m of (m1, saved) \<Rightarrow>
        legal (fresh m) inner m1 \<and>
        (case run inner m1 of None \<Rightarrow> True
         | Some m2 \<Rightarrow> (case releaseHeap False saved m2 of None \<Rightarrow> True | Some m' \<Rightarrow> legal base ss m')))"

lemma mt_set_hc: "mt (set_hc m h) \<noteq> None"
  by (auto simp: set_hc_def memInit_def init_mt_def Let_def split: option.split)

lemma mt_new_string: "new_string False mode t r m = Some (m', a) \<Longrightarrow> mt m \<noteq> None \<Longrightarrow> mt m' \<noteq> None"
  using mt_set_hc by (auto simp: new_string_def memAddEncObj_def link_enc_def Let_def split: if_splits)

lemma mt_release: "sft_release False a m = Some (m', rc) \<Longrightarrow> mt m \<noteq> None \<Longrightarrow> mt m' \<noteq> None"
  using mt_set_hc by (auto simp: sft_release_def memUnlinkEncObj_def memInit_def split: if_splits option.splits)

lemma mt_memAlloc: "memAlloc False add m = Some (m', a) \<Longrightarrow> mt m \<noteq> None \<Longrightarrow> mt m' \<noteq> None"
  using mt_set_hc by (auto simp: memAlloc_def memAdd_def Let_def split: if_splits)

lemma mt_releaseHeap: "releaseHeap False h m = Some m' \<Longrightarrow> mt m' \<noteq> None"
  using mt_set_hc by (auto simp: releaseHeap_def split: option.splits)

lemma run_scope:
  "scope base m \<Longrightarrow> legal base ss m \<Longrightarrow>
     \<exists>m'. run ss m = Some m' \<and> scope base m' \<and> frame base m m' \<and> (mt m \<noteq> None \<longrightarrow> mt m' \<noteq> None)"
proof (induction ss m arbitrary: base rule: run.induct)
  case (2 mode t ss m)
  obtain m1 where m1: "new_string False mode t 0 m = Some (m1, fresh m)" "scope base m1" "frame base m m1"
    using new_string_scope [OF 2(2)] by blast
  then obtain m' where "run ss m1 = Some m' \<and> scope base m' \<and> frame base m1 m' \<and> (mt m1 \<noteq> None \<longrightarrow> mt m' \<noteq> None)"
    using 2(1) [OF m1(1) refl m1(2)] 2(3) by auto
  then show ?case using m1 frame_trans mt_new_string [OF m1(1)] by auto
next
  case (3 a ss m)
  obtain s where s: "strs m a = Some s" "base \<le> a \<or> mem_state s = MEM_NOT_TRACKED" using 3(3) by (auto split: option.splits)
  obtain m1 where m1: "sft_release False a m = Some (m1, RC_OK)" "scope base m1" "frame base m m1"
    using release_scope [OF 3(2) s] by blast
  then obtain m' where "run ss m1 = Some m' \<and> scope base m' \<and> frame base m1 m' \<and> (mt m1 \<noteq> None \<longrightarrow> mt m' \<noteq> None)"
    using 3(1) [OF m1(1) refl m1(2)] 3(3) by auto
  then show ?case using m1 frame_trans mt_release [OF m1(1)] by auto
next
  case (4 add ss m)
  have "add \<noteq> MEM_TRACKED" using 4(3) by simp
  then obtain m1 where m1: "memAlloc False add m = Some (m1, fresh m)" "scope base m1" "frame base m m1"
    using memAlloc_scope [OF 4(2)] by blast
  then obtain m' where "run ss m1 = Some m' \<and> scope base m' \<and> frame base m1 m' \<and> (mt m1 \<noteq> None \<longrightarrow> mt m' \<noteq> None)"
    using 4(1) [OF m1(1) refl m1(2)] 4(3) by auto
  then show ?case using m1 frame_trans mt_memAlloc [OF m1(1)] by auto
next
  case (5 inner ss m)
  obtain m1 where m1: "markHeap False m = (m1, Some (hc (thread m)))" "scope (fresh m) m1" "mt m1 \<noteq> None"
    "strs m1 = strs m" "areas m1 = areas m" "fresh m1 = fresh m" using markHeap_scope [OF 5(3)] by blast
  obtain m2 where m2: "run inner m1 = Some m2" "scope (fresh m) m2" "frame (fresh m) m1 m2" "mt m2 \<noteq> None"
    using 5(1) [OF m1(1) [symmetric] m1(2)] 5(4) m1 by auto
  have "frame (fresh m) m m2" using m2(3) m1(4-6) by (simp add: frame_def)
  then obtain m3 where m3: "releaseHeap False (Some (hc (thread m))) m2 = Some m3" "scope base m3" "frame base m m3"
    using releaseHeap_scope [OF 5(3) m2(2) _ m2(4)] by blast
  then obtain m' where "run ss m3 = Some m' \<and> scope base m' \<and> frame base m3 m' \<and> (mt m3 \<noteq> None \<longrightarrow> mt m' \<noteq> None)"
    using 5(2) [OF m1(1) [symmetric] m2(1) m3(1) m3(2)] 5(4) m1(1) m2(1) by auto
  then show ?case using m1 m2 m3 frame_trans mt_releaseHeap [OF m3(1)] by auto
qed simp

section \<open>Properties\<close>

definition start_memory :: memory where
  "start_memory = \<lparr>mt = None, strs = (\<lambda>_. None), areas = {}, fresh = 0\<rparr>"

lemma start_thread: "thread start_memory = \<lparr>mt_broker = None, mt_ctx = None, hc = empty_heap\<rparr>"
  by (simp add: thread_def memInit_def init_mt_def start_memory_def Let_def)

lemma start_scope: "scope 0 start_memory"
  using empty_heap_ok by (simp add: scope_def start_thread enc_ok_def areas_ok_def) (simp add: start_memory_def empty_heap_def)

lemma inner_release:
  "\<exists>m'. run [New MEM_TRACKED (Some ''a''), Scope [New MEM_TRACKED (Some ''b''), Release 0]] start_memory = Some m' \<and>
    map_option mem_state (strs m' 1) = Some 1 \<and> memEncObjs (hc (thread m')) ! 0 = Some 0 \<and> strs m' 0 = None \<and> tool_mm_flush False m' = None"
  by (simp add: start_memory_def thread_def memInit_def init_mt_def set_hc_def new_string_def memAddEncObj_def link_enc_def sft_release_def memUnlinkEncObj_def
      markHeap_def releaseHeap_def flush_mt_def tool_mm_flush_def empty_heap_def MT_SIZE_STEP_def MEM_TRACKED_def MEM_NOT_TRACKED_def MEM_RELEASED_def Let_def)

lemma sample_legal:
  "legal (fresh start_memory) [New MEM_TRACKED (Some ''a''), Scope [New MEM_TRACKED (Some ''b''), Alloc 0], New MEM_NOT_TRACKED (Some ''c''), Release 0]
    (fst (markHeap False start_memory))"
  by (simp add: start_memory_def thread_def memInit_def init_mt_def set_hc_def new_string_def memAddEncObj_def link_enc_def sft_release_def memUnlinkEncObj_def
      markHeap_def releaseHeap_def flush_mt_def memAlloc_def memAdd_def empty_heap_def MT_SIZE_STEP_def MEM_TRACKED_def MEM_NOT_TRACKED_def MEM_RELEASED_def Let_def)





end
