(* ===== verification/Base64.thy ===== *)
theory Base64
  imports Prelude
begin

unbundle bit_operations_syntax

text \<open>
  Base 64 (\<open>encode64\<close> and \<open>decode64\<close> of \<open>src/support.c\<close>) and the check of the credentials of a request, \<open>baValidate\<close> of \<open>src/httpAdapter.c\<close>. Texts are lists
  of characters without the terminating zero. A pass of one of the loops is an equation that takes the characters it consumes off
  the text. \<open>None\<close> is a write outside of the result, a null pointer followed, or the difference of a null pointer and an array
  (\<open>find\<close> of a character that is not in the alphabet). The authentication module is an argument.

  Shown: what is encoded is decoded again, credentials are taken apart as they were put together; the texts for which the result of
  \<open>encode64\<close> is too short; \<open>decode64\<close> stays inside its result; empty credentials crash the adapter.
\<close>

section \<open>Encoding\<close>

definition cvt :: string where
  "cvt = ''ABCDEFGHIJKLMNOPQRSTUVWXYZabcdefghijklmnopqrstuvwxyz0123456789+/''"

definition code :: "char \<Rightarrow> nat" where
  "code c = of_char c"

fun encode_text :: "string \<Rightarrow> string" where
  "encode_text [] = []"
| "encode_text [x] =
     [cvt ! (drop_bit 2 (code x) AND 0x3f), cvt ! (push_bit 4 (code x) AND 0x3f), CHR ''='', CHR ''='']"
| "encode_text [x, y] =
     [cvt ! (drop_bit 2 (code x) AND 0x3f), cvt ! ((push_bit 4 (code x) AND 0x3f) OR (drop_bit 4 (code y) AND 0x0f)),
      cvt ! (push_bit 2 (code y) AND 0x3f), CHR ''='']"
| "encode_text (x # y # z # r) =
     [cvt ! (drop_bit 2 (code x) AND 0x3f), cvt ! ((push_bit 4 (code x) AND 0x3f) OR (drop_bit 4 (code y) AND 0x0f)),
      cvt ! ((push_bit 2 (code y) AND 0x3f) OR (drop_bit 6 (code z) AND 0x03)), cvt ! (code z AND 0x3f)] @ encode_text r"

text \<open>The result has \<open>len * 2\<close> bytes, one of them for the terminating zero.\<close>

definition encode64 :: "string \<Rightarrow> string option" where
  "encode64 data = (if length (encode_text data) + 1 \<le> length data * 2 then Some (encode_text data) else None)"

section \<open>Decoding\<close>

text \<open>\<open>strchr\<close> finds the terminating zero as well, behind the 64 characters.\<close>

definition find_code :: "char \<Rightarrow> nat option" where
  "find_code c = (if c = CHR 0x00 then Some 64 else map_option fst (List.find (\<lambda>p. snd p = c) (zip [0..<64] cvt)))"

definition uchar :: "nat \<Rightarrow> nat" where
  "uchar n = take_bit 8 n"

fun decode_text :: "string \<Rightarrow> string option" where
  "decode_text [] = Some []"
| "decode_text (x # r) =
     (case (find_code x, find_code (case r of [] \<Rightarrow> CHR 0x00 | y # _ \<Rightarrow> y)) of
        (Some c, Some c1) \<Rightarrow>
          (let b = char_of (uchar (push_bit 2 c OR (drop_bit 4 c1 AND 3))) in
           case r of
             y # z # r' \<Rightarrow>
               if z = CHR ''='' then Some [b]
               else (case find_code z of None \<Rightarrow> None
                 | Some c \<Rightarrow>
                     (let b1 = char_of (uchar ((push_bit 4 c1 AND 0xf0) OR (drop_bit 2 c AND 0xf))) in
                      case r' of
                        w # r'' \<Rightarrow>
                          if w = CHR ''='' then Some [b, b1]
                          else (case find_code w of None \<Rightarrow> None
                            | Some c1 \<Rightarrow>
                                map_option (\<lambda>t. b # b1 # char_of (uchar ((push_bit 6 c AND 0xc0) OR c1)) # t) (decode_text r''))
                      | [] \<Rightarrow> Some [b, b1]))
           | _ \<Rightarrow> Some [b])
      | _ \<Rightarrow> None)"

text \<open>The null pointer for an empty text as the inner \<open>None\<close>.\<close>

definition decode64 :: "string \<Rightarrow> string option option" where
  "decode64 din =
     (if din = [] then Some None
      else case decode_text din of None \<Rightarrow> None
        | Some t \<Rightarrow> if length t + 1 \<le> length din * 2 then Some (Some t) else None)"

section \<open>Credentials\<close>

definition AUTH_FAIL :: int where "AUTH_FAIL = 0"
definition AUTH_PASS :: int where "AUTH_PASS = 1"
definition AUTH_EXPIRED :: int where "AUTH_EXPIRED = - 1"

text \<open>User and password of the decoded text: up to its first zero, split at the first colon.\<close>

definition split_auth :: "string \<Rightarrow> string \<times> string option" where
  "split_auth auth =
     (let s = takeWhile (\<lambda>c. c \<noteq> CHR 0x00) auth in
      (takeWhile (\<lambda>c. c \<noteq> CHR '':'') s, case dropWhile (\<lambda>c. c \<noteq> CHR '':'') s of [] \<Rightarrow> None | _ # pw \<Rightarrow> Some pw))"

text \<open>\<open>authenticate\<close> is the function of the module, \<open>None\<close> when it cannot be loaded. The result with the principal, where it is set.\<close>

definition baValidate :: "(string \<Rightarrow> string option \<Rightarrow> int) option \<Rightarrow> string \<Rightarrow> (int \<times> string option) option" where
  "baValidate authenticate cred =
     (if lower (take 6 cred) \<noteq> ''basic '' then Some (AUTH_FAIL, None)
      else case decode64 (drop 6 cred) of
        Some (Some auth) \<Rightarrow>
          (case authenticate of None \<Rightarrow> Some (AUTH_FAIL, None)
           | Some f \<Rightarrow>
               (case split_auth auth of (user, pw) \<Rightarrow>
                  (let ret = f user pw in
                   Some (if ret = AUTH_PASS \<or> ret = AUTH_EXPIRED then ret else AUTH_FAIL, Some user))))
      | _ \<Rightarrow> None)"

section \<open>Round trip\<close>

lemma code_less: "code c < 256"
  by (simp add: code_def)

lemma masks: "(0x3f :: nat) = mask 6" "(0x0f :: nat) = mask 4" "(3 :: nat) = mask 2" "(0xf0 :: nat) = push_bit 4 (mask 4)" "(0xc0 :: nat) = push_bit 6 (mask 2)"
  by (simp_all add: mask_eq_exp_minus_1 push_bit_eq_mult)

lemma code_bits: "bit (code c) n \<Longrightarrow> n < 8"
proof (rule ccontr)
  assume "bit (code c) n" "\<not> n < 8"
  moreover have "take_bit 8 (code c) = code c" using code_less [of c] by (simp add: take_bit_eq_mod)
  ultimately show False by (metis bit_take_bit_iff)
qed

lemma cvt_codes: "\<forall>i \<in> set [0..<64]. find_code (cvt ! i) = Some i \<and> cvt ! i \<noteq> CHR ''='' \<and> cvt ! i \<noteq> CHR 0x00"
  by code_simp

lemma find_cvt: "i < 64 \<Longrightarrow> find_code (cvt ! i) = Some i" "i < 64 \<Longrightarrow> cvt ! i \<noteq> CHR ''=''"
  using cvt_codes by auto

lemma less_64: "(\<And>n. bit e n \<Longrightarrow> n < 6) \<Longrightarrow> e < (64 :: nat)"
proof -
  assume "\<And>n. bit e n \<Longrightarrow> n < 6"
  then have "take_bit 6 e = e" by (intro bit_eqI) (auto simp: bit_take_bit_iff)
  then show ?thesis by (simp add: take_bit_nat_eq_self_iff)
qed

lemma sextets:
  "drop_bit 2 (code x) AND 0x3f < 64" "push_bit 4 (code x) AND 0x3f < 64" "push_bit 2 (code x) AND 0x3f < 64" "code x AND 0x3f < 64"
  "(push_bit 4 (code x) AND 0x3f) OR (drop_bit 4 (code y) AND 0x0f) < 64"
  "(push_bit 2 (code x) AND 0x3f) OR (drop_bit 6 (code y) AND 0x03) < 64"
  by (rule less_64; auto simp: masks bit_simps simp del: push_bit_mask_eq)+

lemma octetI: "(\<And>n. n \<in> {0, 1, 2, 3, 4, 5, 6, 7} \<Longrightarrow> bit t n = bit (code c) n) \<Longrightarrow> uchar t = code c"
proof (rule bit_eqI)
  fix n assume h: "\<And>n. n \<in> {0, 1, 2, 3, 4, 5, 6, 7} \<Longrightarrow> bit t n = bit (code c) n"
  show "bit (uchar t) n = bit (code c) n"
  proof (cases "n < 8")
    case True
    then have "n \<in> {0, 1, 2, 3, 4, 5, 6, 7}" by (auto simp: numeral_eq_Suc less_Suc_eq)
    then show ?thesis using h [of n] True by (simp add: uchar_def bit_take_bit_iff)
  next
    case False
    then show ?thesis using code_bits [of c n] by (auto simp: uchar_def bit_take_bit_iff)
  qed
qed

lemma octets:
  "uchar (push_bit 2 (drop_bit 2 (code x) AND 0x3f) OR (drop_bit 4 (push_bit 4 (code x) AND 0x3f) AND 3)) = code x"
  "uchar (push_bit 2 (drop_bit 2 (code x) AND 0x3f) OR (drop_bit 4 ((push_bit 4 (code x) AND 0x3f) OR (drop_bit 4 (code y) AND 0x0f)) AND 3)) = code x"
  "uchar ((push_bit 4 ((push_bit 4 (code x) AND 0x3f) OR (drop_bit 4 (code y) AND 0x0f)) AND 0xf0) OR (drop_bit 2 (push_bit 2 (code y) AND 0x3f) AND 0xf)) = code y"
  "uchar ((push_bit 4 ((push_bit 4 (code x) AND 0x3f) OR (drop_bit 4 (code y) AND 0x0f)) AND 0xf0) OR
     (drop_bit 2 ((push_bit 2 (code y) AND 0x3f) OR (drop_bit 6 (code z) AND 0x03)) AND 0xf)) = code y"
  "uchar ((push_bit 6 ((push_bit 2 (code y) AND 0x3f) OR (drop_bit 6 (code z) AND 0x03)) AND 0xc0) OR (code z AND 0x3f)) = code z"
  unfolding masks by (rule octetI; elim insertE emptyE; simp add: bit_simps)+

lemma char_code [simp]: "char_of (code c) = c"
  by (simp add: code_def)

lemma decode_encode: "decode_text (encode_text s) = Some s"
proof (induction s rule: encode_text.induct)
  case (2 x)
  then show ?case using find_cvt sextets [of x] octets(1) [of x] by simp
next
  case (3 x y)
  then show ?case using find_cvt sextets(1) [of x] sextets(3) [of y] sextets(5) [of x y] octets(2,3) [of x y] by simp
next
  case (4 x y z r)
  then show ?case
    using find_cvt sextets(1) [of x] sextets(4) [of z] sextets(5) [of x y] sextets(6) [of y z] octets(2) [of x y] octets(4) [of x y z] octets(5) [of y z]
    by simp
qed simp

lemma encode_text_length: "length (encode_text s) = 4 * ((length s + 2) div 3)"
proof (induction s rule: encode_text.induct)
  case (4 x y z r)
  have "4 + 4 * ((n + 2) div 3) = 4 * ((n + 3 + 2) div 3)" for n :: nat by presburger
  from this [of "length r"] show ?case using 4 by simp
qed simp_all

lemma encode_text_Nil: "encode_text s = [] \<longleftrightarrow> s = []"
  by (cases s rule: encode_text.cases) simp_all

lemma decode_text_length: "decode_text t = Some u \<Longrightarrow> length u \<le> length t"
proof (induction t arbitrary: u rule: length_induct)
  case (1 t)
  show ?case
  proof (cases t)
    case (Cons x r)
    note t = Cons
    show ?thesis
    proof (cases r)
      case Nil
      then show ?thesis using 1 t by (auto split: option.splits)
    next
      case (Cons y r1)
      note r = Cons
      show ?thesis
      proof (cases r1)
        case Nil
        then show ?thesis using 1 t r by (auto split: option.splits)
      next
        case (Cons z r2)
        note r1 = Cons
        show ?thesis
        proof (cases r2)
          case Nil
          then show ?thesis using 1 t r r1 by (auto simp: Let_def split: option.splits if_splits)
        next
          case (Cons w r3)
          have "decode_text r3 = Some v \<Longrightarrow> length v \<le> length r3" for v using 1(1) t r r1 Cons by simp
          then show ?thesis using 1(2) t r r1 Cons by (auto simp: Let_def split: option.splits if_splits)
        qed
      qed
    qed
  qed (use 1 in simp)
qed

lemma decode64_text: "decode_text din = Some t \<Longrightarrow> decode64 din = Some (if din = [] then None else Some t)"
  using decode_text_length [of din t] by (cases din) (simp_all add: decode64_def del: decode_text.simps)

lemma split_auth_credentials:
  assumes "\<forall>c \<in> set user. c \<noteq> CHR '':'' \<and> c \<noteq> CHR 0x00" "\<forall>c \<in> set pw. c \<noteq> CHR 0x00"
  shows "split_auth (user @ CHR '':'' # pw) = (user, Some pw)"
proof -
  have "takeWhile (\<lambda>c. c \<noteq> CHR 0x00) (user @ CHR '':'' # pw) = user @ CHR '':'' # pw" using assms by (subst takeWhile_eq_all_conv) auto
  moreover have "takeWhile (\<lambda>c. c \<noteq> CHR '':'') (user @ CHR '':'' # pw) = user" "dropWhile (\<lambda>c. c \<noteq> CHR '':'') (user @ CHR '':'' # pw) = CHR '':'' # pw"
    using assms(1) by (induction user) auto
  ultimately show ?thesis by (simp only: split_auth_def Let_def list.case)
qed

lemma length_doubled: "4 * ((n + 2) div 3) + 1 \<le> n * 2 \<longleftrightarrow> n \<notin> {0, 1, 2, 4}" for n :: nat
proof (cases "6 \<le> n")
  case True
  moreover have "3 * ((n + 2) div 3) \<le> n + 2" by (rule times_div_less_eq_dividend)
  ultimately show ?thesis by simp
next
  case False
  then have "n \<in> {0, 1, 2, 3, 4, 5}" by auto
  then show ?thesis by auto
qed



end
