(* ===== verification/Spec2Isabelle.thy ===== *)
theory Spec2Isabelle
  imports AvlTree HashTable GenericList StringBuffer QueryOperation FileRepository MRWLock Control ObjectBuffer ObjectImpl ClassRegister DateTime ProviderRegister Memory Base64
begin

text \<open>
  A verification library for the Small-Footprint CIM Broker (sfcb).

  \<^bold>\<open>The program.\<close> sfcb is a CIM server: HTTP adapters take CIM-XML requests, turn them into messages, and a provider
  manager sends these to provider processes; a class provider and an internal provider serve classes and instances from
  files of a repository; a query engine filters instances; all of them share containers, the configuration and the memory
  format of CIM objects. The library models the parts with the logic of the broker's own data: the containers, the queries, the
  repository, the configuration, the objects, the class register with its lock, dates, the register of providers, the memory of a thread, and the credentials
  of requests.

  \<^bold>\<open>Conventions.\<close> A C structure is a record with the names of its fields, a function a HOL function of the same name, with the
  structure it changes as argument and result. \<open>None\<close> is undefined behaviour: a null or stray pointer followed, a write outside of a
  block, a signed overflow, or a loop that does not end (loops that may run forever are \<open>partial_function (option)\<close>); a theorem
  about such a function states that it returns \<open>Some\<close>. A pointer that may be null is an option, an error code the number or
  constant of the source. Integers are exact where the code cannot leave the range its theorem names, and words where the
  width matters (indices of object buffers, the reader count, integer comparison, microseconds). Allocation succeeds
  except in the hash table, where its failure is an argument.

  \<^bold>\<open>Theories, in the order of their imports.\<close>
  \<^item> \<open>Prelude\<close>: C strings (\<open>strcmp\<close>, \<open>strcasecmp\<close>), single-precision division, decimal numbers in text, return codes, qualifier bits.
  \<^item> \<open>AvlTree\<close> (\<open>src/avltree.c\<close>): nodes with balances, the stack of a descent as a list of frames. The locale \<open>item_order\<close> states what is asked of the
    comparison; insertion, deletion and deletion of the minimum keep an AVL search tree and do what they do on the set of items;
    the stack array is never exceeded.
  \<^item> \<open>HashTable\<close> (\<open>src/sfcUtil/hashtable.c\<close>, \<open>utilHashtable.c\<close>): bucket array of chains. \<open>hash_keys\<close> is the contract of comparison and hash function,
    interpreted for strings with and without case and for pointers; \<open>keyed_map\<close> is the contract of a map, which clients use
    (\<open>names\<close>: tables of names without case). Put, remove and rehash refine map updates, iteration visits every pair once.
  \<^item> \<open>GenericList\<close> (\<open>src/genericlist.c\<close>): a doubly linked list in a memory of elements, with its cursor. \<open>cursor_list\<close> is the contract of iteration,
    interpreted by the list. Adding, removing, iterating and clearing refine operations on a HOL list.
  \<^item> \<open>StringBuffer\<close> (\<open>src/sfcUtil/utilStringBuffer.c\<close>): a block of bytes that doubles.
  \<^item> \<open>QueryOperation\<close> (\<open>src/queryOperation.c\<close>, \<open>selectexp.c\<close>, part of \<open>providerDrv.c\<close>): operands and operations of a WHERE clause, evaluation and the two
    normal forms, comparison, LIKE patterns, property paths, printing.
  \<^item> \<open>FileRepository\<close> (\<open>src/fileRepository.c\<close>): the index file as text and the data file; adding, deleting, reading and listing blobs refine an
    association list.
  \<^item> \<open>MRWLock\<close> (\<open>src/mrwlock.c\<close>): any number of threads, one step per statement; exclusion as an invariant of the reachable states, and progress.
  \<^item> \<open>Control\<close> (\<open>src/control.c\<close>, scanner of \<open>support.c\<close>): reading \<open>sfcb.cfg\<close> and the queries of settings.
  \<^item> \<open>ObjectBuffer\<close> and \<open>ObjectImpl\<close> (\<open>src/objectImpl.c\<close>): the string and array buffers of an object, and classes, instances, paths and argument lists
    over them; setting and reading properties refine a list of named values, and an object is rebuilt into one block of the computed size.
  \<^item> \<open>ClassRegister\<close> (\<open>src/classProvider.c\<close>): the class and inheritance tables over \<open>HashTable\<close> and \<open>GenericList\<close>, the handlers that create,
    delete and read classes, the recursive loops over subclasses, the reload from the file, and two races that \<open>MRWLock\<close> as it is used does not exclude.
  \<^item> \<open>DateTime\<close> (\<open>src/datetime.c\<close>): dates and intervals between text and microseconds.
  \<^item> \<open>ProviderRegister\<close> (\<open>src/providerRegister.c\<close>): the file of provider registrations, read with the scanner of \<open>Control\<close> into a table of \<open>HashTable\<close>; the
    operations refine a map from classes to lists of providers, a file of sections is read as it is meant, and for any file the special providers
    are found in one order only.
  \<^item> \<open>Memory\<close> (\<open>src/support.c\<close>, \<open>string.c\<close>): the heaps of a thread as stacks of scopes, with string objects in them; programs of nested scopes free
    what they made exactly once, if they keep to their scopes.
  \<^item> \<open>Base64\<close> (\<open>src/support.c\<close>, \<open>httpAdapter.c\<close>): base 64 and the check of basic credentials.

  \<^bold>\<open>Bounds.\<close> The AVL stack bound covers all trees whose node count fits the \<open>int\<close> field; string buffers are shown below \<open>2^30 - 2\<close> bytes; index records
  for keys below 1000 characters; object buffers and sections below 16384 entries, where the capacity wraps. Where fuel occurs
  (\<open>iterate\<close> of the hash table), the number of stored pairs is given and shown to be enough.

  \<^bold>\<open>Not modelled.\<close> Processes, sockets, TLS and shared libraries (\<open>providerMgr.c\<close>, \<open>providerDrv.c\<close>, \<open>msgqueue.c\<close>, the rest of \<open>httpAdapter.c\<close>
  and \<open>support.c\<close>): they consist of system calls. Lexers and grammars (\<open>*.l\<close>, \<open>*.y\<close>) are input of generators. The compiled-in schema is
  generated data. CMPI headers declare types; the wrappers around objects (\<open>instance.c\<close>, \<open>objectpath.c\<close> and others) call the object
  implementation that is modelled. The CIM-XML generator and parser, the SQL engine and the SLP, indication and sample authentication
  modules are further work.
\<close>

end
